(* ===== verification/Prelude.thy ===== *)
theory Prelude
  imports Main "HOL-Library.Word" "HOL-Library.List_Lexorder" "HOL-Library.Char_ord"
begin

text \<open>
  Shared vocabulary of the development: the machine integers of the Rust sources as words,
  byte strings and their big- and little-endian encodings, the error type of the engine
  (\<^verbatim>\<open>crates/topodb/src/error.rs\<close>), the error-and-state monad in which the write path is
  written, and the ordered map of the Rust standard library (\<^verbatim>\<open>BTreeMap\<close>) as a strictly
  sorted association list. The generic lemmas proved here are declared \<open>[simp]\<close> or put into
  the collections \<open>byte_simps\<close> and \<open>monad_simps\<close>, which carry the component proofs.
\<close>

named_theorems byte_simps \<open>encodings of integers as byte strings\<close>
named_theorems monad_simps \<open>unfolding rules of the result and state monads\<close>

section \<open>Machine integers and byte strings\<close>

type_synonym u8 = "8 word"
type_synonym u32 = "32 word"
type_synonym u64 = "64 word"
type_synonym u128 = "128 word"
text \<open>A Rust \<^verbatim>\<open>i64\<close> is a 64-bit word read by \<^const>\<open>sint\<close>; its order is \<^const>\<open>word_sle\<close>.\<close>
type_synonym i64 = "64 word"
type_synonym bytes = "u8 list"
text \<open>Floating-point values are kept as their IEEE bit patterns.\<close>
type_synonym f32 = "32 word"
type_synonym f64 = "64 word"

text \<open>Little-endian digits of a number in base 256, least significant first.\<close>

primrec nat_to_le :: "nat \<Rightarrow> nat \<Rightarrow> bytes" where
  "nat_to_le 0 v = []"
| "nat_to_le (Suc n) v = word_of_nat (v mod 256) # nat_to_le n (v div 256)"

primrec le_to_nat :: "bytes \<Rightarrow> nat" where
  "le_to_nat [] = 0"
| "le_to_nat (b # bs) = unat b + 256 * le_to_nat bs"

definition nat_to_be :: "nat \<Rightarrow> nat \<Rightarrow> bytes" where
  "nat_to_be n v = rev (nat_to_le n v)"

definition be_to_nat :: "bytes \<Rightarrow> nat" where
  "be_to_nat bs = le_to_nat (rev bs)"

text \<open>\<^verbatim>\<open>to_be_bytes\<close>, \<^verbatim>\<open>from_be_bytes\<close> and their little-endian twins at the widths the sources use.\<close>

definition u32_to_be :: "u32 \<Rightarrow> bytes" where "u32_to_be w = nat_to_be 4 (unat w)"
definition u64_to_be :: "u64 \<Rightarrow> bytes" where "u64_to_be w = nat_to_be 8 (unat w)"
definition u128_to_be :: "u128 \<Rightarrow> bytes" where "u128_to_be w = nat_to_be 16 (unat w)"
definition u32_to_le :: "u32 \<Rightarrow> bytes" where "u32_to_le w = nat_to_le 4 (unat w)"
definition u64_to_le :: "u64 \<Rightarrow> bytes" where "u64_to_le w = nat_to_le 8 (unat w)"

definition u32_from_be :: "bytes \<Rightarrow> u32" where "u32_from_be bs = word_of_nat (be_to_nat bs)"
definition u64_from_be :: "bytes \<Rightarrow> u64" where "u64_from_be bs = word_of_nat (be_to_nat bs)"
definition u128_from_be :: "bytes \<Rightarrow> u128" where "u128_from_be bs = word_of_nat (be_to_nat bs)"
definition u32_from_le :: "bytes \<Rightarrow> u32" where "u32_from_le bs = word_of_nat (le_to_nat bs)"
definition u64_from_le :: "bytes \<Rightarrow> u64" where "u64_from_le bs = word_of_nat (le_to_nat bs)"

text \<open>The bytes of a Rust \<^verbatim>\<open>str\<close>: a string of the model is its UTF-8 encoding, one character per byte.\<close>

definition str_bytes :: "string \<Rightarrow> bytes" where
  "str_bytes s = map (\<lambda>c. word_of_nat (of_char c)) s"

definition bytes_str :: "bytes \<Rightarrow> string" where
  "bytes_str b = map (\<lambda>c. char_of (unat c)) b"

lemma bytes_str_roundtrip [simp]: "bytes_str (str_bytes s) = s"
proof -
  have "char_of (unat (word_of_nat (of_char c) :: u8)) = c" for c
    using nat_of_char_less_256 [of c] by (simp add: unat_of_nat)
  then show ?thesis by (simp add: bytes_str_def str_bytes_def comp_def)
qed

lemma unat_bound: "unat (w :: 'a::len word) < 2 ^ LENGTH('a)"
  by (rule unsigned_less)

lemma length_nat_to_le [simp]: "length (nat_to_le n v) = n"
  by (induction n arbitrary: v) auto

lemma length_nat_to_be [simp]: "length (nat_to_be n v) = n"
  by (simp add: nat_to_be_def)

lemma length_int_bytes [simp]:
  "length (u32_to_be a) = 4" "length (u64_to_be b) = 8" "length (u128_to_be c) = 16"
  "length (u32_to_le a) = 4" "length (u64_to_le b) = 8"
  by (simp_all add: u32_to_be_def u64_to_be_def u128_to_be_def u32_to_le_def u64_to_le_def)

lemma unat_byte_of_mod [simp]: "unat (word_of_nat (v mod 256) :: u8) = v mod 256"
  by (simp add: unat_of_nat)

lemma le_to_nat_nat_to_le: "le_to_nat (nat_to_le n v) = v mod 256 ^ n"
proof (induction n arbitrary: v)
  case 0
  then show ?case by simp
next
  case (Suc n)
  have "v mod 256 ^ Suc n = v mod 256 + 256 * (v div 256 mod 256 ^ n)"
    by (simp add: mod_mult2_eq)
  with Suc show ?case by simp
qed

lemma be_to_nat_nat_to_be: "be_to_nat (nat_to_be n v) = v mod 256 ^ n"
  by (simp add: be_to_nat_def nat_to_be_def le_to_nat_nat_to_le)

lemma le_to_nat_less: "le_to_nat bs < 256 ^ length bs"
proof (induction bs)
  case Nil
  then show ?case by simp
next
  case (Cons b bs)
  have "unat b < 256" using unat_bound [of b] by simp
  with Cons show ?case by simp
qed

lemma nat_to_le_le_to_nat: "nat_to_le (length bs) (le_to_nat bs) = bs"
proof (induction bs)
  case Nil
  then show ?case by simp
next
  case (Cons b bs)
  have b: "unat b < 256" using unat_bound [of b] by simp
  have "(unat b + 256 * le_to_nat bs) mod 256 = unat b"
    and "(unat b + 256 * le_to_nat bs) div 256 = le_to_nat bs"
    using b by simp_all
  with Cons show ?case by simp
qed

lemma nat_to_be_be_to_nat: "nat_to_be (length bs) (be_to_nat bs) = bs"
  using nat_to_le_le_to_nat [of "rev bs"] by (simp add: nat_to_be_def be_to_nat_def)

lemma int_bytes_roundtrip [simp, byte_simps]:
  "u32_from_be (u32_to_be a) = a" "u64_from_be (u64_to_be b) = b"
  "u128_from_be (u128_to_be c) = c"
  "u32_from_le (u32_to_le a) = a" "u64_from_le (u64_to_le b) = b"
  using unat_bound [of a] unat_bound [of b] unat_bound [of c]
  by (simp_all add: u32_from_be_def u32_to_be_def u64_from_be_def u64_to_be_def
      u128_from_be_def u128_to_be_def u32_from_le_def u32_to_le_def u64_from_le_def
      u64_to_le_def be_to_nat_nat_to_be le_to_nat_nat_to_le)

lemma int_bytes_inject [simp, byte_simps]:
  "u32_to_be a = u32_to_be a' \<longleftrightarrow> a = a'" "u64_to_be b = u64_to_be b' \<longleftrightarrow> b = b'"
  "u128_to_be c = u128_to_be c' \<longleftrightarrow> c = c'"
  by (metis int_bytes_roundtrip(1), metis int_bytes_roundtrip(2), metis int_bytes_roundtrip(3))

lemma u64_to_le_inject [simp]: "u64_to_le a = u64_to_le b \<longleftrightarrow> a = b"
  by (metis int_bytes_roundtrip(5))

lemma be_to_nat_Cons: "be_to_nat (b # bs) = unat b * 256 ^ length bs + be_to_nat bs"
proof -
  have app: "le_to_nat (xs @ [b]) = le_to_nat xs + 256 ^ length xs * unat b" for xs
    by (induction xs) (auto simp: algebra_simps)
  show ?thesis by (simp add: be_to_nat_def app)
qed

lemma be_to_nat_less: "be_to_nat bs < 256 ^ length bs"
  using le_to_nat_less [of "rev bs"] by (simp add: be_to_nat_def)

text \<open>On byte strings of one length the byte order is the numeric order of the big-endian value.\<close>

lemma bytes_less_iff_be:
  "length xs = length ys \<Longrightarrow> xs < ys \<longleftrightarrow> be_to_nat xs < be_to_nat ys"
proof (induction xs ys rule: list_induct2)
  case Nil
  then show ?case by (simp add: be_to_nat_def)
next
  case (Cons x xs y ys)
  have bx: "be_to_nat xs < 256 ^ length ys" and by': "be_to_nat ys < 256 ^ length ys"
    using be_to_nat_less [of xs] be_to_nat_less [of ys] Cons.hyps by auto
  consider "x < y" | "x = y" | "y < x" by fastforce
  then show ?case
  proof cases
    case 1
    then have "unat x + 1 \<le> unat y" by (simp add: word_less_nat_alt)
    then have "(unat x + 1) * 256 ^ length ys \<le> unat y * 256 ^ length ys"
      by (rule mult_le_mono1)
    with 1 bx show ?thesis by (simp add: be_to_nat_Cons Cons.hyps algebra_simps)
  next
    case 2
    with Cons show ?thesis by (simp add: be_to_nat_Cons)
  next
    case 3
    then have "unat y + 1 \<le> unat x" by (simp add: word_less_nat_alt)
    then have "(unat y + 1) * 256 ^ length ys \<le> unat x * 256 ^ length ys"
      by (rule mult_le_mono1)
    with 3 by' have "\<not> be_to_nat (x # xs) < be_to_nat (y # ys)"
      by (simp add: be_to_nat_Cons Cons.hyps algebra_simps)
    moreover have "\<not> x # xs < y # ys" using 3 by auto
    ultimately show ?thesis by blast
  qed
qed

lemma bytes_le_iff_be:
  assumes "length xs = length ys"
  shows "xs \<le> ys \<longleftrightarrow> be_to_nat xs \<le> be_to_nat ys"
  using bytes_less_iff_be [of ys xs] assms by (simp add: not_less [symmetric])

lemma u64_to_be_le_iff [simp]: "u64_to_be a \<le> u64_to_be b \<longleftrightarrow> a \<le> b"
  using unat_bound [of a] unat_bound [of b]
  by (simp add: bytes_le_iff_be u64_to_be_def be_to_nat_nat_to_be word_le_nat_alt)

lemma u64_to_be_less_iff [simp]: "u64_to_be a < u64_to_be b \<longleftrightarrow> a < b"
  using u64_to_be_le_iff [of b a] by (simp add: not_le [symmetric] del: u64_to_be_le_iff)

lemma u32_to_be_le_iff [simp]: "u32_to_be a \<le> u32_to_be b \<longleftrightarrow> a \<le> b"
  using unat_bound [of a] unat_bound [of b]
  by (simp add: bytes_le_iff_be u32_to_be_def be_to_nat_nat_to_be word_le_nat_alt)

lemma u128_to_be_le_iff [simp]: "u128_to_be a \<le> u128_to_be b \<longleftrightarrow> a \<le> b"
  using unat_bound [of a] unat_bound [of b]
  by (simp add: bytes_le_iff_be u128_to_be_def be_to_nat_nat_to_be word_le_nat_alt)

text \<open>Comparing two byte strings that start with blocks of one length.\<close>

lemma bytes_le_append_iff:
  fixes xs ys us vs :: bytes
  assumes "length xs = length ys"
  shows "xs @ us \<le> ys @ vs \<longleftrightarrow> xs < ys \<or> xs = ys \<and> us \<le> vs"
  using assms by (induction xs ys rule: list_induct2) auto

lemma be_bytes_exist:
  "length bs = 8 \<Longrightarrow> \<exists>w. bs = u64_to_be w" "length cs = 4 \<Longrightarrow> \<exists>w. cs = u32_to_be w"
proof -
  show "\<exists>w. bs = u64_to_be w" if "length bs = 8"
  proof
    have "be_to_nat bs < 2 ^ 64" using be_to_nat_less [of bs] that by simp
    then show "bs = u64_to_be (word_of_nat (be_to_nat bs))"
      using nat_to_be_be_to_nat [of bs] that by (simp add: u64_to_be_def unat_of_nat)
  qed
  show "\<exists>w. cs = u32_to_be w" if "length cs = 4"
  proof
    have "be_to_nat cs < 2 ^ 32" using be_to_nat_less [of cs] that by simp
    then show "cs = u32_to_be (word_of_nat (be_to_nat cs))"
      using nat_to_be_be_to_nat [of cs] that by (simp add: u32_to_be_def unat_of_nat)
  qed
qed

lemma str_bytes_inject [simp]: "str_bytes s = str_bytes t \<longleftrightarrow> s = t"
proof
  have "(word_of_nat (of_char c) :: u8) = word_of_nat (of_char d) \<Longrightarrow> c = d" for c d
  proof -
    assume eq: "(word_of_nat (of_char c) :: u8) = word_of_nat (of_char d)"
    have "unat (word_of_nat (of_char c) :: u8) = of_char c" for c
      using nat_of_char_less_256 [of c] by (simp add: unat_of_nat)
    with eq have "(of_char c :: nat) = of_char d" by metis
    then show "c = d" by simp
  qed
  then have "inj (\<lambda>c. word_of_nat (of_char c) :: u8)" by (rule injI)
  then show "str_bytes s = str_bytes t \<Longrightarrow> s = t" by (simp add: str_bytes_def inj_map_eq_map)
qed simp

text \<open>Checked arithmetic of the Rust integer types.\<close>

definition checked_add :: "'a::len word \<Rightarrow> 'a word \<Rightarrow> 'a word option" where
  "checked_add a b = (if unat a + unat b < 2 ^ LENGTH('a) then Some (a + b) else None)"

definition checked_sub :: "'a::len word \<Rightarrow> 'a word \<Rightarrow> 'a word option" where
  "checked_sub a b = (if b \<le> a then Some (a - b) else None)"

definition saturating_sub :: "'a::len word \<Rightarrow> 'a word \<Rightarrow> 'a word" where
  "saturating_sub a b = (if b \<le> a then a - b else 0)"

lemma checked_add_unat: "checked_add a b = Some c \<Longrightarrow> unat c = unat a + unat b"
  by (auto simp: checked_add_def unat_word_ariths split: if_splits)

lemma checked_add_sub: "checked_sub a b = Some d \<Longrightarrow> checked_add b d = Some a"
  using unat_bound [of a]
  by (auto simp: checked_sub_def checked_add_def unat_sub word_le_nat_alt split: if_splits)

lemma checked_add_less: "checked_add a 1 = Some b \<Longrightarrow> a < (b :: 'a::len word)"
  using checked_add_unat [of a 1 b] by (simp add: word_less_nat_alt)

section \<open>Errors\<close>

text \<open>
  The errors of the engine. The message of a rejection keeps the constant part of the source's
  text; interpolated values are dropped. An error of the storage library is carried opaquely.
\<close>

datatype redb_error = DatabaseAlreadyOpen | RedbFailure string

datatype topo_error =
    Storage redb_error
  | Busy
  | Encoding string
  | Rejected string
  | Compacted u64
  | Closed
  | UnsupportedFormat u32 u32

type_synonym 'a result = "topo_error + 'a"

definition storage_err :: "redb_error \<Rightarrow> topo_error" where
  "storage_err e = Storage e"

definition open_err :: "redb_error \<Rightarrow> topo_error" where
  "open_err e = (case e of DatabaseAlreadyOpen \<Rightarrow> Busy | other \<Rightarrow> storage_err other)"

text \<open>\<^verbatim>\<open>map_err(storage_err)\<close> on a call of the storage library.\<close>

definition redb :: "redb_error + 'a \<Rightarrow> 'a result" where
  "redb r = (case r of Inl e \<Rightarrow> Inl (storage_err e) | Inr x \<Rightarrow> Inr x)"

definition ok_or :: "topo_error \<Rightarrow> 'a option \<Rightarrow> 'a result" where
  "ok_or e x = (case x of None \<Rightarrow> Inl e | Some y \<Rightarrow> Inr y)"

text \<open>\<^verbatim>\<open>bytes.try_into()\<close> for an array of \<open>n\<close> bytes: the length must match.\<close>

definition try_into :: "nat \<Rightarrow> topo_error \<Rightarrow> bytes \<Rightarrow> bytes result" where
  "try_into n e bs = (if length bs = n then Inr bs else Inl e)"

lemma redb_simps [simp]:
  "redb (Inr x) = Inr x" "redb (Inl e) = Inl (Storage e)"
  "redb r = Inr y \<longleftrightarrow> r = Inr y"
  by (auto simp: redb_def storage_err_def split: sum.splits)

lemma ok_or_simps [simp]: "ok_or e None = Inl e" "ok_or e (Some y) = Inr y"
  by (simp_all add: ok_or_def)

lemma ok_or_Inr [simp]: "ok_or e x = Inr y \<longleftrightarrow> x = Some y"
  by (auto simp: ok_or_def split: option.splits)

lemma try_into_Inr [simp]: "try_into n e bs = Inr cs \<longleftrightarrow> length bs = n \<and> cs = bs"
  by (auto simp: try_into_def)

lemma try_into_ok [simp]: "length bs = n \<Longrightarrow> try_into n e bs = Inr bs"
  by simp

section \<open>The result monad and the state monad of the write path\<close>

text \<open>
  \<open>rbind\<close> is the \<^verbatim>\<open>?\<close> operator on a pure \<^verbatim>\<open>Result\<close>. A function with \<^verbatim>\<open>&mut\<close> parameters that
  outlive a failure (the in-memory dictionaries) is a state function
  \<open>'s \<Rightarrow> 'a result \<times> 's\<close>: it also says what state a failing call leaves behind.
\<close>

definition rbind :: "'a result \<Rightarrow> ('a \<Rightarrow> 'b result) \<Rightarrow> 'b result" where
  "rbind r f = (case r of Inl e \<Rightarrow> Inl e | Inr x \<Rightarrow> f x)"

lemma rbind_simps [simp]: "rbind (Inl e) f = Inl e" "rbind (Inr x) f = f x"
  by (simp_all add: rbind_def)

lemma rbind_Inr: "rbind r f = Inr y \<longleftrightarrow> (\<exists>x. r = Inr x \<and> f x = Inr y)"
  by (cases r) auto

lemma rbind_Inl: "rbind r f = Inl e \<longleftrightarrow> r = Inl e \<or> (\<exists>x. r = Inr x \<and> f x = Inl e)"
  by (cases r) auto

lemma rbind_assoc: "rbind (rbind r f) g = rbind r (\<lambda>x. rbind (f x) g)"
  by (cases r) auto

lemma rbind_cong [fundef_cong]:
  "r = r' \<Longrightarrow> (\<And>x. r' = Inr x \<Longrightarrow> f x = g x) \<Longrightarrow> rbind r f = rbind r' g"
  by (cases r') auto

primrec rmap_list :: "('a \<Rightarrow> 'b result) \<Rightarrow> 'a list \<Rightarrow> 'b list result" where
  "rmap_list f [] = Inr []"
| "rmap_list f (x # xs) = rbind (f x) (\<lambda>y. rbind (rmap_list f xs) (\<lambda>ys. Inr (y # ys)))"

lemma rmap_list_map:
  assumes "rmap_list f xs = Inr ys" "\<And>x y. x \<in> set xs \<Longrightarrow> f x = Inr y \<Longrightarrow> y = g x"
  shows "ys = map g xs"
  using assms by (induction xs arbitrary: ys) (auto simp: rbind_Inr)

lemma rmap_list_Inl: "rmap_list f xs = Inl e \<Longrightarrow> \<exists>x \<in> set xs. f x = Inl e"
  by (induction xs) (auto simp: rbind_Inl)

lemma redb_Inl: "redb r = Inl e \<longleftrightarrow> (\<exists>x. r = Inl x \<and> e = Storage x)"
  by (cases r) auto

lemma try_into_Inl: "try_into n e bs = Inl e' \<longleftrightarrow> length bs \<noteq> n \<and> e' = e"
  by (auto simp: try_into_def)

text \<open>A \<^verbatim>\<open>for\<close> loop whose body may return early with an error.\<close>

primrec rfold :: "('a \<Rightarrow> 's \<Rightarrow> 's result) \<Rightarrow> 'a list \<Rightarrow> 's \<Rightarrow> 's result" where
  "rfold f [] s = Inr s"
| "rfold f (x # xs) s = rbind (f x s) (rfold f xs)"

lemma rfold_append: "rfold f (xs @ ys) s = rbind (rfold f xs s) (rfold f ys)"
proof (induction xs arbitrary: s)
  case (Cons x xs)
  then show ?case by (cases "f x s") auto
qed simp

lemma rfold_total: "(\<And>x s. \<exists>s'. f x s = Inr s') \<Longrightarrow> \<exists>s'. rfold f xs s = Inr s'"
proof (induction xs arbitrary: s)
  case (Cons x xs)
  obtain s1 where "f x s = Inr s1" using Cons.prems by blast
  with Cons show ?case by simp
qed simp

type_synonym ('s, 'a) sm = "'s \<Rightarrow> 'a result \<times> 's"

definition mret :: "'a \<Rightarrow> ('s, 'a) sm" where
  "mret x s = (Inr x, s)"

definition mfail :: "topo_error \<Rightarrow> ('s, 'a) sm" where
  "mfail e s = (Inl e, s)"

definition mlift :: "'a result \<Rightarrow> ('s, 'a) sm" where
  "mlift r s = (r, s)"

definition mget :: "('s \<Rightarrow> 'a) \<Rightarrow> ('s, 'a) sm" where
  "mget f s = (Inr (f s), s)"

definition mread :: "('s \<Rightarrow> 'a result) \<Rightarrow> ('s, 'a) sm" where
  "mread f s = (f s, s)"

definition mmod :: "('s \<Rightarrow> 's) \<Rightarrow> ('s, unit) sm" where
  "mmod f s = (Inr (), f s)"

text \<open>A fallible update: the new state when it succeeds, the old one when it fails.\<close>

definition mupd :: "('s \<Rightarrow> ('a \<times> 's) result) \<Rightarrow> ('s, 'a) sm" where
  "mupd f s = (case f s of Inl e \<Rightarrow> (Inl e, s) | Inr (x, s') \<Rightarrow> (Inr x, s'))"

definition mbind :: "('s, 'a) sm \<Rightarrow> ('a \<Rightarrow> ('s, 'b) sm) \<Rightarrow> ('s, 'b) sm" where
  "mbind m f s = (case m s of (Inl e, s') \<Rightarrow> (Inl e, s') | (Inr x, s') \<Rightarrow> f x s')"

primrec mfold :: "('a \<Rightarrow> ('s, unit) sm) \<Rightarrow> 'a list \<Rightarrow> ('s, unit) sm" where
  "mfold f [] = mret ()"
| "mfold f (x # xs) = mbind (f x) (\<lambda>_. mfold f xs)"

lemma monad_unfold [monad_simps]:
  "mret x s = (Inr x, s)" "mfail e s = (Inl e, s)" "mlift r s = (r, s)"
  "mget h s = (Inr (h s), s)" "mread k s = (k s, s)" "mmod g s = (Inr (), g s)"
  by (simp_all add: mret_def mfail_def mlift_def mget_def mread_def mmod_def)

lemma mbind_Inr: "mbind m f s = (Inr y, s'') \<longleftrightarrow>
    (\<exists>x s'. m s = (Inr x, s') \<and> f x s' = (Inr y, s''))"
  by (auto simp: mbind_def split: prod.splits sum.splits)

lemma mbind_run [simp]: "m s = (Inr x, s') \<Longrightarrow> mbind m f s = f x s'"
  by (simp add: mbind_def)

lemma mbind_fail [simp]: "m s = (Inl e, s') \<Longrightarrow> mbind m f s = (Inl e, s')"
  by (simp add: mbind_def)

lemma mupd_Inr: "mupd f s = (Inr x, s') \<longleftrightarrow> f s = Inr (x, s')"
  by (auto simp: mupd_def split: sum.splits prod.splits)

section \<open>Ordered maps (\<^verbatim>\<open>BTreeMap\<close>)\<close>

text \<open>
  A \<^verbatim>\<open>BTreeMap\<close> is the list of its entries in ascending key order, the order in which Rust
  iterates it.
\<close>

type_synonym ('k, 'v) btree_map = "('k \<times> 'v) list"

fun bt_insert :: "'k::linorder \<Rightarrow> 'v \<Rightarrow> ('k, 'v) btree_map \<Rightarrow> ('k, 'v) btree_map" where
  "bt_insert k v [] = [(k, v)]"
| "bt_insert k v (e # m) =
     (if fst e < k then e # bt_insert k v m
      else if fst e = k then (k, v) # m
      else (k, v) # e # m)"

fun bt_remove :: "'k::linorder \<Rightarrow> ('k, 'v) btree_map \<Rightarrow> ('k, 'v) btree_map" where
  "bt_remove k [] = []"
| "bt_remove k (e # m) = (if fst e = k then m else e # bt_remove k m)"

abbreviation bt_get :: "('k, 'v) btree_map \<Rightarrow> 'k \<Rightarrow> 'v option" where
  "bt_get m \<equiv> map_of m"

definition bt_wf :: "('k::linorder, 'v) btree_map \<Rightarrow> bool" where
  "bt_wf m \<longleftrightarrow> sorted_wrt (<) (map fst m)"

lemma bt_wf_Nil [simp]: "bt_wf []"
  by (simp add: bt_wf_def)

lemma bt_wf_Cons [simp]: "bt_wf (e # m) \<longleftrightarrow> (\<forall>x \<in> set m. fst e < fst x) \<and> bt_wf m"
  by (auto simp: bt_wf_def)

lemma fst_set_bt_insert [simp]: "fst ` set (bt_insert k v m) = insert k (fst ` set m)"
  by (induction m) auto

lemma bt_insert_keys: "x \<in> set (bt_insert k v m) \<Longrightarrow> x = (k, v) \<or> x \<in> set m"
  by (induction m) (auto split: if_splits)

lemma bt_wf_insert [simp]: "bt_wf m \<Longrightarrow> bt_wf (bt_insert k v m)"
  by (induction m) (fastforce dest: bt_insert_keys)+

lemma bt_get_insert [simp]: "bt_get (bt_insert k v m) = (bt_get m)(k \<mapsto> v)"
  by (induction m) (auto simp: fun_eq_iff)

lemma set_bt_remove: "set (bt_remove k m) \<subseteq> set m"
  by (induction m) auto

lemma bt_wf_remove [simp]: "bt_wf m \<Longrightarrow> bt_wf (bt_remove k m)"
  using set_bt_remove by (induction m) fastforce+

lemma bt_get_remove [simp]: "bt_wf m \<Longrightarrow> bt_get (bt_remove k m) = (bt_get m)(k := None)"
proof (induction m)
  case Nil
  then show ?case by auto
next
  case (Cons e m)
  then have "map_of m (fst e) = None" by (force simp: map_of_eq_None_iff)
  with Cons show ?case by (cases e) (auto simp: fun_eq_iff)
qed

lemma str_bytes_bytes_str [simp]: "str_bytes (bytes_str b) = b"
proof -
  have "word_of_nat (of_char (char_of (unat c) :: char)) = c" for c :: u8
    using unat_bound [of c] by (simp add: of_char_of take_bit_eq_mod)
  then show ?thesis by (simp add: bytes_str_def str_bytes_def comp_def)
qed

lemma str_bytes_le_iff [simp]: "str_bytes s \<le> str_bytes t \<longleftrightarrow> s \<le> t"
proof -
  have c: "(word_of_nat (of_char c) :: u8) < word_of_nat (of_char d) \<longleftrightarrow> c < d" for c d
    using nat_of_char_less_256 [of c] nat_of_char_less_256 [of d] by (simp add: word_less_nat_alt unat_of_nat less_char_def)
  have "(word_of_nat (of_char c) :: u8) = word_of_nat (of_char d) \<longleftrightarrow> c = d" for c d
    using str_bytes_inject [of "[c]" "[d]"] by (simp add: str_bytes_def del: str_bytes_inject)
  with c show ?thesis unfolding str_bytes_def by (induction s t rule: list_induct2') auto
qed

lemma bt_wf_distinct: "bt_wf m \<Longrightarrow> distinct (map fst m)"
  by (simp add: bt_wf_def strict_sorted_iff)

lemma bt_mem: "bt_wf m \<Longrightarrow> (k, w) \<in> set m \<longleftrightarrow> bt_get m k = Some w"
  by (drule bt_wf_distinct) simp

lemma bt_wf_ext:
  assumes "bt_wf m" "bt_wf m'" "bt_get m = bt_get m'"
  shows "m = m'"
proof -
  have "set m = set m'"
    using assms map_of_inject_set by (blast dest: bt_wf_distinct)
  moreover have "sorted_wrt (\<lambda>a b. fst a < fst b) m" "sorted_wrt (\<lambda>a b. fst a < fst b) m'"
    using assms by (simp_all add: bt_wf_def sorted_wrt_map)
  moreover have "map fst m = map fst m'"
    using assms(1,2) calculation(1) by (metis bt_wf_def list.set_map sorted_list_of_set.idem_if_sorted_distinct
        strict_sorted_iff)
  ultimately show ?thesis
    using assms by (metis (mono_tags) bt_wf_distinct distinct_map map_inj_on
        sup.idem)
qed

lemma bt_wf_fold_insert: "bt_wf m \<Longrightarrow> bt_wf (fold (\<lambda>(k, v). bt_insert k v) xs m)"
  by (induction xs arbitrary: m) auto

lemma bt_get_fold_insert:
  "distinct (map fst xs) \<Longrightarrow> bt_get (fold (\<lambda>(k, v). bt_insert k v) xs m) = bt_get m ++ map_of xs"
proof (induction xs arbitrary: m)
  case (Cons x xs)
  then have "map_of xs (fst x) = None" by (simp add: map_of_eq_None_iff)
  with Cons show ?case by (cases x) (auto simp: fun_eq_iff map_add_def split: option.splits)
qed simp

end
