(* ===== verification/Ids.thy ===== *)
theory Ids
  imports Prelude
begin

text \<open>
  Identifiers and scopes (\<^verbatim>\<open>crates/topodb/src/ids.rs\<close>). An id is a newtype over a 128-bit ULID;
  minting one and printing it belong to the \<^verbatim>\<open>ulid\<close> crate and are not modelled. A \<open>scope_set\<close>
  is the mandatory filter of every read; the lemmas show that enumerating it gives exactly the
  scopes it admits.
\<close>

section \<open>Identifiers\<close>

datatype node_id = NodeId u128
datatype edge_id = EdgeId u128
datatype scope_id = ScopeId u128

primrec node_u128 :: "node_id \<Rightarrow> u128" where "node_u128 (NodeId v) = v"
primrec edge_u128 :: "edge_id \<Rightarrow> u128" where "edge_u128 (EdgeId v) = v"
primrec scope_u128 :: "scope_id \<Rightarrow> u128" where "scope_u128 (ScopeId v) = v"

text \<open>The derived \<^verbatim>\<open>Ord\<close> of a newtype is the order of the wrapped integer.\<close>

instantiation node_id :: linorder
begin
definition less_eq_node_id :: "node_id \<Rightarrow> node_id \<Rightarrow> bool" where
  "a \<le> b \<longleftrightarrow> node_u128 a \<le> node_u128 b"
definition less_node_id :: "node_id \<Rightarrow> node_id \<Rightarrow> bool" where
  "a < b \<longleftrightarrow> node_u128 a < node_u128 b"
instance
proof
  fix x y z :: node_id
  show "x < y \<longleftrightarrow> x \<le> y \<and> \<not> y \<le> x"
    by (auto simp: less_eq_node_id_def less_node_id_def)
  show "x \<le> x" by (simp add: less_eq_node_id_def)
  show "x \<le> y \<Longrightarrow> y \<le> z \<Longrightarrow> x \<le> z" by (auto simp: less_eq_node_id_def)
  show "x \<le> y \<Longrightarrow> y \<le> x \<Longrightarrow> x = y" by (cases x; cases y) (simp add: less_eq_node_id_def)
  show "x \<le> y \<or> y \<le> x" by (auto simp: less_eq_node_id_def)
qed
end

instantiation scope_id :: linorder
begin
definition less_eq_scope_id :: "scope_id \<Rightarrow> scope_id \<Rightarrow> bool" where
  "a \<le> b \<longleftrightarrow> scope_u128 a \<le> scope_u128 b"
definition less_scope_id :: "scope_id \<Rightarrow> scope_id \<Rightarrow> bool" where
  "a < b \<longleftrightarrow> scope_u128 a < scope_u128 b"
instance
proof
  fix x y z :: scope_id
  show "x < y \<longleftrightarrow> x \<le> y \<and> \<not> y \<le> x"
    by (auto simp: less_eq_scope_id_def less_scope_id_def)
  show "x \<le> x" by (simp add: less_eq_scope_id_def)
  show "x \<le> y \<Longrightarrow> y \<le> z \<Longrightarrow> x \<le> z" by (auto simp: less_eq_scope_id_def)
  show "x \<le> y \<Longrightarrow> y \<le> x \<Longrightarrow> x = y" by (cases x; cases y) (simp add: less_eq_scope_id_def)
  show "x \<le> y \<or> y \<le> x" by (auto simp: less_eq_scope_id_def)
qed
end

section \<open>Scopes\<close>

datatype scope = Shared | Id scope_id

record scope_set =
  include_shared :: bool
  ids :: "scope_id list"

text \<open>The member ids are a \<^verbatim>\<open>BTreeSet\<close>: the ascending list of its elements.\<close>

definition scope_set_of :: "scope_id list \<Rightarrow> scope_set" where
  "scope_set_of xs = \<lparr>include_shared = False, ids = sorted_list_of_set (set xs)\<rparr>"

definition with_shared :: "scope_set \<Rightarrow> scope_set" where
  "with_shared ss = ss\<lparr>include_shared := True\<rparr>"

fun contains :: "scope_set \<Rightarrow> scope \<Rightarrow> bool" where
  "contains ss Shared = include_shared ss"
| "contains ss (Id i) = (i \<in> set (ids ss))"

definition iter_scopes :: "scope_set \<Rightarrow> scope list" where
  "iter_scopes ss = (if include_shared ss then [Shared] else []) @ map Id (ids ss)"

text \<open>The representation invariant of a \<^verbatim>\<open>BTreeSet\<close>.\<close>

definition scope_set_wf :: "scope_set \<Rightarrow> bool" where
  "scope_set_wf ss \<longleftrightarrow> sorted_wrt (<) (ids ss)"

lemma scope_set_wf_of [simp]: "scope_set_wf (scope_set_of xs)"
  by (simp add: scope_set_wf_def scope_set_of_def)

lemma scope_set_wf_with_shared [simp]: "scope_set_wf (with_shared ss) = scope_set_wf ss"
  by (simp add: scope_set_wf_def with_shared_def)

lemma contains_scope_set_of [simp]:
  "contains (scope_set_of xs) s \<longleftrightarrow> (\<exists>i \<in> set xs. s = Id i)"
  by (cases s) (auto simp: scope_set_of_def)

lemma contains_with_shared [simp]:
  "contains (with_shared ss) s \<longleftrightarrow> s = Shared \<or> contains ss s"
  by (cases s) (auto simp: with_shared_def)

lemma set_iter_scopes: "set (iter_scopes ss) = {s. contains ss s}"
proof -
  have "s \<in> set (iter_scopes ss) \<longleftrightarrow> contains ss s" for s
    by (cases s) (auto simp: iter_scopes_def)
  then show ?thesis by blast
qed

lemma distinct_iter_scopes: "scope_set_wf ss \<Longrightarrow> distinct (iter_scopes ss)"
  by (auto simp: iter_scopes_def scope_set_wf_def strict_sorted_iff distinct_map inj_on_def)

end
