(* ===== verification/Records.thy ===== *)
theory Records
  imports Ids
begin

unbundle bit_operations_syntax

text \<open>
  The data of the graph: property values (\<^verbatim>\<open>props.rs\<close>), the mutations of the op log
  (\<^verbatim>\<open>op.rs\<close>) and the node and edge records (\<^verbatim>\<open>state.rs\<close>). A floating-point property is its
  IEEE bit pattern; the comparisons the sources make on it are defined on the bits.
\<close>

section \<open>Property values\<close>

datatype prop_value =
    PStr string
  | PInt i64
  | PFloat f64
  | PBool bool
  | PBytes bytes
  | PDateTime i64

type_synonym props = "(string, prop_value) btree_map"

text \<open>IEEE comparison on 64-bit patterns: sign bit, then magnitude; NaN compares with nothing.\<close>

definition f64_mag :: "f64 \<Rightarrow> f64" where
  "f64_mag b = b AND 0x7FFFFFFFFFFFFFFF"

definition f64_is_nan :: "f64 \<Rightarrow> bool" where
  "f64_is_nan b \<longleftrightarrow> 0x7FF0000000000000 < f64_mag b"

definition f64_key :: "f64 \<Rightarrow> int" where
  "f64_key b = (if b = f64_mag b then uint (f64_mag b) else - uint (f64_mag b))"

definition f64_le :: "f64 \<Rightarrow> f64 \<Rightarrow> bool" where
  "f64_le a b \<longleftrightarrow> \<not> f64_is_nan a \<and> \<not> f64_is_nan b \<and> f64_key a \<le> f64_key b"

definition f64_eq :: "f64 \<Rightarrow> f64 \<Rightarrow> bool" where
  "f64_eq a b \<longleftrightarrow> f64_le a b \<and> f64_le b a"

definition f32_is_finite :: "f32 \<Rightarrow> bool" where
  "f32_is_finite b \<longleftrightarrow> b AND 0x7F800000 \<noteq> 0x7F800000"

text \<open>The derived \<^verbatim>\<open>PartialEq\<close>: floats compare as floats, everything else structurally.\<close>

fun prop_value_eq :: "prop_value \<Rightarrow> prop_value \<Rightarrow> bool" where
  "prop_value_eq (PFloat a) (PFloat b) = f64_eq a b"
| "prop_value_eq v w = (v = w)"

section \<open>Operations\<close>

datatype op =
    CreateNode node_id scope string props
  | SetNodeProps node_id "(string, prop_value option) btree_map"
  | SetEmbedding node_id string "f32 list"
  | RemoveNode node_id
  | CreateEdge edge_id scope string node_id node_id props "i64 option" "i64 option"
  | CloseEdge edge_id "i64 option" "i64 option"
  | UpsertNode node_id scope string string props

section \<open>Records\<close>

record node_record =
  n_id :: node_id
  n_scope :: scope
  n_label :: string
  n_props :: props
  n_embedding :: "(string \<times> f32 list) option"

record edge_record =
  e_id :: edge_id
  e_scope :: scope
  e_ty :: string
  e_from :: node_id
  e_to :: node_id
  e_props :: props
  e_valid_from :: i64
  e_valid_to :: "i64 option"
  e_recorded_at :: i64
  e_superseded_at :: "i64 option"

lemma prop_value_eq_refl: "(\<forall>b. v = PFloat b \<longrightarrow> \<not> f64_is_nan b) \<Longrightarrow> prop_value_eq v v"
  by (cases v) (auto simp: f64_eq_def f64_le_def)

lemma prop_value_eq_sym: "prop_value_eq v w = prop_value_eq w v"
  by (cases v; cases w) (auto simp: f64_eq_def)

lemma prop_value_eq_key: "prop_value_eq v w \<Longrightarrow> (\<forall>b. v \<noteq> PFloat b) \<Longrightarrow> v = w"
  by (cases v; cases w) auto

end
