(* ===== verification/Validate.thy ===== *)
theory Validate
  imports Records
begin

text \<open>
  Write-path validation (\<^verbatim>\<open>crates/topodb/src/validate.rs\<close>): the scope rule for edges and the
  mint-once rule for node ids, both checked on live submit before a batch is applied. The lemmas
  say what a passed check guarantees; the scope rule is shown to be exactly the visibility
  condition its documentation motivates it with.
\<close>

fun endpoint_scope :: "scope \<Rightarrow> scope \<Rightarrow> scope" where
  "endpoint_scope (Id a) to = Id a"
| "endpoint_scope Shared to = to"

definition edge_scope_is_valid :: "scope \<Rightarrow> scope \<Rightarrow> scope \<Rightarrow> bool" where
  "edge_scope_is_valid edge from to =
     (case (from, to) of
        (Shared, Shared) \<Rightarrow> True
      | _ \<Rightarrow> edge = endpoint_scope from to \<or> edge = Shared)"

definition edge_scope_error :: topo_error where
  "edge_scope_error = Rejected ''CreateEdge: edge scope is unrelated to its endpoints''"

text \<open>The loop carries \<open>created_scope\<close>, the scopes of the nodes created so far in the batch.\<close>

definition scope_of :: "(node_id \<rightharpoonup> scope) \<Rightarrow> (node_id \<rightharpoonup> node_record) \<Rightarrow> node_id \<Rightarrow> scope option" where
  "scope_of created pre node =
     (case created node of Some s \<Rightarrow> Some s | None \<Rightarrow> map_option n_scope (pre node))"

fun prevalidate_edge_scopes_from ::
  "(node_id \<rightharpoonup> node_record) \<Rightarrow> (node_id \<rightharpoonup> scope) \<Rightarrow> op list \<Rightarrow> unit result" where
  "prevalidate_edge_scopes_from pre created [] = Inr ()"
| "prevalidate_edge_scopes_from pre created (CreateNode i s l p # ops) =
     prevalidate_edge_scopes_from pre (created(i \<mapsto> s)) ops"
| "prevalidate_edge_scopes_from pre created (CreateEdge i s t from to p vf ra # ops) =
     (case (scope_of created pre from, scope_of created pre to) of
        (Some fs, Some ts) \<Rightarrow>
          if \<not> edge_scope_is_valid s fs ts then Inl edge_scope_error
          else prevalidate_edge_scopes_from pre created ops
      | _ \<Rightarrow> prevalidate_edge_scopes_from pre created ops)"
| "prevalidate_edge_scopes_from pre created (_ # ops) = prevalidate_edge_scopes_from pre created ops"

definition prevalidate_edge_scopes :: "(node_id \<rightharpoonup> node_record) \<Rightarrow> op list \<Rightarrow> unit result" where
  "prevalidate_edge_scopes pre ops = prevalidate_edge_scopes_from pre Map.empty ops"

definition mint_once_error :: topo_error where
  "mint_once_error = Rejected ''CreateNode: id already exists''"

fun prevalidate_create_node_ids_from ::
  "(node_id \<rightharpoonup> node_record) \<Rightarrow> node_id set \<Rightarrow> op list \<Rightarrow> unit result" where
  "prevalidate_create_node_ids_from pre seen [] = Inr ()"
| "prevalidate_create_node_ids_from pre seen (CreateNode i s l p # ops) =
     (if pre i \<noteq> None \<or> i \<in> seen then Inl mint_once_error
      else prevalidate_create_node_ids_from pre (insert i seen) ops)"
| "prevalidate_create_node_ids_from pre seen (_ # ops) = prevalidate_create_node_ids_from pre seen ops"

definition prevalidate_create_node_ids :: "(node_id \<rightharpoonup> node_record) \<Rightarrow> op list \<Rightarrow> unit result" where
  "prevalidate_create_node_ids pre ops = prevalidate_create_node_ids_from pre {} ops"

section \<open>What the checks guarantee\<close>

text \<open>The ids a batch creates, and the scopes they are created in (the last create wins).\<close>

fun created_ids :: "op list \<Rightarrow> node_id list" where
  "created_ids [] = []"
| "created_ids (CreateNode i s l p # ops) = i # created_ids ops"
| "created_ids (_ # ops) = created_ids ops"

fun created_scopes :: "(node_id \<rightharpoonup> scope) \<Rightarrow> op list \<Rightarrow> (node_id \<rightharpoonup> scope)" where
  "created_scopes m [] = m"
| "created_scopes m (CreateNode i s l p # ops) = created_scopes (m(i \<mapsto> s)) ops"
| "created_scopes m (_ # ops) = created_scopes m ops"

lemma prevalidate_ids_from_iff:
  "prevalidate_create_node_ids_from pre seen ops = Inr () \<longleftrightarrow>
     distinct (created_ids ops) \<and> set (created_ids ops) \<inter> (dom pre \<union> seen) = {}"
  by (induction pre seen ops rule: prevalidate_create_node_ids_from.induct) auto

lemma created_scopes_append:
  "created_scopes m (us @ vs) = created_scopes (created_scopes m us) vs"
  by (induction m us rule: created_scopes.induct) (auto simp: fun_upd_def)

lemma prevalidate_edges_from_append:
  "prevalidate_edge_scopes_from pre m (us @ vs) =
     rbind (prevalidate_edge_scopes_from pre m us)
       (\<lambda>_. prevalidate_edge_scopes_from pre (created_scopes m us) vs)"
  by (induction pre m us rule: prevalidate_edge_scopes_from.induct)
     (auto simp: fun_upd_def split: option.splits)

text \<open>A legal pair of endpoints, as the applier enforces it: one scope, or one of them shared.\<close>

definition legal_endpoints :: "scope \<Rightarrow> scope \<Rightarrow> bool" where
  "legal_endpoints from to \<longleftrightarrow> from = to \<or> from = Shared \<or> to = Shared"

lemma edge_scope_visibility:
  assumes "legal_endpoints from to" and "from \<noteq> Shared \<or> to \<noteq> Shared"
  shows "edge_scope_is_valid edge from to \<longleftrightarrow>
    (\<forall>readers. contains readers Shared \<and> contains readers from \<and> contains readers to
       \<longrightarrow> contains readers edge)"
    (is "?valid = ?vis")
proof
  obtain a where a: "endpoint_scope from to = Id a" and ft: "from \<in> {Shared, Id a}" "to \<in> {Shared, Id a}"
    using assms by (cases "from"; cases "to") (auto simp: legal_endpoints_def)
  have valid: "?valid \<longleftrightarrow> edge = Id a \<or> edge = Shared"
    using a ft by (auto simp: edge_scope_is_valid_def split: scope.splits)
  show "?valid \<Longrightarrow> ?vis"
    using valid ft assms(2) by auto
  assume vis: ?vis
  let ?w = "with_shared (scope_set_of [a])"
  have "contains ?w from \<and> contains ?w to" using ft by auto
  with spec [OF vis, of ?w] have "contains ?w edge"
    by (simp only: contains_with_shared) simp
  then show ?valid using valid by auto
qed





text \<open>C25. The mint-once check accepts a batch exactly when the node ids it creates are pairwise
  distinct and none of them names an existing node.\<close>

theorem prevalidate_create_node_ids_iff:
  "prevalidate_create_node_ids pre ops = Inr () \<longleftrightarrow>
     distinct (created_ids ops) \<and> set (created_ids ops) \<inter> dom pre = {}"
  by (simp add: prevalidate_create_node_ids_def prevalidate_ids_from_iff)

end
