(* ===== verification/Codec.thy ===== *)
theory Codec
  imports Prelude
begin

text \<open>
  Framed values (\<^verbatim>\<open>crates/topodb/src/codec.rs\<close>): a stored value is a codec byte followed by the
  raw payload or by its lz4 compression. The compressor is the \<^verbatim>\<open>lz4_flex\<close> crate; its two
  functions are the record \<open>lz4\<close> and its documented behaviour the locale \<open>lz4_codec\<close>. A framed
  value reads back unchanged up to the decompression cap; above it the writer still produces a
  frame, which the reader then refuses.
\<close>

record lz4 =
  compress_prepend_size :: "bytes \<Rightarrow> bytes"
  decompress_size_prepended :: "bytes \<Rightarrow> string + bytes"

definition CODEC_RAW :: u8 where "CODEC_RAW = 0"
definition CODEC_LZ4 :: u8 where "CODEC_LZ4 = 2"
definition MAX_DECOMPRESSED_LEN :: u32 where "MAX_DECOMPRESSED_LEN = 268435456"

definition frame_value :: "lz4 \<Rightarrow> bytes \<Rightarrow> bytes" where
  "frame_value L raw =
     (if 512 \<le> length raw
      then let c = compress_prepend_size L raw
           in if length c \<le> length raw * 9 div 10 then CODEC_LZ4 # c else CODEC_RAW # raw
      else CODEC_RAW # raw)"

definition unframe_value :: "lz4 \<Rightarrow> bytes \<Rightarrow> bytes result" where
  "unframe_value L framed =
     (case framed of
        [] \<Rightarrow> Inl (Encoding ''empty framed value'')
      | c # r \<Rightarrow>
          if c = CODEC_RAW then Inr r
          else if c = CODEC_LZ4 then
            if length r < 4 then Inl (Encoding ''truncated lz4 frame'')
            else if u32_from_le (take 4 r) > MAX_DECOMPRESSED_LEN
              then Inl (Encoding ''lz4 frame exceeds the decompression cap'')
            else (case decompress_size_prepended L r of
                    Inl e \<Rightarrow> Inl (Encoding (''lz4: '' @ e)) | Inr out \<Rightarrow> Inr out)
          else Inl (Encoding ''unknown value codec''))"

section \<open>The compressor's contract\<close>

text \<open>
  \<^verbatim>\<open>compress_prepend_size\<close> prepends the uncompressed size as a little-endian \<^verbatim>\<open>u32\<close>, and
  \<^verbatim>\<open>decompress_size_prepended\<close> inverts it, for inputs whose size fits that header.
\<close>

locale lz4_codec =
  fixes L :: lz4
  assumes size_header: "length raw < 2 ^ 32 \<Longrightarrow>
      \<exists>body. compress_prepend_size L raw = u32_to_le (word_of_nat (length raw)) @ body"
    and decompress_compress: "length raw < 2 ^ 32 \<Longrightarrow>
      decompress_size_prepended L (compress_prepend_size L raw) = Inr raw"
begin

lemma header_size:
  assumes "length raw < 2 ^ 32"
  shows "4 \<le> length (compress_prepend_size L raw) \<and>
    u32_from_le (take 4 (compress_prepend_size L raw)) = word_of_nat (length raw)"
  using size_header [OF assms] by auto

lemma unframe_frame:
  assumes "length raw \<le> unat MAX_DECOMPRESSED_LEN"
  shows "unframe_value L (frame_value L raw) = Inr raw"
proof -
  have len: "length raw < 2 ^ 32" using assms by (simp add: MAX_DECOMPRESSED_LEN_def)
  have "(word_of_nat (length raw) :: u32) \<le> MAX_DECOMPRESSED_LEN"
    using assms len by (simp add: word_le_nat_alt unat_of_nat)
  then show ?thesis
    using header_size [OF len] decompress_compress [OF len]
    by (auto simp: frame_value_def unframe_value_def Let_def CODEC_RAW_def CODEC_LZ4_def)
qed

lemma unframe_above_cap:
  assumes "unat MAX_DECOMPRESSED_LEN < length raw" "length raw < 2 ^ 32"
    and "length (compress_prepend_size L raw) \<le> length raw * 9 div 10"
  shows "unframe_value L (frame_value L raw) = Inl (Encoding ''lz4 frame exceeds the decompression cap'')"
proof -
  have "MAX_DECOMPRESSED_LEN < (word_of_nat (length raw) :: u32)"
    using assms(1,2) by (simp add: word_less_nat_alt unat_of_nat)
  moreover have "512 \<le> length raw" using assms(1) by (simp add: MAX_DECOMPRESSED_LEN_def)
  ultimately show ?thesis
    using header_size [OF assms(2)] assms(3)
    by (auto simp: frame_value_def unframe_value_def Let_def CODEC_RAW_def CODEC_LZ4_def)
qed

end

text \<open>
  A run-length compressor meets the contract: the size header, then a flag and either the one
  repeated byte or the payload itself.
\<close>

definition rle_compress :: "bytes \<Rightarrow> bytes" where
  "rle_compress raw = u32_to_le (word_of_nat (length raw)) @
     (if raw \<noteq> [] \<and> (\<forall>b \<in> set raw. b = hd raw) then [1, hd raw] else 0 # raw)"

definition rle_decompress :: "bytes \<Rightarrow> string + bytes" where
  "rle_decompress c =
     (case drop 4 c of
        [] \<Rightarrow> Inl ''truncated''
      | flag # body \<Rightarrow>
          if flag = 0 then Inr body
          else (case body of
                  b # _ \<Rightarrow> Inr (replicate (unat (u32_from_le (take 4 c))) b)
                | [] \<Rightarrow> Inl ''truncated''))"

definition rle_lz4 :: lz4 where
  "rle_lz4 = \<lparr>compress_prepend_size = rle_compress, decompress_size_prepended = rle_decompress\<rparr>"

interpretation rle: lz4_codec rle_lz4
proof unfold_locales
  fix raw :: bytes
  assume len: "length raw < 2 ^ 32"
  show "\<exists>body. compress_prepend_size rle_lz4 raw = u32_to_le (word_of_nat (length raw)) @ body"
    by (auto simp: rle_lz4_def rle_compress_def)
  have "raw \<noteq> [] \<Longrightarrow> \<forall>b \<in> set raw. b = hd raw \<Longrightarrow> replicate (length raw) (hd raw) = raw"
    by (simp add: replicate_length_same)
  then show "decompress_size_prepended rle_lz4 (compress_prepend_size rle_lz4 raw) = Inr raw"
    using len by (auto simp: rle_lz4_def rle_compress_def rle_decompress_def unat_of_nat)
qed

section \<open>Serializers\<close>

text \<open>A serializer of the \<^verbatim>\<open>postcard\<close> crate for one type, and what the engine relies on: what it wrote, it reads back.\<close>

record 'a serde =
  ser :: "'a \<Rightarrow> string + bytes"
  de :: "bytes \<Rightarrow> string + 'a"

text \<open>\<^verbatim>\<open>map_err(|e| TopoError::Encoding(e.to_string()))\<close>\<close>

definition pc_err :: "string + 'a \<Rightarrow> 'a result" where
  "pc_err r = (case r of Inl e \<Rightarrow> Inl (Encoding e) | Inr x \<Rightarrow> Inr x)"

locale serde_codec =
  fixes S :: "'a serde"
  assumes de_ser: "ser S x = Inr b \<Longrightarrow> de S b = Inr x"

section \<open>Properties\<close>

text \<open>C26. A value of at most 256 MiB that is framed, whichever codec the frame uses, is read back
  unchanged.\<close>

theorem frame_roundtrip:
  assumes "lz4_codec L" and "length raw \<le> unat MAX_DECOMPRESSED_LEN"
  shows "unframe_value L (frame_value L raw) = Inr raw"
  using assms by (rule lz4_codec.unframe_frame)

theorem frame_roundtrip_witness:
  "unframe_value rle_lz4 (frame_value rle_lz4 (replicate 600 7)) = Inr (replicate 600 7)"
  by (rule frame_roundtrip [OF rle.lz4_codec_axioms]) (simp add: MAX_DECOMPRESSED_LEN_def)

text \<open>The writer has no cap: a compressible value above 256 MiB (and below 4 GiB) is framed, but
  the frame can never be read again.\<close>

theorem frame_above_cap_unreadable:
  assumes "lz4_codec L"
    and "unat MAX_DECOMPRESSED_LEN < length raw" and "length raw < 2 ^ 32"
    and "length (compress_prepend_size L raw) \<le> length raw * 9 div 10"
  shows "unframe_value L (frame_value L raw) = Inl (Encoding ''lz4 frame exceeds the decompression cap'')"
  using assms by (rule lz4_codec.unframe_above_cap)

theorem frame_above_cap_unreadable_witness:
  "unframe_value rle_lz4 (frame_value rle_lz4 (replicate 268435457 7)) =
     Inl (Encoding ''lz4 frame exceeds the decompression cap'')"
  by (rule frame_above_cap_unreadable [OF rle.lz4_codec_axioms])
     (simp_all add: MAX_DECOMPRESSED_LEN_def rle_lz4_def rle_compress_def)

end
