(* ===== verification/AdjCodec.thy ===== *)
theory AdjCodec
  imports Prelude
begin

unbundle bit_operations_syntax

text \<open>
  The delta-varint adjacency blocks (\<^verbatim>\<open>crates/topodb/src/adj.rs\<close>, lines 1-142): variable-length
  integers, the zigzag map for signed timestamps, and the block of entries sorted by target slot.
  Decoding inverts encoding; decoding also accepts ten-byte integers that do not fit 64 bits and
  drops their high bits.
\<close>

definition ADJ_BLOCK_FORMAT_V0 :: u8 where "ADJ_BLOCK_FORMAT_V0 = 0"

record adj_entry =
  a_target :: u64
  a_edge :: u64
  a_scope :: u32
  a_valid_from :: i64
  a_valid_to :: "i64 option"

section \<open>Varints and zigzag\<close>

text \<open>The bytes \<^verbatim>\<open>write_varint\<close> pushes onto its output.\<close>

function write_varint :: "u64 \<Rightarrow> bytes" where
  "write_varint value =
     (if 0x80 \<le> value
      then ((ucast value AND 0x7F) OR 0x80) # write_varint (drop_bit 7 value)
      else [ucast value])"
  by pat_completeness auto
termination
proof (relation "measure unat")
  fix v :: u64
  assume "0x80 \<le> v"
  then have "unat v \<noteq> 0" by (auto simp: word_le_nat_alt)
  moreover have "unat (drop_bit 7 v) = unat v div 128"
    unfolding unat_drop_bit_eq by (simp add: drop_bit_eq_div)
  ultimately show "(drop_bit 7 v, v) \<in> measure unat" by (simp only: in_measure)
qed simp

declare write_varint.simps [simp del]

text \<open>The loop over \<^verbatim>\<open>(0..64).step_by(7)\<close>, with the shifts still to be done as a list.\<close>

fun read_varint_from :: "nat list \<Rightarrow> u64 \<Rightarrow> bytes \<Rightarrow> (u64 \<times> bytes) result" where
  "read_varint_from [] value input = Inl (Encoding ''overflowing adjacency varint'')"
| "read_varint_from (shift # shifts) value [] = Inl (Encoding ''truncated adjacency varint'')"
| "read_varint_from (shift # shifts) value (byte # rest) =
     (let value' = value OR push_bit shift (ucast (byte AND 0x7F))
      in if byte AND 0x80 = 0 then Inr (value', rest)
         else if shift = 63 then Inl (Encoding ''overflowing adjacency varint'')
         else read_varint_from shifts value' rest)"

definition read_varint :: "bytes \<Rightarrow> (u64 \<times> bytes) result" where
  "read_varint input = read_varint_from (map (\<lambda>i. 7 * i) [0..<10]) 0 input"

definition zigzag :: "i64 \<Rightarrow> u64" where
  "zigzag value = push_bit 1 value XOR signed_drop_bit 63 value"

definition unzigzag :: "u64 \<Rightarrow> i64" where
  "unzigzag value = drop_bit 1 value XOR (- (value AND 1))"

section \<open>Blocks\<close>

text \<open>\<^verbatim>\<open>windows(2).any(|pair| pair[0].target > pair[1].target)\<close>\<close>

fun has_inversion :: "adj_entry list \<Rightarrow> bool" where
  "has_inversion (x # y # zs) = (a_target x > a_target y \<or> has_inversion (y # zs))"
| "has_inversion _ = False"

definition encode_valid_to :: "i64 option \<Rightarrow> bytes" where
  "encode_valid_to vt = (case vt of None \<Rightarrow> [0] | Some t \<Rightarrow> 1 # write_varint (zigzag t))"

fun encode_entries :: "u64 \<Rightarrow> adj_entry list \<Rightarrow> bytes result" where
  "encode_entries previous [] = Inr []"
| "encode_entries previous (e # es) =
     rbind (ok_or (Encoding ''adjacency target underflow'') (checked_sub (a_target e) previous)) (\<lambda>delta.
     rbind (encode_entries (a_target e) es) (\<lambda>tail.
     Inr (write_varint delta @ write_varint (a_edge e) @ write_varint (ucast (a_scope e)) @
          write_varint (zigzag (a_valid_from e)) @ encode_valid_to (a_valid_to e) @ tail)))"

definition encode_block :: "adj_entry list \<Rightarrow> bytes result" where
  "encode_block entries =
     (if has_inversion entries then Inl (Encoding ''adjacency entries are not target-sorted'')
      else rbind (encode_entries 0 entries) (\<lambda>body.
           Inr (ADJ_BLOCK_FORMAT_V0 # write_varint (word_of_nat (length entries)) @ body)))"

definition decode_valid_to :: "bytes \<Rightarrow> (i64 option \<times> bytes) result" where
  "decode_valid_to input =
     (case input of
        [] \<Rightarrow> Inl (Encoding ''truncated adjacency valid_to tag'')
      | tag # rest \<Rightarrow>
          if tag = 0 then Inr (None, rest)
          else if tag = 1 then rbind (read_varint rest) (\<lambda>(v, rest'). Inr (Some (unzigzag v), rest'))
          else Inl (Encoding ''bad adjacency valid_to tag''))"

definition decode_entry :: "u64 \<Rightarrow> bytes \<Rightarrow> (adj_entry \<times> bytes) result" where
  "decode_entry target input =
     rbind (read_varint input) (\<lambda>(delta, i1).
     rbind (ok_or (Encoding ''adjacency target overflow'') (checked_add target delta)) (\<lambda>target'.
     rbind (read_varint i1) (\<lambda>(edge, i2).
     rbind (read_varint i2) (\<lambda>(sc, i3).
     rbind (if unat sc < 2 ^ 32 then Inr (ucast sc) else Inl (Encoding ''adjacency scope too large'')) (\<lambda>scope.
     rbind (read_varint i3) (\<lambda>(vf, i4).
     rbind (decode_valid_to i4) (\<lambda>(valid_to, i5).
     Inr (\<lparr>a_target = target', a_edge = edge, a_scope = scope,
           a_valid_from = unzigzag vf, a_valid_to = valid_to\<rparr>, i5))))))))"

primrec decode_entries :: "nat \<Rightarrow> u64 \<Rightarrow> bytes \<Rightarrow> (adj_entry list \<times> bytes) result" where
  "decode_entries 0 target input = Inr ([], input)"
| "decode_entries (Suc n) target input =
     rbind (decode_entry target input) (\<lambda>(e, rest).
     rbind (decode_entries n (a_target e) rest) (\<lambda>(es, rest').
     Inr (e # es, rest')))"

text \<open>\<^verbatim>\<open>usize\<close> has 64 bits on the supported targets, so the count conversion always succeeds.\<close>

definition decode_block :: "bytes \<Rightarrow> adj_entry list result" where
  "decode_block payload =
     (case payload of
        [] \<Rightarrow> Inl (Encoding ''empty adjacency block'')
      | format # input \<Rightarrow>
          if format \<noteq> ADJ_BLOCK_FORMAT_V0 then Inl (Encoding ''unknown adjacency block format'')
          else rbind (read_varint input) (\<lambda>(count, rest).
               rbind (decode_entries (unat count) 0 rest) (\<lambda>(entries, rest').
               if rest' \<noteq> [] then Inl (Encoding ''trailing bytes in adjacency block'')
               else Inr entries)))"

section \<open>Round trips\<close>

lemma write_varint_step:
  "0x80 \<le> v \<Longrightarrow> write_varint v = ((ucast v AND 0x7F) OR 0x80) # write_varint (drop_bit 7 v)"
  "\<not> 0x80 \<le> v \<Longrightarrow> write_varint v = [ucast v]"
  by (simp_all add: write_varint.simps [of v])

lemma mask_u8: "(0x7F :: u8) = mask 7" "(0x7F :: u64) = mask 7"
  by (simp_all add: mask_numeral)

lemma bit_80:
  "bit (0x80 :: u8) n \<longleftrightarrow> n = 7" "bit (0x80 :: nat) n \<longleftrightarrow> n = 7" "bit (0x80 :: int) n \<longleftrightarrow> n = 7"
proof -
  have eq: "(0x80 :: u8) = push_bit 7 1" "(0x80 :: nat) = push_bit 7 1" "(0x80 :: int) = push_bit 7 1"
    by simp_all
  show "bit (0x80 :: u8) n \<longleftrightarrow> n = 7" unfolding eq(1) bit_push_bit_iff by (auto simp: bit_1_iff)
  show "bit (0x80 :: nat) n \<longleftrightarrow> n = 7" unfolding eq(2) bit_push_bit_iff by (auto simp: bit_1_iff simp del: One_nat_def)
  show "bit (0x80 :: int) n \<longleftrightarrow> n = 7" unfolding eq(3) bit_push_bit_iff by (auto simp: bit_1_iff)
qed

lemma low_byte_split:
  fixes v :: u64
  shows "ucast (((ucast v AND 0x7F) OR 0x80 :: u8) AND 0x7F) OR push_bit 7 (drop_bit 7 v) = v"
    (is "?w = v")
proof (rule bit_word_eqI)
  fix n
  assume "n < LENGTH(64)"
  then show "bit ?w n = bit v n"
    unfolding mask_u8
    by (cases "n < 7")
       (auto simp: bit_or_iff bit_and_iff bit_unsigned_iff bit_mask_iff bit_80 bit_push_bit_iff
         bit_drop_bit_eq)
qed

lemma high_bit_set: "((ucast v AND 0x7F) OR 0x80 :: u8) AND 0x80 \<noteq> 0"
proof -
  have "bit (((ucast v AND 0x7F) OR 0x80 :: u8) AND 0x80) 7"
    by (simp add: bit_or_iff bit_and_iff bit_80)
  then show ?thesis by (metis bit_0_eq bot_apply bot_bool_def)
qed

lemma small_byte:
  fixes v :: u64
  assumes "\<not> 0x80 \<le> v"
  shows "(ucast v :: u8) AND 0x80 = 0" "ucast ((ucast v :: u8) AND 0x7F) = v"
proof -
  have "unat v < 2 ^ 7" using assms by (simp add: word_le_nat_alt)
  then have "v = take_bit 7 v"
    by (metis take_bit_nat_eq_self_iff unsigned_take_bit_eq word_unat_eq_iff)
  then have hi: "\<not> bit v n" if "7 \<le> n" for n
    using that by (metis bit_take_bit_iff not_less)
  show "(ucast v :: u8) AND 0x80 = 0"
    by (rule bit_word_eqI) (auto simp: bit_and_iff bit_unsigned_iff bit_80 hi)
  show "ucast ((ucast v :: u8) AND 0x7F) = v"
    unfolding mask_u8
  proof (rule bit_word_eqI)
    fix n
    show "bit (ucast ((ucast v :: u8) AND mask 7) :: u64) n = bit v n"
      using hi [of n] by (cases "n < 7") (auto simp: bit_and_iff bit_unsigned_iff bit_mask_iff)
  qed
qed

lemma read_write_varint_from:
  "i \<le> 9 \<Longrightarrow> unat w < 2 ^ (64 - 7 * i) \<Longrightarrow>
   read_varint_from (map (\<lambda>i. 7 * i) [i..<10]) acc (write_varint w @ rest) =
     Inr (acc OR push_bit (7 * i) w, rest)"
proof (induction w arbitrary: i acc rule: write_varint.induct)
  case (1 w)
  have upt: "[i..<10] = i # [Suc i..<10]" using "1.prems" by (simp add: upt_conv_Cons)
  show ?case
  proof (cases "0x80 \<le> w")
    case False
    then show ?thesis by (simp add: upt write_varint_step small_byte)
  next
    case True
    then have "2 ^ 7 \<le> unat w" by (simp add: word_le_nat_alt)
    with "1.prems" have "(2::nat) ^ 7 < 2 ^ (64 - 7 * i)" by linarith
    then have "i \<noteq> 9" by auto
    with "1.prems"(1) have i: "Suc i \<le> 9" "7 * i \<noteq> 63" by auto
    have "unat (drop_bit 7 w) < 2 ^ (64 - 7 * Suc i)"
    proof -
      have "64 - 7 * i = 7 + (64 - 7 * Suc i)" using i by simp
      with "1.prems"(2) have "unat w < 2 ^ 7 * 2 ^ (64 - 7 * Suc i)"
        by (simp only: power_add)
      moreover have "unat (drop_bit 7 w) = unat w div 2 ^ 7"
        unfolding unat_drop_bit_eq by (simp add: drop_bit_eq_div)
      ultimately show ?thesis by (simp only: less_mult_imp_div_less mult.commute)
    qed
    note IH = "1.IH" [OF True i(1) this]
    have "(acc OR push_bit (7 * i) (ucast (((ucast w AND 0x7F) OR 0x80 :: u8) AND 0x7F)))
            OR push_bit (7 * Suc i) (drop_bit 7 w)
        = acc OR push_bit (7 * i) (ucast (((ucast w AND 0x7F) OR 0x80 :: u8) AND 0x7F) OR push_bit 7 (drop_bit 7 w))"
      by (simp add: push_bit_or push_bit_push_bit or.assoc add.commute)
    also have "\<dots> = acc OR push_bit (7 * i) w" by (simp only: low_byte_split)
    finally show ?thesis
      using IH i high_bit_set [of w] by (simp add: upt write_varint_step(1) [OF True] Let_def)
  qed
qed

lemma read_write_varint [simp]: "read_varint (write_varint v @ rest) = Inr (v, rest)"
  using read_write_varint_from [of 0 v 0 rest] unat_bound [of v] by (simp add: read_varint_def)

lemma bit_zigzag:
  "n < 64 \<Longrightarrow> bit (zigzag v) n \<longleftrightarrow> ((0 < n \<and> bit v (n - 1)) \<noteq> bit v 63)"
  unfolding zigzag_def bit_xor_iff bit_push_bit_iff bit_signed_drop_bit_iff
  by (cases n) auto

lemma unzigzag_zigzag [simp]: "unzigzag (zigzag v) = v"
proof -
  have "zigzag v AND 1 = (if bit v 63 then 1 else 0)"
    by (rule bit_word_eqI) (auto simp: bit_and_iff bit_zigzag bit_1_iff)
  then have neg: "- (zigzag v AND 1) = (if bit v 63 then -1 else 0)" by simp
  show ?thesis
  proof (rule bit_word_eqI)
    fix n
    assume n: "n < LENGTH(64)"
    have "bit (drop_bit 1 (zigzag v)) n \<longleftrightarrow> n < 63 \<and> (bit v n \<noteq> bit v 63)"
    proof (cases "n = 63")
      case True
      then show ?thesis using bit_imp_le_length [of "zigzag v" 64] by (auto simp: bit_drop_bit_eq)
    next
      case False
      with n show ?thesis by (simp add: bit_drop_bit_eq bit_zigzag)
    qed
    with n show "bit (unzigzag (zigzag v)) n = bit v n"
      unfolding unzigzag_def neg
      by (cases "n = 63") (auto simp: bit_xor_iff bit_minus_1_iff)
  qed
qed


lemma has_inversion_sorted: "has_inversion es \<longleftrightarrow> \<not> sorted (map a_target es)"
  by (induction es rule: has_inversion.induct) (auto simp: not_less intro: order_trans)

lemma decode_encode_valid_to [simp]: "decode_valid_to (encode_valid_to vt @ rest) = Inr (vt, rest)"
  by (cases vt) (auto simp: decode_valid_to_def encode_valid_to_def)

lemma unat_ucast_u32 [simp]: "unat (ucast (x :: u32) :: u64) = unat x"
  using unat_bound [of x] by (simp add: unsigned_ucast_eq take_bit_nat_eq_self)

lemma ucast_ucast_u32 [simp]: "ucast (ucast (x :: u32) :: u64) = x"
  by (rule bit_word_eqI) (auto simp: bit_unsigned_iff)

lemma decode_encode_entries:
  "encode_entries previous es = Inr body \<Longrightarrow> decode_entries (length es) previous (body @ rest) = Inr (es, rest)"
proof (induction es arbitrary: previous body)
  case Nil
  then show ?case by simp
next
  case (Cons e es)
  from Cons.prems obtain delta tail where d: "checked_sub (a_target e) previous = Some delta"
    and t: "encode_entries (a_target e) es = Inr tail"
    and body: "body = write_varint delta @ write_varint (a_edge e) @ write_varint (ucast (a_scope e)) @
          write_varint (zigzag (a_valid_from e)) @ encode_valid_to (a_valid_to e) @ tail"
    by (auto simp: rbind_Inr)
  have scope: "unat (a_scope e) < 2 ^ 32" using unat_bound [of "a_scope e"] by simp
  have "decode_entry previous (body @ rest) = Inr (e, tail @ rest)"
    using scope checked_add_sub [OF d] by (simp add: decode_entry_def body)
  then show ?case using Cons.IH [OF t] by simp
qed

lemma encode_entries_ok:
  "sorted (map a_target es) \<Longrightarrow> (\<forall>e \<in> set es. previous \<le> a_target e) \<Longrightarrow>
     \<exists>body. encode_entries previous es = Inr body"
proof (induction es arbitrary: previous)
  case Nil
  then show ?case by simp
next
  case (Cons e es)
  then have "\<exists>tail. encode_entries (a_target e) es = Inr tail" by (intro Cons.IH) auto
  with Cons.prems show ?case by (auto simp: checked_sub_def)
qed

lemma encode_block_Inr_iff: "(\<exists>bs. encode_block es = Inr bs) \<longleftrightarrow> sorted (map a_target es)"
proof
  show "sorted (map a_target es)" if "\<exists>bs. encode_block es = Inr bs"
    using that by (auto simp: encode_block_def has_inversion_sorted split: if_splits)
  show "\<exists>bs. encode_block es = Inr bs" if "sorted (map a_target es)"
    using encode_entries_ok [OF that, of 0] that
    by (auto simp: encode_block_def has_inversion_sorted)
qed

lemma decode_encode_block:
  assumes "encode_block es = Inr bs" and "length es < 2 ^ 64"
  shows "decode_block bs = Inr es"
proof -
  from assms(1) obtain body where body: "encode_entries 0 es = Inr body"
    and bs: "bs = ADJ_BLOCK_FORMAT_V0 # write_varint (word_of_nat (length es)) @ body"
    by (auto simp: encode_block_def rbind_Inr split: if_splits)
  have "decode_entries (length es) 0 body = Inr (es, [])"
    using decode_encode_entries [OF body, of "[]"] by simp
  with assms(2) show ?thesis by (simp add: bs decode_block_def unat_of_nat)
qed

text \<open>What the decoder accepts is target-sorted, so it can be encoded again.\<close>

lemma decode_entry_target: "decode_entry target input = Inr (e, rest) \<Longrightarrow> target \<le> a_target e"
proof -
  assume "decode_entry target input = Inr (e, rest)"
  then obtain delta where "checked_add target delta = Some (a_target e)"
    by (auto simp: decode_entry_def rbind_Inr split: prod.splits if_splits)
  from checked_add_unat [OF this] show ?thesis by (simp add: word_le_nat_alt)
qed

lemma decode_entries_sorted:
  "decode_entries n target input = Inr (es, rest) \<Longrightarrow>
     sorted (map a_target es) \<and> (\<forall>e \<in> set es. target \<le> a_target e) \<and> length es = n"
proof (induction n arbitrary: target input es rest)
  case 0
  then show ?case by simp
next
  case (Suc n)
  from Suc.prems obtain e input' es' where e: "decode_entry target input = Inr (e, input')"
    and es': "decode_entries n (a_target e) input' = Inr (es', rest)" and "es = e # es'"
    by (auto simp: rbind_Inr split: prod.splits)
  then show ?case using Suc.IH [OF es'] decode_entry_target [OF e] by auto
qed

lemma decode_block_sorted: "decode_block bs = Inr es \<Longrightarrow> sorted (map a_target es)"
  by (auto simp: decode_block_def rbind_Inr split: list.splits if_splits prod.splits
      dest: decode_entries_sorted)

section \<open>Properties\<close>

text \<open>A 64-bit integer written as a varint is read back, whatever follows it in the buffer.\<close>

theorem varint_roundtrip: "read_varint (write_varint v @ rest) = Inr (v, rest)"
  by simp

text \<open>Zigzag is inverted by unzigzag on every 64-bit timestamp, negative ones included.\<close>

theorem zigzag_roundtrip: "unzigzag (zigzag v) = v"
  by simp

text \<open>C27. An adjacency block that was encoded decodes to exactly its entries; encoding succeeds for
  every list of entries sorted by target.\<close>

theorem adj_block_roundtrip:
  assumes "sorted (map a_target es)" and "length es < 2 ^ 64"
  shows "\<exists>bs. encode_block es = Inr bs \<and> decode_block bs = Inr es"
  using assms encode_block_Inr_iff decode_encode_block by blast

theorem adj_block_roundtrip_witness:
  "\<exists>bs. encode_block [\<lparr>a_target = 3, a_edge = 300, a_scope = 1, a_valid_from = - 5, a_valid_to = Some 7\<rparr>] = Inr bs
     \<and> decode_block bs = Inr [\<lparr>a_target = 3, a_edge = 300, a_scope = 1, a_valid_from = - 5, a_valid_to = Some 7\<rparr>]"
  by (rule adj_block_roundtrip) simp_all

text \<open>Whatever bytes a block is decoded from, the decoded entries are sorted by target, so they can
  be encoded again.\<close>

theorem decode_block_reencodable:
  assumes "decode_block bs = Inr es"
  shows "sorted (map a_target es) \<and> (\<exists>bs'. encode_block es = Inr bs')"
  using decode_block_sorted [OF assms] encode_block_Inr_iff by blast

theorem decode_block_reencodable_witness:
  "sorted (map a_target ([] :: adj_entry list)) \<and> (\<exists>bs'. encode_block [] = Inr bs')"
proof (rule decode_block_reencodable)
  have "read_varint [0] = Inr (0, [])" using read_write_varint [of 0 "[]"] by (simp add: write_varint_step)
  then show "decode_block [0, 0] = Inr []" by (simp add: decode_block_def ADJ_BLOCK_FORMAT_V0_def)
qed

text \<open>The overflow check of the varint reader is incomplete: the ten-byte encoding of the integer
  2 to the power 64, which does not fit 64 bits, is accepted and read as 0.\<close>

theorem read_varint_overflow_accepted:
  "read_varint (replicate 9 0x80 @ [0x02]) = Inr (0, [])"
  by code_simp

end
