(* ===== verification/Redb.thy ===== *)
theory Redb
  imports Prelude "HOL-Library.RBT"
begin

text \<open>
  The interface to the storage library. The engine keeps all durable state in tables of the
  \<^verbatim>\<open>redb\<close> crate, whose source is not part of the repository; a table is therefore a value of
  an unknown type on which the record \<open>table_ops\<close> gives the calls the engine makes, and every
  definition that touches a table takes this record as an argument. What the engine relies on
  is the locale \<open>redb_table\<close>: a table holds a finite map from keys to values, a successful call
  reads or changes that map as documented, and range scans list the rows in ascending key
  order. Each call may also fail with an I/O error; \<open>redb_table_live\<close> adds that it does not.
  The last section shows the laws are satisfiable with balanced search trees.
\<close>

record ('t, 'k, 'v) table_ops =
  tget :: "'t \<Rightarrow> 'k \<Rightarrow> redb_error + 'v option"
  tinsert :: "'t \<Rightarrow> 'k \<Rightarrow> 'v \<Rightarrow> redb_error + 't"
  tremove :: "'t \<Rightarrow> 'k \<Rightarrow> redb_error + ('v option \<times> 't)"
  \<comment> \<open>\<^verbatim>\<open>range(lo..=hi)\<close>, collected\<close>
  trange :: "'t \<Rightarrow> 'k \<Rightarrow> 'k \<Rightarrow> redb_error + ('k \<times> 'v) list"
  \<comment> \<open>\<^verbatim>\<open>range(lo..)\<close>, collected\<close>
  trange_from :: "'t \<Rightarrow> 'k \<Rightarrow> redb_error + ('k \<times> 'v) list"
  \<comment> \<open>\<^verbatim>\<open>iter()\<close>, collected\<close>
  titer :: "'t \<Rightarrow> redb_error + ('k \<times> 'v) list"
  tlast :: "'t \<Rightarrow> redb_error + ('k \<times> 'v) option"
  \<comment> \<open>\<^verbatim>\<open>retain_in(..k, |_, _| false)\<close>: drops every row below \<open>k\<close>\<close>
  tdrop_below :: "'t \<Rightarrow> 'k \<Rightarrow> redb_error + 't"
  \<comment> \<open>\<^verbatim>\<open>retain(|_, _| false)\<close>: drops every row\<close>
  tclear :: "'t \<Rightarrow> redb_error + 't"

section \<open>The documented behaviour of a table\<close>

locale redb_table =
  fixes R :: "('t, 'k::linorder, 'v) table_ops"
    and rows :: "'t \<Rightarrow> 'k \<rightharpoonup> 'v"
  assumes get_ok: "tget R t k = Inr v \<Longrightarrow> v = rows t k"
    and insert_ok: "tinsert R t k w = Inr t' \<Longrightarrow> rows t' = (rows t)(k \<mapsto> w)"
    and remove_ok: "tremove R t k = Inr (old, t') \<Longrightarrow> old = rows t k \<and> rows t' = (rows t)(k := None)"
    and range_ok: "trange R t lo hi = Inr es \<Longrightarrow>
      bt_wf es \<and> bt_get es = (\<lambda>k. if lo \<le> k \<and> k \<le> hi then rows t k else None)"
    and range_from_ok: "trange_from R t lo = Inr es \<Longrightarrow>
      bt_wf es \<and> bt_get es = (\<lambda>k. if lo \<le> k then rows t k else None)"
    and iter_ok: "titer R t = Inr es \<Longrightarrow> bt_wf es \<and> bt_get es = rows t"
    and last_ok: "tlast R t = Inr e \<Longrightarrow>
      (case e of None \<Rightarrow> rows t = Map.empty
       | Some (k, w) \<Rightarrow> rows t k = Some w \<and> (\<forall>k'. rows t k' \<noteq> None \<longrightarrow> k' \<le> k))"
    and drop_below_ok: "tdrop_below R t k = Inr t' \<Longrightarrow>
      rows t' = (\<lambda>k'. if k' < k then None else rows t k')"
    and clear_ok: "tclear R t = Inr t' \<Longrightarrow> rows t' = Map.empty"
begin

text \<open>What a scan returns, row by row.\<close>

lemma range_mem:
  assumes "trange R t lo hi = Inr es"
  shows "(k, w) \<in> set es \<longleftrightarrow> lo \<le> k \<and> k \<le> hi \<and> rows t k = Some w"
proof -
  have "bt_wf es" and get: "bt_get es = (\<lambda>k. if lo \<le> k \<and> k \<le> hi then rows t k else None)"
    using range_ok [OF assms] by auto
  then have "(k, w) \<in> set es \<longleftrightarrow> bt_get es k = Some w" by (simp only: bt_mem)
  then show ?thesis by (auto simp: get)
qed

lemma range_key:
  assumes "trange R t lo hi = Inr es"
  shows "k \<in> fst ` set es \<longleftrightarrow> lo \<le> k \<and> k \<le> hi \<and> rows t k \<noteq> None"
  using range_mem [OF assms] by force

lemma range_sorted: "trange R t lo hi = Inr es \<Longrightarrow> sorted_wrt (<) (map fst es)"
  using range_ok by (auto simp: bt_wf_def)

lemma range_from_mem:
  assumes "trange_from R t lo = Inr es"
  shows "(k, w) \<in> set es \<longleftrightarrow> lo \<le> k \<and> rows t k = Some w"
proof -
  have "bt_wf es" and get: "bt_get es = (\<lambda>k. if lo \<le> k then rows t k else None)"
    using range_from_ok [OF assms] by auto
  then have "(k, w) \<in> set es \<longleftrightarrow> bt_get es k = Some w" by (simp only: bt_mem)
  then show ?thesis by (auto simp: get)
qed

text \<open>Reading a row back after a write, in one step.\<close>

lemma get_after_insert:
  assumes "tinsert R t k w = Inr t'" and "tget R t' k' = Inr v"
  shows "v = (if k' = k then Some w else rows t k')"
  using insert_ok [OF assms(1)] get_ok [OF assms(2)] by simp

lemma get_after_remove:
  assumes "tremove R t k = Inr (old, t')" and "tget R t' k' = Inr v"
  shows "v = (if k' = k then None else rows t k')"
  using remove_ok [OF assms(1)] get_ok [OF assms(2)] by simp

end

text \<open>A table on a medium that does not fail.\<close>

locale redb_table_live = redb_table +
  assumes get_live: "\<exists>v. tget R t k = Inr v"
    and insert_live: "\<exists>t'. tinsert R t k w = Inr t'"
    and remove_live: "\<exists>r. tremove R t k = Inr r"
    and range_live: "\<exists>es. trange R t lo hi = Inr es"
    and range_from_live: "\<exists>es. trange_from R t lo = Inr es"
    and iter_live: "\<exists>es. titer R t = Inr es"
    and last_live: "\<exists>e. tlast R t = Inr e"
    and drop_below_live: "\<exists>t'. tdrop_below R t k = Inr t'"
    and clear_live: "\<exists>t'. tclear R t = Inr t'"
begin

lemma get_eq: "tget R t k = Inr (rows t k)"
  using get_live [of t k] get_ok by auto

lemma insert_eq: "\<exists>t'. tinsert R t k w = Inr t' \<and> rows t' = (rows t)(k \<mapsto> w)"
  using insert_live [of t k w] insert_ok by blast

lemma remove_eq: "\<exists>t'. tremove R t k = Inr (rows t k, t') \<and> rows t' = (rows t)(k := None)"
  using remove_live [of t k] remove_ok by fast

end

section \<open>Search trees satisfy the laws\<close>

definition rbt_ops :: "(('k::linorder, 'v) rbt, 'k, 'v) table_ops" where
  "rbt_ops = \<lparr>
     tget = (\<lambda>t k. Inr (RBT.lookup t k)),
     tinsert = (\<lambda>t k v. Inr (RBT.insert k v t)),
     tremove = (\<lambda>t k. Inr (RBT.lookup t k, RBT.delete k t)),
     trange = (\<lambda>t lo hi. Inr (filter (\<lambda>e. lo \<le> fst e \<and> fst e \<le> hi) (RBT.entries t))),
     trange_from = (\<lambda>t lo. Inr (filter (\<lambda>e. lo \<le> fst e) (RBT.entries t))),
     titer = (\<lambda>t. Inr (RBT.entries t)),
     tlast = (\<lambda>t. Inr (if RBT.entries t = [] then None else Some (last (RBT.entries t)))),
     tdrop_below = (\<lambda>t k. Inr (RBT.bulkload (filter (\<lambda>e. k \<le> fst e) (RBT.entries t)))),
     tclear = (\<lambda>t. Inr RBT.empty) \<rparr>"

lemma bt_wf_entries: "bt_wf (RBT.entries t)"
  by (simp add: bt_wf_def strict_sorted_iff RBT.sorted_entries RBT.distinct_entries)

lemma bt_wf_filter: "bt_wf m \<Longrightarrow> bt_wf (filter P m)"
  by (induction m) auto

lemma bt_get_filter_key:
  "bt_wf m \<Longrightarrow> bt_get (filter (\<lambda>e. P (fst e)) m) = (\<lambda>k. if P k then bt_get m k else None)"
proof (induction m)
  case Nil
  then show ?case by auto
next
  case (Cons e m)
  then have "map_of m (fst e) = None" by (force simp: map_of_eq_None_iff)
  with Cons show ?case by (cases e) (auto simp: fun_eq_iff)
qed

lemmas bt_get_filter_range = bt_get_filter_key [where P = "\<lambda>k. lo \<le> k \<and> k \<le> hi" for lo hi]

lemma bt_wf_last_max: "bt_wf m \<Longrightarrow> m \<noteq> [] \<Longrightarrow> x \<in> set m \<Longrightarrow> fst x \<le> fst (last m)"
  by (induction m) (fastforce simp: le_less)+

interpretation rbt_tab: redb_table_live rbt_ops RBT.lookup
proof unfold_locales
  fix t :: "('a, 'b) rbt" and e
  assume "tlast rbt_ops t = Inr e"
  then have e: "e = (if RBT.entries t = [] then None else Some (last (RBT.entries t)))"
    by (auto simp: rbt_ops_def)
  show "case e of None \<Rightarrow> RBT.lookup t = Map.empty
     | Some (k, w) \<Rightarrow> RBT.lookup t k = Some w \<and> (\<forall>k'. RBT.lookup t k' \<noteq> None \<longrightarrow> k' \<le> k)"
  proof (cases "RBT.entries t = []")
    case True
    then have "RBT.lookup t = Map.empty" by (metis RBT.map_of_entries map_of.simps(1))
    with True e show ?thesis by simp
  next
    case False
    obtain k w where kw: "last (RBT.entries t) = (k, w)" by fastforce
    with False have "(k, w) \<in> set (RBT.entries t)" by (metis last_in_set)
    then have "RBT.lookup t k = Some w" by (simp add: RBT.lookup_in_tree)
    moreover have "k' \<le> k" if "RBT.lookup t k' \<noteq> None" for k'
    proof -
      from that obtain w' where "(k', w') \<in> set (RBT.entries t)"
        by (auto simp: RBT.lookup_in_tree)
      then show ?thesis
        using bt_wf_last_max [OF bt_wf_entries False] kw by force
    qed
    ultimately show ?thesis using e False kw by simp
  qed
qed (auto simp: rbt_ops_def bt_wf_entries bt_wf_filter bt_get_filter_key bt_get_filter_range RBT.map_of_entries
      RBT.lookup_bulkload fun_eq_iff)

lemma rbt_ops_simps [simp]:
  "tget rbt_ops t k = Inr (RBT.lookup t k)" "tinsert rbt_ops t k v = Inr (RBT.insert k v t)"
  "tremove rbt_ops t k = Inr (RBT.lookup t k, RBT.delete k t)"
  "trange rbt_ops t k k' = Inr (filter (\<lambda>e. k \<le> fst e \<and> fst e \<le> k') (RBT.entries t))"
  "trange_from rbt_ops t k = Inr (filter (\<lambda>e. k \<le> fst e) (RBT.entries t))"
  "titer rbt_ops t = Inr (RBT.entries t)" "tclear rbt_ops t = Inr RBT.empty"
  by (simp_all add: rbt_ops_def)

lemma rbt_entries_empty [simp]: "RBT.entries RBT.empty = []"
  by (metis RBT.lookup_empty RBT.map_of_entries map_of_eq_empty_iff)

end
