(* ===== verification/Dict.thy ===== *)
theory Dict
  imports Redb
begin

text \<open>
  The append-only string dictionaries (\<^verbatim>\<open>crates/topodb/src/dict.rs\<close>): four namespaces, each an
  in-memory two-way map between names and 32-bit ids that mirrors the rows of the \<^verbatim>\<open>dict\<close> table,
  and the journal by which an aborted batch undoes its allocations. The invariant \<open>dm_wf\<close> says
  the two directions agree and the ids are dense; \<open>dict_synced\<close> that the mirror is the table.
\<close>

datatype dict_kind = Label | EdgeType | PropKey | Model

fun kind_byte :: "dict_kind \<Rightarrow> u8" where
  "kind_byte Label = 0"
| "kind_byte EdgeType = 1"
| "kind_byte PropKey = 2"
| "kind_byte Model = 3"

definition from_byte :: "u8 \<Rightarrow> dict_kind option" where
  "from_byte b = (if b = 0 then Some Label else if b = 1 then Some EdgeType
     else if b = 2 then Some PropKey else if b = 3 then Some Model else None)"

definition dict_key :: "dict_kind \<Rightarrow> u32 \<Rightarrow> bytes" where
  "dict_key kind i = kind_byte kind # u32_to_be i"

record dict_map =
  d_names :: "string \<rightharpoonup> u32"
  d_ids :: "u32 \<rightharpoonup> string"
  d_next :: u32

record dicts =
  d_labels :: dict_map
  d_types :: dict_map
  d_props :: dict_map
  d_models :: dict_map

record intern_journal =
  dict_ids :: "(dict_kind \<times> u32) list"
  scope_ids :: "u32 list"

definition dict_map_default :: dict_map where
  "dict_map_default = \<lparr>d_names = Map.empty, d_ids = Map.empty, d_next = 0\<rparr>"

definition dicts_default :: dicts where
  "dicts_default = \<lparr>d_labels = dict_map_default, d_types = dict_map_default,
     d_props = dict_map_default, d_models = dict_map_default\<rparr>"

definition journal_default :: intern_journal where
  "journal_default = \<lparr>dict_ids = [], scope_ids = []\<rparr>"

fun dmap :: "dicts \<Rightarrow> dict_kind \<Rightarrow> dict_map" where
  "dmap d Label = d_labels d"
| "dmap d EdgeType = d_types d"
| "dmap d PropKey = d_props d"
| "dmap d Model = d_models d"

text \<open>Writing through \<^verbatim>\<open>map_mut\<close>.\<close>

fun dmap_mut :: "dicts \<Rightarrow> dict_kind \<Rightarrow> dict_map \<Rightarrow> dicts" where
  "dmap_mut d Label m = d\<lparr>d_labels := m\<rparr>"
| "dmap_mut d EdgeType m = d\<lparr>d_types := m\<rparr>"
| "dmap_mut d PropKey m = d\<lparr>d_props := m\<rparr>"
| "dmap_mut d Model m = d\<lparr>d_models := m\<rparr>"

section \<open>Operations\<close>

definition load_row :: "bytes \<times> string \<Rightarrow> dicts \<Rightarrow> dicts result" where
  "load_row row d =
     (case row of (k, name) \<Rightarrow>
        if length k \<noteq> 5 then Inl (Encoding ''bad dict key length'')
        else rbind (ok_or (Encoding ''bad dict kind'') (from_byte (hd k))) (\<lambda>kind.
             let i = u32_from_be (tl k); m = dmap d kind
             in rbind (ok_or (Encoding ''dict id exhausted'') (checked_add i 1)) (\<lambda>i1.
                Inr (dmap_mut d kind \<lparr>d_names = (d_names m)(name \<mapsto> i), d_ids = (d_ids m)(i \<mapsto> name),
                       d_next = max (d_next m) i1\<rparr>))))"

definition load_from_table :: "('t, bytes, string) table_ops \<Rightarrow> 't \<Rightarrow> dicts result" where
  "load_from_table R t = rbind (redb (titer R t)) (\<lambda>rs. rfold load_row rs dicts_default)"

text \<open>The table opened by a read transaction, or its absence in a file that never had it.\<close>

definition load :: "('t, bytes, string) table_ops \<Rightarrow> redb_error + 't option \<Rightarrow> dicts result" where
  "load R opened = rbind (redb opened) (\<lambda>t.
     case t of None \<Rightarrow> Inr dicts_default | Some t \<Rightarrow> load_from_table R t)"

definition intern :: "('t, bytes, string) table_ops \<Rightarrow> dict_kind \<Rightarrow> string
    \<Rightarrow> dicts \<times> 't \<times> intern_journal \<Rightarrow> u32 result \<times> dicts \<times> 't \<times> intern_journal" where
  "intern R kind s = (\<lambda>(d, t, j).
     case d_names (dmap d kind) s of
       Some i \<Rightarrow> (Inr i, d, t, j)
     | None \<Rightarrow>
         (let m = dmap d kind; i = d_next m
          in case checked_add i 1 of
               None \<Rightarrow> (Inl (Encoding ''dict id exhausted''), d, t, j)
             | Some nxt \<Rightarrow>
                 (let d1 = dmap_mut d kind (m\<lparr>d_next := nxt\<rparr>)
                  in case redb (tinsert R t (dict_key kind i) s) of
                       Inl e \<Rightarrow> (Inl e, d1, t, j)
                     | Inr t' \<Rightarrow>
                         (Inr i,
                          dmap_mut d1 kind \<lparr>d_names = (d_names m)(s \<mapsto> i), d_ids = (d_ids m)(i \<mapsto> s), d_next = nxt\<rparr>,
                          t', j\<lparr>dict_ids := dict_ids j @ [(kind, i)]\<rparr>))))"

fun revert_one :: "dict_kind \<times> u32 \<Rightarrow> dicts \<Rightarrow> dicts" where
  "revert_one (kind, i) d =
     (let m = dmap d kind;
          m1 = (case d_ids m i of
                  Some name \<Rightarrow> m\<lparr>d_ids := (d_ids m)(i := None), d_names := (d_names m)(name := None)\<rparr>
                | None \<Rightarrow> m)
      in dmap_mut d kind (m1\<lparr>d_next := i\<rparr>))"

definition dicts_revert :: "intern_journal \<Rightarrow> dicts \<Rightarrow> dicts" where
  "dicts_revert j d = fold revert_one (rev (dict_ids j)) d"

definition id_of :: "dicts \<Rightarrow> dict_kind \<Rightarrow> string \<Rightarrow> u32 option" where
  "id_of d kind s = d_names (dmap d kind) s"

definition resolve :: "dicts \<Rightarrow> dict_kind \<Rightarrow> u32 \<Rightarrow> string result" where
  "resolve d kind i = ok_or (Encoding ''unknown dict id'') (d_ids (dmap d kind) i)"

definition dicts_clear :: "dicts \<Rightarrow> dicts" where
  "dicts_clear d = dicts_default"

section \<open>Invariants\<close>

definition dm_wf :: "dict_map \<Rightarrow> bool" where
  "dm_wf m \<longleftrightarrow> (\<forall>s i. d_names m s = Some i \<longleftrightarrow> d_ids m i = Some s) \<and>
     (\<forall>i. d_ids m i \<noteq> None \<longleftrightarrow> i < d_next m)"

definition dicts_wf :: "dicts \<Rightarrow> bool" where
  "dicts_wf d \<longleftrightarrow> (\<forall>k. dm_wf (dmap d k))"

lemma dmap_mut_same [simp]: "dmap (dmap_mut d k m) k = m"
  by (cases k) auto

lemma dmap_mut_other [simp]: "k' \<noteq> k \<Longrightarrow> dmap (dmap_mut d k m) k' = dmap d k'"
  by (cases k; cases k') auto

lemma dmap_mut_apply: "dmap (dmap_mut d k m) k' = (if k' = k then m else dmap d k')"
  by auto

lemma dmap_mut_mut [simp]: "dmap_mut (dmap_mut d k m) k m' = dmap_mut d k m'"
  by (cases k) auto

lemma dmap_mut_id [simp]: "dmap_mut d k (dmap d k) = d"
  by (cases k) auto

lemma dicts_eqI: "(\<And>k. dmap d k = dmap d' k) \<Longrightarrow> d = d'"
  using dmap.simps by (metis (full_types) dicts.equality old.unit.exhaust)

lemma dicts_wf_default [simp]: "dicts_wf dicts_default"
  unfolding dicts_wf_def
proof
  fix k
  show "dm_wf (dmap dicts_default k)"
    by (cases k) (simp_all add: dicts_default_def dm_wf_def dict_map_default_def)
qed

lemma dm_wf_next_None: "dm_wf m \<Longrightarrow> d_ids m (d_next m) = None"
  by (metis dm_wf_def less_irrefl)

lemma dm_wf_extend:
  assumes "dm_wf m" "d_names m s = None" "checked_add (d_next m) 1 = Some nxt"
  shows "dm_wf \<lparr>d_names = (d_names m)(s \<mapsto> d_next m), d_ids = (d_ids m)(d_next m \<mapsto> s), d_next = nxt\<rparr>"
proof -
  have none: "d_ids m (d_next m) = None" using assms(1) by (rule dm_wf_next_None)
  have "unat nxt = unat (d_next m) + 1" using checked_add_unat [OF assms(3)] by simp
  then have "i < nxt \<longleftrightarrow> i < d_next m \<or> i = d_next m" for i
    by (auto simp: word_less_nat_alt word_unat_eq_iff)
  moreover have "d_names m s' \<noteq> Some (d_next m)" for s'
    using assms(1) none by (auto simp: dm_wf_def)
  moreover have "d_ids m i \<noteq> Some s" for i
    using assms(1,2) by (metis dm_wf_def option.distinct(1))
  ultimately show ?thesis using assms(1,2) none by (auto simp: dm_wf_def)
qed

text \<open>The successful allocation of a fresh name, in one equation.\<close>

lemma intern_fresh:
  assumes "d_names (dmap d kind) s = None" "checked_add (d_next (dmap d kind)) 1 = Some nxt"
    and "tinsert R t (dict_key kind (d_next (dmap d kind))) s = Inr t'"
  shows "intern R kind s (d, t, j) = (Inr (d_next (dmap d kind)),
     dmap_mut d kind \<lparr>d_names = (d_names (dmap d kind))(s \<mapsto> d_next (dmap d kind)),
       d_ids = (d_ids (dmap d kind))(d_next (dmap d kind) \<mapsto> s), d_next = nxt\<rparr>,
     t', j\<lparr>dict_ids := dict_ids j @ [(kind, d_next (dmap d kind))]\<rparr>)"
  using assms by (simp add: intern_def Let_def)

lemma intern_known: "d_names (dmap d kind) s = Some i \<Longrightarrow> intern R kind s (d, t, j) = (Inr i, d, t, j)"
  by (simp add: intern_def)

text \<open>The three outcomes of a call that is not an I/O failure.\<close>

lemma intern_cases:
  assumes "intern R kind s (d, t, j) = (r, d', t', j')"
  obtains (known) i where "d_names (dmap d kind) s = Some i" "r = Inr i" "d' = d" "t' = t" "j' = j"
  | (full) "d_names (dmap d kind) s = None" "checked_add (d_next (dmap d kind)) 1 = None"
      "r = Inl (Encoding ''dict id exhausted'')" "d' = d" "t' = t" "j' = j"
  | (failed) nxt e where "d_names (dmap d kind) s = None"
      "checked_add (d_next (dmap d kind)) 1 = Some nxt"
      "tinsert R t (dict_key kind (d_next (dmap d kind))) s = Inl e"
      "r = Inl (Storage e)" "d' = dmap_mut d kind ((dmap d kind)\<lparr>d_next := nxt\<rparr>)" "t' = t" "j' = j"
  | (fresh) nxt where "d_names (dmap d kind) s = None"
      "checked_add (d_next (dmap d kind)) 1 = Some nxt"
      "tinsert R t (dict_key kind (d_next (dmap d kind))) s = Inr t'"
      "r = Inr (d_next (dmap d kind))"
      "d' = dmap_mut d kind \<lparr>d_names = (d_names (dmap d kind))(s \<mapsto> d_next (dmap d kind)),
         d_ids = (d_ids (dmap d kind))(d_next (dmap d kind) \<mapsto> s), d_next = nxt\<rparr>"
      "j' = j\<lparr>dict_ids := dict_ids j @ [(kind, d_next (dmap d kind))]\<rparr>"
proof (cases "d_names (dmap d kind) s")
  case (Some i)
  with assms show ?thesis by (simp add: intern_known known)
next
  case names: None
  show ?thesis
  proof (cases "checked_add (d_next (dmap d kind)) 1")
    case None
    with assms names show ?thesis by (simp add: intern_def full)
  next
    case (Some nxt)
    with assms names show ?thesis
      by (cases "tinsert R t (dict_key kind (d_next (dmap d kind))) s")
         (simp_all add: intern_def Let_def failed fresh)
  qed
qed

lemma intern_wf:
  assumes "intern R kind s (d, t, j) = (r, d', t', j')" and "dicts_wf d" and "\<nexists>e. r = Inl (Storage e)"
  shows "dicts_wf d'"
  using assms(1)
proof (cases rule: intern_cases)
  case (fresh nxt)
  then have "dm_wf (dmap d' kind)"
    using assms(2) dm_wf_extend [of "dmap d kind" s] by (simp add: dicts_wf_def)
  with assms(2) fresh show ?thesis by (auto simp: dicts_wf_def dmap_mut_apply)
qed (use assms in auto)

lemma revert_one_fresh:
  assumes "dm_wf (dmap d kind)" "d_names (dmap d kind) s = None"
  shows "revert_one (kind, d_next (dmap d kind))
     (dmap_mut d kind \<lparr>d_names = (d_names (dmap d kind))(s \<mapsto> d_next (dmap d kind)),
       d_ids = (d_ids (dmap d kind))(d_next (dmap d kind) \<mapsto> s), d_next = nxt\<rparr>) = d"
proof -
  have none: "d_ids (dmap d kind) (d_next (dmap d kind)) = None"
    using assms(1) by (rule dm_wf_next_None)
  have "(dmap d kind)\<lparr>d_names := (d_names (dmap d kind)), d_ids := d_ids (dmap d kind),
      d_next := d_next (dmap d kind)\<rparr> = dmap d kind" by simp
  moreover have "(d_names (dmap d kind))(s := None) = d_names (dmap d kind)"
    "(d_ids (dmap d kind))(d_next (dmap d kind) := None) = d_ids (dmap d kind)"
    using assms(2) none by (auto simp: fun_eq_iff)
  ultimately have "\<lparr>d_names = (d_names (dmap d kind))(s := None),
      d_ids = (d_ids (dmap d kind))(d_next (dmap d kind) := None), d_next = d_next (dmap d kind)\<rparr> = dmap d kind"
    by (simp add: dict_map.equality)
  then show ?thesis by (simp add: Let_def)
qed

text \<open>The key fact behind the abort path: interning does not change what reverting yields.\<close>

lemma intern_reverted:
  assumes "intern R kind s (d, t, j) = (r, d', t', j')" and "dicts_wf d" and "\<nexists>e. r = Inl (Storage e)"
  shows "dicts_revert j' d' = dicts_revert j d"
  using assms(1)
proof (cases rule: intern_cases)
  case (fresh nxt)
  have "dm_wf (dmap d kind)" using assms(2) by (simp add: dicts_wf_def)
  from revert_one_fresh [OF this fresh(1)] fresh show ?thesis
    by (simp add: dicts_revert_def)
qed (use assms in auto)

section \<open>The mirror and its table\<close>

text \<open>The mirror holds exactly the rows of the table.\<close>

definition dict_synced :: "(bytes \<rightharpoonup> string) \<Rightarrow> dicts \<Rightarrow> bool" where
  "dict_synced rs d \<longleftrightarrow> (\<forall>k i. rs (dict_key k i) = d_ids (dmap d k) i) \<and>
     (\<forall>b. rs b \<noteq> None \<longrightarrow> (\<exists>k i. b = dict_key k i))"

lemma kind_byte_inject [simp]: "kind_byte k = kind_byte k' \<longleftrightarrow> k = k'"
  by (cases k; cases k') auto

lemma from_byte_kind [simp]: "from_byte (kind_byte k) = Some k"
  by (cases k) (auto simp: from_byte_def)

lemma dict_key_inject [simp]: "dict_key k i = dict_key k' i' \<longleftrightarrow> k = k' \<and> i = i'"
  by (simp add: dict_key_def)

lemma intern_synced:
  assumes "redb_table R rows" and "intern R kind s (d, t, j) = (r, d', t', j')"
    and "dict_synced (rows t) d"
  shows "dict_synced (rows t') d'"
  using assms(2)
proof (cases rule: intern_cases)
  case (fresh nxt)
  have "rows t' = (rows t)(dict_key kind (d_next (dmap d kind)) \<mapsto> s)"
    using redb_table.insert_ok [OF assms(1) fresh(3)] .
  with assms(3) fresh show ?thesis
    by (auto simp: dict_synced_def dmap_mut_apply)
qed (use assms(3) in \<open>auto simp: dict_synced_def dmap_mut_apply\<close>)


text \<open>
  Reloading: after reading some of the rows the loaded maps hold exactly those rows, the two
  directions agree, and the counter is one past the largest id read.
\<close>

definition next_bound :: "dict_map \<Rightarrow> bool" where
  "next_bound m \<longleftrightarrow> (\<forall>i. d_ids m i \<noteq> None \<longrightarrow> i < d_next m) \<and>
     (d_next m = 0 \<or> (\<exists>i. d_ids m i \<noteq> None \<and> unat (d_next m) = unat i + 1))"

definition loaded :: "(bytes \<times> string) list \<Rightarrow> dicts \<Rightarrow> bool" where
  "loaded us d \<longleftrightarrow> (\<forall>k. (\<forall>i. d_ids (dmap d k) i = map_of us (dict_key k i)) \<and>
     (\<forall>s i. d_names (dmap d k) s = Some i \<longleftrightarrow> d_ids (dmap d k) i = Some s) \<and> next_bound (dmap d k))"

lemma loaded_default: "loaded [] dicts_default"
  unfolding loaded_def
proof
  fix k
  show "(\<forall>i. d_ids (dmap dicts_default k) i = map_of [] (dict_key k i)) \<and>
     (\<forall>s i. d_names (dmap dicts_default k) s = Some i \<longleftrightarrow> d_ids (dmap dicts_default k) i = Some s) \<and>
     next_bound (dmap dicts_default k)"
    by (cases k) (simp_all add: dicts_default_def dict_map_default_def next_bound_def)
qed

lemma next_bound_extend:
  assumes "next_bound m" "checked_add i 1 = Some i1"
  shows "next_bound \<lparr>d_names = ns, d_ids = (d_ids m)(i \<mapsto> s), d_next = max (d_next m) i1\<rparr>"
proof -
  have i1: "unat i1 = unat i + 1" using checked_add_unat [OF assms(2)] by simp
  have lt: "i < max (d_next m) i1" using checked_add_less [OF assms(2)] by (simp add: less_max_iff_disj)
  have low: "j < max (d_next m) i1" if "d_ids m j \<noteq> None" for j
    using assms(1) that by (auto simp: next_bound_def less_max_iff_disj)
  have "\<exists>j. (j = i \<or> d_ids m j \<noteq> None) \<and> unat (max (d_next m) i1) = unat j + 1"
  proof (cases "d_next m \<le> i1")
    case True
    then have "unat (max (d_next m) i1) = unat i + 1" using i1 by (simp add: max_def)
    then show ?thesis by blast
  next
    case False
    then have mx: "max (d_next m) i1 = d_next m" and "d_next m \<noteq> 0" by (auto simp: max_def)
    then show ?thesis using assms(1) unfolding mx by (auto simp: next_bound_def)
  qed
  then have "\<exists>j. ((d_ids m)(i \<mapsto> s)) j \<noteq> None \<and> unat (max (d_next m) i1) = unat j + 1" by auto
  moreover have "\<forall>j. ((d_ids m)(i \<mapsto> s)) j \<noteq> None \<longrightarrow> j < max (d_next m) i1" using lt low by auto
  ultimately show ?thesis unfolding next_bound_def dict_map.simps by blast
qed

lemma load_row_loaded:
  assumes "loaded us d" and "\<not> (dict_key k i) \<in> fst ` set us" and "checked_add i 1 = Some i1"
    and fresh: "\<And>j. map_of us (dict_key k j) \<noteq> Some s"
  shows "\<exists>d'. load_row (dict_key k i, s) d = Inr d' \<and> loaded (us @ [(dict_key k i, s)]) d'"
proof -
  let ?m = "\<lparr>d_names = (d_names (dmap d k))(s \<mapsto> i), d_ids = (d_ids (dmap d k))(i \<mapsto> s),
      d_next = max (d_next (dmap d k)) i1\<rparr>"
  have run: "load_row (dict_key k i, s) d = Inr (dmap_mut d k ?m)"
    using assms(3) by (simp add: load_row_def dict_key_def Let_def)
  have none: "map_of us (dict_key k i) = None" using assms(2) by (simp add: map_of_eq_None_iff)
  have ids: "d_ids (dmap d k') j = map_of us (dict_key k' j)" for k' j
    using assms(1) by (simp add: loaded_def)
  have "d_ids (dmap (dmap_mut d k ?m) k') j = map_of (us @ [(dict_key k i, s)]) (dict_key k' j)" for k' j
    using none by (auto simp: dmap_mut_apply ids map_add_def split: option.splits)
  moreover have "d_names (dmap (dmap_mut d k ?m) k') s' = Some j \<longleftrightarrow>
      d_ids (dmap (dmap_mut d k ?m) k') j = Some s'" for k' s' j
  proof -
    have old: "d_names (dmap d k') s' = Some j \<longleftrightarrow> d_ids (dmap d k') j = Some s'" for k' s' j
      using assms(1) by (simp add: loaded_def)
    have "d_names (dmap d k) s' \<noteq> Some i" for s' using old [of k s' i] ids none by simp
    moreover have "d_ids (dmap d k) j \<noteq> Some s" for j using ids fresh by simp
    ultimately show ?thesis using old by (auto simp: dmap_mut_apply)
  qed
  moreover have "next_bound (dmap (dmap_mut d k ?m) k')" for k'
    using assms(1,3) next_bound_extend [of "dmap d k" i i1] by (auto simp: dmap_mut_apply loaded_def)
  ultimately show ?thesis unfolding run loaded_def by blast
qed

lemma dm_wf_next_bound: "dm_wf m \<Longrightarrow> next_bound m' \<Longrightarrow> d_ids m' = d_ids m \<Longrightarrow> d_next m' = d_next m"
proof (rule ccontr)
  assume wf: "dm_wf m" and nb: "next_bound m'" and ids: "d_ids m' = d_ids m" and ne: "d_next m' \<noteq> d_next m"
  have dense: "d_ids m i \<noteq> None \<longleftrightarrow> i < d_next m" for i using wf by (simp add: dm_wf_def)
  have "d_next m' \<le> d_next m"
    using nb dense unfolding next_bound_def ids
    by (metis Suc_eq_plus1 Suc_leI word_le_nat_alt word_less_nat_alt word_zero_le)
  with ne have lt: "d_next m' < d_next m" by simp
  then have "d_ids m (d_next m') \<noteq> None" using dense by blast
  then show False using nb unfolding next_bound_def ids by blast
qed

lemma rows_id_not_max:
  assumes "dicts_wf d" "dict_synced rs d" "rs (dict_key k i) = Some s"
  shows "\<exists>i1. checked_add i 1 = Some i1"
proof -
  have "i < d_next (dmap d k)" using assms by (metis dict_synced_def dicts_wf_def dm_wf_def option.distinct(1))
  then have "unat i + 1 < 2 ^ 32" using unat_bound [of "d_next (dmap d k)"] by (simp add: word_less_nat_alt)
  then show ?thesis by (simp add: checked_add_def)
qed

lemma rfold_load_row:
  assumes "dicts_wf d" "dict_synced (map_of es) d" "distinct (map fst es)" "es = us @ vs"
  shows "\<exists>d'. rfold load_row us dicts_default = Inr d' \<and> loaded us d'"
  using assms(4)
proof (induction us arbitrary: vs rule: rev_induct)
  case Nil
  then show ?case by (simp add: loaded_default)
next
  case (snoc x us)
  obtain b s where x: "x = (b, s)" by fastforce
  from snoc.IH [of "x # vs"] snoc.prems obtain d' where d': "rfold load_row us dicts_default = Inr d'" "loaded us d'"
    by auto
  have es: "es = us @ (b, s) # vs" using snoc.prems x by simp
  have dist: "b \<notin> fst ` set us" using assms(3) es by auto
  have bs: "map_of es b = Some s" using es by (intro map_of_is_SomeI [OF assms(3)]) simp
  then obtain k i where b: "b = dict_key k i" using assms(2) by (metis dict_synced_def option.distinct(1))
  obtain i1 where i1: "checked_add i 1 = Some i1"
    using rows_id_not_max [OF assms(1,2)] bs b by blast
  have "map_of us (dict_key k j) \<noteq> Some s" for j
  proof
    assume us: "map_of us (dict_key k j) = Some s"
    then have "map_of es (dict_key k j) = Some s" using assms(3) es by (auto simp: map_add_Some_iff dest: map_of_SomeD)
    then have "d_ids (dmap d k) j = Some s" "d_ids (dmap d k) i = Some s"
      using assms(2) bs b by (simp_all add: dict_synced_def)
    then have "j = i" using assms(1) by (metis dicts_wf_def dm_wf_def option.inject)
    with us dist b show False by (auto dest!: map_of_SomeD intro: rev_image_eqI)
  qed
  with load_row_loaded [OF d'(2) _ i1, of k s] dist b x d'(1)
  show ?case by (auto simp: rfold_append)
qed

lemma load_from_table_synced:
  assumes "redb_table R rows" "titer R t = Inr es" "dicts_wf d" "dict_synced (rows t) d"
  shows "load_from_table R t = Inr d"
proof -
  have es: "bt_wf es" "map_of es = rows t" using redb_table.iter_ok [OF assms(1,2)] by auto
  then have dist: "distinct (map fst es)" by (blast intro: bt_wf_distinct)
  from rfold_load_row [OF assms(3) _ dist, of es "[]"] assms(4) es(2)
  obtain d' where d': "rfold load_row es dicts_default = Inr d'" "loaded es d'" by auto
  have "d' = d"
  proof (rule dicts_eqI)
    fix k
    have ids: "d_ids (dmap d' k) = d_ids (dmap d k)"
      using d'(2) assms(4) es(2) by (auto simp: loaded_def dict_synced_def)
    have "d_names (dmap d' k) s = Some i \<longleftrightarrow> d_names (dmap d k) s = Some i" for s i
      using d'(2) assms(3) ids by (simp add: loaded_def dicts_wf_def dm_wf_def)
    then have "d_names (dmap d' k) = d_names (dmap d k)"
      by (intro ext) (metis option.exhaust)
    moreover have "d_next (dmap d' k) = d_next (dmap d k)"
      using assms(3) d'(2) ids by (intro dm_wf_next_bound) (auto simp: dicts_wf_def loaded_def)
    ultimately show "dmap d' k = dmap d k" using ids by (simp add: dict_map.equality)
  qed
  with d'(1) assms(2) show ?thesis by (simp add: load_from_table_def)
qed


lemma intern_resolves:
  assumes "dicts_wf d" and "intern R kind s (d, t, j) = (Inr i, d', t', j')"
  shows "dicts_wf d' \<and> resolve d' kind i = Inr s \<and> id_of d' kind s = Some i \<and>
    (\<forall>k n x. resolve d k n = Inr x \<longrightarrow> resolve d' k n = Inr x)"
proof -
  have "dicts_wf d'" using intern_wf [OF assms(2,1)] by simp
  moreover have "d_ids (dmap d' kind) i = Some s \<and> d_names (dmap d' kind) s = Some i \<and>
    (\<forall>k n x. d_ids (dmap d k) n = Some x \<longrightarrow> d_ids (dmap d' k) n = Some x)"
    using assms(2)
  proof (cases rule: intern_cases)
    case (fresh nxt)
    moreover have "d_ids (dmap d kind) (d_next (dmap d kind)) = None"
      using assms(1) by (simp add: dicts_wf_def dm_wf_next_None)
    ultimately show ?thesis by (auto simp: dmap_mut_apply)
  qed (use assms(1) in \<open>auto simp: dicts_wf_def dm_wf_def\<close>)
  ultimately show ?thesis by (auto simp: resolve_def id_of_def)
qed

section \<open>Properties\<close>

text \<open>C28. Interning a name keeps the dictionaries well formed, and the id it returns resolves to the
  name while every id that resolved before still resolves to the same name.\<close>

theorem intern_correct:
  assumes "dicts_wf d" and "intern R kind s (d, t, j) = (Inr i, d', t', j')"
  shows "dicts_wf d' \<and> resolve d' kind i = Inr s \<and> id_of d' kind s = Some i \<and>
    (\<forall>k n x. resolve d k n = Inr x \<longrightarrow> resolve d' k n = Inr x)"
  using assms by (rule intern_resolves)

theorem intern_correct_witness:
  "\<exists>d' t' j'. intern rbt_ops Label ''Memory'' (dicts_default, RBT.empty, journal_default) = (Inr 0, d', t', j')
     \<and> resolve d' Label 0 = Inr ''Memory''"
proof -
  obtain d' t' j' where run: "intern rbt_ops Label ''Memory'' (dicts_default, RBT.empty, journal_default) = (Inr 0, d', t', j')"
    by (auto simp: intern_def dicts_default_def dict_map_default_def rbt_ops_def checked_add_def Let_def)
  from intern_correct [OF dicts_wf_default run] run show ?thesis by blast
qed

text \<open>A region of allocations, one after the other, stopping at the first error.\<close>

fun intern_all :: "('t, bytes, string) table_ops \<Rightarrow> (dict_kind \<times> string) list
    \<Rightarrow> dicts \<times> 't \<times> intern_journal \<Rightarrow> unit result \<times> dicts \<times> 't \<times> intern_journal" where
  "intern_all R [] st = (Inr (), st)"
| "intern_all R ((k, s) # ns) st =
     (case intern R k s st of (Inl e, st') \<Rightarrow> (Inl e, st') | (Inr _, st') \<Rightarrow> intern_all R ns st')"

lemma intern_all_reverted:
  "intern_all R ns (d, t, j) = (r, d', t', j') \<Longrightarrow> dicts_wf d \<Longrightarrow> \<nexists>e. r = Inl (Storage e) \<Longrightarrow>
     dicts_revert j' d' = dicts_revert j d"
proof (induction ns arbitrary: d t j)
  case Nil
  then show ?case by simp
next
  case (Cons n ns)
  obtain k s where n: "n = (k, s)" by fastforce
  obtain r1 d1 t1 j1 where i: "intern R k s (d, t, j) = (r1, d1, t1, j1)" by (metis prod_cases4)
  have ok: "\<nexists>e. r1 = Inl (Storage e)" using Cons.prems i by (auto simp: n)
  note step = intern_reverted [OF i Cons.prems(2) ok] intern_wf [OF i Cons.prems(2) ok]
  show ?case
  proof (cases r1)
    case (Inl e)
    with Cons.prems i step show ?thesis by (simp add: n)
  next
    case (Inr x)
    with Cons.prems i have "intern_all R ns (d1, t1, j1) = (r, d', t', j')" by (simp add: n)
    from Cons.IH [OF this step(2) Cons.prems(3)] step(1) show ?thesis by simp
  qed
qed



text \<open>An allocation whose row insert fails leaks its id: the counter has already been advanced and
  nothing was journalled, so reverting the region does not restore the counter.\<close>

theorem intern_io_failure_leaks_id:
  assumes "d_names (dmap d kind) s = None" and "checked_add (d_next (dmap d kind)) 1 = Some nxt"
    and "tinsert R t (dict_key kind (d_next (dmap d kind))) s = Inl e"
  shows "\<exists>d' t' j'. intern R kind s (d, t, journal_default) = (Inl (Storage e), d', t', j') \<and>
    d_next (dmap (dicts_revert j' d') kind) = d_next (dmap d kind) + 1"
  using assms
  by (auto simp: intern_def Let_def dicts_revert_def journal_default_def checked_add_def split: if_splits)

theorem intern_io_failure_leaks_id_witness:
  "\<exists>d' t' j'. intern (rbt_ops\<lparr>tinsert := \<lambda>_ _ _. Inl (RedbFailure ''disk full'')\<rparr>) Label ''A'' (dicts_default, RBT.empty, journal_default)
      = (Inl (Storage (RedbFailure ''disk full'')), d', t', j') \<and>
    d_next (dmap (dicts_revert j' d') Label) = d_next (dmap dicts_default Label) + 1"
  by (rule intern_io_failure_leaks_id [where nxt = 1])
     (simp_all add: dicts_default_def dict_map_default_def checked_add_def)

text \<open>Reopening rebuilds the mirror: loading a dictionary table that the mirror agrees with yields
  exactly that mirror, ids and counters included.\<close>

theorem dicts_reload:
  assumes "redb_table R rows" and "dicts_wf d" and "dict_synced (rows t) d" and "titer R t = Inr es"
  shows "load_from_table R t = Inr d"
  using assms by (blast intro: load_from_table_synced)

theorem dicts_reload_witness:
  "load_from_table rbt_ops (RBT.empty :: (bytes, string) rbt) = Inr dicts_default"
proof (rule dicts_reload [OF rbt_tab.redb_table_axioms dicts_wf_default])
  show "dict_synced (RBT.lookup RBT.empty) dicts_default"
    unfolding dict_synced_def
  proof (intro conjI allI)
    fix k i
    show "RBT.lookup RBT.empty (dict_key k i) = d_ids (dmap dicts_default k) i"
      by (cases k) (simp_all add: dicts_default_def dict_map_default_def)
  qed simp
  show "titer rbt_ops RBT.empty = Inr (RBT.entries RBT.empty)" by (simp add: rbt_ops_def)
qed

end
