(* ===== verification/Scopes.thy ===== *)
theory Scopes
  imports Dict Ids
begin

text \<open>
  The scope registry (\<^verbatim>\<open>crates/topodb/src/scopes.rs\<close>, with \<^verbatim>\<open>scope_key\<close> of \<^verbatim>\<open>storage.rs\<close>): scopes are
  interned to 32-bit ids in the same way as dictionary names, with the shared scope at id 0.
\<close>

definition scope_key :: "scope \<Rightarrow> bytes" where
  "scope_key s = (case s of Shared \<Rightarrow> replicate 17 0 | Id i \<Rightarrow> 1 # u128_to_be (scope_u128 i))"

definition scope_from_key :: "bytes \<Rightarrow> scope result" where
  "scope_from_key bs =
     (if hd bs = 0 then
        if \<exists>x \<in> set (tl bs). x \<noteq> 0 then Inl (Encoding ''bad shared scope key'') else Inr Shared
      else if hd bs = 1 then Inr (Id (ScopeId (u128_from_be (tl bs))))
      else Inl (Encoding ''bad scope key tag''))"

record scope_registry =
  by_scope :: "scope \<rightharpoonup> u32"
  by_id :: "u32 \<rightharpoonup> scope"
  s_next :: u32

definition registry_default :: scope_registry where
  "registry_default = \<lparr>by_scope = Map.empty, by_id = Map.empty, s_next = 0\<rparr>"

definition load_scope_row :: "bytes \<times> bytes \<Rightarrow> scope_registry \<Rightarrow> scope_registry result" where
  "load_scope_row row r =
     (case row of (k, v) \<Rightarrow>
        rbind (try_into 4 (Encoding ''bad scope registry id'') k) (\<lambda>key_bytes.
        rbind (try_into 17 (Encoding ''bad scope registry value'') v) (\<lambda>scope_bytes.
        let i = u32_from_be key_bytes
        in rbind (scope_from_key scope_bytes) (\<lambda>scope.
           rbind (ok_or (Encoding ''scope id exhausted'') (checked_add i 1)) (\<lambda>i1.
           Inr \<lparr>by_scope = (by_scope r)(scope \<mapsto> i), by_id = (by_id r)(i \<mapsto> scope),
                s_next = max (s_next r) i1\<rparr>)))))"

definition load_table_for_rebuild :: "('t, bytes, bytes) table_ops \<Rightarrow> 't \<Rightarrow> scope_registry result" where
  "load_table_for_rebuild R t =
     rbind (redb (titer R t)) (\<lambda>rs.
     rbind (rfold load_scope_row rs registry_default) (\<lambda>r.
     if by_id r 0 \<noteq> Some Shared then Inl (Encoding ''scope registry missing shared row'') else Inr r))"

definition load_registry :: "('t, bytes, bytes) table_ops \<Rightarrow> redb_error + 't option \<Rightarrow> scope_registry result" where
  "load_registry R opened = rbind (redb opened) (\<lambda>t.
     case t of None \<Rightarrow> Inr registry_default | Some t \<Rightarrow> load_table_for_rebuild R t)"

definition scope_intern :: "('t, bytes, bytes) table_ops \<Rightarrow> scope
    \<Rightarrow> scope_registry \<times> 't \<times> intern_journal \<Rightarrow> u32 result \<times> scope_registry \<times> 't \<times> intern_journal" where
  "scope_intern R scope = (\<lambda>(r, t, j).
     case by_scope r scope of
       Some i \<Rightarrow> (Inr i, r, t, j)
     | None \<Rightarrow>
         (let i = s_next r
          in case checked_add i 1 of
               None \<Rightarrow> (Inl (Encoding ''scope id exhausted''), r, t, j)
             | Some nxt \<Rightarrow>
                 (let r1 = r\<lparr>s_next := nxt\<rparr>
                  in case redb (tinsert R t (u32_to_be i) (scope_key scope)) of
                       Inl e \<Rightarrow> (Inl e, r1, t, j)
                     | Inr t' \<Rightarrow>
                         (Inr i, \<lparr>by_scope = (by_scope r)(scope \<mapsto> i), by_id = (by_id r)(i \<mapsto> scope), s_next = nxt\<rparr>,
                          t', j\<lparr>scope_ids := scope_ids j @ [i]\<rparr>))))"

definition scope_revert_one :: "u32 \<Rightarrow> scope_registry \<Rightarrow> scope_registry" where
  "scope_revert_one i r =
     (let r1 = (case by_id r i of
                  Some scope \<Rightarrow> r\<lparr>by_id := (by_id r)(i := None), by_scope := (by_scope r)(scope := None)\<rparr>
                | None \<Rightarrow> r)
      in r1\<lparr>s_next := i\<rparr>)"

definition scopes_revert :: "intern_journal \<Rightarrow> scope_registry \<Rightarrow> scope_registry" where
  "scopes_revert j r = fold scope_revert_one (rev (scope_ids j)) r"

definition scope_resolve :: "scope_registry \<Rightarrow> u32 \<Rightarrow> scope result" where
  "scope_resolve r i = ok_or (Encoding ''unknown scope id'') (by_id r i)"

definition scope_id_of :: "scope_registry \<Rightarrow> scope \<Rightarrow> u32 option" where
  "scope_id_of r scope = by_scope r scope"

definition shared_is_seeded :: "('t, bytes, bytes) table_ops \<Rightarrow> 't \<Rightarrow> bool result" where
  "shared_is_seeded R t = rbind (redb (tget R t (u32_to_be 0))) (\<lambda>v. Inr (v \<noteq> None))"

definition seed_shared :: "('t, bytes, bytes) table_ops \<Rightarrow> 't \<Rightarrow> 't result" where
  "seed_shared R t =
     rbind (redb (tget R t (u32_to_be 0))) (\<lambda>v.
     if v = None then redb (tinsert R t (u32_to_be 0) (scope_key Shared)) else Inr t)"

section \<open>Scope keys\<close>

lemma length_scope_key [simp]: "length (scope_key s) = 17"
  by (cases s) (auto simp: scope_key_def)

lemma scope_from_key_scope_key [simp]: "scope_from_key (scope_key s) = Inr s"
proof (cases s)
  case Shared
  then show ?thesis by (simp add: scope_key_def scope_from_key_def)
next
  case (Id i)
  then show ?thesis by (cases i) (simp add: scope_key_def scope_from_key_def)
qed

lemma scope_key_inject [simp]: "scope_key s = scope_key s' \<longleftrightarrow> s = s'"
  by (metis scope_from_key_scope_key sum.inject(2))

section \<open>Invariants\<close>

definition registry_wf :: "scope_registry \<Rightarrow> bool" where
  "registry_wf r \<longleftrightarrow> (\<forall>s i. by_scope r s = Some i \<longleftrightarrow> by_id r i = Some s) \<and>
     (\<forall>i. by_id r i \<noteq> None \<longleftrightarrow> i < s_next r)"

lemma registry_next_None: "registry_wf r \<Longrightarrow> by_id r (s_next r) = None"
  by (metis registry_wf_def less_irrefl)

lemma scope_intern_cases:
  assumes "scope_intern R s (d, t, j) = (r, d', t', j')"
  obtains (known) i where "by_scope d s = Some i" "r = Inr i" "d' = d" "t' = t" "j' = j"
  | (full) "by_scope d s = None" "checked_add (s_next d) 1 = None"
      "r = Inl (Encoding ''scope id exhausted'')" "d' = d" "t' = t" "j' = j"
  | (failed) nxt e where "by_scope d s = None" "checked_add (s_next d) 1 = Some nxt"
      "tinsert R t (u32_to_be (s_next d)) (scope_key s) = Inl e"
      "r = Inl (Storage e)" "d' = d\<lparr>s_next := nxt\<rparr>" "t' = t" "j' = j"
  | (fresh) nxt where "by_scope d s = None" "checked_add (s_next d) 1 = Some nxt"
      "tinsert R t (u32_to_be (s_next d)) (scope_key s) = Inr t'"
      "r = Inr (s_next d)"
      "d' = \<lparr>by_scope = (by_scope d)(s \<mapsto> s_next d), by_id = (by_id d)(s_next d \<mapsto> s), s_next = nxt\<rparr>"
      "j' = j\<lparr>scope_ids := scope_ids j @ [s_next d]\<rparr>"
proof (cases "by_scope d s")
  case (Some i)
  with assms show ?thesis by (simp add: scope_intern_def known)
next
  case names: None
  show ?thesis
  proof (cases "checked_add (s_next d) 1")
    case None
    with assms names show ?thesis by (simp add: scope_intern_def full)
  next
    case (Some nxt)
    with assms names show ?thesis
      by (cases "tinsert R t (u32_to_be (s_next d)) (scope_key s)")
         (simp_all add: scope_intern_def Let_def failed fresh)
  qed
qed

lemma registry_wf_extend:
  assumes "registry_wf r" "by_scope r s = None" "checked_add (s_next r) 1 = Some nxt"
  shows "registry_wf \<lparr>by_scope = (by_scope r)(s \<mapsto> s_next r), by_id = (by_id r)(s_next r \<mapsto> s), s_next = nxt\<rparr>"
proof -
  have none: "by_id r (s_next r) = None" using assms(1) by (rule registry_next_None)
  have "unat nxt = unat (s_next r) + 1" using checked_add_unat [OF assms(3)] by simp
  then have "i < nxt \<longleftrightarrow> i < s_next r \<or> i = s_next r" for i
    by (auto simp: word_less_nat_alt word_unat_eq_iff)
  moreover have "by_scope r s' \<noteq> Some (s_next r)" for s'
    using assms(1) none by (auto simp: registry_wf_def)
  moreover have "by_id r i \<noteq> Some s" for i
    using assms(1,2) by (metis registry_wf_def option.distinct(1))
  ultimately show ?thesis using assms(1,2) none by (auto simp: registry_wf_def)
qed

lemma scope_intern_wf:
  assumes "scope_intern R s (d, t, j) = (r, d', t', j')" "registry_wf d" "\<nexists>e. r = Inl (Storage e)"
  shows "registry_wf d'"
  using assms(1)
  by (cases rule: scope_intern_cases) (use assms in \<open>auto intro: registry_wf_extend\<close>)

lemma scope_intern_reverted:
  assumes "scope_intern R s (d, t, j) = (r, d', t', j')" "registry_wf d" "\<nexists>e. r = Inl (Storage e)"
  shows "scopes_revert j' d' = scopes_revert j d"
  using assms(1)
proof (cases rule: scope_intern_cases)
  case (fresh nxt)
  have none: "by_id d (s_next d) = None" using assms(2) by (rule registry_next_None)
  have "(by_scope d)(s := None) = by_scope d" "(by_id d)(s_next d := None) = by_id d"
    using fresh(1) none by (auto simp: fun_eq_iff)
  then have "scope_revert_one (s_next d) d' = d"
    using fresh by (simp add: scope_revert_one_def scope_registry.equality)
  then show ?thesis using fresh by (simp add: scopes_revert_def)
qed (use assms in auto)

definition scopes_synced :: "(bytes \<rightharpoonup> bytes) \<Rightarrow> scope_registry \<Rightarrow> bool" where
  "scopes_synced rs r \<longleftrightarrow> (\<forall>i. rs (u32_to_be i) = map_option scope_key (by_id r i)) \<and>
     (\<forall>b. rs b \<noteq> None \<longrightarrow> length b = 4)"

lemma scope_intern_synced:
  assumes "redb_table R rows" "scope_intern R s (d, t, j) = (r, d', t', j')" "scopes_synced (rows t) d"
  shows "scopes_synced (rows t') d'"
  using assms(2)
proof (cases rule: scope_intern_cases)
  case (fresh nxt)
  have "rows t' = (rows t)(u32_to_be (s_next d) \<mapsto> scope_key s)"
    using redb_table.insert_ok [OF assms(1) fresh(3)] .
  with assms(3) fresh show ?thesis by (auto simp: scopes_synced_def)
qed (use assms(3) in \<open>auto simp: scopes_synced_def\<close>)

text \<open>
  Reloading: after reading some of the rows the registry holds exactly those rows, and its counter is
  beyond every id read but not beyond the counter of the mirror the table was written by.
\<close>

definition scopes_loaded :: "scope_registry \<Rightarrow> (bytes \<times> bytes) list \<Rightarrow> scope_registry \<Rightarrow> bool" where
  "scopes_loaded r us r' \<longleftrightarrow> (\<forall>i. map_option scope_key (by_id r' i) = map_of us (u32_to_be i)) \<and>
     (\<forall>s i. by_scope r' s = Some i \<longleftrightarrow> by_id r' i = Some s) \<and>
     (\<forall>i. by_id r' i \<noteq> None \<longrightarrow> i < s_next r') \<and> s_next r' \<le> s_next r"

lemma load_scope_row_loaded:
  assumes wf: "registry_wf r" and i: "by_id r i = Some s" and l: "scopes_loaded r us r'"
    and new: "u32_to_be i \<notin> fst ` set us" and sub: "\<And>j x. by_id r' j = Some x \<Longrightarrow> by_id r j = Some x"
  shows "\<exists>r''. load_scope_row (u32_to_be i, scope_key s) r' = Inr r'' \<and> scopes_loaded r (us @ [(u32_to_be i, scope_key s)]) r''"
proof -
  have lt: "i < s_next r" using wf i by (metis registry_wf_def option.distinct(1))
  then have "unat i + 1 < 2 ^ 32" using unat_bound [of "s_next r"] by (simp add: word_less_nat_alt)
  then obtain i1 where i1: "checked_add i 1 = Some i1" by (simp add: checked_add_def)
  then have i1': "unat i1 = unat i + 1" using checked_add_unat by fastforce
  let ?r = "\<lparr>by_scope = (by_scope r')(s \<mapsto> i), by_id = (by_id r')(i \<mapsto> s), s_next = max (s_next r') i1\<rparr>"
  have run: "load_scope_row (u32_to_be i, scope_key s) r' = Inr ?r" using i1 by (simp add: load_scope_row_def Let_def)
  have none: "map_of us (u32_to_be i) = None" using new by (simp add: map_of_eq_None_iff)
  have ids: "map_option scope_key (by_id r' j) = map_of us (u32_to_be j)" for j using l by (simp add: scopes_loaded_def)
  have fresh: "by_id r' i = None" using ids [of i] none by simp
  have inv: "by_scope r' x = Some j \<longleftrightarrow> by_id r' j = Some x" for x j using l by (simp add: scopes_loaded_def)
  have news: "by_id r' j \<noteq> Some s" for j
    using sub [of j s] i wf fresh by (metis registry_wf_def option.distinct(1) option.inject)
  have "map_option scope_key (by_id ?r j) = map_of (us @ [(u32_to_be i, scope_key s)]) (u32_to_be j)" for j
    using ids [of j] none by (auto simp: map_add_def split: option.splits)
  moreover have "by_scope ?r x = Some j \<longleftrightarrow> by_id ?r j = Some x" for x j using inv fresh news by auto
  moreover have "j < s_next ?r" if "by_id ?r j \<noteq> None" for j
    using that l checked_add_less [OF i1] by (auto simp: scopes_loaded_def less_max_iff_disj split: if_splits)
  moreover have "s_next ?r \<le> s_next r" using l lt i1' by (auto simp: scopes_loaded_def max_def word_le_nat_alt word_less_nat_alt)
  ultimately show ?thesis unfolding run scopes_loaded_def by blast
qed

lemma rfold_load_scopes:
  assumes "registry_wf r" "scopes_synced (map_of es) r" "distinct (map fst es)"
  shows "es = us @ vs \<Longrightarrow> \<exists>r'. rfold load_scope_row us registry_default = Inr r' \<and> scopes_loaded r us r'"
proof (induction us arbitrary: vs rule: rev_induct)
  case Nil
  then show ?case by (simp add: registry_default_def scopes_loaded_def)
next
  case (snoc x us)
  obtain b v where x: "x = (b, v)" by fastforce
  from snoc.IH [of "x # vs"] snoc.prems obtain r' where r': "rfold load_scope_row us registry_default = Inr r'" "scopes_loaded r us r'" by auto
  have es: "es = us @ (b, v) # vs" using snoc.prems x by simp
  have bv: "map_of es b = Some v" using es by (intro map_of_is_SomeI [OF assms(3)]) simp
  then have "length b = 4" using assms(2) by (metis scopes_synced_def option.distinct(1))
  then obtain i where b: "b = u32_to_be i" using be_bytes_exist(2) by blast
  obtain s where s: "by_id r i = Some s" "v = scope_key s" using assms(2) bv b by (auto simp: scopes_synced_def)
  have sub: "by_id r j = Some y" if "by_id r' j = Some y" for j y
  proof -
    have "map_of us (u32_to_be j) = Some (scope_key y)" using r'(2) that by (metis scopes_loaded_def option.map(2))
    then have "map_of es (u32_to_be j) = Some (scope_key y)" using assms(3) es by (auto simp: map_add_Some_iff dest: map_of_SomeD)
    then show ?thesis using assms(2) by (auto simp: scopes_synced_def)
  qed
  have "u32_to_be i \<notin> fst ` set us" using assms(3) es b by auto
  from load_scope_row_loaded [OF assms(1) s(1) r'(2) this sub] r'(1) show ?case by (auto simp: rfold_append x b s(2))
qed

lemma load_scopes_synced:
  assumes "redb_table R rows" "titer R t = Inr es" "registry_wf r" "scopes_synced (rows t) r" "by_id r 0 = Some Shared"
  shows "load_table_for_rebuild R t = Inr r"
proof -
  have es: "bt_wf es" "map_of es = rows t" using redb_table.iter_ok [OF assms(1,2)] by auto
  then have dist: "distinct (map fst es)" by (blast intro: bt_wf_distinct)
  from rfold_load_scopes [OF assms(3) _ dist, of es "[]"] assms(4) es(2)
  obtain r' where r': "rfold load_scope_row es registry_default = Inr r'" "scopes_loaded r es r'" by auto
  have k: "map_option scope_key (by_id r' i) = map_option scope_key (by_id r i)" for i
    using r'(2) assms(4) es(2) by (simp add: scopes_loaded_def scopes_synced_def)
  have ids: "by_id r' = by_id r"
  proof
    fix i show "by_id r' i = by_id r i" using k [of i] by (cases "by_id r' i"; cases "by_id r i") auto
  qed
  have "by_scope r' x = Some i \<longleftrightarrow> by_scope r x = Some i" for x i
    using r'(2) assms(3) ids by (simp add: scopes_loaded_def registry_wf_def)
  then have names: "by_scope r' = by_scope r" by (intro ext) (metis option.exhaust)
  have "\<not> s_next r' < s_next r"
  proof
    assume "s_next r' < s_next r"
    then have "by_id r' (s_next r') \<noteq> None" using assms(3) ids by (simp add: registry_wf_def)
    then show False using r'(2) unfolding scopes_loaded_def by blast
  qed
  then have "s_next r' = s_next r" using r'(2) by (simp add: scopes_loaded_def)
  with ids names have "r' = r" by (simp add: scope_registry.equality)
  with r'(1) assms(2,5) show ?thesis by (simp add: load_table_for_rebuild_def)
qed

section \<open>Properties\<close>

text \<open>The 17-byte scope key is a faithful encoding: decoding it gives the scope back, so distinct
  scopes never share a key.\<close>

theorem scope_key_roundtrip: "scope_from_key (scope_key s) = Inr s"
  by simp

text \<open>C30. Interning a scope keeps the registry well formed and consistent with its table, and the id
  returned resolves to that scope and is the one later lookups find.\<close>

theorem scope_intern_correct:
  assumes "redb_table R rows" and "registry_wf d" and "scopes_synced (rows t) d"
    and "scope_intern R s (d, t, j) = (Inr i, d', t', j')"
  shows "registry_wf d' \<and> scopes_synced (rows t') d' \<and> scope_resolve d' i = Inr s \<and> scope_id_of d' s = Some i"
proof -
  have "registry_wf d'" using scope_intern_wf [OF assms(4,2)] by simp
  moreover have "by_id d' i = Some s \<and> by_scope d' s = Some i"
    using assms(4)
    by (cases rule: scope_intern_cases) (use assms(2) in \<open>auto simp: registry_wf_def\<close>)
  ultimately show ?thesis
    using scope_intern_synced [OF assms(1,4,3)] by (simp add: scope_resolve_def scope_id_of_def)
qed

theorem scope_intern_correct_witness:
  "\<exists>d' t' j'. scope_intern rbt_ops Shared (registry_default, RBT.empty, journal_default) = (Inr 0, d', t', j')
     \<and> scope_resolve d' 0 = Inr Shared"
proof -
  have wf: "registry_wf registry_default" by (simp add: registry_wf_def registry_default_def)
  have sy: "scopes_synced (RBT.lookup RBT.empty) registry_default"
    by (simp add: scopes_synced_def registry_default_def)
  obtain d' t' j' where run: "scope_intern rbt_ops Shared (registry_default, RBT.empty, journal_default) = (Inr 0, d', t', j')"
    by (auto simp: scope_intern_def registry_default_def rbt_ops_def checked_add_def Let_def)
  from scope_intern_correct [OF rbt_tab.redb_table_axioms wf sy run] run show ?thesis by blast
qed

end
