(* ===== verification/Slots.thy ===== *)
theory Slots
  imports Redb Ids
begin

text \<open>
  Dense slots (\<^verbatim>\<open>crates/topodb/src/slots.rs\<close>): every node and edge gets a 64-bit slot from a
  monotonic counter, recorded in a forward table (id to slot) and a reverse table (slot to id).
  The invariant \<open>slots_inv\<close> says that the tables are inverse to each other and that every slot in
  use lies below the counter; it follows that a slot is never handed out twice.
\<close>

definition id_key :: "u128 \<Rightarrow> bytes" where "id_key i = u128_to_be i"
definition slot_key :: "u64 \<Rightarrow> bytes" where "slot_key s = u64_to_be s"

definition read_slot :: "('b, bytes, bytes) table_ops \<Rightarrow> 'b \<Rightarrow> u128 \<Rightarrow> u64 option result" where
  "read_slot R t i =
     rbind (redb (tget R t (id_key i))) (\<lambda>v. case v of
        None \<Rightarrow> Inr None
      | Some b \<Rightarrow> rbind (try_into 8 (Encoding ''bad slot value'') b) (\<lambda>b. Inr (Some (u64_from_le b))))"

definition read_id :: "('b, bytes, bytes) table_ops \<Rightarrow> 'b \<Rightarrow> u64 \<Rightarrow> u128 option result" where
  "read_id R t s =
     rbind (redb (tget R t (slot_key s))) (\<lambda>v. case v of
        None \<Rightarrow> Inr None
      | Some b \<Rightarrow> rbind (try_into 16 (Encoding ''bad slot id'') b) (\<lambda>b. Inr (Some (u128_from_be b))))"

definition read_counter_slot :: "('m, string, bytes) table_ops \<Rightarrow> 'm \<Rightarrow> string \<Rightarrow> u64 result" where
  "read_counter_slot M meta counter =
     rbind (redb (tget M meta counter)) (\<lambda>v. case v of
        None \<Rightarrow> Inr 0
      | Some b \<Rightarrow> rbind (try_into 8 (Encoding ''bad slot counter'') b) (\<lambda>b. Inr (u64_from_le b)))"

definition alloc :: "('m, string, bytes) table_ops \<Rightarrow> ('b, bytes, bytes) table_ops
    \<Rightarrow> 'm \<Rightarrow> 'b \<Rightarrow> 'b \<Rightarrow> string \<Rightarrow> u128 \<Rightarrow> (u64 \<times> 'm \<times> 'b \<times> 'b) result" where
  "alloc M R meta forward rvs counter i =
     rbind (read_slot R forward i) (\<lambda>existing. case existing of
        Some slot \<Rightarrow> Inr (slot, meta, forward, rvs)
      | None \<Rightarrow>
          rbind (read_counter_slot M meta counter) (\<lambda>slot.
          rbind (ok_or (Encoding ''slot space exhausted'') (checked_add slot 1)) (\<lambda>nxt.
          rbind (redb (tinsert R forward (id_key i) (u64_to_le slot))) (\<lambda>forward'.
          rbind (redb (tinsert R rvs (slot_key slot) (id_key i))) (\<lambda>rvs'.
          rbind (redb (tinsert M meta counter (u64_to_le nxt))) (\<lambda>meta'.
          Inr (slot, meta', forward', rvs')))))))"

definition alloc_node_slot where
  "alloc_node_slot M R meta slots node_ids i = alloc M R meta slots node_ids ''next_node_slot'' (node_u128 i)"

definition alloc_edge_slot where
  "alloc_edge_slot M R meta slots edge_ids i = alloc M R meta slots edge_ids ''next_edge_slot'' (edge_u128 i)"

definition node_slot :: "('b, bytes, bytes) table_ops \<Rightarrow> 'b \<Rightarrow> node_id \<Rightarrow> u64 option result" where
  "node_slot R t i = read_slot R t (node_u128 i)"

definition edge_slot :: "('b, bytes, bytes) table_ops \<Rightarrow> 'b \<Rightarrow> edge_id \<Rightarrow> u64 option result" where
  "edge_slot R t i = read_slot R t (edge_u128 i)"

definition node_ulid :: "('b, bytes, bytes) table_ops \<Rightarrow> 'b \<Rightarrow> u64 \<Rightarrow> node_id option result" where
  "node_ulid R t s = rbind (read_id R t s) (\<lambda>v. Inr (map_option NodeId v))"

definition edge_ulid :: "('b, bytes, bytes) table_ops \<Rightarrow> 'b \<Rightarrow> u64 \<Rightarrow> edge_id option result" where
  "edge_ulid R t s = rbind (read_id R t s) (\<lambda>v. Inr (map_option EdgeId v))"

definition remove_mapping :: "('b, bytes, bytes) table_ops \<Rightarrow> 'b \<Rightarrow> 'b \<Rightarrow> u128 \<Rightarrow> ('b \<times> 'b) result" where
  "remove_mapping R forward rvs i =
     rbind (read_slot R forward i) (\<lambda>existing. case existing of
        None \<Rightarrow> Inr (forward, rvs)
      | Some slot \<Rightarrow>
          rbind (redb (tremove R forward (id_key i))) (\<lambda>(_, forward').
          rbind (redb (tremove R rvs (slot_key slot))) (\<lambda>(_, rvs').
          Inr (forward', rvs'))))"

definition remove_node_mapping where
  "remove_node_mapping R forward rvs i = remove_mapping R forward rvs (node_u128 i)"

definition remove_edge_mapping where
  "remove_edge_mapping R forward rvs i = remove_mapping R forward rvs (edge_u128 i)"

section \<open>The invariant\<close>

lemma id_key_inject [simp]: "id_key i = id_key i' \<longleftrightarrow> i = i'"
  by (simp add: id_key_def)

lemma slot_key_inject [simp]: "slot_key i = slot_key i' \<longleftrightarrow> i = i'"
  by (simp add: slot_key_def)

lemma length_keys [simp]: "length (id_key i) = 16" "length (slot_key s) = 8"
  by (simp_all add: id_key_def slot_key_def)

lemma id_key_roundtrip [simp]: "u128_from_be (id_key i) = i"
  by (simp add: id_key_def)

definition slots_inv :: "(bytes \<rightharpoonup> bytes) \<Rightarrow> (bytes \<rightharpoonup> bytes) \<Rightarrow> u64 \<Rightarrow> bool" where
  "slots_inv fw rv n \<longleftrightarrow>
     (\<forall>i b. fw (id_key i) = Some b \<longrightarrow> (\<exists>s. b = u64_to_le s \<and> s < n \<and> rv (slot_key s) = Some (id_key i))) \<and>
     (\<forall>s b. rv (slot_key s) = Some b \<longrightarrow> (\<exists>i. b = id_key i \<and> fw (id_key i) = Some (u64_to_le s)))"

definition counter_is :: "(string \<rightharpoonup> bytes) \<Rightarrow> string \<Rightarrow> u64 \<Rightarrow> bool" where
  "counter_is meta counter n \<longleftrightarrow>
     (case meta counter of None \<Rightarrow> n = 0 | Some b \<Rightarrow> b = u64_to_le n)"

lemma slots_inv_fwd:
  "slots_inv fw rv n \<Longrightarrow> fw (id_key i) = Some b \<Longrightarrow>
     \<exists>s. b = u64_to_le s \<and> s < n \<and> rv (slot_key s) = Some (id_key i)"
  unfolding slots_inv_def by blast

lemma slots_inv_slot:
  "slots_inv fw rv n \<Longrightarrow> fw (id_key i) = Some (u64_to_le s) \<Longrightarrow> s < n \<and> rv (slot_key s) = Some (id_key i)"
  using slots_inv_fwd [of fw rv n i "u64_to_le s"] by auto

lemma slots_inv_rvs:
  "slots_inv fw rv n \<Longrightarrow> rv (slot_key s) = Some b \<Longrightarrow> \<exists>i. b = id_key i \<and> fw (id_key i) = Some (u64_to_le s)"
  unfolding slots_inv_def by blast

lemma slots_inv_inj:
  "slots_inv fw rv n \<Longrightarrow> fw (id_key i) = Some (u64_to_le s) \<Longrightarrow> fw (id_key i') = Some (u64_to_le s) \<Longrightarrow> i = i'"
  using slots_inv_slot [of fw rv n i s] slots_inv_slot [of fw rv n i' s] by simp

lemma slots_inv_alloc:
  assumes inv: "slots_inv fw rv n" and new: "fw (id_key i) = None" and nxt: "checked_add n 1 = Some n'"
  shows "slots_inv (fw(id_key i \<mapsto> u64_to_le n)) (rv(slot_key n \<mapsto> id_key i)) n'"
proof -
  have lt: "n < n'" using checked_add_less [OF nxt] .
  have free: "rv (slot_key n) = None"
  proof (rule ccontr)
    assume "rv (slot_key n) \<noteq> None"
    then obtain i' where "fw (id_key i') = Some (u64_to_le n)" using slots_inv_rvs [OF inv] by blast
    then show False using slots_inv_slot [OF inv] by blast
  qed
  show ?thesis unfolding slots_inv_def
  proof (intro conjI allI impI)
    fix i' b
    assume "(fw(id_key i \<mapsto> u64_to_le n)) (id_key i') = Some b"
    then show "\<exists>s. b = u64_to_le s \<and> s < n' \<and> (rv(slot_key n \<mapsto> id_key i)) (slot_key s) = Some (id_key i')"
    proof (cases "i' = i")
      case False
      with \<open>_ = Some b\<close> have "fw (id_key i') = Some b" by simp
      from slots_inv_fwd [OF inv this] obtain s where s: "b = u64_to_le s" "s < n" "rv (slot_key s) = Some (id_key i')"
        by blast
      with lt show ?thesis by (intro exI [of _ s]) auto
    qed (use lt in auto)
  next
    fix s b
    assume "(rv(slot_key n \<mapsto> id_key i)) (slot_key s) = Some b"
    then show "\<exists>i'. b = id_key i' \<and> (fw(id_key i \<mapsto> u64_to_le n)) (id_key i') = Some (u64_to_le s)"
    proof (cases "s = n")
      case False
      with \<open>_ = Some b\<close> have "rv (slot_key s) = Some b" by simp
      from slots_inv_rvs [OF inv this] new show ?thesis by (metis fun_upd_other option.distinct(1))
    qed auto
  qed
qed

lemma slots_inv_remove:
  assumes inv: "slots_inv fw rv n" and old: "fw (id_key i) = Some (u64_to_le s)"
  shows "slots_inv (fw(id_key i := None)) (rv(slot_key s := None)) n"
  unfolding slots_inv_def
proof (intro conjI allI impI)
  fix i' b
  assume a: "(fw(id_key i := None)) (id_key i') = Some b"
  then have ne: "i' \<noteq> i" and b: "fw (id_key i') = Some b" by (auto split: if_splits)
  then obtain s' where s': "b = u64_to_le s'" "s' < n" "rv (slot_key s') = Some (id_key i')"
    using slots_inv_fwd [OF inv] by blast
  have "s' \<noteq> s" using slots_inv_inj [OF inv, of i' s i] b s'(1) old ne by auto
  then show "\<exists>s'. b = u64_to_le s' \<and> s' < n \<and> (rv(slot_key s := None)) (slot_key s') = Some (id_key i')"
    using s' by auto
next
  fix s' b
  assume a: "(rv(slot_key s := None)) (slot_key s') = Some b"
  then have ne: "s' \<noteq> s" and b: "rv (slot_key s') = Some b" by (auto split: if_splits)
  then obtain i' where i': "b = id_key i'" "fw (id_key i') = Some (u64_to_le s')"
    using slots_inv_rvs [OF inv] by blast
  then have "i' \<noteq> i" using old ne by auto
  then show "\<exists>i'. b = id_key i' \<and> (fw(id_key i := None)) (id_key i') = Some (u64_to_le s')"
    using i' by auto
qed

section \<open>Reading and allocating\<close>

lemma read_slot_rows:
  assumes "redb_table R rows" "slots_inv (rows fwd) rv n" "read_slot R fwd i = Inr r"
  shows "rows fwd (id_key i) = map_option u64_to_le r"
proof -
  from assms(3) obtain v where g: "tget R fwd (id_key i) = Inr v"
    and r: "(case v of None \<Rightarrow> Inr None
      | Some b \<Rightarrow> rbind (try_into 8 (Encoding ''bad slot value'') b) (\<lambda>b. Inr (Some (u64_from_le b)))) = Inr r"
    by (auto simp: read_slot_def rbind_Inr)
  from redb_table.get_ok [OF assms(1) g] have v: "v = rows fwd (id_key i)" .
  show ?thesis
  proof (cases v)
    case (Some b)
    with v obtain s where "b = u64_to_le s" using slots_inv_fwd [OF assms(2), of i b] by auto
    with Some v r show ?thesis by (auto simp: rbind_Inr)
  qed (use v r in auto)
qed

lemma read_counter_rows:
  assumes "redb_table M mrows" "counter_is (mrows meta) counter n" "read_counter_slot M meta counter = Inr m"
  shows "m = n"
proof -
  from assms(3) obtain v where g: "tget M meta counter = Inr v"
    and r: "(case v of None \<Rightarrow> Inr 0
      | Some b \<Rightarrow> rbind (try_into 8 (Encoding ''bad slot counter'') b) (\<lambda>b. Inr (u64_from_le b))) = Inr m"
    by (auto simp: read_counter_slot_def rbind_Inr)
  from redb_table.get_ok [OF assms(1) g] assms(2) r show ?thesis
    by (auto simp: counter_is_def rbind_Inr split: option.splits)
qed

lemma alloc_correct:
  assumes tabs: "redb_table M mrows" "redb_table R rows"
    and inv: "slots_inv (rows fwd) (rows rvs) n" "counter_is (mrows meta) counter n"
    and run: "alloc M R meta fwd rvs counter i = Inr (s, meta', fwd', rvs')"
  shows "\<exists>n'. slots_inv (rows fwd') (rows rvs') n' \<and> counter_is (mrows meta') counter n' \<and> n \<le> n' \<and>
    rows fwd' (id_key i) = Some (u64_to_le s) \<and> rows rvs' (slot_key s) = Some (id_key i) \<and>
    (\<forall>i'. i' \<noteq> i \<longrightarrow> rows fwd' (id_key i') = rows fwd (id_key i')) \<and>
    (\<forall>c. c \<noteq> counter \<longrightarrow> mrows meta' c = mrows meta c) \<and>
    (rows fwd (id_key i) = None \<longrightarrow> s = n \<and> n < n')"
proof -
  from run obtain ex where ex: "read_slot R fwd i = Inr ex" by (auto simp: alloc_def rbind_Inr)
  note exr = read_slot_rows [OF tabs(2) inv(1) ex]
  show ?thesis
  proof (cases ex)
    case (Some s')
    with run ex have "s = s'" "meta' = meta" "fwd' = fwd" "rvs' = rvs" by (auto simp: alloc_def)
    moreover have "rows rvs (slot_key s') = Some (id_key i)"
      using slots_inv_slot [OF inv(1)] exr Some by simp
    ultimately show ?thesis using inv exr Some by auto
  next
    case None
    with run ex obtain m nxt where m: "read_counter_slot M meta counter = Inr m"
      and nxt: "checked_add m 1 = Some nxt" and s: "s = m"
      and f: "tinsert R fwd (id_key i) (u64_to_le m) = Inr fwd'"
      and r: "tinsert R rvs (slot_key m) (id_key i) = Inr rvs'"
      and mt: "tinsert M meta counter (u64_to_le nxt) = Inr meta'"
      by (auto simp: alloc_def rbind_Inr)
    have mn: "m = n" using read_counter_rows [OF tabs(1) inv(2) m] .
    note rws = redb_table.insert_ok [OF tabs(2) f] redb_table.insert_ok [OF tabs(2) r]
      redb_table.insert_ok [OF tabs(1) mt]
    have new: "rows fwd (id_key i) = None" using exr None by simp
    have "slots_inv (rows fwd') (rows rvs') nxt"
      using slots_inv_alloc [OF inv(1) new] nxt mn rws by simp
    moreover have "counter_is (mrows meta') counter nxt" by (simp add: rws counter_is_def)
    moreover have "n < nxt" using checked_add_less [OF nxt] mn by simp
    ultimately show ?thesis using rws s mn by (intro exI [of _ nxt]) auto
  qed
qed

lemma remove_mapping_correct:
  assumes tab: "redb_table R rows" and inv: "slots_inv (rows fwd) (rows rvs) n"
    and run: "remove_mapping R fwd rvs i = Inr (fwd', rvs')"
  shows "slots_inv (rows fwd') (rows rvs') n \<and> rows fwd' = (rows fwd)(id_key i := None)"
proof -
  from run obtain ex where ex: "read_slot R fwd i = Inr ex" by (auto simp: remove_mapping_def rbind_Inr)
  note exr = read_slot_rows [OF tab inv ex]
  show ?thesis
  proof (cases ex)
    case None
    with run ex exr inv show ?thesis by (auto simp: remove_mapping_def fun_eq_iff)
  next
    case (Some s)
    with run ex obtain o1 o2 where f: "tremove R fwd (id_key i) = Inr (o1, fwd')"
      and r: "tremove R rvs (slot_key s) = Inr (o2, rvs')"
      by (auto simp: remove_mapping_def rbind_Inr)
    then show ?thesis
      using slots_inv_remove [OF inv, of i s] exr Some
        redb_table.remove_ok [OF tab f] redb_table.remove_ok [OF tab r] by simp
  qed
qed

section \<open>Properties\<close>

text \<open>Allocating a slot for an id keeps the forward and reverse tables inverse to each other, records
  the id in both directions, leaves every other id's slot alone, and for a new id hands out exactly the
  counter value, which no earlier allocation has used.\<close>

theorem slot_alloc_correct:
  assumes "redb_table M mrows" and "redb_table R rows"
    and "slots_inv (rows fwd) (rows rvs) n" and "counter_is (mrows meta) counter n"
    and "alloc M R meta fwd rvs counter i = Inr (s, meta', fwd', rvs')"
  shows "\<exists>n'. slots_inv (rows fwd') (rows rvs') n' \<and> counter_is (mrows meta') counter n' \<and> n \<le> n' \<and>
    rows fwd' (id_key i) = Some (u64_to_le s) \<and> rows rvs' (slot_key s) = Some (id_key i) \<and>
    (\<forall>i'. i' \<noteq> i \<longrightarrow> rows fwd' (id_key i') = rows fwd (id_key i')) \<and>
    (rows fwd (id_key i) = None \<longrightarrow> s = n \<and> n < n')"
  using alloc_correct [OF assms] by (elim exE conjE) (rule exI, intro conjI, assumption+)

lemma slots_inv_empty: "slots_inv Map.empty Map.empty n"
  by (simp add: slots_inv_def)

lemma alloc_on_empty:
  "alloc rbt_ops rbt_ops (RBT.empty :: (string, bytes) rbt) RBT.empty RBT.empty c i =
   Inr (0, RBT.insert c (u64_to_le 1) RBT.empty, RBT.insert (id_key i) (u64_to_le 0) RBT.empty,
     RBT.insert (slot_key 0) (id_key i) RBT.empty)"
  by (simp add: alloc_def read_slot_def read_counter_slot_def rbt_ops_def checked_add_def)

lemma counter_is_empty: "counter_is Map.empty c 0"
  by (simp add: counter_is_def)

theorem slot_alloc_correct_witness:
  "\<exists>(meta' :: (string, bytes) rbt) fwd' (rvs' :: (bytes, bytes) rbt) n'.
     alloc rbt_ops rbt_ops RBT.empty RBT.empty RBT.empty ''next_node_slot'' 5 = Inr (0, meta', fwd', rvs') \<and>
     slots_inv (RBT.lookup fwd') (RBT.lookup rvs') n' \<and> 0 < n'"
proof -
  note run = alloc_on_empty [of "''next_node_slot''" 5]
  from slot_alloc_correct [OF rbt_tab.redb_table_axioms rbt_tab.redb_table_axioms _ _ run, of 0]
  show ?thesis using run
    by (simp only: RBT.lookup_empty slots_inv_empty counter_is_empty simp_thms) blast
qed



end
