(* ===== verification/Interning.thy ===== *)
theory Interning
  imports Scopes
begin

text \<open>
  The interning state of a write transaction: the dictionaries, the scope registry, their two
  tables and the journal, which the sources pass side by side as \<^verbatim>\<open>&mut\<close> parameters. The record
  is extensible: the write path adds its other tables to it. A state function \<open>keeps\<close> when,
  unless it fails on an I/O error, it leaves the mirrors well formed, forgets no id, and does not
  change what reverting the journal yields; this is closed under composition, so it is proved
  once per primitive and carried to the whole write path.
\<close>

record ('b, 'd) interning =
  i_dicts :: dicts
  i_dict_table :: 'd
  i_scopes :: scope_registry
  i_scopes_table :: 'b
  i_journal :: intern_journal

definition dict_intern :: "('d, bytes, string) table_ops \<Rightarrow> dict_kind \<Rightarrow> string
    \<Rightarrow> (('b, 'd, 'z) interning_scheme, u32) sm" where
  "dict_intern D kind s st =
     (case intern D kind s (i_dicts st, i_dict_table st, i_journal st) of
        (r, d, t, j) \<Rightarrow> (r, st\<lparr>i_dicts := d, i_dict_table := t, i_journal := j\<rparr>))"

definition registry_intern :: "('b, bytes, bytes) table_ops \<Rightarrow> scope
    \<Rightarrow> (('b, 'd, 'z) interning_scheme, u32) sm" where
  "registry_intern B s st =
     (case scope_intern B s (i_scopes st, i_scopes_table st, i_journal st) of
        (r, g, t, j) \<Rightarrow> (r, st\<lparr>i_scopes := g, i_scopes_table := t, i_journal := j\<rparr>))"

section \<open>Well-formedness, growth and reverting\<close>

definition interning_wf :: "('b, 'd, 'z) interning_scheme \<Rightarrow> bool" where
  "interning_wf st \<longleftrightarrow> dicts_wf (i_dicts st) \<and> registry_wf (i_scopes st)"

text \<open>What the mirrors become when the journal is reverted.\<close>

definition reverted :: "('b, 'd, 'z) interning_scheme \<Rightarrow> dicts \<times> scope_registry" where
  "reverted st = (dicts_revert (i_journal st) (i_dicts st), scopes_revert (i_journal st) (i_scopes st))"

definition dicts_ext :: "dicts \<Rightarrow> dicts \<Rightarrow> bool" where
  "dicts_ext d d' \<longleftrightarrow> (\<forall>k i x. d_ids (dmap d k) i = Some x \<longrightarrow> d_ids (dmap d' k) i = Some x)"

definition registry_ext :: "scope_registry \<Rightarrow> scope_registry \<Rightarrow> bool" where
  "registry_ext g g' \<longleftrightarrow> (\<forall>i x. by_id g i = Some x \<longrightarrow> by_id g' i = Some x)"

definition grows :: "('b, 'd, 'z) interning_scheme \<Rightarrow> ('b, 'd, 'y) interning_scheme \<Rightarrow> bool" where
  "grows st st' \<longleftrightarrow> dicts_ext (i_dicts st) (i_dicts st') \<and> registry_ext (i_scopes st) (i_scopes st')"

lemma dicts_ext_refl [simp]: "dicts_ext d d"
  by (simp add: dicts_ext_def)

lemma registry_ext_refl [simp]: "registry_ext g g"
  by (simp add: registry_ext_def)

lemma dicts_extD: "dicts_ext d d' \<Longrightarrow> d_ids (dmap d k) i = Some x \<Longrightarrow> d_ids (dmap d' k) i = Some x"
  by (simp add: dicts_ext_def)

lemma registry_extD: "registry_ext g g' \<Longrightarrow> by_id g i = Some x \<Longrightarrow> by_id g' i = Some x"
  by (simp add: registry_ext_def)

lemma grows_refl [simp]: "grows st st"
  by (simp add: grows_def)

lemma grows_trans: "grows a b \<Longrightarrow> grows b c \<Longrightarrow> grows a c"
  by (simp add: grows_def dicts_ext_def registry_ext_def)

definition keeps :: "(('b, 'd, 'z) interning_scheme, 'a) sm \<Rightarrow> bool" where
  "keeps m \<longleftrightarrow> (\<forall>st r st'. m st = (r, st') \<longrightarrow> interning_wf st \<longrightarrow> (\<nexists>e. r = Inl (Storage e)) \<longrightarrow>
     interning_wf st' \<and> reverted st' = reverted st \<and> grows st st')"

lemma keepsD:
  assumes "keeps m" "m st = (r, st')" "interning_wf st" "\<nexists>e. r = Inl (Storage e)"
  shows "interning_wf st'" "reverted st' = reverted st" "grows st st'"
  using assms unfolding keeps_def by blast+

lemma keeps_run: "keeps m \<Longrightarrow> m st = (Inr x, st') \<Longrightarrow> interning_wf st \<Longrightarrow>
    interning_wf st' \<and> reverted st' = reverted st \<and> grows st st'"
  unfolding keeps_def by blast

lemma keeps_mbind [intro]:
  assumes "keeps m" "\<And>x. keeps (f x)"
  shows "keeps (mbind m f)"
  unfolding keeps_def
proof (intro allI impI)
  fix st r st'
  assume run: "mbind m f st = (r, st')" and wf: "interning_wf st" and ok: "\<nexists>e. r = Inl (Storage e)"
  obtain r1 st1 where m: "m st = (r1, st1)" by fastforce
  show "interning_wf st' \<and> reverted st' = reverted st \<and> grows st st'"
  proof (cases r1)
    case (Inl e)
    with m run have "r = Inl e" "st' = st1" by auto
    with keepsD [OF assms(1) m wf] ok Inl show ?thesis by auto
  next
    case (Inr x)
    with m have m': "m st = (Inr x, st1)" by simp
    from run m' have f: "f x st1 = (r, st')" by simp
    from keeps_run [OF assms(1) m' wf] keepsD [OF assms(2) f _ ok] show ?thesis
      by (auto intro: grows_trans)
  qed
qed

text \<open>A step that does not touch the interning state keeps.\<close>

definition untouched :: "(('b, 'd, 'z) interning_scheme, 'a) sm \<Rightarrow> bool" where
  "untouched m \<longleftrightarrow> (\<forall>st. let st' = snd (m st) in i_dicts st' = i_dicts st \<and> i_scopes st' = i_scopes st \<and>
     i_journal st' = i_journal st)"

lemma keeps_untouched: "untouched m \<Longrightarrow> keeps m"
  unfolding keeps_def untouched_def
  by (metis grows_def dicts_ext_refl registry_ext_refl interning_wf_def reverted_def snd_conv)

lemma untouched_reads [simp]:
  "untouched (mret x)" "untouched (mfail e)" "untouched (mlift r)" "untouched (mget g)" "untouched (mread h)"
  by (simp_all add: untouched_def monad_simps)

lemmas keeps_reads [simp, intro] = untouched_reads [THEN keeps_untouched]

lemma keeps_mfold [intro]: "(\<And>x. keeps (f x)) \<Longrightarrow> keeps (mfold f xs)"
  by (induction xs) (auto simp del: mfold.simps(1) simp: mfold.simps(1))

lemma keeps_dict_intern [simp, intro]: "keeps (dict_intern D kind s)"
  unfolding keeps_def
proof (intro allI impI)
  fix st r st'
  assume run: "dict_intern D kind s st = (r, st')" and wf: "interning_wf st" and ok: "\<nexists>e. r = Inl (Storage e)"
  obtain d t j where i: "intern D kind s (i_dicts st, i_dict_table st, i_journal st) = (r, d, t, j)"
    and st': "st' = st\<lparr>i_dicts := d, i_dict_table := t, i_journal := j\<rparr>"
    using run by (auto simp: dict_intern_def split: prod.splits)
  have wfd: "dicts_wf (i_dicts st)" using wf by (simp add: interning_wf_def)
  have "dicts_ext (i_dicts st) d"
    using i
  proof (cases rule: intern_cases)
    case (fresh nxt)
    moreover have "d_ids (dmap (i_dicts st) kind) (d_next (dmap (i_dicts st) kind)) = None"
      using wfd by (simp add: dicts_wf_def dm_wf_next_None)
    ultimately show ?thesis by (auto simp: dicts_ext_def dmap_mut_apply)
  qed (auto simp: dicts_ext_def dmap_mut_apply)
  moreover have "scope_ids j = scope_ids (i_journal st)"
    using i by (cases rule: intern_cases) auto
  ultimately show "interning_wf st' \<and> reverted st' = reverted st \<and> grows st st'"
    using intern_wf [OF i wfd ok] intern_reverted [OF i wfd ok] wf
    by (simp add: st' interning_wf_def reverted_def grows_def scopes_revert_def)
qed

lemma keeps_registry_intern [simp, intro]: "keeps (registry_intern B s)"
  unfolding keeps_def
proof (intro allI impI)
  fix st r st'
  assume run: "registry_intern B s st = (r, st')" and wf: "interning_wf st" and ok: "\<nexists>e. r = Inl (Storage e)"
  obtain g t j where i: "scope_intern B s (i_scopes st, i_scopes_table st, i_journal st) = (r, g, t, j)"
    and st': "st' = st\<lparr>i_scopes := g, i_scopes_table := t, i_journal := j\<rparr>"
    using run by (auto simp: registry_intern_def split: prod.splits)
  have wfg: "registry_wf (i_scopes st)" using wf by (simp add: interning_wf_def)
  have "registry_ext (i_scopes st) g"
    using i
    by (cases rule: scope_intern_cases)
       (use registry_next_None [OF wfg] in \<open>auto simp: registry_ext_def\<close>)
  moreover have "dict_ids j = dict_ids (i_journal st)"
    using i by (cases rule: scope_intern_cases) auto
  ultimately show "interning_wf st' \<and> reverted st' = reverted st \<and> grows st st'"
    using scope_intern_wf [OF i wfg ok] scope_intern_reverted [OF i wfg ok] wf
    by (simp add: st' interning_wf_def reverted_def grows_def dicts_revert_def)
qed

text \<open>The id an interning call returns names its argument afterwards.\<close>

lemma dict_intern_id:
  assumes "dict_intern D kind s st = (Inr i, st')" "interning_wf st"
  shows "d_ids (dmap (i_dicts st') kind) i = Some s"
proof -
  obtain d t j where i: "intern D kind s (i_dicts st, i_dict_table st, i_journal st) = (Inr i, d, t, j)"
    and st': "i_dicts st' = d"
    using assms(1) by (auto simp: dict_intern_def split: prod.splits)
  have "dicts_wf (i_dicts st)" using assms(2) by (simp add: interning_wf_def)
  then have "resolve d kind i = Inr s" using i by (auto dest: intern_resolves)
  then show ?thesis by (simp add: resolve_def st')
qed

lemma registry_intern_id:
  assumes "registry_intern B s st = (Inr i, st')" "interning_wf st"
  shows "by_id (i_scopes st') i = Some s"
proof -
  obtain g t j where i: "scope_intern B s (i_scopes st, i_scopes_table st, i_journal st) = (Inr i, g, t, j)"
    and st': "i_scopes st' = g"
    using assms(1) by (auto simp: registry_intern_def split: prod.splits)
  have wf: "registry_wf (i_scopes st)" using assms(2) by (simp add: interning_wf_def)
  have "by_id g i = Some s"
    using i by (cases rule: scope_intern_cases) (use wf in \<open>auto simp: registry_wf_def\<close>)
  then show ?thesis by (simp add: st')
qed

end
