(* ===== verification/Disk.thy ===== *)
theory Disk
  imports Interning Records Slots
begin

text \<open>
  The interned on-disk twins of the records (\<^verbatim>\<open>crates/topodb/src/disk.rs\<close>): the frozen v2 encoders,
  the live v3 node shape and the live v4 edge shape with its decoders. Encoding interns names and
  scopes into the transaction's state; the theorems show that decoding gives the record back in
  the state the encoder leaves and in every later one.
\<close>

type_synonym disk_props = "(u32, prop_value) btree_map"

record node_record_disk =
  nd2_id :: node_id
  nd2_scope :: scope
  nd2_label :: u32
  nd2_props :: disk_props

record edge_record_disk =
  ed2_id :: edge_id
  ed2_scope :: scope
  ed2_ty :: u32
  ed2_from :: node_id
  ed2_to :: node_id
  ed2_props :: disk_props
  ed2_valid_from :: i64
  ed2_valid_to :: "i64 option"

record node_record_disk_v3 =
  nd_id :: node_id
  nd_scope :: u32
  nd_label :: u32
  nd_props :: disk_props

record edge_record_disk_v3 =
  ed3_id :: edge_id
  ed3_scope :: u32
  ed3_ty :: u32
  ed3_from :: u64
  ed3_to :: u64
  ed3_props :: disk_props
  ed3_valid_from :: i64
  ed3_valid_to :: "i64 option"

record edge_record_disk_v4 =
  ed_id :: edge_id
  ed_scope :: u32
  ed_ty :: u32
  ed_from :: u64
  ed_to :: u64
  ed_props :: disk_props
  ed_valid_from :: i64
  ed_valid_to :: "i64 option"
  ed_recorded_at :: i64
  ed_superseded_at :: "i64 option"

section \<open>Encoders\<close>

text \<open>The loop that opens every encoder: intern each property key.\<close>

fun props_to_disk :: "('d, bytes, string) table_ops \<Rightarrow> props \<Rightarrow> disk_props
    \<Rightarrow> (('b, 'd, 'z) interning_scheme, disk_props) sm" where
  "props_to_disk D [] p = mret p"
| "props_to_disk D ((k, v) # ps) p =
     mbind (dict_intern D PropKey k) (\<lambda>i. props_to_disk D ps (bt_insert i v p))"

definition node_to_disk :: "('d, bytes, string) table_ops \<Rightarrow> node_record
    \<Rightarrow> (('b, 'd, 'z) interning_scheme, node_record_disk) sm" where
  "node_to_disk D r =
     mbind (props_to_disk D (n_props r) []) (\<lambda>p.
     mbind (dict_intern D Label (n_label r)) (\<lambda>label.
     mret \<lparr>nd2_id = n_id r, nd2_scope = n_scope r, nd2_label = label, nd2_props = p\<rparr>))"

definition edge_to_disk :: "('d, bytes, string) table_ops \<Rightarrow> edge_record
    \<Rightarrow> (('b, 'd, 'z) interning_scheme, edge_record_disk) sm" where
  "edge_to_disk D r =
     mbind (props_to_disk D (e_props r) []) (\<lambda>p.
     mbind (dict_intern D EdgeType (e_ty r)) (\<lambda>ty.
     mret \<lparr>ed2_id = e_id r, ed2_scope = e_scope r, ed2_ty = ty, ed2_from = e_from r, ed2_to = e_to r,
       ed2_props = p, ed2_valid_from = e_valid_from r, ed2_valid_to = e_valid_to r\<rparr>))"

definition node_to_disk_v3 :: "('b, bytes, bytes) table_ops \<Rightarrow> ('d, bytes, string) table_ops \<Rightarrow> node_record
    \<Rightarrow> (('b, 'd, 'z) interning_scheme, node_record_disk_v3) sm" where
  "node_to_disk_v3 B D r =
     mbind (props_to_disk D (n_props r) []) (\<lambda>p.
     mbind (registry_intern B (n_scope r)) (\<lambda>scope.
     mbind (dict_intern D Label (n_label r)) (\<lambda>label.
     mret \<lparr>nd_id = n_id r, nd_scope = scope, nd_label = label, nd_props = p\<rparr>)))"

text \<open>The slot of an endpoint, whose absence is corruption.\<close>

definition endpoint_slot :: "('b, bytes, bytes) table_ops \<Rightarrow> 'b \<Rightarrow> topo_error \<Rightarrow> node_id \<Rightarrow> u64 result" where
  "endpoint_slot B node_slots e i = rbind (node_slot B node_slots i) (ok_or e)"

definition edge_to_disk_v3 :: "('b, bytes, bytes) table_ops \<Rightarrow> ('d, bytes, string) table_ops \<Rightarrow> 'b \<Rightarrow> edge_record
    \<Rightarrow> (('b, 'd, 'z) interning_scheme, edge_record_disk_v3) sm" where
  "edge_to_disk_v3 B D node_slots r =
     mbind (props_to_disk D (e_props r) []) (\<lambda>p.
     mbind (mlift (endpoint_slot B node_slots (Encoding ''edge_to_disk_v3: missing from slot'') (e_from r))) (\<lambda>from_slot.
     mbind (mlift (endpoint_slot B node_slots (Encoding ''edge_to_disk_v3: missing to slot'') (e_to r))) (\<lambda>to_slot.
     mbind (registry_intern B (e_scope r)) (\<lambda>scope.
     mbind (dict_intern D EdgeType (e_ty r)) (\<lambda>ty.
     mret \<lparr>ed3_id = e_id r, ed3_scope = scope, ed3_ty = ty, ed3_from = from_slot, ed3_to = to_slot,
       ed3_props = p, ed3_valid_from = e_valid_from r, ed3_valid_to = e_valid_to r\<rparr>)))))"

definition edge_to_disk_v4 :: "('b, bytes, bytes) table_ops \<Rightarrow> ('d, bytes, string) table_ops \<Rightarrow> 'b \<Rightarrow> edge_record
    \<Rightarrow> (('b, 'd, 'z) interning_scheme, edge_record_disk_v4) sm" where
  "edge_to_disk_v4 B D node_slots r =
     mbind (props_to_disk D (e_props r) []) (\<lambda>p.
     mbind (mlift (endpoint_slot B node_slots (Encoding ''edge_to_disk_v4: missing from slot'') (e_from r))) (\<lambda>from_slot.
     mbind (mlift (endpoint_slot B node_slots (Encoding ''edge_to_disk_v4: missing to slot'') (e_to r))) (\<lambda>to_slot.
     mbind (registry_intern B (e_scope r)) (\<lambda>scope.
     mbind (dict_intern D EdgeType (e_ty r)) (\<lambda>ty.
     mret \<lparr>ed_id = e_id r, ed_scope = scope, ed_ty = ty, ed_from = from_slot, ed_to = to_slot,
       ed_props = p, ed_valid_from = e_valid_from r, ed_valid_to = e_valid_to r,
       ed_recorded_at = e_recorded_at r, ed_superseded_at = e_superseded_at r\<rparr>)))))"

section \<open>Decoders\<close>

fun props_from_disk :: "dicts \<Rightarrow> disk_props \<Rightarrow> props \<Rightarrow> props result" where
  "props_from_disk d [] p = Inr p"
| "props_from_disk d ((i, v) # ps) p = rbind (resolve d PropKey i) (\<lambda>k. props_from_disk d ps (bt_insert k v p))"

definition node_from_disk_v3 :: "node_record_disk_v3 \<Rightarrow> dicts \<Rightarrow> scope_registry \<Rightarrow> node_record result" where
  "node_from_disk_v3 r d scopes =
     rbind (props_from_disk d (nd_props r) []) (\<lambda>p.
     rbind (scope_resolve scopes (nd_scope r)) (\<lambda>scope.
     rbind (resolve d Label (nd_label r)) (\<lambda>label.
     Inr \<lparr>n_id = nd_id r, n_scope = scope, n_label = label, n_props = p, n_embedding = None\<rparr>)))"

definition edge_from_disk_v4 :: "('b, bytes, bytes) table_ops \<Rightarrow> edge_record_disk_v4 \<Rightarrow> dicts \<Rightarrow> scope_registry
    \<Rightarrow> 'b \<Rightarrow> edge_record result" where
  "edge_from_disk_v4 B r d scopes node_ids =
     rbind (props_from_disk d (ed_props r) []) (\<lambda>p.
     rbind (rbind (node_ulid B node_ids (ed_from r)) (ok_or (Encoding ''edge_from_disk_v4: missing from ulid''))) (\<lambda>from_id.
     rbind (rbind (node_ulid B node_ids (ed_to r)) (ok_or (Encoding ''edge_from_disk_v4: missing to ulid''))) (\<lambda>to_id.
     rbind (scope_resolve scopes (ed_scope r)) (\<lambda>scope.
     rbind (resolve d EdgeType (ed_ty r)) (\<lambda>ty.
     Inr \<lparr>e_id = ed_id r, e_scope = scope, e_ty = ty, e_from = from_id, e_to = to_id, e_props = p,
       e_valid_from = ed_valid_from r, e_valid_to = ed_valid_to r,
       e_recorded_at = ed_recorded_at r, e_superseded_at = ed_superseded_at r\<rparr>)))))"

section \<open>Encoders keep the mirrors\<close>

lemma keeps_props_to_disk [simp, intro]: "keeps (props_to_disk D ps p)"
  by (induction D ps p rule: props_to_disk.induct) auto

lemma keeps_encoders [simp, intro]:
  "keeps (node_to_disk_v3 B D r)" "keeps (edge_to_disk_v4 B D slots e)" "keeps (edge_to_disk_v3 B D slots e)"
  "keeps (node_to_disk D r)" "keeps (edge_to_disk D e)"
  unfolding node_to_disk_v3_def edge_to_disk_v4_def edge_to_disk_v3_def node_to_disk_def edge_to_disk_def
  by (intro keeps_mbind keeps_props_to_disk keeps_dict_intern keeps_registry_intern keeps_reads)+

section \<open>Properties of a record survive\<close>

definition prop_name :: "dicts \<Rightarrow> u32 \<Rightarrow> string option" where
  "prop_name d i = d_ids (dmap d PropKey) i"

text \<open>\<open>encodes d ps p\<close>: the disk properties \<open>p\<close> hold \<open>ps\<close> under the ids of \<open>d\<close>.\<close>

definition encodes :: "dicts \<Rightarrow> props \<Rightarrow> disk_props \<Rightarrow> bool" where
  "encodes d ps p \<longleftrightarrow> bt_wf p \<and>
     (\<forall>i v. bt_get p i = Some v \<longleftrightarrow> (\<exists>k. prop_name d i = Some k \<and> (k, v) \<in> set ps))"

lemma wf_ids_inj: "dicts_wf d \<Longrightarrow> prop_name d i = Some x \<Longrightarrow> prop_name d j = Some x \<Longrightarrow> i = j"
  unfolding prop_name_def by (metis dicts_wf_def dm_wf_def option.inject)

lemma prop_name_ext: "dicts_ext d d' \<Longrightarrow> prop_name d i = Some x \<Longrightarrow> prop_name d' i = Some x"
  unfolding prop_name_def by (rule dicts_extD)

lemma resolve_prop: "resolve d PropKey i = ok_or (Encoding ''unknown dict id'') (prop_name d i)"
  by (simp add: prop_name_def resolve_def)

lemma encodes_ext:
  assumes enc: "encodes d ps p" and ext: "dicts_ext d d'" and wf: "dicts_wf d'"
    and dom: "\<And>k v. (k, v) \<in> set ps \<Longrightarrow> \<exists>i. prop_name d i = Some k"
  shows "encodes d' ps p"
proof -
  have "(\<exists>k. prop_name d i = Some k \<and> (k, v) \<in> set ps) \<longleftrightarrow>
    (\<exists>k. prop_name d' i = Some k \<and> (k, v) \<in> set ps)" for i v
  proof
    assume "\<exists>k. prop_name d' i = Some k \<and> (k, v) \<in> set ps"
    then obtain k where k: "prop_name d' i = Some k" "(k, v) \<in> set ps" by blast
    from dom [OF k(2)] obtain j where j: "prop_name d j = Some k" by blast
    with wf_ids_inj [OF wf prop_name_ext [OF ext j] k(1)] k(2)
    show "\<exists>k. prop_name d i = Some k \<and> (k, v) \<in> set ps" by blast
  qed (use prop_name_ext [OF ext] in blast)
  with enc show ?thesis by (simp add: encodes_def)
qed

lemma encodes_insert:
  assumes "encodes d ps p" "dicts_wf d" "prop_name d i = Some k" "k \<notin> fst ` set ps"
  shows "encodes d (ps @ [(k, v)]) (bt_insert i v p)"
proof -
  have bp: "bt_wf p" and get: "bt_get p j = Some w \<longleftrightarrow> (\<exists>k. prop_name d j = Some k \<and> (k, w) \<in> set ps)" for j w
    using assms(1) by (simp_all add: encodes_def)
  have "bt_get (bt_insert i v p) j = Some w \<longleftrightarrow> (\<exists>k'. prop_name d j = Some k' \<and> (k', w) \<in> set (ps @ [(k, v)]))" for j w
  proof (cases "j = i")
    case True
    with assms(3,4) show ?thesis by force
  next
    case False
    then have "prop_name d j \<noteq> Some k" using wf_ids_inj [OF assms(2) _ assms(3)] by blast
    with False get [of j w] show ?thesis by auto
  qed
  then show ?thesis using bp by (simp add: encodes_def)
qed

text \<open>Every key has an id.\<close>

definition covers :: "dicts \<Rightarrow> props \<Rightarrow> bool" where
  "covers d ps \<longleftrightarrow> (\<forall>k v. (k, v) \<in> set ps \<longrightarrow> (\<exists>i. prop_name d i = Some k))"

lemma coversD: "covers d ps \<Longrightarrow> (k, v) \<in> set ps \<Longrightarrow> \<exists>i. prop_name d i = Some k"
  by (auto simp: covers_def)

lemma covers_snoc:
  "covers d ps \<Longrightarrow> dicts_ext d d' \<Longrightarrow> prop_name d' i = Some k \<Longrightarrow> covers d' (ps @ [(k, v)])"
  unfolding covers_def by (auto simp: ex_simps(1) dest: prop_name_ext; blast dest: prop_name_ext)

lemma covers_ext: "covers d ps \<Longrightarrow> dicts_ext d d' \<Longrightarrow> covers d' ps"
  unfolding covers_def by (blast dest: prop_name_ext)

lemma props_to_disk_encodes:
  assumes "props_to_disk D ps p st = (Inr q, st')" "interning_wf st" "encodes (i_dicts st) us p"
    and "covers (i_dicts st) us" and "distinct (map fst (us @ ps))"
  shows "encodes (i_dicts st') (us @ ps) q \<and> covers (i_dicts st') (us @ ps)"
  using assms
proof (induction ps arbitrary: p us st)
  case Nil
  then show ?case by (simp add: monad_simps)
next
  case (Cons e ps)
  obtain k v where e: "e = (k, v)" by fastforce
  from Cons.prems(1) obtain i st1 where i: "dict_intern D PropKey k st = (Inr i, st1)"
    and rest: "props_to_disk D ps (bt_insert i v p) st1 = (Inr q, st')"
    by (auto simp: mbind_Inr e)
  have wf1: "interning_wf st1" and g: "dicts_ext (i_dicts st) (i_dicts st1)"
    using keeps_run [OF keeps_dict_intern i Cons.prems(2)] by (auto simp: grows_def)
  then have d1: "dicts_wf (i_dicts st1)" by (simp add: interning_wf_def)
  note ik = dict_intern_id [OF i Cons.prems(2), folded prop_name_def]
  have "k \<notin> fst ` set us" using Cons.prems(5) e by auto
  then have enc: "encodes (i_dicts st1) (us @ [(k, v)]) (bt_insert i v p)"
    using encodes_insert [OF encodes_ext [OF Cons.prems(3) g d1] d1 ik] coversD [OF Cons.prems(4)] by blast
  have "distinct (map fst ((us @ [(k, v)]) @ ps))" using Cons.prems(5) e by simp
  from Cons.IH [OF rest wf1 enc covers_snoc [OF Cons.prems(4) g ik] this] show ?case by (simp add: e)
qed

lemma props_from_disk_fold:
  assumes "\<And>i v. (i, v) \<in> set p \<Longrightarrow> prop_name d i = Some (name i)"
  shows "props_from_disk d p q = Inr (fold (\<lambda>(k, v). bt_insert k v) (map (\<lambda>(i, v). (name i, v)) p) q)"
  using assms
proof (induction d p q rule: props_from_disk.induct)
  case (2 d i v ps p)
  have n: "prop_name d i = Some (name i)" by (rule "2.prems" [of i v]) simp
  moreover have "props_from_disk d ps (bt_insert (name i) v p) =
      Inr (fold (\<lambda>(k, v). bt_insert k v) (map (\<lambda>(i, v). (name i, v)) ps) (bt_insert (name i) v p))"
    by (rule "2.IH") (use n "2.prems" in \<open>auto simp: resolve_prop\<close>)
  ultimately show ?case by (simp add: resolve_prop)
qed simp

lemma props_roundtrip:
  assumes enc: "encodes d ps p" and cov: "covers d ps" and wf: "dicts_wf d" and ps: "bt_wf ps"
  shows "props_from_disk d p [] = Inr ps"
proof -
  define name where "name i = the (prop_name d i)" for i
  have bp: "bt_wf p" using enc by (simp add: encodes_def)
  have mem: "(i, v) \<in> set p \<longleftrightarrow> (\<exists>k. prop_name d i = Some k \<and> (k, v) \<in> set ps)" for i v
    using enc bt_mem [OF bp] by (simp add: encodes_def)
  let ?xs = "map (\<lambda>(i, v). (name i, v)) p"
  have nm: "prop_name d i = Some (name i)" if "(i, v) \<in> set p" for i v
    using that mem by (auto simp: name_def)
  have "set ?xs = set ps"
  proof (intro set_eqI iffI)
    fix x
    assume "x \<in> set ?xs"
    then obtain i v where x: "x = (name i, v)" "(i, v) \<in> set p" by auto
    then have "prop_name d i = Some (name i)" using nm by blast
    with x mem [of i v] show "x \<in> set ps" by auto
  next
    fix x
    assume x: "x \<in> set ps"
    obtain k v where kv: "x = (k, v)" by fastforce
    from coversD [OF cov] x kv obtain i where "prop_name d i = Some k" by blast
    with x kv mem have "(i, v) \<in> set p" "name i = k" by (auto simp: name_def)
    then show "x \<in> set ?xs" by (force simp: kv)
  qed
  moreover have dist: "distinct (map fst ?xs)"
  proof -
    have "inj_on (\<lambda>e. name (fst e)) (set p)"
    proof (rule inj_onI)
      fix a b
      assume ab: "a \<in> set p" "b \<in> set p" "name (fst a) = name (fst b)"
      obtain i v where a: "a = (i, v)" by fastforce
      obtain j w where b: "b = (j, w)" by fastforce
      have "prop_name d i = Some (name i)" "prop_name d j = Some (name i)" using nm ab a b by auto
      then have "i = j" by (rule wf_ids_inj [OF wf])
      then show "a = b" using ab a b bt_mem [OF bp] by auto
    qed
    moreover have "distinct p" using bt_wf_distinct [OF bp] by (simp add: distinct_map)
    ultimately show ?thesis by (auto simp: distinct_map comp_def case_prod_beta inj_on_def)
  qed
  ultimately have "map_of ?xs = map_of ps"
    using bt_wf_distinct [OF ps] by (metis map_of_inject_set)
  moreover have "bt_wf (fold (\<lambda>(k, v). bt_insert k v) ?xs [])" by (intro bt_wf_fold_insert) simp
  moreover have "bt_get (fold (\<lambda>(k, v). bt_insert k v) ?xs []) = map_of ?xs"
    using bt_get_fold_insert [OF dist] by simp
  ultimately have "fold (\<lambda>(k, v). bt_insert k v) ?xs [] = ps"
    using bt_wf_ext [OF _ ps] by metis
  then show ?thesis using props_from_disk_fold [of p d name] nm by simp
qed

lemma encodes_Nil [simp]: "encodes d [] []" "covers d []"
  by (simp_all add: encodes_def covers_def)

text \<open>The property loop, run from empty and read back in any later state.\<close>

lemma props_disk_roundtrip:
  assumes "props_to_disk D ps [] st = (Inr p, st')" "interning_wf st" "bt_wf ps"
    and "dicts_ext (i_dicts st') d" "dicts_wf d"
  shows "props_from_disk d p [] = Inr ps"
proof -
  have "encodes (i_dicts st') ps p \<and> covers (i_dicts st') ps"
    using props_to_disk_encodes [OF assms(1,2), of "[]"] bt_wf_distinct [OF assms(3)] by simp
  then have "encodes d ps p" "covers d ps"
    using encodes_ext [OF _ assms(4,5)] coversD covers_ext [OF _ assms(4)] by blast+
  then show ?thesis using assms(3,5) by (simp add: props_roundtrip)
qed

lemma resolve_ext: "dicts_ext d d' \<Longrightarrow> d_ids (dmap d k) i = Some x \<Longrightarrow> resolve d' k i = Inr x"
  by (simp add: resolve_def dicts_extD)

lemma scope_resolve_ext: "registry_ext g g' \<Longrightarrow> by_id g i = Some x \<Longrightarrow> scope_resolve g' i = Inr x"
  by (simp add: scope_resolve_def registry_extD)

lemma node_roundtrip:
  assumes run: "node_to_disk_v3 B D r st = (Inr rd, st')" and wf: "interning_wf st" and ps: "bt_wf (n_props r)"
    and g: "grows st' st''" and wf'': "interning_wf st''"
  shows "node_from_disk_v3 rd (i_dicts st'') (i_scopes st'') = Inr (r\<lparr>n_embedding := None\<rparr>)"
proof -
  from run obtain p s1 sc s2 l where p: "props_to_disk D (n_props r) [] st = (Inr p, s1)"
    and sc: "registry_intern B (n_scope r) s1 = (Inr sc, s2)"
    and l: "dict_intern D Label (n_label r) s2 = (Inr l, st')"
    and rd: "rd = \<lparr>nd_id = n_id r, nd_scope = sc, nd_label = l, nd_props = p\<rparr>"
    by (auto simp: node_to_disk_v3_def mbind_Inr monad_simps)
  note k1 = keeps_run [OF keeps_props_to_disk p wf]
  note k2 = keeps_run [OF keeps_registry_intern sc conjunct1 [OF k1]]
  note k3 = keeps_run [OF keeps_dict_intern l conjunct1 [OF k2]]
  have g2: "grows s2 st''" and g1: "grows s1 st''" using k2 k3 g by (blast intro: grows_trans)+
  have "props_from_disk (i_dicts st'') p [] = Inr (n_props r)"
    using props_disk_roundtrip [OF p wf ps] g1 wf'' by (simp add: grows_def interning_wf_def)
  moreover have "scope_resolve (i_scopes st'') sc = Inr (n_scope r)"
    using registry_intern_id [OF sc] k1 g2 scope_resolve_ext by (auto simp: grows_def)
  moreover have "resolve (i_dicts st'') Label l = Inr (n_label r)"
    using dict_intern_id [OF l] k2 g resolve_ext by (metis grows_def)
  ultimately show ?thesis by (simp add: node_from_disk_v3_def rd)
qed

section \<open>Endpoints survive\<close>

lemma endpoint_roundtrip:
  assumes tab: "redb_table_live B rows" and inv: "slots_inv (rows node_slots) (rows node_ids) n"
    and run: "endpoint_slot B node_slots e i = Inr s"
  shows "node_ulid B node_ids s = Inr (Some i)"
proof -
  note t = redb_table_live.axioms(1) [OF tab]
  from run have "read_slot B node_slots (node_u128 i) = Inr (Some s)"
    by (auto simp: endpoint_slot_def node_slot_def rbind_Inr)
  from read_slot_rows [OF t inv this] have "rows node_slots (id_key (node_u128 i)) = Some (u64_to_le s)" by simp
  with slots_inv_slot [OF inv] have "rows node_ids (slot_key s) = Some (id_key (node_u128 i))" by blast
  then show ?thesis
    using redb_table_live.get_eq [OF tab, of node_ids "slot_key s"]
    by (cases i) (simp add: node_ulid_def read_id_def)
qed

lemma edge_roundtrip:
  assumes run: "edge_to_disk_v4 B D node_slots r st = (Inr rd, st')" and wf: "interning_wf st" and ps: "bt_wf (e_props r)"
    and tab: "redb_table_live B rows" and inv: "slots_inv (rows node_slots) (rows node_ids) n"
    and g: "grows st' st''" and wf'': "interning_wf st''"
  shows "edge_from_disk_v4 B rd (i_dicts st'') (i_scopes st'') node_ids = Inr r"
proof -
  from run obtain p s1 sc s2 l f t where p: "props_to_disk D (e_props r) [] st = (Inr p, s1)"
    and f: "endpoint_slot B node_slots (Encoding ''edge_to_disk_v4: missing from slot'') (e_from r) = Inr f"
    and t: "endpoint_slot B node_slots (Encoding ''edge_to_disk_v4: missing to slot'') (e_to r) = Inr t"
    and sc: "registry_intern B (e_scope r) s1 = (Inr sc, s2)"
    and l: "dict_intern D EdgeType (e_ty r) s2 = (Inr l, st')"
    and rd: "rd = \<lparr>ed_id = e_id r, ed_scope = sc, ed_ty = l, ed_from = f, ed_to = t, ed_props = p,
      ed_valid_from = e_valid_from r, ed_valid_to = e_valid_to r,
      ed_recorded_at = e_recorded_at r, ed_superseded_at = e_superseded_at r\<rparr>"
    by (auto simp: edge_to_disk_v4_def mbind_Inr monad_simps)
  note k1 = keeps_run [OF keeps_props_to_disk p wf]
  note k2 = keeps_run [OF keeps_registry_intern sc conjunct1 [OF k1]]
  note k3 = keeps_run [OF keeps_dict_intern l conjunct1 [OF k2]]
  have g2: "grows s2 st''" and g1: "grows s1 st''" using k2 k3 g by (blast intro: grows_trans)+
  have "props_from_disk (i_dicts st'') p [] = Inr (e_props r)"
    using props_disk_roundtrip [OF p wf ps] g1 wf'' by (simp add: grows_def interning_wf_def)
  moreover have "scope_resolve (i_scopes st'') sc = Inr (e_scope r)"
    using registry_intern_id [OF sc] k1 g2 scope_resolve_ext by (auto simp: grows_def)
  moreover have "resolve (i_dicts st'') EdgeType l = Inr (e_ty r)"
    using dict_intern_id [OF l] k2 g resolve_ext by (metis grows_def)
  ultimately show ?thesis
    using endpoint_roundtrip [OF tab inv f] endpoint_roundtrip [OF tab inv t]
    by (simp add: edge_from_disk_v4_def rd)
qed

section \<open>Properties\<close>

text \<open>C38. Decoding a node row gives back the node that was encoded, without its embedding (which lives in
  the vector table), in the interning state the encoder left and in every state grown from it.\<close>

theorem node_disk_roundtrip:
  assumes "node_to_disk_v3 B D r st = (Inr rd, st')" and "interning_wf st" and "bt_wf (n_props r)"
    and "grows st' st''" and "interning_wf st''"
  shows "node_from_disk_v3 rd (i_dicts st'') (i_scopes st'') = Inr (r\<lparr>n_embedding := None\<rparr>)"
  using assms by (rule node_roundtrip)

definition empty_interning :: "((bytes, bytes) rbt, (bytes, string) rbt) interning" where
  "empty_interning = \<lparr>i_dicts = dicts_default, i_dict_table = RBT.empty, i_scopes = registry_default,
     i_scopes_table = RBT.empty, i_journal = journal_default\<rparr>"

lemma empty_interning_wf: "interning_wf empty_interning"
  by (simp add: interning_wf_def empty_interning_def registry_wf_def registry_default_def)

lemmas run_interning = mbind_def mret_def mlift_def dict_intern_def registry_intern_def intern_def
  scope_intern_def Let_def checked_add_def empty_interning_def dicts_default_def dict_map_default_def
  registry_default_def journal_default_def

theorem node_disk_roundtrip_witness:
  "\<exists>rd st'. node_to_disk_v3 rbt_ops rbt_ops
      \<lparr>n_id = NodeId 7, n_scope = Shared, n_label = ''Memory'', n_props = [(''k'', PInt 3)], n_embedding = None\<rparr>
      empty_interning = (Inr rd, st') \<and>
    node_from_disk_v3 rd (i_dicts st') (i_scopes st') =
      Inr \<lparr>n_id = NodeId 7, n_scope = Shared, n_label = ''Memory'', n_props = [(''k'', PInt 3)], n_embedding = None\<rparr>"
proof -
  let ?r = "\<lparr>n_id = NodeId 7, n_scope = Shared, n_label = ''Memory'', n_props = [(''k'', PInt 3)], n_embedding = None\<rparr>"
  obtain rd st' where run: "node_to_disk_v3 rbt_ops rbt_ops ?r empty_interning = (Inr rd, st')"
    by (simp add: node_to_disk_v3_def run_interning)
  have "interning_wf st'" using keeps_run [OF keeps_encoders(1) run empty_interning_wf] by blast
  from node_disk_roundtrip [OF run empty_interning_wf _ grows_refl this] run show ?thesis by auto
qed

text \<open>Decoding an edge row gives back the edge that was encoded, both time axes included, in every
  state grown from the encoder's, as long as the slot tables are inverse to each other.\<close>

theorem edge_disk_roundtrip:
  assumes "edge_to_disk_v4 B D node_slots r st = (Inr rd, st')" and "interning_wf st" and "bt_wf (e_props r)"
    and "redb_table_live B rows" and "slots_inv (rows node_slots) (rows node_ids) n"
    and "grows st' st''" and "interning_wf st''"
  shows "edge_from_disk_v4 B rd (i_dicts st'') (i_scopes st'') node_ids = Inr r"
  using assms by (rule edge_roundtrip)

theorem edge_disk_roundtrip_witness:
  "\<exists>rd st'. edge_to_disk_v4 rbt_ops rbt_ops (RBT.insert (id_key 5) (u64_to_le 0) RBT.empty)
      \<lparr>e_id = EdgeId 1, e_scope = Shared, e_ty = ''knows'', e_from = NodeId 5, e_to = NodeId 5, e_props = [],
        e_valid_from = 10, e_valid_to = None, e_recorded_at = 11, e_superseded_at = None\<rparr>
      empty_interning = (Inr rd, st') \<and>
    edge_from_disk_v4 rbt_ops rd (i_dicts st') (i_scopes st') (RBT.insert (slot_key 0) (id_key 5) RBT.empty) =
      Inr \<lparr>e_id = EdgeId 1, e_scope = Shared, e_ty = ''knows'', e_from = NodeId 5, e_to = NodeId 5, e_props = [],
        e_valid_from = 10, e_valid_to = None, e_recorded_at = 11, e_superseded_at = None\<rparr>"
proof -
  let ?e = "\<lparr>e_id = EdgeId 1, e_scope = Shared, e_ty = ''knows'', e_from = NodeId 5, e_to = NodeId 5, e_props = [],
        e_valid_from = 10, e_valid_to = None, e_recorded_at = 11, e_superseded_at = None\<rparr>"
  let ?sl = "RBT.insert (id_key 5) (u64_to_le 0) RBT.empty" and ?ids = "RBT.insert (slot_key 0) (id_key 5) RBT.empty"
  obtain rd st' where run: "edge_to_disk_v4 rbt_ops rbt_ops ?sl ?e empty_interning = (Inr rd, st')"
    by (simp add: edge_to_disk_v4_def endpoint_slot_def node_slot_def read_slot_def run_interning)
  have inv: "slots_inv (RBT.lookup ?sl) (RBT.lookup ?ids) 1" by (auto simp: slots_inv_def)
  have "interning_wf st'" using keeps_run [OF keeps_encoders(2) run empty_interning_wf] by blast
  from edge_disk_roundtrip [OF run empty_interning_wf _ rbt_tab.redb_table_live_axioms inv grows_refl this] run
  show ?thesis by auto
qed

end
