(* ===== verification/PropIndex.thy ===== *)
theory PropIndex
  imports Dict Records
begin

unbundle bit_operations_syntax

text \<open>
  The equality index (\<^verbatim>\<open>crates/topodb/src/index.rs\<close> and \<^verbatim>\<open>prop_index.rs\<close>): the declared index
  specification, the indexable subset of property values, the byte keys
  \<^verbatim>\<open>prop ++ tag ++ value ++ slot\<close> of the \<^verbatim>\<open>prop_index\<close> table, and its maintenance. The Unicode
  tables of the Rust standard library (word splitting, lowercasing and the classes of a character, which is given by
  its UTF-8 bytes) are the record \<open>unicode\<close>.
  The theorems show that a lookup returns exactly the slots indexed under the value, although
  keys of longer values fall inside the scanned range.
\<close>

section \<open>Specification\<close>

record prop_index =
  pi_label :: string
  pi_prop :: string

record index_spec =
  equality :: "prop_index list"
  text_props :: "prop_index list"

fun validate_unique_from :: "(string \<times> string) set \<Rightarrow> prop_index list \<Rightarrow> unit result" where
  "validate_unique_from seen [] = Inr ()"
| "validate_unique_from seen (p # ps) =
     (if (pi_label p, pi_prop p) \<in> seen then Inl (Rejected ''duplicate index declaration'')
      else validate_unique_from (insert (pi_label p, pi_prop p) seen) ps)"

definition validate_unique :: "prop_index list \<Rightarrow> unit result" where
  "validate_unique entries = validate_unique_from {} entries"

definition validate_spec :: "index_spec \<Rightarrow> unit result" where
  "validate_spec spec =
     rbind (validate_unique (equality spec)) (\<lambda>_.
     rbind (validate_unique (text_props spec)) (\<lambda>_. Inr ()))"

datatype index_value = IStr string | IInt i64 | IBool bool | IBytes bytes | IDateTime i64

fun index_value_of :: "prop_value \<Rightarrow> index_value option" where
  "index_value_of (PStr s) = Some (IStr s)"
| "index_value_of (PInt i) = Some (IInt i)"
| "index_value_of (PBool b) = Some (IBool b)"
| "index_value_of (PBytes b) = Some (IBytes b)"
| "index_value_of (PDateTime t) = Some (IDateTime t)"
| "index_value_of (PFloat f) = None"

section \<open>Keys\<close>

record unicode =
  split_whitespace :: "string \<Rightarrow> string list"
  to_lowercase :: "string \<Rightarrow> string"
  is_alphanumeric :: "string \<Rightarrow> bool"
  is_uppercase :: "string \<Rightarrow> bool"
  is_lowercase :: "string \<Rightarrow> bool"
  is_numeric :: "string \<Rightarrow> bool"

definition PROP_INDEX_NORM_VERSION :: u32 where "PROP_INDEX_NORM_VERSION = 1"

fun join_parts :: "nat \<Rightarrow> string list \<Rightarrow> string \<Rightarrow> string" where
  "join_parts i [] out = out"
| "join_parts i (part # parts) out = join_parts (i + 1) parts ((if 0 < i then out @ '' '' else out) @ part)"

definition normalize_str :: "unicode \<Rightarrow> string \<Rightarrow> string" where
  "normalize_str U s = to_lowercase U (join_parts 0 (split_whitespace U s) [])"

definition u8_from_bool :: "bool \<Rightarrow> u8" where
  "u8_from_bool b = (if b then 1 else 0)"

text \<open>The bytes \<^verbatim>\<open>value_bytes\<close> appends: a tag and the order-preserving image of the value.\<close>

fun value_bytes :: "unicode \<Rightarrow> index_value \<Rightarrow> bytes" where
  "value_bytes U (IStr s) = 0 # str_bytes (normalize_str U s)"
| "value_bytes U (IInt i) = 1 # u64_to_be (i XOR push_bit 63 1)"
| "value_bytes U (IBool b) = [2, u8_from_bool b]"
| "value_bytes U (IBytes b) = 3 # b"
| "value_bytes U (IDateTime t) = 4 # u64_to_be (t XOR push_bit 63 1)"

definition index_prefix :: "unicode \<Rightarrow> u32 \<Rightarrow> index_value \<Rightarrow> bytes" where
  "index_prefix U prop_key v = u32_to_be prop_key @ value_bytes U v"

definition index_key :: "unicode \<Rightarrow> u32 \<Rightarrow> index_value \<Rightarrow> u64 \<Rightarrow> bytes" where
  "index_key U prop_key v slot = index_prefix U prop_key v @ u64_to_be slot"

section \<open>Lookup and maintenance\<close>

definition starts_with :: "bytes \<Rightarrow> bytes \<Rightarrow> bool" where
  "starts_with key pre \<longleftrightarrow> length pre \<le> length key \<and> take (length pre) key = pre"

fun collect_slots :: "bytes \<Rightarrow> (bytes \<times> bytes) list \<Rightarrow> u64 list" where
  "collect_slots pre [] = []"
| "collect_slots pre ((key, v) # es) =
     (if starts_with key pre \<and> length key = length pre + 8
      then u64_from_be (drop (length pre) key) # collect_slots pre es
      else collect_slots pre es)"

definition prop_lookup :: "unicode \<Rightarrow> ('b, bytes, bytes) table_ops \<Rightarrow> 'b \<Rightarrow> u32 \<Rightarrow> index_value \<Rightarrow> u64 list result" where
  "prop_lookup U R t prop_key v =
     (let pre = index_prefix U prop_key v
      in rbind (redb (trange R t (pre @ u64_to_be 0) (pre @ u64_to_be (- 1)))) (\<lambda>es.
         Inr (collect_slots pre es)))"

definition should_index :: "index_spec \<Rightarrow> node_record \<Rightarrow> string \<Rightarrow> bool" where
  "should_index spec node key \<longleftrightarrow>
     (\<exists>item \<in> set (equality spec). pi_label item = n_label node \<and> pi_prop item = key)"

text \<open>The index key of one property of a node, or none when the property is not indexed.\<close>

definition entry_key :: "unicode \<Rightarrow> index_spec \<Rightarrow> dicts \<Rightarrow> node_record \<Rightarrow> u64 \<Rightarrow> string \<times> prop_value \<Rightarrow> bytes option" where
  "entry_key U spec d node slot = (\<lambda>(key, v).
     if \<not> should_index spec node key then None
     else case id_of d PropKey key of
            None \<Rightarrow> None
          | Some prop \<Rightarrow> (case index_value_of v of None \<Rightarrow> None | Some v \<Rightarrow> Some (index_key U prop v slot)))"

definition index_node :: "unicode \<Rightarrow> ('b, bytes, bytes) table_ops \<Rightarrow> index_spec \<Rightarrow> dicts \<Rightarrow> node_record \<Rightarrow> u64
    \<Rightarrow> 'b \<Rightarrow> 'b result" where
  "index_node U R spec d node slot t =
     rfold (\<lambda>e t. case entry_key U spec d node slot e of
                    None \<Rightarrow> Inr t
                  | Some k \<Rightarrow> redb (tinsert R t k [])) (n_props node) t"

definition unindex_node :: "unicode \<Rightarrow> ('b, bytes, bytes) table_ops \<Rightarrow> index_spec \<Rightarrow> dicts \<Rightarrow> node_record \<Rightarrow> u64
    \<Rightarrow> 'b \<Rightarrow> 'b result" where
  "unindex_node U R spec d node slot t =
     rfold (\<lambda>e t. case entry_key U spec d node slot e of
                    None \<Rightarrow> Inr t
                  | Some k \<Rightarrow> rbind (redb (tremove R t k)) (\<lambda>(_, t'). Inr t')) (n_props node) t"

section \<open>Keys are faithful up to normalization\<close>

definition same_value :: "unicode \<Rightarrow> index_value \<Rightarrow> index_value \<Rightarrow> bool" where
  "same_value U v w \<longleftrightarrow> (case (v, w) of
     (IStr s, IStr t) \<Rightarrow> normalize_str U s = normalize_str U t | _ \<Rightarrow> v = w)"

lemma xor_inject: "(a XOR c = b XOR c) \<longleftrightarrow> a = (b :: 'a::len word)"
  by (metis xor.assoc xor.right_neutral xor_self_eq)

lemma value_bytes_eq: "value_bytes U v = value_bytes U w \<longleftrightarrow> same_value U v w"
  by (cases v; cases w) (auto simp: same_value_def u8_from_bool_def xor_inject)

lemma index_prefix_eq:
  "index_prefix U p v = index_prefix U q w \<longleftrightarrow> p = q \<and> same_value U v w"
  by (simp add: index_prefix_def value_bytes_eq)

lemma index_key_eq:
  "index_key U p v s = index_key U q w s' \<longleftrightarrow> p = q \<and> same_value U v w \<and> s = s'"
  by (auto simp: index_key_def index_prefix_eq)

section \<open>Lookup is exact\<close>

lemma prefix_key_iff:
  "starts_with key pre \<and> length key = length pre + 8 \<longleftrightarrow> (\<exists>s. key = pre @ u64_to_be s)"
proof
  assume a: "starts_with key pre \<and> length key = length pre + 8"
  then have "key = pre @ drop (length pre) key" by (metis starts_with_def append_take_drop_id)
  moreover obtain s where "drop (length pre) key = u64_to_be s"
    using a be_bytes_exist(1) [of "drop (length pre) key"] by auto
  ultimately show "\<exists>s. key = pre @ u64_to_be s" by metis
qed (auto simp: starts_with_def)

lemma collect_slots_eq:
  "collect_slots pre es = map (\<lambda>k. u64_from_be (drop (length pre) k))
     (filter (\<lambda>k. \<exists>s. k = pre @ u64_to_be s) (map fst es))"
proof (induction es)
  case (Cons e es)
  then show ?case using prefix_key_iff [of "fst e" pre] by (cases e) auto
qed simp

lemma set_collect_slots: "s \<in> set (collect_slots pre es) \<longleftrightarrow> pre @ u64_to_be s \<in> fst ` set es"
proof -
  have "s \<in> set (collect_slots pre es) \<longleftrightarrow>
    (\<exists>k \<in> fst ` set es. (\<exists>s. k = pre @ u64_to_be s) \<and> s = u64_from_be (drop (length pre) k))"
    unfolding collect_slots_eq by auto
  also have "\<dots> \<longleftrightarrow> pre @ u64_to_be s \<in> fst ` set es" by force
  finally show ?thesis .
qed

lemma sorted_collect_slots:
  "sorted_wrt (<) (map fst es) \<Longrightarrow> sorted_wrt (<) (collect_slots pre es)"
proof (induction es)
  case (Cons e es)
  obtain k v where e: "e = (k, v)" by fastforce
  show ?case
  proof (cases "\<exists>s. k = pre @ u64_to_be s")
    case True
    then obtain s where k: "k = pre @ u64_to_be s" by blast
    have "s < s'" if "s' \<in> set (collect_slots pre es)" for s'
    proof -
      from that have "pre @ u64_to_be s' \<in> fst ` set es" by (simp add: set_collect_slots)
      then have "k < pre @ u64_to_be s'" using Cons.prems e by auto
      then have "\<not> pre @ u64_to_be s' \<le> pre @ u64_to_be s" by (simp add: k)
      then show ?thesis by (simp add: bytes_le_append_iff)
    qed
    with Cons e k show ?thesis using prefix_key_iff [of k pre] by auto
  next
    case False
    with Cons e prefix_key_iff [of k pre] show ?thesis by auto
  qed
qed simp

lemma prop_lookup_slots:
  assumes tab: "redb_table R rows" and run: "prop_lookup U R t p v = Inr out"
  shows "sorted_wrt (<) out" "s \<in> set out \<longleftrightarrow> rows t (index_key U p v s) \<noteq> None"
proof -
  let ?pre = "index_prefix U p v"
  from run obtain es where es: "trange R t (?pre @ u64_to_be 0) (?pre @ u64_to_be (- 1)) = Inr es"
    and out: "out = collect_slots ?pre es"
    by (auto simp: prop_lookup_def Let_def rbind_Inr)
  show "sorted_wrt (<) out" using redb_table.range_sorted [OF tab es] by (simp add: out sorted_collect_slots)
  have "?pre @ u64_to_be 0 \<le> ?pre @ u64_to_be s" "?pre @ u64_to_be s \<le> ?pre @ u64_to_be (- 1)"
    by (simp_all add: bytes_le_append_iff)
  then show "s \<in> set out \<longleftrightarrow> rows t (index_key U p v s) \<noteq> None"
    unfolding out set_collect_slots redb_table.range_key [OF tab es] index_key_def by blast
qed

section \<open>Maintenance\<close>

definition node_keys :: "unicode \<Rightarrow> index_spec \<Rightarrow> dicts \<Rightarrow> node_record \<Rightarrow> u64 \<Rightarrow> bytes set" where
  "node_keys U spec d node slot = {k. \<exists>e \<in> set (n_props node). entry_key U spec d node slot e = Some k}"

lemma index_entries_rows:
  assumes "redb_table R rows"
    and "rfold (\<lambda>e t. case f e of None \<Rightarrow> Inr t | Some k \<Rightarrow> redb (tinsert R t k [])) es t = Inr t'"
  shows "rows t' = (\<lambda>k. if \<exists>e \<in> set es. f e = Some k then Some [] else rows t k)"
  using assms(2)
proof (induction es arbitrary: t)
  case (Cons e es)
  show ?case
  proof (cases "f e")
    case None
    with Cons show ?thesis by (auto simp: fun_eq_iff)
  next
    case (Some k)
    with Cons.prems obtain t1 where t1: "tinsert R t k [] = Inr t1"
      and rest: "rfold (\<lambda>e t. case f e of None \<Rightarrow> Inr t | Some k \<Rightarrow> redb (tinsert R t k [])) es t1 = Inr t'"
      by (auto simp: rbind_Inr)
    from Cons.IH [OF rest] redb_table.insert_ok [OF assms(1) t1] Some show ?thesis
      by (auto simp: fun_eq_iff)
  qed
qed simp

lemma unindex_entries_rows:
  assumes "redb_table R rows"
    and "rfold (\<lambda>e t. case f e of None \<Rightarrow> Inr t
           | Some k \<Rightarrow> rbind (redb (tremove R t k)) (\<lambda>(_, t'). Inr t')) es t = Inr t'"
  shows "rows t' = (\<lambda>k. if \<exists>e \<in> set es. f e = Some k then None else rows t k)"
  using assms(2)
proof (induction es arbitrary: t)
  case (Cons e es)
  show ?case
  proof (cases "f e")
    case None
    with Cons show ?thesis by (auto simp: fun_eq_iff)
  next
    case (Some k)
    with Cons.prems obtain old t1 where t1: "tremove R t k = Inr (old, t1)"
      and rest: "rfold (\<lambda>e t. case f e of None \<Rightarrow> Inr t
           | Some k \<Rightarrow> rbind (redb (tremove R t k)) (\<lambda>(_, t'). Inr t')) es t1 = Inr t'"
      by (auto simp: rbind_Inr)
    from Cons.IH [OF rest] redb_table.remove_ok [OF assms(1) t1] Some show ?thesis
      by (auto simp: fun_eq_iff)
  qed
qed simp

lemma index_node_rows:
  assumes "redb_table R rows" "index_node U R spec d node slot t = Inr t'"
  shows "rows t' = (\<lambda>k. if k \<in> node_keys U spec d node slot then Some [] else rows t k)"
  using index_entries_rows [OF assms(1) assms(2) [unfolded index_node_def]] by (simp add: node_keys_def)

lemma unindex_node_rows:
  assumes "redb_table R rows" "unindex_node U R spec d node slot t = Inr t'"
  shows "rows t' = (\<lambda>k. if k \<in> node_keys U spec d node slot then None else rows t k)"
  using unindex_entries_rows [OF assms(1) assms(2) [unfolded unindex_node_def]] by (simp add: node_keys_def)

lemma index_node_live: "redb_table_live R rows \<Longrightarrow> \<exists>t'. index_node U R spec d node slot t = Inr t'"
  unfolding index_node_def
  by (rule rfold_total) (auto split: option.splits dest: redb_table_live.insert_live)

lemma unindex_node_live:
  assumes "redb_table_live R rows"
  shows "\<exists>t'. unindex_node U R spec d node slot t = Inr t'"
  unfolding unindex_node_def
proof (rule rfold_total)
  fix e t
  show "\<exists>t'. (case entry_key U spec d node slot e of None \<Rightarrow> Inr t
    | Some k \<Rightarrow> rbind (redb (tremove R t k)) (\<lambda>(_, t'). Inr t')) = Inr t'"
  proof (cases "entry_key U spec d node slot e")
    case (Some k)
    obtain t' where "tremove R t k = Inr (rows t k, t')" using redb_table_live.remove_eq [OF assms] by blast
    with Some show ?thesis by simp
  qed simp
qed

text \<open>The values a node is findable under.\<close>

definition findable :: "unicode \<Rightarrow> index_spec \<Rightarrow> dicts \<Rightarrow> node_record \<Rightarrow> u32 \<Rightarrow> index_value \<Rightarrow> bool" where
  "findable U spec d node p v \<longleftrightarrow> (\<exists>(key, w) \<in> set (n_props node). should_index spec node key \<and>
     id_of d PropKey key = Some p \<and> (\<exists>w'. index_value_of w = Some w' \<and> same_value U v w'))"

lemma node_keys_iff:
  "index_key U p v s \<in> node_keys U spec d node slot \<longleftrightarrow> s = slot \<and> findable U spec d node p v"
proof -
  have "index_key U p v s \<in> node_keys U spec d node slot \<longleftrightarrow>
    (\<exists>e \<in> set (n_props node). entry_key U spec d node slot e = Some (index_key U p v s))"
    by (simp add: node_keys_def)
  also have "\<dots> \<longleftrightarrow> (\<exists>(key, w) \<in> set (n_props node). should_index spec node key \<and>
     id_of d PropKey key = Some p \<and> (\<exists>w'. index_value_of w = Some w' \<and> same_value U v w') \<and> s = slot)"
  proof (rule bex_cong [OF refl])
    fix e
    show "entry_key U spec d node slot e = Some (index_key U p v s) \<longleftrightarrow> (case e of (key, w) \<Rightarrow>
      should_index spec node key \<and> id_of d PropKey key = Some p \<and>
      (\<exists>w'. index_value_of w = Some w' \<and> same_value U v w') \<and> s = slot)"
      by (cases e) (auto simp: entry_key_def index_key_eq eq_commute [of "index_key U p v s"] value_bytes_eq [symmetric]
          split: option.splits)
  qed
  finally show ?thesis by (auto simp: findable_def)
qed

section \<open>Properties\<close>

text \<open>The ASCII part of the Unicode tables, for concrete runs.\<close>

fun ascii_words :: "string \<Rightarrow> string \<Rightarrow> string list" where
  "ascii_words [] w = (if w = [] then [] else [w])"
| "ascii_words (c # cs) w =
     (if c = CHR 0x20 \<or> c = CHR 0x09 \<or> c = CHR 0x0A then (if w = [] then ascii_words cs [] else w # ascii_words cs [])
      else ascii_words cs (w @ [c]))"

definition ascii_lower :: "char \<Rightarrow> char" where
  "ascii_lower c = (if CHR ''A'' \<le> c \<and> c \<le> CHR ''Z'' then char_of (of_char c + 32 :: nat) else c)"

definition ascii_range :: "char \<Rightarrow> char \<Rightarrow> string \<Rightarrow> bool" where
  "ascii_range lo hi c = (case c of [b] \<Rightarrow> lo \<le> b \<and> b \<le> hi | _ \<Rightarrow> False)"

definition ascii_unicode :: unicode where
  "ascii_unicode = \<lparr>split_whitespace = (\<lambda>s. ascii_words s []), to_lowercase = map ascii_lower,
     is_alphanumeric = (\<lambda>c. ascii_range (CHR ''A'') (CHR ''Z'') c \<or> ascii_range (CHR ''a'') (CHR ''z'') c \<or> ascii_range (CHR ''0'') (CHR ''9'') c),
     is_uppercase = ascii_range (CHR ''A'') (CHR ''Z''), is_lowercase = ascii_range (CHR ''a'') (CHR ''z''),
     is_numeric = ascii_range (CHR ''0'') (CHR ''9'')\<rparr>"

lemma ascii_same: "normalize_str ascii_unicode '' aB  C'' = normalize_str ascii_unicode ''Ab c''"
  by code_simp

text \<open>C39. Looking a value up returns, in ascending order and without repetition, exactly the slots whose
  index row for that property and value exists, although rows of longer values lie inside the
  scanned key range.\<close>

theorem prop_lookup_exact:
  assumes "redb_table R rows" and "prop_lookup U R t p v = Inr out"
  shows "sorted_wrt (<) out \<and> set out = {s. rows t (index_key U p v s) \<noteq> None}"
  using prop_lookup_slots [OF assms] by blast

theorem prop_lookup_exact_witness:
  "\<exists>out. prop_lookup ascii_unicode rbt_ops (RBT.insert (index_key ascii_unicode 1 (IStr ''Ab c'') 4) [] RBT.empty)
      1 (IStr '' aB  C'') = Inr out \<and> set out = {4}"
proof -
  let ?t = "RBT.insert (index_key ascii_unicode 1 (IStr ''Ab c'') 4) [] RBT.empty"
  obtain out where run: "prop_lookup ascii_unicode rbt_ops ?t 1 (IStr '' aB  C'') = Inr out"
    by (simp add: prop_lookup_def Let_def)
  have same: "same_value ascii_unicode (IStr '' aB  C'') (IStr ''Ab c'')" by (simp add: same_value_def ascii_same)
  have "RBT.lookup ?t (index_key ascii_unicode 1 (IStr '' aB  C'') s) \<noteq> None \<longleftrightarrow> s = 4" for s
    using same by (simp add: index_key_eq)
  then have "{s. RBT.lookup ?t (index_key ascii_unicode 1 (IStr '' aB  C'') s) \<noteq> None} = {4}" by blast
  with prop_lookup_exact [OF rbt_tab.redb_table_axioms run] run show ?thesis by simp
qed

text \<open>Indexing a node makes its slot findable under exactly its declared, indexable property values, up
  to string normalization, and leaves every other lookup result as it was.\<close>

theorem index_node_lookup:
  assumes "redb_table R rows" and "index_node U R spec d node slot t = Inr t'"
    and "prop_lookup U R t p v = Inr before" and "prop_lookup U R t' p v = Inr after"
  shows "set after = (if findable U spec d node p v then insert slot (set before) else set before)"
  using prop_lookup_slots(2) [OF assms(1,3)] prop_lookup_slots(2) [OF assms(1,4)]
    index_node_rows [OF assms(1,2)] node_keys_iff [of U p v _ spec d node slot]
  by (auto split: if_splits)

definition indexed_example :: node_record where
  "indexed_example = \<lparr>n_id = NodeId 7, n_scope = Shared, n_label = ''Person'',
     n_props = [(''name'', PStr ''Ab c''), (''score'', PFloat 0)], n_embedding = None\<rparr>"

definition example_dicts :: dicts where
  "example_dicts = dicts_default\<lparr>d_props := \<lparr>d_names = [''name'' \<mapsto> 3], d_ids = [3 \<mapsto> ''name''], d_next = 4\<rparr>\<rparr>"

definition example_spec :: index_spec where
  "example_spec = \<lparr>equality = [\<lparr>pi_label = ''Person'', pi_prop = ''name''\<rparr>], text_props = []\<rparr>"

lemma example_findable: "findable ascii_unicode example_spec example_dicts indexed_example 3 (IStr '' aB  C'')"
  by (simp add: findable_def indexed_example_def should_index_def example_spec_def id_of_def example_dicts_def
      same_value_def ascii_same)

theorem index_node_lookup_witness:
  "\<exists>t' after. index_node ascii_unicode rbt_ops example_spec example_dicts indexed_example 9 RBT.empty = Inr t' \<and>
     prop_lookup ascii_unicode rbt_ops t' 3 (IStr '' aB  C'') = Inr after \<and> set after = {9}"
proof -
  obtain t' where run: "index_node ascii_unicode rbt_ops example_spec example_dicts indexed_example 9 RBT.empty = Inr t'"
    using index_node_live [OF rbt_tab.redb_table_live_axioms] by blast
  obtain after where af: "prop_lookup ascii_unicode rbt_ops t' 3 (IStr '' aB  C'') = Inr after"
    by (simp add: prop_lookup_def Let_def)
  have "prop_lookup ascii_unicode rbt_ops RBT.empty 3 (IStr '' aB  C'') = Inr []"
    by (simp add: prop_lookup_def Let_def)
  from index_node_lookup [OF rbt_tab.redb_table_axioms run this af] example_findable run af show ?thesis by simp
qed

text \<open>Unindexing a node removes its slot, and only its slot, from exactly the lookups the node was
  findable under.\<close>

theorem unindex_node_lookup:
  assumes "redb_table R rows" and "unindex_node U R spec d node slot t = Inr t'"
    and "prop_lookup U R t p v = Inr before" and "prop_lookup U R t' p v = Inr after"
  shows "set after = (if findable U spec d node p v then set before - {slot} else set before)"
  using prop_lookup_slots(2) [OF assms(1,3)] prop_lookup_slots(2) [OF assms(1,4)]
    unindex_node_rows [OF assms(1,2)] node_keys_iff [of U p v _ spec d node slot]
  by (auto split: if_splits)

theorem unindex_node_lookup_witness:
  "\<exists>t t' after. index_node ascii_unicode rbt_ops example_spec example_dicts indexed_example 9 RBT.empty = Inr t \<and>
     unindex_node ascii_unicode rbt_ops example_spec example_dicts indexed_example 9 t = Inr t' \<and>
     prop_lookup ascii_unicode rbt_ops t' 3 (IStr '' aB  C'') = Inr after \<and> 9 \<notin> set after"
proof -
  obtain t where ix: "index_node ascii_unicode rbt_ops example_spec example_dicts indexed_example 9 RBT.empty = Inr t"
    using index_node_live [OF rbt_tab.redb_table_live_axioms] by blast
  obtain t' where run: "unindex_node ascii_unicode rbt_ops example_spec example_dicts indexed_example 9 t = Inr t'"
    using unindex_node_live [OF rbt_tab.redb_table_live_axioms] by blast
  obtain before after where lk: "prop_lookup ascii_unicode rbt_ops t 3 (IStr '' aB  C'') = Inr before"
      "prop_lookup ascii_unicode rbt_ops t' 3 (IStr '' aB  C'') = Inr after"
    by (simp add: prop_lookup_def Let_def)
  from unindex_node_lookup [OF rbt_tab.redb_table_axioms run lk] example_findable ix run lk show ?thesis by auto
qed

text \<open>An index specification is accepted exactly when neither list declares a label and property twice.\<close>

theorem validate_spec_iff:
  "validate_spec spec = Inr () \<longleftrightarrow>
     distinct (map (\<lambda>p. (pi_label p, pi_prop p)) (equality spec)) \<and>
     distinct (map (\<lambda>p. (pi_label p, pi_prop p)) (text_props spec))"
proof -
  have "validate_unique_from seen ps = Inr () \<longleftrightarrow>
      distinct (map (\<lambda>p. (pi_label p, pi_prop p)) ps) \<and>
      (\<lambda>p. (pi_label p, pi_prop p)) ` set ps \<inter> seen = {}" for seen ps
    by (induction seen ps rule: validate_unique_from.induct) auto
  then show ?thesis by (simp add: validate_spec_def validate_unique_def rbind_Inr)
qed

end
