(* ===== verification/PostingCodec.thy ===== *)
theory PostingCodec
  imports AdjCodec
begin

text \<open>
  The blocks of the postings table (\<^verbatim>\<open>crates/topodb/src/fts.rs\<close>, lines 583-719): the documents that contain a term, as
  pairs of a slot and a term frequency, ascending by slot, delta-coded with the varints of \<^verbatim>\<open>adj.rs\<close>. Decoding inverts
  encoding, and the two readers of the header alone agree with the full decoder.
\<close>

definition POSTINGS_BLOCK_FORMAT_V0 :: u8 where "POSTINGS_BLOCK_FORMAT_V0 = 0"

definition POSTINGS_CHUNK_TARGET :: nat where "POSTINGS_CHUNK_TARGET = 4 * 1024"

type_synonym posting = "u64 \<times> u32"

text \<open>\<^verbatim>\<open>windows(2).any(|pair| pair[0].0 > pair[1].0)\<close>\<close>

fun slot_inversion :: "posting list \<Rightarrow> bool" where
  "slot_inversion (x # y # zs) = (fst x > fst y \<or> slot_inversion (y # zs))"
| "slot_inversion _ = False"

fun encode_postings :: "u64 \<Rightarrow> posting list \<Rightarrow> bytes result" where
  "encode_postings previous [] = Inr []"
| "encode_postings previous ((slot, tf) # es) =
     rbind (ok_or (Encoding ''postings chunk slot underflow'') (checked_sub slot previous)) (\<lambda>delta.
     rbind (encode_postings slot es) (\<lambda>tail.
     Inr (write_varint delta @ write_varint (ucast tf) @ tail)))"

definition encode_posting_block :: "posting list \<Rightarrow> bytes result" where
  "encode_posting_block entries =
     (if entries = [] then Inl (Encoding ''cannot encode an empty postings chunk (empty chunks are removed, never written)'')
      else if slot_inversion entries then Inl (Encoding ''postings chunk entries are not slot-sorted'')
      else rbind (encode_postings 0 entries) (\<lambda>body.
           Inr (POSTINGS_BLOCK_FORMAT_V0 # write_varint (word_of_nat (length entries)) @ body)))"

primrec decode_postings :: "nat \<Rightarrow> u64 \<Rightarrow> bytes \<Rightarrow> (posting list \<times> bytes) result" where
  "decode_postings 0 slot input = Inr ([], input)"
| "decode_postings (Suc n) slot input =
     rbind (read_varint input) (\<lambda>(delta, i1).
     rbind (ok_or (Encoding ''postings chunk slot overflow'') (checked_add slot delta)) (\<lambda>slot'.
     rbind (read_varint i1) (\<lambda>(t, i2).
     rbind (if unat t < 2 ^ 32 then Inr (ucast t) else Inl (Encoding ''postings chunk tf too large'')) (\<lambda>tf.
     rbind (decode_postings n slot' i2) (\<lambda>(es, rest).
     Inr ((slot', tf) # es, rest))))))"

text \<open>The format byte, shared by the three readers.\<close>

definition block_body :: "bytes \<Rightarrow> bytes result" where
  "block_body payload =
     (case payload of
        [] \<Rightarrow> Inl (Encoding ''empty postings chunk block'')
      | format # input \<Rightarrow>
          if format \<noteq> POSTINGS_BLOCK_FORMAT_V0 then Inl (Encoding ''unknown postings block format'') else Inr input)"

definition decode_posting_block :: "bytes \<Rightarrow> posting list result" where
  "decode_posting_block payload =
     rbind (block_body payload) (\<lambda>input.
     rbind (read_varint input) (\<lambda>(count, rest).
     rbind (decode_postings (unat count) 0 rest) (\<lambda>(entries, rest').
     if rest' \<noteq> [] then Inl (Encoding ''trailing bytes in postings chunk block'') else Inr entries)))"

definition posting_block_count :: "bytes \<Rightarrow> u64 result" where
  "posting_block_count payload =
     rbind (block_body payload) (\<lambda>input. rbind (read_varint input) (\<lambda>(count, _). Inr count))"

definition peek_first_slot :: "bytes \<Rightarrow> u64 result" where
  "peek_first_slot payload =
     rbind (block_body payload) (\<lambda>input.
     rbind (read_varint input) (\<lambda>(count, rest).
     if count = 0 then Inl (Encoding ''zero-count postings chunk block (empty chunks are removed, never written)'')
     else rbind (read_varint rest) (\<lambda>(slot, _). Inr slot)))"

section \<open>Round trips\<close>

lemma slot_inversion_sorted: "slot_inversion es \<longleftrightarrow> \<not> sorted (map fst es)"
  by (induction es rule: slot_inversion.induct) (fastforce simp: not_less)+

lemma decode_encode_postings:
  "encode_postings previous es = Inr body \<Longrightarrow> decode_postings (length es) previous (body @ rest) = Inr (es, rest)"
proof (induction es arbitrary: previous body)
  case (Cons e es)
  obtain slot tf where e: "e = (slot, tf)" by fastforce
  from Cons.prems obtain delta tail where d: "checked_sub slot previous = Some delta"
    and t: "encode_postings slot es = Inr tail" and body: "body = write_varint delta @ write_varint (ucast tf) @ tail"
    by (auto simp: e rbind_Inr)
  have "unat tf < 2 ^ 32" using unat_bound [of tf] by simp
  then show ?case using Cons.IH [OF t] checked_add_sub [OF d] by (simp add: body e)
qed simp

lemma encode_postings_ok:
  "sorted (map fst es) \<Longrightarrow> (\<forall>e \<in> set es. previous \<le> fst e) \<Longrightarrow> \<exists>body. encode_postings previous es = Inr body"
proof (induction es arbitrary: previous)
  case (Cons e es)
  obtain slot tf where e: "e = (slot, tf)" by fastforce
  from Cons have "\<exists>tail. encode_postings slot es = Inr tail" by (intro Cons.IH) (auto simp: e)
  with Cons.prems show ?case by (auto simp: e checked_sub_def)
qed simp

lemma encode_block_parts:
  assumes "encode_posting_block es = Inr bs"
  obtains body where "encode_postings 0 es = Inr body" "es \<noteq> []" "sorted (map fst es)"
    "bs = POSTINGS_BLOCK_FORMAT_V0 # write_varint (word_of_nat (length es)) @ body"
  using assms by (auto simp: encode_posting_block_def rbind_Inr slot_inversion_sorted split: if_splits)

lemma encode_posting_block_iff: "(\<exists>bs. encode_posting_block es = Inr bs) \<longleftrightarrow> es \<noteq> [] \<and> sorted (map fst es)"
  using encode_postings_ok [of es 0]
  by (auto simp: encode_posting_block_def slot_inversion_sorted rbind_Inr split: if_splits)

lemma encode_postings_length: "encode_postings p es = Inr body \<Longrightarrow> length es \<le> length body"
proof (induction es arbitrary: p body)
  case (Cons e es)
  then obtain delta tail where "encode_postings (fst e) es = Inr tail" "length body = length (write_varint delta) + length (write_varint (ucast (snd e))) + length tail"
    by (cases e) (auto simp: rbind_Inr)
  moreover have "1 \<le> length (write_varint v)" for v by (cases "0x80 \<le> v") (simp_all add: write_varint_step)
  from this [of delta] have "1 \<le> length (write_varint delta)" .
  ultimately show ?case using Cons.IH by fastforce
qed simp

lemma block_roundtrips:
  assumes "encode_posting_block es = Inr bs" "length es < 2 ^ 64"
  shows "decode_posting_block bs = Inr es" "posting_block_count bs = Inr (word_of_nat (length es))"
    "peek_first_slot bs = Inr (fst (hd es))"
proof -
  from encode_block_parts [OF assms(1)] obtain body where b: "encode_postings 0 es = Inr body" and ne: "es \<noteq> []"
    and bs: "bs = POSTINGS_BLOCK_FORMAT_V0 # write_varint (word_of_nat (length es)) @ body" by metis
  have n: "unat (word_of_nat (length es) :: u64) = length es" using assms(2) by (simp add: unat_of_nat)
  show "decode_posting_block bs = Inr es"
    using decode_encode_postings [OF b, of "[]"] by (simp add: bs decode_posting_block_def block_body_def n)
  show "posting_block_count bs = Inr (word_of_nat (length es))"
    by (simp add: bs posting_block_count_def block_body_def)
  have nz: "(word_of_nat (length es) :: u64) \<noteq> 0" using n ne by (metis length_greater_0_conv unat_0 not_less_zero)
  obtain slot tf rest where es: "es = (slot, tf) # rest" using ne by (metis list.exhaust prod.exhaust)
  with b obtain tail where "body = write_varint slot @ write_varint (ucast tf) @ tail"
    by (auto simp: rbind_Inr checked_sub_def split: if_splits)
  then show "peek_first_slot bs = Inr (fst (hd es))" using nz by (simp add: bs peek_first_slot_def block_body_def es)
qed

lemma decode_postings_sorted:
  "decode_postings n slot input = Inr (es, rest) \<Longrightarrow>
     sorted (map fst es) \<and> (\<forall>e \<in> set es. slot \<le> fst e) \<and> length es = n"
proof (induction n arbitrary: slot input es)
  case (Suc n)
  then obtain delta i1 slot' i2 tf es' where s: "checked_add slot delta = Some slot'"
    and r: "decode_postings n slot' i2 = Inr (es', rest)" and es: "es = (slot', tf) # es'"
    by (auto simp: rbind_Inr split: prod.splits if_splits)
  from checked_add_unat [OF s] have "slot \<le> slot'" by (simp add: word_le_nat_alt)
  with Suc.IH [OF r] show ?case by (auto simp: es)
qed simp

text \<open>A block that was encoded decodes to its entries, whose number and first slot its header carries, so the
  document frequency and the search for a covering chunk need no full decode. Encoding succeeds exactly for non-empty
  lists sorted by slot.\<close>

theorem posting_block_roundtrip:
  assumes "es \<noteq> []" and "sorted (map fst es)" and "length es < 2 ^ 64"
  shows "\<exists>bs. encode_posting_block es = Inr bs \<and> decode_posting_block bs = Inr es \<and>
    posting_block_count bs = Inr (word_of_nat (length es)) \<and> peek_first_slot bs = Inr (fst (hd es))"
proof -
  from assms(1,2) obtain bs where bs: "encode_posting_block es = Inr bs" using encode_posting_block_iff by blast
  from block_roundtrips [OF bs assms(3)] bs show ?thesis by blast
qed

theorem posting_block_roundtrip_witness:
  "\<exists>bs. encode_posting_block [(3, 2), (300, 1)] = Inr bs \<and> decode_posting_block bs = Inr [(3, 2), (300, 1)] \<and>
    posting_block_count bs = Inr 2 \<and> peek_first_slot bs = Inr 3"
  using posting_block_roundtrip [of "[(3, 2), (300, 1)]"] by simp

end
