(* ===== verification/Adj.thy ===== *)
theory Adj
  imports AdjCodec Codec Redb "HOL-Library.Multiset"
begin

text \<open>
  The adjacency tables (\<^verbatim>\<open>crates/topodb/src/adj.rs\<close>, lines 144-349): under each slot and edge type
  the entries are kept in numbered chunks, each a framed block of at most about 8 KiB. The
  abstraction of a table is the multiset of entries under a slot and type (\<open>adj_ms\<close>); the lemmas
  of the locale \<open>chunk_store\<close> show what each operation does to it. A panic of the source is the
  error \<open>panicked\<close>.
\<close>

definition panicked :: "string \<Rightarrow> topo_error" where
  "panicked msg = Encoding (''panic: '' @ msg)"

definition CHUNK_SPLIT_TARGET :: nat where "CHUNK_SPLIT_TARGET = 8 * 1024"

definition out_adj_key :: "u64 \<Rightarrow> u32 \<Rightarrow> u32 \<Rightarrow> bytes" where
  "out_adj_key slot edge_type chunk = u64_to_be slot @ u32_to_be edge_type @ u32_to_be chunk"

definition key_parts :: "bytes \<Rightarrow> (u64 \<times> u32 \<times> u32) option" where
  "key_parts key =
     (if length key = 16
      then Some (u64_from_be (take 8 key), u32_from_be (take 4 (drop 8 key)), u32_from_be (drop 12 key))
      else None)"

text \<open>\<^verbatim>\<open>key.value().try_into().expect("table key width")\<close>\<close>

definition key_width :: "bytes \<Rightarrow> bytes result" where
  "key_width k = try_into 16 (panicked ''table key width'') k"

definition type_chunk_keys :: "('b, bytes, bytes) table_ops \<Rightarrow> 'b \<Rightarrow> u64 \<Rightarrow> u32 \<Rightarrow> bytes list result" where
  "type_chunk_keys T t slot edge_type =
     rbind (redb (trange T t (out_adj_key slot edge_type 0) (out_adj_key slot edge_type (- 1)))) (\<lambda>es.
     rmap_list key_width (map fst es))"

definition slot_chunk_keys :: "('b, bytes, bytes) table_ops \<Rightarrow> 'b \<Rightarrow> u64 \<Rightarrow> bytes list result" where
  "slot_chunk_keys T t slot =
     rbind (redb (trange T t (out_adj_key slot 0 0) (out_adj_key slot (- 1) (- 1)))) (\<lambda>es.
     rmap_list key_width (map fst es))"

definition load_chunk :: "lz4 \<Rightarrow> ('b, bytes, bytes) table_ops \<Rightarrow> 'b \<Rightarrow> bytes \<Rightarrow> adj_entry list result" where
  "load_chunk L T t key =
     rbind (redb (tget T t key)) (\<lambda>v. case v of
        None \<Rightarrow> Inr []
      | Some b \<Rightarrow> rbind (unframe_value L b) decode_block)"

definition store_chunk :: "lz4 \<Rightarrow> ('b, bytes, bytes) table_ops \<Rightarrow> bytes \<Rightarrow> adj_entry list \<Rightarrow> 'b \<Rightarrow> 'b result" where
  "store_chunk L T key entries t =
     rbind (encode_block entries) (\<lambda>raw. redb (tinsert T t key (frame_value L raw)))"

text \<open>
  \<^verbatim>\<open>binary_search_by_key\<close> on a list sorted by target and edge: the position of the first entry that
  is not below the new one, which is the insertion point when the key is absent and the position
  of a match when it is present.
\<close>

definition entry_less :: "adj_entry \<Rightarrow> adj_entry \<Rightarrow> bool" where
  "entry_less a b \<longleftrightarrow> a_target a < a_target b \<or> a_target a = a_target b \<and> a_edge a < a_edge b"

definition insertion_index :: "adj_entry \<Rightarrow> adj_entry list \<Rightarrow> nat" where
  "insertion_index e es = length (takeWhile (\<lambda>c. entry_less c e) es)"

definition insert_at :: "nat \<Rightarrow> 'a \<Rightarrow> 'a list \<Rightarrow> 'a list" where
  "insert_at i x xs = take i xs @ x # drop i xs"

text \<open>The number of the final chunk, 0 when there is none.\<close>

definition last_chunk_of :: "bytes list \<Rightarrow> u32" where
  "last_chunk_of keys =
     (case (if keys = [] then None else key_parts (last keys)) of
        Some (_, _, chunk) \<Rightarrow> chunk | None \<Rightarrow> 0)"

text \<open>Storing the entries of a chunk, in two halves when they outgrew the target. The new chunk
  number is a 32-bit sum, which wraps in a release build.\<close>

definition store_or_split :: "lz4 \<Rightarrow> ('b, bytes, bytes) table_ops \<Rightarrow> u64 \<Rightarrow> u32 \<Rightarrow> u32 \<Rightarrow> adj_entry list
    \<Rightarrow> 'b \<Rightarrow> 'b result" where
  "store_or_split L T slot edge_type chunk entries t =
     rbind (encode_block entries) (\<lambda>raw.
     if length raw \<le> CHUNK_SPLIT_TARGET then store_chunk L T (out_adj_key slot edge_type chunk) entries t
     else let split = length entries div 2
          in rbind (store_chunk L T (out_adj_key slot edge_type chunk) (take split entries) t)
               (store_chunk L T (out_adj_key slot edge_type (chunk + 1)) (drop split entries)))"

definition adj_insert :: "lz4 \<Rightarrow> ('b, bytes, bytes) table_ops \<Rightarrow> u64 \<Rightarrow> u32 \<Rightarrow> adj_entry \<Rightarrow> 'b \<Rightarrow> 'b result" where
  "adj_insert L T slot edge_type entry t =
     rbind (type_chunk_keys T t slot edge_type) (\<lambda>keys.
     rbind (load_chunk L T t (out_adj_key slot edge_type (last_chunk_of keys))) (\<lambda>entries.
     store_or_split L T slot edge_type (last_chunk_of keys)
       (insert_at (insertion_index entry entries) entry entries) t))"

definition read_chunks :: "lz4 \<Rightarrow> ('b, bytes, bytes) table_ops \<Rightarrow> 'b \<Rightarrow> u32 \<Rightarrow> bytes list
    \<Rightarrow> (u32 \<times> adj_entry) list \<Rightarrow> (u32 \<times> adj_entry) list result" where
  "read_chunks L T t edge_type =
     rfold (\<lambda>key out. rbind (load_chunk L T t key) (\<lambda>es. Inr (out @ map (Pair edge_type) es)))"

text \<open>The body of the unfiltered read: the type comes back out of the chunk key.\<close>

definition read_typed_chunk :: "lz4 \<Rightarrow> ('b, bytes, bytes) table_ops \<Rightarrow> 'b \<Rightarrow> bytes
    \<Rightarrow> (u32 \<times> adj_entry) list \<Rightarrow> (u32 \<times> adj_entry) list result" where
  "read_typed_chunk L T t key out =
     rbind (ok_or (Encoding ''bad adjacency key'') (key_parts key)) (\<lambda>(_, edge_type, _).
     rbind (load_chunk L T t key) (\<lambda>es. Inr (out @ map (Pair edge_type) es)))"

definition read_adj :: "lz4 \<Rightarrow> ('b, bytes, bytes) table_ops \<Rightarrow> 'b \<Rightarrow> u64 \<Rightarrow> u32 list option
    \<Rightarrow> (u32 \<times> adj_entry) list result" where
  "read_adj L T t slot edge_types =
     (case edge_types of
        Some types \<Rightarrow>
          rfold (\<lambda>edge_type out. rbind (type_chunk_keys T t slot edge_type)
                   (\<lambda>keys. read_chunks L T t edge_type keys out)) types []
      | None \<Rightarrow>
          rbind (slot_chunk_keys T t slot) (\<lambda>keys.
          rfold (read_typed_chunk L T t) keys []))"

text \<open>\<^verbatim>\<open>entries.iter_mut().find(...)\<close> and the assignment to what it found.\<close>

fun close_first :: "u64 \<Rightarrow> i64 \<Rightarrow> adj_entry list \<Rightarrow> adj_entry list option" where
  "close_first edge vt [] = None"
| "close_first edge vt (e # es) =
     (if a_edge e = edge then Some (e\<lparr>a_valid_to := Some vt\<rparr> # es)
      else map_option ((#) e) (close_first edge vt es))"

fun adj_close_keys :: "lz4 \<Rightarrow> ('b, bytes, bytes) table_ops \<Rightarrow> u64 \<Rightarrow> i64 \<Rightarrow> bytes list \<Rightarrow> 'b
    \<Rightarrow> (bool \<times> 'b) result" where
  "adj_close_keys L T edge vt [] t = Inr (False, t)"
| "adj_close_keys L T edge vt (key # keys) t =
     rbind (load_chunk L T t key) (\<lambda>entries.
     case close_first edge vt entries of
       Some entries' \<Rightarrow> rbind (store_chunk L T key entries' t) (\<lambda>t'. Inr (True, t'))
     | None \<Rightarrow> adj_close_keys L T edge vt keys t)"

definition adj_close :: "lz4 \<Rightarrow> ('b, bytes, bytes) table_ops \<Rightarrow> u64 \<Rightarrow> u32 \<Rightarrow> u64 \<Rightarrow> i64 \<Rightarrow> 'b
    \<Rightarrow> (bool \<times> 'b) result" where
  "adj_close L T slot edge_type edge vt t =
     rbind (type_chunk_keys T t slot edge_type) (\<lambda>keys. adj_close_keys L T edge vt keys t)"

fun adj_remove_keys :: "lz4 \<Rightarrow> ('b, bytes, bytes) table_ops \<Rightarrow> u64 \<Rightarrow> bytes list \<Rightarrow> 'b \<Rightarrow> (bool \<times> 'b) result" where
  "adj_remove_keys L T edge [] t = Inr (False, t)"
| "adj_remove_keys L T edge (key # keys) t =
     rbind (load_chunk L T t key) (\<lambda>entries.
     let entries' = filter (\<lambda>e. a_edge e \<noteq> edge) entries
     in if length entries' \<noteq> length entries then
          if entries' = [] then rbind (redb (tremove T t key)) (\<lambda>(_, t'). Inr (True, t'))
          else rbind (store_chunk L T key entries' t) (\<lambda>t'. Inr (True, t'))
        else adj_remove_keys L T edge keys t)"

definition adj_remove_edge :: "lz4 \<Rightarrow> ('b, bytes, bytes) table_ops \<Rightarrow> u64 \<Rightarrow> u32 \<Rightarrow> u64 \<Rightarrow> 'b
    \<Rightarrow> (bool \<times> 'b) result" where
  "adj_remove_edge L T slot edge_type edge t =
     rbind (type_chunk_keys T t slot edge_type) (\<lambda>keys. adj_remove_keys L T edge keys t)"

text \<open>One chunk of the drain: collect its entries, then drop the row.\<close>

definition drain_chunk :: "lz4 \<Rightarrow> ('b, bytes, bytes) table_ops \<Rightarrow> bytes
    \<Rightarrow> (u32 \<times> adj_entry) list \<times> 'b \<Rightarrow> ((u32 \<times> adj_entry) list \<times> 'b) result" where
  "drain_chunk L T key = (\<lambda>(entries, t).
     rbind (read_typed_chunk L T t key entries) (\<lambda>entries'.
     rbind (redb (tremove T t key)) (\<lambda>(_, t'). Inr (entries', t'))))"

definition adj_remove_all :: "lz4 \<Rightarrow> ('b, bytes, bytes) table_ops \<Rightarrow> u64 \<Rightarrow> 'b
    \<Rightarrow> ((u32 \<times> adj_entry) list \<times> 'b) result" where
  "adj_remove_all L T slot t =
     rbind (slot_chunk_keys T t slot) (\<lambda>keys. rfold (drain_chunk L T) keys ([], t))"

section \<open>Chunk keys\<close>

lemma length_out_adj_key [simp]: "length (out_adj_key s ty c) = 16"
  by (simp add: out_adj_key_def)

lemma out_adj_key_inject [simp]:
  "out_adj_key s ty c = out_adj_key s' ty' c' \<longleftrightarrow> s = s' \<and> ty = ty' \<and> c = c'"
  by (simp add: out_adj_key_def)

lemma key_parts_key [simp]: "key_parts (out_adj_key s ty c) = Some (s, ty, c)"
  by (simp add: key_parts_def out_adj_key_def)

lemma adj_key_exists:
  assumes "length k = 16"
  shows "\<exists>s ty c. k = out_adj_key s ty c"
proof -
  obtain s where s: "take 8 k = u64_to_be s" using be_bytes_exist(1) [of "take 8 k"] assms by auto
  obtain ty where ty: "take 4 (drop 8 k) = u32_to_be ty"
    using be_bytes_exist(2) [of "take 4 (drop 8 k)"] assms by auto
  obtain c where c: "drop 12 k = u32_to_be c" using be_bytes_exist(2) [of "drop 12 k"] assms by auto
  have "k = take 8 k @ take 4 (drop 8 k) @ drop 12 k"
    by (metis append_take_drop_id drop_drop numeral_plus_numeral semiring_norm(2,3,4,6,7,8))
  with s ty c show ?thesis unfolding out_adj_key_def by metis
qed

lemma u32_to_be_less_iff [simp]: "u32_to_be a < u32_to_be b \<longleftrightarrow> a < b"
  using u32_to_be_le_iff [of b a] by (simp add: not_le [symmetric] del: u32_to_be_le_iff)

lemma out_adj_key_le_iff:
  "out_adj_key s ty c \<le> out_adj_key s' ty' c' \<longleftrightarrow>
     s < s' \<or> s = s' \<and> (ty < ty' \<or> ty = ty' \<and> c \<le> c')"
  by (simp add: out_adj_key_def bytes_le_append_iff)

lemma in_type_range:
  assumes "length k = 16"
  shows "out_adj_key s ty 0 \<le> k \<and> k \<le> out_adj_key s ty (- 1) \<longleftrightarrow> (\<exists>c. k = out_adj_key s ty c)"
  using adj_key_exists [OF assms] by (auto simp: out_adj_key_le_iff)

lemma in_slot_range:
  assumes "length k = 16"
  shows "out_adj_key s 0 0 \<le> k \<and> k \<le> out_adj_key s (- 1) (- 1) \<longleftrightarrow> (\<exists>ty c. k = out_adj_key s ty c)"
proof -
  have "ty < - 1 \<or> ty = - 1" "0 < ty \<or> ty = 0" for ty :: u32
    using word_n1_ge [of ty] word_zero_le [of ty] by (auto simp: le_less)
  then show ?thesis using adj_key_exists [OF assms] by (auto simp: out_adj_key_le_iff)
qed

lemma rmap_key_width: "rmap_list key_width ks = Inr ks' \<longleftrightarrow> ks' = ks \<and> (\<forall>k \<in> set ks. length k = 16)"
  by (induction ks arbitrary: ks') (auto simp: rbind_Inr key_width_def)

section \<open>Well-formed chunks\<close>

definition entry_le :: "adj_entry \<Rightarrow> adj_entry \<Rightarrow> bool" where
  "entry_le a b \<longleftrightarrow> \<not> entry_less b a"

text \<open>Sorted by target and edge, and small: the number of entries never exceeds the split target.\<close>

definition chunk_ok :: "adj_entry list \<Rightarrow> bool" where
  "chunk_ok es \<longleftrightarrow> sorted_wrt entry_le es \<and> length es \<le> 8192"

lemma entry_le_target: "entry_le a b \<Longrightarrow> a_target a \<le> a_target b"
  by (auto simp: entry_le_def entry_less_def)

lemma sorted_targets: "sorted_wrt entry_le es \<Longrightarrow> sorted (map a_target es)"
  by (induction es) (auto simp: entry_le_target)

lemma chunk_ok_encodes: "chunk_ok es \<Longrightarrow> \<exists>raw. encode_block es = Inr raw"
  by (simp add: chunk_ok_def encode_block_Inr_iff sorted_targets)

lemma entry_less_trans: "entry_less a b \<Longrightarrow> entry_less b c \<Longrightarrow> entry_less a c"
  by (auto simp: entry_less_def)

lemma entry_le_cases: "entry_less a b \<Longrightarrow> entry_le a b"
  by (auto simp: entry_le_def entry_less_def)

lemma insert_at_Cons: "insert_at (insertion_index e (c # cs)) e (c # cs) =
    (if entry_less c e then c # insert_at (insertion_index e cs) e cs else e # c # cs)"
  by (simp add: insert_at_def insertion_index_def)

lemma mset_insert_at [simp]: "mset (insert_at i e es) = add_mset e (mset es)"
proof -
  have "mset es = mset (take i es) + mset (drop i es)" by (metis append_take_drop_id mset_append)
  then show ?thesis by (simp add: insert_at_def)
qed

lemma length_insert_at [simp]: "length (insert_at i e es) = Suc (length es)"
  by (metis mset_insert_at size_mset size_add_mset)

lemma sorted_insert: "sorted_wrt entry_le es \<Longrightarrow> sorted_wrt entry_le (insert_at (insertion_index e es) e es)"
proof (induction es)
  case Nil
  then show ?case by (simp add: insert_at_def)
next
  case (Cons c cs)
  have "set (insert_at (insertion_index e cs) e cs) = insert e (set cs)"
    by (metis mset_insert_at set_mset_add_mset_insert set_mset_mset)
  with Cons show ?case
    unfolding insert_at_Cons by (auto simp: entry_le_cases) (auto simp: entry_le_def entry_less_def)
qed

lemma close_first_None: "close_first edge vt es = None \<longleftrightarrow> (\<forall>e \<in> set es. a_edge e \<noteq> edge)"
  by (induction es) auto

lemma close_first_keys: "close_first edge vt es = Some es' \<Longrightarrow>
    map (\<lambda>e. (a_target e, a_edge e)) es' = map (\<lambda>e. (a_target e, a_edge e)) es"
  by (induction es arbitrary: es') (auto split: if_splits)

lemma sorted_keys_cong:
  assumes "map (\<lambda>e. (a_target e, a_edge e)) es' = map (\<lambda>e. (a_target e, a_edge e)) es"
  shows "sorted_wrt entry_le es' \<longleftrightarrow> sorted_wrt entry_le es"
proof -
  let ?le = "\<lambda>p q. \<not> (fst q < fst p \<or> fst q = fst p \<and> snd q < snd p)"
  have "sorted_wrt entry_le xs \<longleftrightarrow> sorted_wrt ?le (map (\<lambda>e. (a_target e, a_edge e)) xs)" for xs
    by (simp add: sorted_wrt_map entry_le_def [abs_def] entry_less_def)
  from this [of es'] this [of es] show ?thesis unfolding assms by simp
qed

lemma close_first_ok: "close_first edge vt es = Some es' \<Longrightarrow> chunk_ok es \<Longrightarrow> chunk_ok es'"
  using close_first_keys [of edge vt es es'] sorted_keys_cong [of es' es]
  by (auto simp: chunk_ok_def dest: map_eq_imp_length_eq)

lemma close_first_mset:
  "close_first edge vt es = Some es' \<Longrightarrow> \<exists>e \<in> set es. a_edge e = edge \<and>
     mset es' = add_mset (e\<lparr>a_valid_to := Some vt\<rparr>) (mset es - {#e#})"
proof (induction es arbitrary: es')
  case (Cons c cs)
  show ?case
  proof (cases "a_edge c = edge")
    case True
    with Cons.prems show ?thesis by auto
  next
    case False
    with Cons.prems obtain r where r: "close_first edge vt cs = Some r" "es' = c # r" by auto
    from Cons.IH [OF r(1)] obtain e where e: "e \<in> set cs" "a_edge e = edge"
      "mset r = add_mset (e\<lparr>a_valid_to := Some vt\<rparr>) (mset cs - {#e#})" by blast
    then have "mset es' = add_mset (e\<lparr>a_valid_to := Some vt\<rparr>) (mset (c # cs) - {#e#})"
      using r(2) by simp
    with e show ?thesis by auto
  qed
qed simp

lemma encode_entries_length: "encode_entries p es = Inr body \<Longrightarrow> length es \<le> length body"
proof (induction es arbitrary: p body)
  case (Cons e es)
  then obtain delta tail where t: "encode_entries (a_target e) es = Inr tail" and
    b: "body = write_varint delta @ write_varint (a_edge e) @ write_varint (ucast (a_scope e)) @
          write_varint (zigzag (a_valid_from e)) @ encode_valid_to (a_valid_to e) @ tail"
    by (auto simp: rbind_Inr)
  have "1 \<le> length (encode_valid_to vt)" for vt by (cases vt) (simp_all add: encode_valid_to_def)
  from this [of "a_valid_to e"] show ?case using Cons.IH [OF t] unfolding b by simp
qed simp

lemma encode_block_length: "encode_block es = Inr raw \<Longrightarrow> length es \<le> length raw"
  by (auto simp: encode_block_def rbind_Inr split: if_splits dest!: encode_entries_length)

lemma write_varint_length: "unat v < 2 ^ (7 * n) \<Longrightarrow> 0 < n \<Longrightarrow> length (write_varint v) \<le> n"
proof (induction v arbitrary: n rule: write_varint.induct)
  case (1 v)
  show ?case
  proof (cases "0x80 \<le> v")
    case True
    then have big: "2 ^ 7 \<le> unat v" by (simp add: word_le_nat_alt)
    obtain m where n: "n = Suc m" using "1.prems"(2) gr0_conv_Suc by blast
    have "m \<noteq> 0" using big "1.prems"(1) n by (intro notI) simp
    have "unat (drop_bit 7 v) = unat v div 2 ^ 7" unfolding unat_drop_bit_eq by (simp add: drop_bit_eq_div)
    moreover have "unat v < 2 ^ (7 * m) * 2 ^ 7" using "1.prems"(1) n by (simp add: power_add)
    ultimately have "unat (drop_bit 7 v) < 2 ^ (7 * m)" by (simp only: less_mult_imp_div_less)
    from "1.IH" [OF True this] \<open>m \<noteq> 0\<close> show ?thesis by (simp add: write_varint_step(1) [OF True] n)
  next
    case False
    then show ?thesis using "1.prems"(2) by (simp add: write_varint_step)
  qed
qed

lemma write_varint_10: "length (write_varint v) \<le> 10"
  using unat_bound [of v] by (intro write_varint_length) simp_all

lemma encode_entries_small: "encode_entries p es = Inr body \<Longrightarrow> length body \<le> 51 * length es"
proof (induction es arbitrary: p body)
  case (Cons e es)
  then obtain delta tail where t: "encode_entries (a_target e) es = Inr tail" and
    b: "body = write_varint delta @ write_varint (a_edge e) @ write_varint (ucast (a_scope e)) @
          write_varint (zigzag (a_valid_from e)) @ encode_valid_to (a_valid_to e) @ tail"
    by (auto simp: rbind_Inr)
  have "length (encode_valid_to vt) \<le> 11" for vt
    using write_varint_10 by (cases vt) (simp_all add: encode_valid_to_def)
  from this [of "a_valid_to e"] show ?case
    using Cons.IH [OF t] write_varint_10 [of delta] write_varint_10 [of "a_edge e"]
      write_varint_10 [of "ucast (a_scope e)"] write_varint_10 [of "zigzag (a_valid_from e)"]
    unfolding b by simp
qed simp

lemma chunk_ok_small:
  assumes "chunk_ok es" "encode_block es = Inr raw"
  shows "length raw \<le> unat MAX_DECOMPRESSED_LEN"
proof -
  from assms(2) obtain body where b: "encode_entries 0 es = Inr body"
    and raw: "raw = ADJ_BLOCK_FORMAT_V0 # write_varint (word_of_nat (length es)) @ body"
    by (auto simp: encode_block_def rbind_Inr split: if_splits)
  have "length body \<le> 51 * 8192" using encode_entries_small [OF b] assms(1) by (simp add: chunk_ok_def)
  then show ?thesis using write_varint_10 [of "word_of_nat (length es)"]
    by (simp add: raw MAX_DECOMPRESSED_LEN_def)
qed

lemma mset_sub_size_eq:
  assumes "A \<subseteq># B" "size B \<le> size A"
  shows "A = B"
proof -
  obtain C where C: "B = A + C" using assms(1) by (auto simp: subset_mset.le_iff_add)
  with assms(2) have "size C = 0" by simp
  with C show ?thesis by simp
qed

section \<open>The abstraction of a table\<close>

definition block_entries :: "lz4 \<Rightarrow> bytes \<Rightarrow> adj_entry list" where
  "block_entries L b = (case rbind (unframe_value L b) decode_block of Inr es \<Rightarrow> es | Inl _ \<Rightarrow> [])"

text \<open>What a chunk key holds.\<close>

definition chunk_at :: "lz4 \<Rightarrow> (bytes \<rightharpoonup> bytes) \<Rightarrow> bytes \<Rightarrow> adj_entry list" where
  "chunk_at L rs k = (case rs k of None \<Rightarrow> [] | Some b \<Rightarrow> block_entries L b)"

definition adj_wf :: "lz4 \<Rightarrow> (bytes \<rightharpoonup> bytes) \<Rightarrow> bool" where
  "adj_wf L rs \<longleftrightarrow> (\<forall>k b. rs k = Some b \<longrightarrow> length k = 16 \<and>
     (\<exists>es raw. chunk_ok es \<and> encode_block es = Inr raw \<and> b = frame_value L raw))"

text \<open>The entries under a slot and an edge type, over all its chunks.\<close>

definition adj_ms :: "(bytes \<Rightarrow> adj_entry list) \<Rightarrow> u64 \<Rightarrow> u32 \<Rightarrow> adj_entry multiset" where
  "adj_ms c s ty = (\<Sum>ch \<in> UNIV. mset (c (out_adj_key s ty ch)))"

lemma adj_ms_cong: "(\<And>ch. c (out_adj_key s ty ch) = c' (out_adj_key s ty ch)) \<Longrightarrow> adj_ms c s ty = adj_ms c' s ty"
  by (simp add: adj_ms_def)

lemma adj_ms_other [simp]:
  "(s', ty') \<noteq> (s, ty) \<Longrightarrow> adj_ms (c(out_adj_key s ty ch := es)) s' ty' = adj_ms c s' ty'"
  by (intro adj_ms_cong) auto

lemma adj_ms_split: "adj_ms c s ty = mset (c (out_adj_key s ty ch)) + (\<Sum>i \<in> UNIV - {ch}. mset (c (out_adj_key s ty i)))"
  unfolding adj_ms_def by (rule sum.remove) simp_all

lemma adj_ms_upd:
  "adj_ms (c(out_adj_key s ty ch := es)) s ty + mset (c (out_adj_key s ty ch)) = adj_ms c s ty + mset es"
proof -
  have "(\<Sum>i \<in> UNIV - {ch}. mset ((c(out_adj_key s ty ch := es)) (out_adj_key s ty i))) =
      (\<Sum>i \<in> UNIV - {ch}. mset (c (out_adj_key s ty i)))"
    by (intro sum.cong) auto
  then show ?thesis
    unfolding adj_ms_split [of "c(out_adj_key s ty ch := es)" s ty ch] adj_ms_split [of c s ty ch] by simp
qed

lemma adj_ms_mem: "e \<in># adj_ms c s ty \<longleftrightarrow> (\<exists>ch. e \<in> set (c (out_adj_key s ty ch)))"
  by (simp add: adj_ms_def set_mset_sum)

text \<open>The entries of a chunk, each with the edge type of its key.\<close>

definition typed_chunk :: "(bytes \<Rightarrow> adj_entry list) \<Rightarrow> bytes \<Rightarrow> (u32 \<times> adj_entry) list" where
  "typed_chunk c k = (case key_parts k of Some (_, ty, _) \<Rightarrow> map (Pair ty) (c k) | None \<Rightarrow> [])"

locale chunk_store = redb_table T rows + lz4_codec L
  for T :: "('t, bytes, bytes) table_ops" and rows and L
begin

abbreviation chunks :: "'t \<Rightarrow> bytes \<Rightarrow> adj_entry list" where
  "chunks t \<equiv> chunk_at L (rows t)"

lemma block_roundtrip:
  assumes "chunk_ok es" "encode_block es = Inr raw"
  shows "rbind (unframe_value L (frame_value L raw)) decode_block = Inr es"
proof -
  have "length es < 2 ^ 64" using assms(1) by (simp add: chunk_ok_def)
  then show ?thesis
    using unframe_frame [OF chunk_ok_small [OF assms]] decode_encode_block [OF assms(2)] by simp
qed

lemma wf_chunk:
  assumes "adj_wf L rs" "rs k = Some b"
  shows "length k = 16" "chunk_ok (chunk_at L rs k)"
    "rbind (unframe_value L b) decode_block = Inr (chunk_at L rs k)"
proof -
  from assms obtain es raw where k: "length k = 16" and es: "chunk_ok es" "encode_block es = Inr raw" "b = frame_value L raw"
    unfolding adj_wf_def by blast
  then have "chunk_at L rs k = es" using block_roundtrip assms(2) by (simp add: chunk_at_def block_entries_def)
  with k es block_roundtrip show "length k = 16" "chunk_ok (chunk_at L rs k)"
    "rbind (unframe_value L b) decode_block = Inr (chunk_at L rs k)" by auto
qed

lemma wf_chunk_ok: "adj_wf L rs \<Longrightarrow> chunk_ok (chunk_at L rs k)"
  using wf_chunk(2) by (cases "rs k") (auto simp: chunk_at_def chunk_ok_def)

lemma load_ok:
  assumes "adj_wf L (rows t)" "load_chunk L T t k = Inr es"
  shows "es = chunks t k"
proof -
  from assms(2) obtain v where g: "tget T t k = Inr v"
    and r: "(case v of None \<Rightarrow> Inr [] | Some b \<Rightarrow> rbind (unframe_value L b) decode_block) = Inr es"
    by (auto simp: load_chunk_def rbind_Inr)
  have v: "v = rows t k" using get_ok [OF g] .
  show ?thesis
  proof (cases v)
    case None
    with v r show ?thesis by (simp add: chunk_at_def)
  next
    case (Some b)
    with v have "rows t k = Some b" by simp
    from wf_chunk(3) [OF assms(1) this] r Some show ?thesis by simp
  qed
qed

lemma store_ok:
  assumes "adj_wf L (rows t)" "store_chunk L T k es t = Inr t'" "chunk_ok es" "length k = 16"
  shows "adj_wf L (rows t') \<and> chunks t' = (chunks t)(k := es)"
proof -
  from assms(2) obtain raw where raw: "encode_block es = Inr raw"
    and i: "tinsert T t k (frame_value L raw) = Inr t'"
    by (auto simp: store_chunk_def rbind_Inr)
  have rs: "rows t' = (rows t)(k \<mapsto> frame_value L raw)" using insert_ok [OF i] .
  have "adj_wf L (rows t')" using assms(1,3,4) raw by (auto simp: adj_wf_def rs)
  moreover have "block_entries L (frame_value L raw) = es"
    using block_roundtrip [OF assms(3) raw] by (simp add: block_entries_def)
  ultimately show ?thesis by (auto simp: chunk_at_def rs)
qed

lemma remove_chunk_ok:
  assumes "adj_wf L (rows t)" "tremove T t k = Inr (x, t')"
  shows "adj_wf L (rows t') \<and> chunks t' = (chunks t)(k := [])"
  using remove_ok [OF assms(2)] assms(1) by (auto simp: adj_wf_def chunk_at_def)

lemma type_keys:
  assumes wf: "adj_wf L (rows t)" and run: "type_chunk_keys T t s ty = Inr keys"
  shows "sorted_wrt (<) keys" "set keys = {k. \<exists>c. k = out_adj_key s ty c \<and> rows t k \<noteq> None}"
proof -
  from run obtain es where es: "trange T t (out_adj_key s ty 0) (out_adj_key s ty (- 1)) = Inr es"
    and keys: "keys = map fst es"
    by (auto simp: type_chunk_keys_def rbind_Inr rmap_key_width)
  show "sorted_wrt (<) keys" using range_sorted [OF es] by (simp add: keys)
  have "k \<in> set keys \<longleftrightarrow> (\<exists>c. k = out_adj_key s ty c) \<and> rows t k \<noteq> None" for k
  proof (cases "rows t k")
    case (Some b)
    from in_type_range [OF wf_chunk(1) [OF wf Some]] range_key [OF es, of k] Some show ?thesis by (auto simp: keys)
  qed (use range_key [OF es, of k] in \<open>auto simp: keys\<close>)
  then show "set keys = {k. \<exists>c. k = out_adj_key s ty c \<and> rows t k \<noteq> None}" by blast
qed

lemma slot_keys:
  assumes wf: "adj_wf L (rows t)" and run: "slot_chunk_keys T t s = Inr keys"
  shows "sorted_wrt (<) keys" "set keys = {k. \<exists>ty c. k = out_adj_key s ty c \<and> rows t k \<noteq> None}"
proof -
  from run obtain es where es: "trange T t (out_adj_key s 0 0) (out_adj_key s (- 1) (- 1)) = Inr es"
    and keys: "keys = map fst es"
    by (auto simp: slot_chunk_keys_def rbind_Inr rmap_key_width)
  show "sorted_wrt (<) keys" using range_sorted [OF es] by (simp add: keys)
  have "k \<in> set keys \<longleftrightarrow> (\<exists>ty c. k = out_adj_key s ty c) \<and> rows t k \<noteq> None" for k
  proof (cases "rows t k")
    case (Some b)
    from in_slot_range [OF wf_chunk(1) [OF wf Some]] range_key [OF es, of k] Some show ?thesis by (auto simp: keys)
  qed (use range_key [OF es, of k] in \<open>auto simp: keys\<close>)
  then show "set keys = {k. \<exists>ty c. k = out_adj_key s ty c \<and> rows t k \<noteq> None}" by blast
qed

text \<open>Insertion.\<close>

lemma last_chunk:
  assumes wf: "adj_wf L (rows t)" and run: "type_chunk_keys T t s ty = Inr keys"
    and r: "rows t (out_adj_key s ty c) \<noteq> None"
  shows "c \<le> last_chunk_of keys"
proof -
  have mem: "out_adj_key s ty c \<in> set keys" using r type_keys(2) [OF wf run] by blast
  then have ne: "keys \<noteq> []" by auto
  then have "last keys \<in> set keys" by simp
  then obtain d where d: "last keys = out_adj_key s ty d" using type_keys(2) [OF wf run] by blast
  have "keys = butlast keys @ [last keys]" using ne by simp
  then have "sorted_wrt (<) (butlast keys @ [last keys])" using type_keys(1) [OF wf run] by metis
  moreover have "out_adj_key s ty c \<in> set (butlast keys) \<or> out_adj_key s ty c = last keys"
    using mem ne by (metis in_set_butlast_appendI append_butlast_last_id insert_iff list.simps(15) set_append UnE empty_iff list.set(1))
  ultimately have "out_adj_key s ty c \<le> last keys" by (auto simp: sorted_wrt_append le_less)
  then show ?thesis using d ne by (simp add: last_chunk_of_def out_adj_key_le_iff)
qed

lemma last_chunk_room:
  assumes "adj_wf L (rows t)" "type_chunk_keys T t s ty = Inr keys" "rows t (out_adj_key s ty (- 1)) = None"
  shows "last_chunk_of keys \<noteq> - 1"
proof
  assume m: "last_chunk_of keys = - 1"
  then have ne: "keys \<noteq> []" by (auto simp: last_chunk_of_def)
  then have "last keys \<in> set keys" by simp
  then obtain d where d: "last keys = out_adj_key s ty d" "rows t (last keys) \<noteq> None"
    using type_keys(2) [OF assms(1,2)] by blast
  with m ne assms(3) show False by (simp add: last_chunk_of_def)
qed

lemma store_or_split_entries:
  assumes wf: "adj_wf L (rows t)" and run: "store_or_split L T s ty c es t = Inr t'"
    and srt: "sorted_wrt entry_le es" and len: "length es \<le> 8193"
    and fresh: "rows t (out_adj_key s ty (c + 1)) = None"
  shows "adj_wf L (rows t') \<and>
    adj_ms (chunks t') s ty + mset (chunks t (out_adj_key s ty c)) = adj_ms (chunks t) s ty + mset es \<and>
    (\<forall>s' ty'. (s', ty') \<noteq> (s, ty) \<longrightarrow> adj_ms (chunks t') s' ty' = adj_ms (chunks t) s' ty')"
proof -
  let ?k = "out_adj_key s ty c" and ?k' = "out_adj_key s ty (c + 1)" and ?h = "length es div 2"
  from run obtain raw where enc: "encode_block es = Inr raw" by (auto simp: store_or_split_def rbind_Inr)
  show ?thesis
  proof (cases "length raw \<le> CHUNK_SPLIT_TARGET")
    case True
    have "chunk_ok es" using srt encode_block_length [OF enc] True by (simp add: chunk_ok_def CHUNK_SPLIT_TARGET_def)
    then have "adj_wf L (rows t')" "chunks t' = (chunks t)(?k := es)"
      using store_ok [OF wf, of ?k es t'] run enc True by (auto simp: store_or_split_def)
    then show ?thesis using adj_ms_upd [of "chunks t" s ty c es] by simp
  next
    case False
    from run enc False obtain t1 where s1: "store_chunk L T ?k (take ?h es) t = Inr t1"
      and s2: "store_chunk L T ?k' (drop ?h es) t1 = Inr t'"
      by (auto simp: store_or_split_def rbind_Inr Let_def)
    have ok: "chunk_ok (take ?h es)" "chunk_ok (drop ?h es)"
      using srt len by (auto simp: chunk_ok_def sorted_wrt_take sorted_wrt_drop)
    have st1: "adj_wf L (rows t1)" "chunks t1 = (chunks t)(?k := take ?h es)"
      using store_ok [OF wf s1 ok(1)] by auto
    have st2: "adj_wf L (rows t')" "chunks t' = (chunks t1)(?k' := drop ?h es)"
      using store_ok [OF st1(1) s2 ok(2)] by auto
    have "chunks t1 ?k' = []" using fresh by (simp add: st1(2) chunk_at_def)
    then have "adj_ms (chunks t') s ty = adj_ms (chunks t1) s ty + mset (drop ?h es)"
      using adj_ms_upd [of "chunks t1" s ty "c + 1" "drop ?h es"] by (simp add: st2(2))
    moreover have "adj_ms (chunks t1) s ty + mset (chunks t ?k) = adj_ms (chunks t) s ty + mset (take ?h es)"
      using adj_ms_upd [of "chunks t" s ty c "take ?h es"] by (simp add: st1(2))
    moreover have "mset es = mset (take ?h es) + mset (drop ?h es)" by (metis append_take_drop_id mset_append)
    ultimately have "adj_ms (chunks t') s ty + mset (chunks t ?k) = adj_ms (chunks t) s ty + mset es"
      by (simp add: ac_simps)
    then show ?thesis using st2 st1 by simp
  qed
qed

lemma insert_entries:
  assumes wf: "adj_wf L (rows t)" and run: "adj_insert L T s ty e t = Inr t'"
    and room: "rows t (out_adj_key s ty (- 1)) = None"
  shows "adj_wf L (rows t') \<and> adj_ms (chunks t') s ty = add_mset e (adj_ms (chunks t) s ty) \<and>
    (\<forall>s' ty'. (s', ty') \<noteq> (s, ty) \<longrightarrow> adj_ms (chunks t') s' ty' = adj_ms (chunks t) s' ty')"
proof -
  from run obtain keys where keys: "type_chunk_keys T t s ty = Inr keys" by (auto simp: adj_insert_def rbind_Inr)
  let ?c = "last_chunk_of keys"
  define old where "old = chunks t (out_adj_key s ty ?c)"
  define es where "es = insert_at (insertion_index e old) e old"
  have st: "store_or_split L T s ty ?c es t = Inr t'"
    using run keys load_ok [OF wf] by (auto simp: adj_insert_def rbind_Inr es_def old_def)
  have ok: "chunk_ok old" using wf_chunk_ok [OF wf] by (simp add: old_def)
  have "\<not> ?c + 1 \<le> ?c" using last_chunk_room [OF wf keys room] inc_less_eq_triv_imp by blast
  then have "rows t (out_adj_key s ty (?c + 1)) = None" using last_chunk [OF wf keys] by blast
  from store_or_split_entries [OF wf st _ _ this] ok
  have "adj_wf L (rows t') \<and> adj_ms (chunks t') s ty + mset old = adj_ms (chunks t) s ty + mset es \<and>
    (\<forall>s' ty'. (s', ty') \<noteq> (s, ty) \<longrightarrow> adj_ms (chunks t') s' ty' = adj_ms (chunks t) s' ty')"
    by (simp add: old_def es_def chunk_ok_def sorted_insert)
  then show ?thesis by (simp add: es_def)
qed

text \<open>Reading.\<close>

lemma read_chunks_ok:
  assumes "adj_wf L (rows t)" "read_chunks L T t ty keys out = Inr out'"
  shows "out' = out @ concat (map (\<lambda>k. map (Pair ty) (chunks t k)) keys)"
  using assms(2)
proof (induction keys arbitrary: out)
  case (Cons k keys)
  then obtain es where es: "load_chunk L T t k = Inr es"
    and rest: "read_chunks L T t ty keys (out @ map (Pair ty) es) = Inr out'"
    by (auto simp: read_chunks_def rbind_Inr)
  from Cons.IH [OF rest] load_ok [OF assms(1) es] show ?case by simp
qed (simp add: read_chunks_def)

lemma sum_type_keys:
  assumes wf: "adj_wf L (rows t)" and run: "type_chunk_keys T t s ty = Inr keys"
  shows "mset (concat (map (chunks t) keys)) = adj_ms (chunks t) s ty"
proof -
  let ?C = "{c. rows t (out_adj_key s ty c) \<noteq> None}"
  have dist: "distinct keys" using type_keys(1) [OF wf run] by (simp add: strict_sorted_iff)
  have set: "set keys = out_adj_key s ty ` ?C" using type_keys(2) [OF wf run] by auto
  have "mset (concat (map (chunks t) keys)) = (\<Sum>k \<leftarrow> keys. mset (chunks t k))"
    by (induction keys) auto
  also have "\<dots> = (\<Sum>k \<in> set keys. mset (chunks t k))" using dist by (rule sum_list_distinct_conv_sum_set)
  also have "\<dots> = (\<Sum>c \<in> ?C. mset (chunks t (out_adj_key s ty c)))"
    unfolding set by (subst sum.reindex) (auto simp: inj_on_def)
  also have "\<dots> = adj_ms (chunks t) s ty"
    unfolding adj_ms_def by (rule sum.mono_neutral_left) (auto simp: chunk_at_def)
  finally show ?thesis .
qed

lemma read_types:
  assumes wf: "adj_wf L (rows t)" and run: "read_adj L T t s (Some types) = Inr out"
  shows "mset out = (\<Sum>ty \<leftarrow> types. image_mset (Pair ty) (adj_ms (chunks t) s ty))"
proof -
  have "mset out' = mset out0 + (\<Sum>ty \<leftarrow> types. image_mset (Pair ty) (adj_ms (chunks t) s ty))"
    if "rfold (\<lambda>ty out. rbind (type_chunk_keys T t s ty) (\<lambda>keys. read_chunks L T t ty keys out)) types out0 = Inr out'"
    for out0 out'
    using that
  proof (induction types arbitrary: out0)
    case (Cons ty types)
    from Cons.prems obtain keys out1 where keys: "type_chunk_keys T t s ty = Inr keys"
      and r: "read_chunks L T t ty keys out0 = Inr out1"
      and rest: "rfold (\<lambda>ty out. rbind (type_chunk_keys T t s ty) (\<lambda>keys. read_chunks L T t ty keys out)) types out1 = Inr out'"
      by (auto simp: rbind_Inr)
    have "out1 = out0 @ map (Pair ty) (concat (map (chunks t) keys))"
      using read_chunks_ok [OF wf r] by (simp add: map_concat comp_def)
    then have "mset out1 = mset out0 + image_mset (Pair ty) (adj_ms (chunks t) s ty)"
      by (simp only: mset_append mset_map sum_type_keys [OF wf keys])
    with Cons.IH [OF rest] show ?case by simp
  qed simp
  from this [of "[]" out] run show ?thesis by (simp add: read_adj_def)
qed

text \<open>The loops over every chunk of a slot.\<close>

abbreviation typed :: "'t \<Rightarrow> bytes \<Rightarrow> (u32 \<times> adj_entry) list" where
  "typed t \<equiv> typed_chunk (chunks t)"

lemma read_typed_ok:
  assumes "adj_wf L (rows t)" "read_typed_chunk L T t k out = Inr out'"
  shows "out' = out @ typed t k"
proof -
  from assms(2) obtain s ty c es where "key_parts k = Some (s, ty, c)" "load_chunk L T t k = Inr es"
    "out' = out @ map (Pair ty) es"
    by (auto simp: read_typed_chunk_def rbind_Inr)
  with load_ok [OF assms(1)] show ?thesis by (simp add: typed_chunk_def)
qed

lemma sum_slot_keys:
  assumes wf: "adj_wf L (rows t)" and run: "slot_chunk_keys T t s = Inr keys"
  shows "mset (concat (map (typed t) keys)) = (\<Sum>ty \<in> UNIV. image_mset (Pair ty) (adj_ms (chunks t) s ty))"
proof -
  let ?C = "{p. rows t (out_adj_key s (fst p) (snd p)) \<noteq> None}"
  let ?key = "\<lambda>p. out_adj_key s (fst p) (snd p)"
  have dist: "distinct keys" using slot_keys(1) [OF wf run] by (simp add: strict_sorted_iff)
  have set: "set keys = ?key ` ?C"
  proof (intro set_eqI iffI)
    fix k
    assume "k \<in> set keys"
    then obtain ty c where "k = out_adj_key s ty c" "rows t k \<noteq> None" using slot_keys(2) [OF wf run] by blast
    then show "k \<in> ?key ` ?C" by (intro image_eqI [of _ _ "(ty, c)"]) auto
  qed (use slot_keys(2) [OF wf run] in blast)
  have im: "image_mset f (\<Sum>x \<in> A. g x) = (\<Sum>x \<in> A. image_mset f (g x))" if "finite A"
    for f :: "adj_entry \<Rightarrow> u32 \<times> adj_entry" and g and A :: "u32 set"
    using that by induction auto
  have "mset (concat (map (typed t) keys)) = (\<Sum>k \<leftarrow> keys. mset (typed t k))"
    by (induction keys) auto
  also have "\<dots> = (\<Sum>k \<in> set keys. mset (typed t k))" using dist by (rule sum_list_distinct_conv_sum_set)
  also have "\<dots> = (\<Sum>p \<in> ?C. mset (typed t (?key p)))"
    unfolding set by (subst sum.reindex) (auto simp: inj_on_def)
  also have "\<dots> = (\<Sum>p \<in> UNIV. mset (typed t (?key p)))"
    by (rule sum.mono_neutral_left) (auto simp: typed_chunk_def chunk_at_def)
  also have "\<dots> = (\<Sum>p \<in> UNIV. image_mset (Pair (fst p)) (mset (chunks t (out_adj_key s (fst p) (snd p)))))"
    by (simp add: typed_chunk_def case_prod_beta)
  also have "\<dots> = (\<Sum>ty \<in> UNIV. \<Sum>c \<in> UNIV. image_mset (Pair ty) (mset (chunks t (out_adj_key s ty c))))"
    by (subst sum.cartesian_product) (simp add: case_prod_beta UNIV_Times_UNIV)
  finally show ?thesis by (simp add: adj_ms_def im)
qed

lemma read_slot_ok:
  assumes wf: "adj_wf L (rows t)" and run: "read_adj L T t s None = Inr out"
  shows "mset out = (\<Sum>ty \<in> UNIV. image_mset (Pair ty) (adj_ms (chunks t) s ty))"
proof -
  from run obtain keys where keys: "slot_chunk_keys T t s = Inr keys"
    and r: "rfold (read_typed_chunk L T t) keys [] = Inr out"
    by (auto simp: read_adj_def rbind_Inr)
  have "out' = out0 @ concat (map (typed t) keys)"
    if "rfold (read_typed_chunk L T t) keys out0 = Inr out'" for out0 out' and keys :: "bytes list"
    using that
  proof (induction keys arbitrary: out0)
    case (Cons k keys)
    then obtain out1 where "read_typed_chunk L T t k out0 = Inr out1"
      and rest: "rfold (read_typed_chunk L T t) keys out1 = Inr out'"
      by (auto simp: rbind_Inr)
    with read_typed_ok [OF wf] Cons.IH [OF rest] show ?case by simp
  qed simp
  from this [OF r] sum_slot_keys [OF wf keys] show ?thesis by simp
qed

lemma drain_chunk_Inr: "drain_chunk L T k (out, t) = Inr (out', t') \<longleftrightarrow>
    read_typed_chunk L T t k out = Inr out' \<and> (\<exists>x. tremove T t k = Inr (x, t'))"
  by (auto simp: drain_chunk_def rbind_Inr)

lemma drain_ok:
  assumes "rfold (drain_chunk L T) keys (out0, t) = Inr (out, t')" "distinct keys" "adj_wf L (rows t)"
  shows "adj_wf L (rows t') \<and> out = out0 @ concat (map (typed t) keys) \<and>
      chunks t' = (\<lambda>k. if k \<in> set keys then [] else chunks t k)"
  using assms
proof (induction keys arbitrary: out0 t)
  case (Cons k keys)
  from Cons.prems(1) obtain out1 x t1 where rd: "read_typed_chunk L T t k out0 = Inr out1"
    and rm: "tremove T t k = Inr (x, t1)"
    and rest: "rfold (drain_chunk L T) keys (out1, t1) = Inr (out, t')"
    by (auto simp: rbind_Inr drain_chunk_Inr)
  have st: "adj_wf L (rows t1)" "chunks t1 = (chunks t)(k := [])" using remove_chunk_ok [OF Cons.prems(3) rm] by auto
  have "map (typed t1) keys = map (typed t) keys"
    using st(2) Cons.prems(2) by (auto simp: typed_chunk_def split: option.splits)
  moreover have "out1 = out0 @ typed t k" by (rule read_typed_ok [OF Cons.prems(3) rd])
  moreover have "adj_wf L (rows t') \<and> out = out1 @ concat (map (typed t1) keys) \<and>
      chunks t' = (\<lambda>j. if j \<in> set keys then [] else chunks t1 j)"
    using Cons.IH [OF rest _ st(1)] Cons.prems(2) by simp
  ultimately show ?case by (simp add: st(2) fun_eq_iff cong: map_cong)
qed simp

lemma remove_all_ok:
  assumes wf: "adj_wf L (rows t)" and run: "adj_remove_all L T s t = Inr (out, t')"
  shows "adj_wf L (rows t')" "mset out = (\<Sum>ty \<in> UNIV. image_mset (Pair ty) (adj_ms (chunks t) s ty))"
    "adj_ms (chunks t') s' ty = (if s' = s then {#} else adj_ms (chunks t) s' ty)"
proof -
  from run obtain keys where keys: "slot_chunk_keys T t s = Inr keys"
    and r: "rfold (drain_chunk L T) keys ([], t) = Inr (out, t')"
    by (auto simp: adj_remove_all_def rbind_Inr)
  have "distinct keys" using slot_keys(1) [OF wf keys] by (simp add: strict_sorted_iff)
  from drain_ok [OF r this wf] have st: "adj_wf L (rows t')" "out = concat (map (typed t) keys)"
    "chunks t' = (\<lambda>k. if k \<in> set keys then [] else chunks t k)" by auto
  then show "adj_wf L (rows t')" "mset out = (\<Sum>ty \<in> UNIV. image_mset (Pair ty) (adj_ms (chunks t) s ty))"
    using sum_slot_keys [OF wf keys] by auto
  have mem: "out_adj_key s' ty c \<in> set keys \<longleftrightarrow> s' = s \<and> rows t (out_adj_key s' ty c) \<noteq> None" for c
    using slot_keys(2) [OF wf keys] by auto
  have "chunks t' (out_adj_key s' ty c) = (if s' = s then [] else chunks t (out_adj_key s' ty c))" for c
    unfolding st(3) mem by (auto simp: chunk_at_def)
  then show "adj_ms (chunks t') s' ty = (if s' = s then {#} else adj_ms (chunks t) s' ty)"
    by (simp add: adj_ms_def)
qed

text \<open>Closing and removing one edge.\<close>

lemma close_keys_ok:
  assumes "adj_close_keys L T edge vt keys t = Inr (b, t')" "adj_wf L (rows t)"
    "\<forall>k \<in> set keys. length k = 16"
  shows "adj_wf L (rows t') \<and>
    (if b then \<exists>k \<in> set keys. \<exists>es. close_first edge vt (chunks t k) = Some es \<and> chunks t' = (chunks t)(k := es)
     else t' = t \<and> (\<forall>k \<in> set keys. close_first edge vt (chunks t k) = None))"
  using assms
proof (induction keys)
  case (Cons k keys)
  from Cons.prems(1) have ld: "load_chunk L T t k = Inr (chunks t k)"
    using load_ok [OF Cons.prems(2)] by (auto simp: rbind_Inr)
  show ?case
  proof (cases "close_first edge vt (chunks t k)")
    case None
    with Cons.prems(1) ld have "adj_close_keys L T edge vt keys t = Inr (b, t')" by simp
    from Cons.IH [OF this Cons.prems(2)] Cons.prems(3) None show ?thesis by (auto split: if_splits)
  next
    case (Some es)
    with Cons.prems(1) ld have b: "b" and st: "store_chunk L T k es t = Inr t'" by (auto simp: rbind_Inr)
    have "chunk_ok es" using close_first_ok [OF Some wf_chunk_ok [OF Cons.prems(2)]] .
    with store_ok [OF Cons.prems(2) st] Cons.prems(3) b Some show ?thesis by auto
  qed
qed simp

lemma remove_keys_ok:
  assumes "adj_remove_keys L T edge keys t = Inr (b, t')" "adj_wf L (rows t)"
    "\<forall>k \<in> set keys. length k = 16"
  shows "adj_wf L (rows t') \<and>
    (if b then \<exists>k \<in> set keys. (\<exists>e \<in> set (chunks t k). a_edge e = edge) \<and>
       chunks t' = (chunks t)(k := filter (\<lambda>e. a_edge e \<noteq> edge) (chunks t k))
     else t' = t \<and> (\<forall>k \<in> set keys. \<forall>e \<in> set (chunks t k). a_edge e \<noteq> edge))"
  using assms
proof (induction keys)
  case (Cons k keys)
  let ?es = "filter (\<lambda>e. a_edge e \<noteq> edge) (chunks t k)"
  from Cons.prems(1) have ld: "load_chunk L T t k = Inr (chunks t k)"
    using load_ok [OF Cons.prems(2)] by (auto simp: rbind_Inr)
  have ok: "chunk_ok ?es"
    using wf_chunk_ok [OF Cons.prems(2), of k]
    by (auto simp: chunk_ok_def sorted_wrt_filter intro: order_trans [OF length_filter_le])
  show ?case
  proof (cases "length ?es = length (chunks t k)")
    case True
    then have none: "\<forall>e \<in> set (chunks t k). a_edge e \<noteq> edge" using length_filter_less [of _ "chunks t k" "\<lambda>e. a_edge e \<noteq> edge"] by (metis less_irrefl)
    from Cons.prems(1) ld True have "adj_remove_keys L T edge keys t = Inr (b, t')" by (simp add: Let_def)
    from Cons.IH [OF this Cons.prems(2)] Cons.prems(3) none show ?thesis by (auto split: if_splits)
  next
    case False
    then have ex: "\<exists>e \<in> set (chunks t k). a_edge e = edge" by (metis (mono_tags, lifting) filter_True)
    have step: "(if ?es = [] then rbind (redb (tremove T t k)) (\<lambda>(_, t'). Inr (True, t'))
        else rbind (store_chunk L T k ?es t) (\<lambda>t'. Inr (True, t'))) = Inr (b, t')"
      using Cons.prems(1) ld False by (simp only: adj_remove_keys.simps rbind_simps Let_def if_True simp_thms)
    have "b \<and> adj_wf L (rows t') \<and> chunks t' = (chunks t)(k := ?es)"
    proof (cases "?es = []")
      case True
      then obtain x where "b" "tremove T t k = Inr (x, t')"
        using step unfolding if_P [OF True] by (auto simp: rbind_Inr)
      from \<open>b\<close> remove_chunk_ok [OF Cons.prems(2) this(2)] show ?thesis unfolding True by blast
    next
      case ne: False
      then have b: "b" and stored: "store_chunk L T k ?es t = Inr t'"
        using step unfolding if_not_P [OF ne] by (auto simp: rbind_Inr)
      have "length k = 16" using Cons.prems(3) by simp
      from b store_ok [OF Cons.prems(2) stored ok this] show ?thesis by blast
    qed
    with ex show ?thesis by auto
  qed
qed simp

lemma type_keys_width: "adj_wf L (rows t) \<Longrightarrow> type_chunk_keys T t s ty = Inr keys \<Longrightarrow> \<forall>k \<in> set keys. length k = 16"
  using type_keys(2) by fastforce

text \<open>An entry lies under some key of the type exactly when it lies in the multiset.\<close>

lemma type_keys_mem:
  assumes "adj_wf L (rows t)" "type_chunk_keys T t s ty = Inr keys"
  shows "(\<exists>k \<in> set keys. e \<in> set (chunks t k)) \<longleftrightarrow> e \<in># adj_ms (chunks t) s ty"
proof -
  have "e \<in># adj_ms (chunks t) s ty \<longleftrightarrow> (\<exists>c. rows t (out_adj_key s ty c) \<noteq> None \<and> e \<in> set (chunks t (out_adj_key s ty c)))"
    unfolding adj_ms_mem by (metis chunk_at_def empty_iff list.set(1) option.simps(4))
  then show ?thesis unfolding type_keys(2) [OF assms] by blast
qed

lemma close_ok:
  assumes wf: "adj_wf L (rows t)" and run: "adj_close L T s ty edge vt t = Inr (b, t')"
  shows "adj_wf L (rows t')" "b \<longleftrightarrow> (\<exists>e \<in># adj_ms (chunks t) s ty. a_edge e = edge)"
    "\<not> b \<Longrightarrow> t' = t"
    "b \<Longrightarrow> \<exists>e \<in># adj_ms (chunks t) s ty. a_edge e = edge \<and>
       adj_ms (chunks t') s ty = add_mset (e\<lparr>a_valid_to := Some vt\<rparr>) (adj_ms (chunks t) s ty - {#e#})"
    "(s', ty') \<noteq> (s, ty) \<Longrightarrow> adj_ms (chunks t') s' ty' = adj_ms (chunks t) s' ty'"
proof -
  from run obtain keys where keys: "type_chunk_keys T t s ty = Inr keys"
    and r: "adj_close_keys L T edge vt keys t = Inr (b, t')"
    by (auto simp: adj_close_def rbind_Inr)
  note st = close_keys_ok [OF r wf type_keys_width [OF wf keys]]
  have none: "close_first edge vt es = None \<longleftrightarrow> (\<forall>e \<in> set es. a_edge e \<noteq> edge)" for es by (rule close_first_None)
  have upd: "\<exists>c es e. chunks t' = (chunks t)(out_adj_key s ty c := es) \<and> e \<in> set (chunks t (out_adj_key s ty c)) \<and>
      a_edge e = edge \<and> mset es = add_mset (e\<lparr>a_valid_to := Some vt\<rparr>) (mset (chunks t (out_adj_key s ty c)) - {#e#})" if b
  proof -
    from st that obtain k es where k: "k \<in> set keys" "close_first edge vt (chunks t k) = Some es"
      "chunks t' = (chunks t)(k := es)" by auto
    then obtain c where "k = out_adj_key s ty c" using type_keys(2) [OF wf keys] by blast
    with k close_first_mset [OF k(2)] show ?thesis by blast
  qed
  show "adj_wf L (rows t')" using st by blast
  show "\<not> b \<Longrightarrow> t' = t" using st by simp
  have "\<not> b \<Longrightarrow> \<forall>k \<in> set keys. \<forall>e \<in> set (chunks t k). a_edge e \<noteq> edge" using st none by simp
  then show "b \<longleftrightarrow> (\<exists>e \<in># adj_ms (chunks t) s ty. a_edge e = edge)"
    using upd type_keys_mem [OF wf keys] adj_ms_mem by metis
  show "(s', ty') \<noteq> (s, ty) \<Longrightarrow> adj_ms (chunks t') s' ty' = adj_ms (chunks t) s' ty'"
    using upd st by (cases b) (metis adj_ms_other)+
  show "\<exists>e \<in># adj_ms (chunks t) s ty. a_edge e = edge \<and>
       adj_ms (chunks t') s ty = add_mset (e\<lparr>a_valid_to := Some vt\<rparr>) (adj_ms (chunks t) s ty - {#e#})" if b
  proof -
    from upd [OF that] obtain c es e where u: "chunks t' = (chunks t)(out_adj_key s ty c := es)"
      "e \<in> set (chunks t (out_adj_key s ty c))" "a_edge e = edge"
      "mset es = add_mset (e\<lparr>a_valid_to := Some vt\<rparr>) (mset (chunks t (out_adj_key s ty c)) - {#e#})" by blast
    have e: "e \<in># adj_ms (chunks t) s ty" using u(2) adj_ms_mem by blast
    let ?old = "mset (chunks t (out_adj_key s ty c))"
    have "adj_ms (chunks t') s ty + ?old = adj_ms (chunks t) s ty + mset es"
      using adj_ms_upd [of "chunks t" s ty c es] by (simp add: u(1))
    moreover have "add_mset e (mset es) = add_mset (e\<lparr>a_valid_to := Some vt\<rparr>) ?old"
      using u(2) by (simp add: u(4) insert_DiffM add_mset_commute)
    ultimately have "add_mset e (adj_ms (chunks t') s ty) + ?old =
        add_mset (e\<lparr>a_valid_to := Some vt\<rparr>) (adj_ms (chunks t) s ty) + ?old"
      by (metis union_mset_add_mset_left union_mset_add_mset_right)
    then have "add_mset e (adj_ms (chunks t') s ty) = add_mset (e\<lparr>a_valid_to := Some vt\<rparr>) (adj_ms (chunks t) s ty)" by simp
    then have "adj_ms (chunks t') s ty = add_mset (e\<lparr>a_valid_to := Some vt\<rparr>) (adj_ms (chunks t) s ty) - {#e#}"
      by (metis add_mset_remove_trivial)
    with e u(3) show ?thesis by (metis diff_union_swap2 )
  qed
qed

lemma remove_edge_ok:
  assumes wf: "adj_wf L (rows t)" and run: "adj_remove_edge L T s ty edge t = Inr (b, t')"
    and unique: "size {# e \<in># adj_ms (chunks t) s ty. a_edge e = edge #} \<le> 1"
  shows "adj_wf L (rows t')" "b \<longleftrightarrow> (\<exists>e \<in># adj_ms (chunks t) s ty. a_edge e = edge)"
    "adj_ms (chunks t') s ty = {# e \<in># adj_ms (chunks t) s ty. a_edge e \<noteq> edge #}"
    "(s', ty') \<noteq> (s, ty) \<Longrightarrow> adj_ms (chunks t') s' ty' = adj_ms (chunks t) s' ty'"
proof -
  let ?M = "adj_ms (chunks t) s ty"
  from run obtain keys where keys: "type_chunk_keys T t s ty = Inr keys"
    and r: "adj_remove_keys L T edge keys t = Inr (b, t')"
    by (auto simp: adj_remove_edge_def rbind_Inr)
  note st = remove_keys_ok [OF r wf type_keys_width [OF wf keys]]
  have hit: "\<exists>c. (\<exists>e \<in> set (chunks t (out_adj_key s ty c)). a_edge e = edge) \<and> chunks t' =
      (chunks t)(out_adj_key s ty c := filter (\<lambda>e. a_edge e \<noteq> edge) (chunks t (out_adj_key s ty c)))" if b
    using st that type_keys(2) [OF wf keys] by auto
  have miss: "t' = t" "\<forall>e \<in># ?M. a_edge e \<noteq> edge" if "\<not> b"
    using st that type_keys_mem [OF wf keys] by auto
  show "adj_wf L (rows t')" using st by blast
  show "b \<longleftrightarrow> (\<exists>e \<in># ?M. a_edge e = edge)" using hit miss adj_ms_mem by metis
  show "(s', ty') \<noteq> (s, ty) \<Longrightarrow> adj_ms (chunks t') s' ty' = adj_ms (chunks t) s' ty'"
    using hit miss by (cases b) (metis adj_ms_other)+
  show "adj_ms (chunks t') s ty = {# e \<in># ?M. a_edge e \<noteq> edge #}"
  proof (cases b)
    case True
    from hit [OF True] obtain c where ex: "\<exists>e \<in> set (chunks t (out_adj_key s ty c)). a_edge e = edge"
      and ch: "chunks t' = (chunks t)(out_adj_key s ty c := filter (\<lambda>e. a_edge e \<noteq> edge) (chunks t (out_adj_key s ty c)))"
      by blast
    let ?old = "mset (chunks t (out_adj_key s ty c))"
    have "?old \<subseteq># ?M" using adj_ms_split [of "chunks t" s ty c] by simp
    then have sub: "{# e \<in># ?old. a_edge e = edge #} \<subseteq># {# e \<in># ?M. a_edge e = edge #}"
      by (rule multiset_filter_mono)
    from ex obtain e where "e \<in># {# e \<in># ?old. a_edge e = edge #}" by auto
    then have "{# e \<in># ?old. a_edge e = edge #} \<noteq> {#}" by fastforce
    then have "1 \<le> size {# e \<in># ?old. a_edge e = edge #}"
      unfolding nonempty_has_size by (simp only: One_nat_def Suc_le_eq)
    with unique have "size {# e \<in># ?M. a_edge e = edge #} \<le> size {# e \<in># ?old. a_edge e = edge #}" by (rule order_trans)
    with sub have eq: "{# e \<in># ?old. a_edge e = edge #} = {# e \<in># ?M. a_edge e = edge #}"
      by (rule mset_sub_size_eq)
    have part: "M = {# e \<in># M. a_edge e = edge #} + {# e \<in># M. a_edge e \<noteq> edge #}" for M
      by (rule multiset_partition)
    have "adj_ms (chunks t') s ty + ?old = ?M + {# e \<in># ?old. a_edge e \<noteq> edge #}"
      using adj_ms_upd [of "chunks t" s ty c] by (simp add: ch)
    then have "adj_ms (chunks t') s ty + {# e \<in># ?old. a_edge e = edge #} + {# e \<in># ?old. a_edge e \<noteq> edge #} =
        ?M + {# e \<in># ?old. a_edge e \<noteq> edge #}"
      using part [of ?old] by (simp add: union_assoc)
    then have "adj_ms (chunks t') s ty + {# e \<in># ?M. a_edge e = edge #} = ?M" unfolding eq by simp
    moreover have "?M = {# e \<in># ?M. a_edge e \<noteq> edge #} + {# e \<in># ?M. a_edge e = edge #}"
      using part [of ?M] by (simp add: union_commute)
    ultimately have "adj_ms (chunks t') s ty + {# e \<in># ?M. a_edge e = edge #} =
        {# e \<in># ?M. a_edge e \<noteq> edge #} + {# e \<in># ?M. a_edge e = edge #}" by (rule trans)
    then show ?thesis by (rule add_right_imp_eq)
  next
    case False
    have "{# e \<in># ?M. a_edge e \<noteq> edge #} = {# e \<in># ?M. True #}"
      using miss(2) [OF False] by (intro filter_mset_cong) auto
    with miss(1) [OF False] show ?thesis by simp
  qed
qed

end

text \<open>On a medium that does not fail, every operation on a well-formed table succeeds.\<close>

locale chunk_store_live = redb_table_live T rows + lz4_codec L
  for T :: "('t, bytes, bytes) table_ops" and rows and L

sublocale chunk_store_live \<subseteq> chunk_store
  by unfold_locales

context chunk_store_live
begin

lemma type_keys_live:
  assumes "adj_wf L (rows t)"
  shows "\<exists>keys. type_chunk_keys T t s ty = Inr keys"
proof -
  obtain es where es: "trange T t (out_adj_key s ty 0) (out_adj_key s ty (- 1)) = Inr es" using range_live by blast
  have "\<forall>k \<in> set (map fst es). length k = 16" using range_key [OF es] wf_chunk(1) [OF assms] by auto
  then have "rmap_list key_width (map fst es) = Inr (map fst es)" by (simp add: rmap_key_width)
  with es show ?thesis by (auto simp: type_chunk_keys_def)
qed

lemma load_live:
  assumes "adj_wf L (rows t)"
  shows "load_chunk L T t k = Inr (chunks t k)"
proof (cases "rows t k")
  case None
  then show ?thesis by (simp add: load_chunk_def get_eq chunk_at_def)
next
  case (Some b)
  then show ?thesis using wf_chunk(3) [OF assms Some] by (simp add: load_chunk_def get_eq)
qed

lemma store_live: "chunk_ok es \<Longrightarrow> \<exists>t'. store_chunk L T k es t = Inr t'"
  using chunk_ok_encodes [of es] insert_live by (fastforce simp: store_chunk_def)

lemma store_or_split_live:
  assumes "sorted_wrt entry_le es" "length es \<le> 8193"
  shows "\<exists>t'. store_or_split L T s ty c es t = Inr t'"
proof -
  obtain raw where raw: "encode_block es = Inr raw"
    using sorted_targets [OF assms(1)] encode_block_Inr_iff by blast
  show ?thesis
  proof (cases "length raw \<le> CHUNK_SPLIT_TARGET")
    case True
    then have "chunk_ok es" using assms(1) encode_block_length [OF raw] by (simp add: chunk_ok_def CHUNK_SPLIT_TARGET_def)
    with raw True store_live show ?thesis by (simp add: store_or_split_def)
  next
    case False
    let ?h = "length es div 2"
    have ok: "chunk_ok (take ?h es)" "chunk_ok (drop ?h es)"
      using assms by (auto simp: chunk_ok_def sorted_wrt_take sorted_wrt_drop)
    obtain t1 where "store_chunk L T (out_adj_key s ty c) (take ?h es) t = Inr t1" using store_live [OF ok(1)] by blast
    moreover obtain t2 where "store_chunk L T (out_adj_key s ty (c + 1)) (drop ?h es) t1 = Inr t2"
      using store_live [OF ok(2)] by blast
    ultimately show ?thesis using raw False by (simp add: store_or_split_def Let_def)
  qed
qed

lemma adj_insert_live:
  assumes wf: "adj_wf L (rows t)"
  shows "\<exists>t'. adj_insert L T s ty e t = Inr t'"
proof -
  obtain keys where keys: "type_chunk_keys T t s ty = Inr keys" using type_keys_live [OF wf] by blast
  define old where "old = chunks t (out_adj_key s ty (last_chunk_of keys))"
  have "chunk_ok old" unfolding old_def by (rule wf_chunk_ok [OF wf])
  then have "\<exists>t'. store_or_split L T s ty (last_chunk_of keys) (insert_at (insertion_index e old) e old) t = Inr t'"
    by (intro store_or_split_live) (simp_all add: chunk_ok_def sorted_insert)
  then show ?thesis by (simp add: adj_insert_def keys load_live [OF wf] old_def)
qed

lemma adj_close_live:
  assumes wf: "adj_wf L (rows t)"
  shows "\<exists>b t'. adj_close L T s ty edge vt t = Inr (b, t')"
proof -
  have "\<exists>b t'. adj_close_keys L T edge vt keys t = Inr (b, t')" for keys
  proof (induction keys)
    case (Cons k keys)
    show ?case
    proof (cases "close_first edge vt (chunks t k)")
      case None
      with Cons show ?thesis by (simp add: load_live [OF wf])
    next
      case (Some es)
      obtain t' where "store_chunk L T k es t = Inr t'"
        using store_live [OF close_first_ok [OF Some wf_chunk_ok [OF wf]]] by blast
      with Some show ?thesis by (auto simp: load_live [OF wf])
    qed
  qed auto
  with type_keys_live [OF wf] show ?thesis by (metis adj_close_def rbind_simps(2))
qed

lemma adj_remove_edge_live:
  assumes wf: "adj_wf L (rows t)"
  shows "\<exists>b t'. adj_remove_edge L T s ty edge t = Inr (b, t')"
proof -
  have "\<exists>b t'. adj_remove_keys L T edge keys t = Inr (b, t')" for keys
  proof (induction keys)
    case (Cons k keys)
    let ?es = "filter (\<lambda>e. a_edge e \<noteq> edge) (chunks t k)"
    have "chunk_ok ?es" using wf_chunk_ok [OF wf, of k]
      by (auto simp: chunk_ok_def sorted_wrt_filter intro: order_trans [OF length_filter_le])
    then obtain t1 where t1: "store_chunk L T k ?es t = Inr t1" using store_live by blast
    obtain t2 where t2: "tremove T t k = Inr (rows t k, t2)" using remove_eq by blast
    show ?case
      using Cons t1 t2 by (cases "length ?es = length (chunks t k)"; cases "?es = []")
        (simp_all only: adj_remove_keys.simps load_live [OF wf] rbind_simps Let_def redb_simps prod.case if_True if_False simp_thms,
          blast+)
  qed auto
  with type_keys_live [OF wf] show ?thesis by (metis adj_remove_edge_def rbind_simps(2))
qed

end

interpretation rbt_chunks: chunk_store_live rbt_ops RBT.lookup rle_lz4
  by (intro chunk_store_live.intro rbt_tab.redb_table_live_axioms rle.lz4_codec_axioms)

section \<open>Properties\<close>

text \<open>Inserting an entry adds exactly it to the entries of its slot and type, whether it fits the
  final chunk or splits it, leaves every other slot and type alone, and keeps the table well formed
  (chunks sorted, small, decodable), as long as the chunk numbers of the type are not exhausted.\<close>

theorem adj_insert_correct:
  assumes "chunk_store T rows L" and "adj_wf L (rows t)" and "adj_insert L T s ty e t = Inr t'"
    and "rows t (out_adj_key s ty (- 1)) = None"
  shows "adj_wf L (rows t') \<and>
    adj_ms (chunk_at L (rows t')) s ty = add_mset e (adj_ms (chunk_at L (rows t)) s ty) \<and>
    (\<forall>s' ty'. (s', ty') \<noteq> (s, ty) \<longrightarrow> adj_ms (chunk_at L (rows t')) s' ty' = adj_ms (chunk_at L (rows t)) s' ty')"
  using assms by (rule chunk_store.insert_entries)

lemma adj_wf_empty: "adj_wf L Map.empty"
  by (simp add: adj_wf_def)

definition example_entry :: adj_entry where
  "example_entry = \<lparr>a_target = 3, a_edge = 8, a_scope = 0, a_valid_from = 10, a_valid_to = None\<rparr>"

lemma example_insert:
  obtains t where "adj_insert rle_lz4 rbt_ops 1 2 example_entry (RBT.empty :: (bytes, bytes) rbt) = Inr t"
proof -
  have "adj_wf rle_lz4 (RBT.lookup (RBT.empty :: (bytes, bytes) rbt))" by (simp add: adj_wf_empty)
  from rbt_chunks.adj_insert_live [OF this] that show ?thesis by blast
qed

lemma adj_ms_empty: "adj_ms (chunk_at L Map.empty) s ty = {#}"
  by (simp add: adj_ms_def chunk_at_def)

theorem adj_insert_correct_witness:
  "\<exists>t. adj_insert rle_lz4 rbt_ops 1 2 example_entry (RBT.empty :: (bytes, bytes) rbt) = Inr t \<and>
     adj_ms (chunk_at rle_lz4 (RBT.lookup t)) 1 2 = {#example_entry#}"
proof -
  obtain t where run: "adj_insert rle_lz4 rbt_ops 1 2 example_entry (RBT.empty :: (bytes, bytes) rbt) = Inr t"
    by (rule example_insert)
  with adj_insert_correct [OF rbt_chunks.chunk_store_axioms _ run] run adj_wf_empty adj_ms_empty show ?thesis by auto
qed

text \<open>The table after that insertion.\<close>

lemma example_table:
  assumes "adj_insert rle_lz4 rbt_ops 1 2 example_entry (RBT.empty :: (bytes, bytes) rbt) = Inr t"
  shows "adj_wf rle_lz4 (RBT.lookup t)" "adj_ms (chunk_at rle_lz4 (RBT.lookup t)) 1 2 = {#example_entry#}"
  using rbt_chunks.insert_entries [OF _ assms] adj_wf_empty adj_ms_empty by auto

text \<open>C35. Reading a slot returns exactly its entries, each with its edge type: for a list of types the
  entries of those types, in the given order of types, and without a filter the entries of all types.\<close>

theorem read_adj_exact:
  assumes "chunk_store T rows L" and "adj_wf L (rows t)" and "read_adj L T t s types = Inr out"
  shows "mset out = (case types of
      Some tys \<Rightarrow> (\<Sum>ty \<leftarrow> tys. image_mset (Pair ty) (adj_ms (chunk_at L (rows t)) s ty))
    | None \<Rightarrow> (\<Sum>ty \<in> UNIV. image_mset (Pair ty) (adj_ms (chunk_at L (rows t)) s ty)))"
  using assms chunk_store.read_types [OF assms(1,2)] chunk_store.read_slot_ok [OF assms(1,2)]
  by (cases types) auto

theorem read_adj_exact_witness:
  "\<exists>t out. adj_insert rle_lz4 rbt_ops 1 2 example_entry (RBT.empty :: (bytes, bytes) rbt) = Inr t \<and>
     read_adj rle_lz4 rbt_ops t 1 (Some [2]) = Inr out \<and> mset out = {#(2, example_entry)#}"
proof -
  obtain t where t: "adj_insert rle_lz4 rbt_ops 1 2 example_entry (RBT.empty :: (bytes, bytes) rbt) = Inr t"
    by (rule example_insert)
  note wf = example_table(1) [OF t]
  obtain keys where "type_chunk_keys rbt_ops t 1 2 = Inr keys" using rbt_chunks.type_keys_live [OF wf] by blast
  moreover obtain out where "read_chunks rle_lz4 rbt_ops t 2 keys [] = Inr out"
    unfolding read_chunks_def using rfold_total [of "\<lambda>key out. rbind (load_chunk rle_lz4 rbt_ops t key) (\<lambda>es. Inr (out @ map (Pair 2) es))"]
    by (auto simp: rbt_chunks.load_live [OF wf])
  ultimately have run: "read_adj rle_lz4 rbt_ops t 1 (Some [2]) = Inr out" by (simp add: read_adj_def)
  from read_adj_exact [OF rbt_chunks.chunk_store_axioms wf run] t run show ?thesis
    by (auto simp: example_table(2) [OF t])
qed

text \<open>Closing an edge reports whether the slot and type have an entry for it, and if so sets the end of
  validity of one such entry and changes nothing else.\<close>

theorem adj_close_correct:
  assumes "chunk_store T rows L" and "adj_wf L (rows t)" and "adj_close L T s ty edge vt t = Inr (b, t')"
  shows "adj_wf L (rows t') \<and> (b \<longleftrightarrow> (\<exists>e \<in># adj_ms (chunk_at L (rows t)) s ty. a_edge e = edge)) \<and>
    (if b then \<exists>e \<in># adj_ms (chunk_at L (rows t)) s ty. a_edge e = edge \<and>
         adj_ms (chunk_at L (rows t')) s ty =
           add_mset (e\<lparr>a_valid_to := Some vt\<rparr>) (adj_ms (chunk_at L (rows t)) s ty - {#e#})
     else t' = t) \<and>
    (\<forall>s' ty'. (s', ty') \<noteq> (s, ty) \<longrightarrow> adj_ms (chunk_at L (rows t')) s' ty' = adj_ms (chunk_at L (rows t)) s' ty')"
proof (intro conjI allI impI)
  note c = chunk_store.close_ok [OF assms]
  show "adj_wf L (rows t')" by (rule c(1))
  show "b \<longleftrightarrow> (\<exists>e \<in># adj_ms (chunk_at L (rows t)) s ty. a_edge e = edge)" by (rule c(2))
  show "if b then \<exists>e \<in># adj_ms (chunk_at L (rows t)) s ty. a_edge e = edge \<and>
         adj_ms (chunk_at L (rows t')) s ty =
           add_mset (e\<lparr>a_valid_to := Some vt\<rparr>) (adj_ms (chunk_at L (rows t)) s ty - {#e#})
     else t' = t" using c(3,4) by (simp split: if_split)
  show "adj_ms (chunk_at L (rows t')) s' ty' = adj_ms (chunk_at L (rows t)) s' ty'" if "(s', ty') \<noteq> (s, ty)" for s' ty'
    using that by (rule c(5))
qed

theorem adj_close_correct_witness:
  "\<exists>t t' b. adj_insert rle_lz4 rbt_ops 1 2 example_entry (RBT.empty :: (bytes, bytes) rbt) = Inr t \<and>
     adj_close rle_lz4 rbt_ops 1 2 8 99 t = Inr (b, t') \<and> b \<and>
     adj_ms (chunk_at rle_lz4 (RBT.lookup t')) 1 2 = {#example_entry\<lparr>a_valid_to := Some 99\<rparr>#}"
proof -
  obtain t where t: "adj_insert rle_lz4 rbt_ops 1 2 example_entry (RBT.empty :: (bytes, bytes) rbt) = Inr t"
    by (rule example_insert)
  note tab = example_table [OF t]
  obtain b t' where run: "adj_close rle_lz4 rbt_ops 1 2 8 99 t = Inr (b, t')"
    using rbt_chunks.adj_close_live [OF tab(1)] by blast
  from adj_close_correct [OF rbt_chunks.chunk_store_axioms tab(1) run, unfolded tab(2)] t run
  show ?thesis by (auto simp: example_entry_def)
qed

text \<open>Removing an edge that has at most one entry under a slot and type removes exactly that entry,
  reports whether there was one, and leaves every other slot and type alone.\<close>

theorem adj_remove_edge_correct:
  assumes "chunk_store T rows L" and "adj_wf L (rows t)" and "adj_remove_edge L T s ty edge t = Inr (b, t')"
    and "size {# e \<in># adj_ms (chunk_at L (rows t)) s ty. a_edge e = edge #} \<le> 1"
  shows "adj_wf L (rows t') \<and> (b \<longleftrightarrow> (\<exists>e \<in># adj_ms (chunk_at L (rows t)) s ty. a_edge e = edge)) \<and>
    adj_ms (chunk_at L (rows t')) s ty = {# e \<in># adj_ms (chunk_at L (rows t)) s ty. a_edge e \<noteq> edge #} \<and>
    (\<forall>s' ty'. (s', ty') \<noteq> (s, ty) \<longrightarrow> adj_ms (chunk_at L (rows t')) s' ty' = adj_ms (chunk_at L (rows t)) s' ty')"
  by (intro conjI allI impI) (rule chunk_store.remove_edge_ok [OF assms] | assumption)+

theorem adj_remove_edge_correct_witness:
  "\<exists>t t' b. adj_insert rle_lz4 rbt_ops 1 2 example_entry (RBT.empty :: (bytes, bytes) rbt) = Inr t \<and>
     adj_remove_edge rle_lz4 rbt_ops 1 2 8 t = Inr (b, t') \<and> b \<and>
     adj_ms (chunk_at rle_lz4 (RBT.lookup t')) 1 2 = {#}"
proof -
  obtain t where t: "adj_insert rle_lz4 rbt_ops 1 2 example_entry (RBT.empty :: (bytes, bytes) rbt) = Inr t"
    by (rule example_insert)
  note tab = example_table [OF t]
  obtain b t' where run: "adj_remove_edge rle_lz4 rbt_ops 1 2 8 t = Inr (b, t')"
    using rbt_chunks.adj_remove_edge_live [OF tab(1)] by blast
  from adj_remove_edge_correct [OF rbt_chunks.chunk_store_axioms tab(1) run, unfolded tab(2)] t run
  show ?thesis by (auto simp: example_entry_def)
qed

text \<open>Draining a slot returns all of its entries with their types, leaves the slot empty, and touches
  no other slot.\<close>

theorem adj_remove_all_correct:
  assumes "chunk_store T rows L" and "adj_wf L (rows t)" and "adj_remove_all L T s t = Inr (out, t')"
  shows "adj_wf L (rows t') \<and>
    mset out = (\<Sum>ty \<in> UNIV. image_mset (Pair ty) (adj_ms (chunk_at L (rows t)) s ty)) \<and>
    (\<forall>s' ty. adj_ms (chunk_at L (rows t')) s' ty = (if s' = s then {#} else adj_ms (chunk_at L (rows t)) s' ty))"
  using chunk_store.remove_all_ok [OF assms] by blast

theorem adj_remove_all_correct_witness:
  "\<exists>t'. adj_remove_all rle_lz4 rbt_ops 1 (RBT.empty :: (bytes, bytes) rbt) = Inr ([], t') \<and>
     adj_wf rle_lz4 (RBT.lookup t')"
proof -
  have run: "adj_remove_all rle_lz4 rbt_ops 1 (RBT.empty :: (bytes, bytes) rbt) = Inr ([], RBT.empty)"
    by (simp add: adj_remove_all_def slot_chunk_keys_def)
  have "adj_wf rle_lz4 (RBT.lookup (RBT.empty :: (bytes, bytes) rbt))" by (simp add: adj_wf_empty)
  from adj_remove_all_correct [OF rbt_chunks.chunk_store_axioms this run] run show ?thesis by blast
qed

end
