(* ===== verification/Postings.thy ===== *)
theory Postings
  imports PostingCodec Adj
begin

text \<open>
  The postings table (\<^verbatim>\<open>crates/topodb/src/fts.rs\<close>, lines 596-1074): under each scope and term the documents that
  contain the term are kept in numbered chunks, each a framed block of at most about 4 KiB, whose slot ranges follow
  each other. The abstraction of a table is one list of postings per scope and term, strictly ascending by slot
  (\<open>plist\<close>); writing a frequency is an update of that list, however the chunks are searched, split and renumbered.
\<close>

section \<open>The code\<close>

definition chunked_posting_key :: "u32 \<Rightarrow> string \<Rightarrow> u32 \<Rightarrow> bytes" where
  "chunked_posting_key scope_id term chunk = u32_to_be scope_id @ str_bytes term @ u32_to_be chunk"

definition peek_stored_first_slot :: "lz4 \<Rightarrow> ('b, bytes, bytes) table_ops \<Rightarrow> 'b \<Rightarrow> bytes \<Rightarrow> u64 result" where
  "peek_stored_first_slot L T t key =
     rbind (redb (tget T t key)) (\<lambda>v.
     rbind (ok_or (panicked ''term_chunk_keys returns only present keys'') v) (\<lambda>b.
     rbind (unframe_value L b) peek_first_slot))"

definition term_chunk_keys :: "('b, bytes, bytes) table_ops \<Rightarrow> 'b \<Rightarrow> u32 \<Rightarrow> string \<Rightarrow> bytes list result" where
  "term_chunk_keys T t scope_id term =
     (let start = chunked_posting_key scope_id term 0; stop = chunked_posting_key scope_id term (- 1)
      in rbind (redb (trange T t start stop)) (\<lambda>es. Inr (filter (\<lambda>k. length k = length start) (map fst es))))"

definition chunk_number :: "bytes \<Rightarrow> u32" where
  "chunk_number key = u32_from_be (drop (length key - 4) key)"

definition load_posting_chunk :: "lz4 \<Rightarrow> ('b, bytes, bytes) table_ops \<Rightarrow> 'b \<Rightarrow> bytes \<Rightarrow> posting list result" where
  "load_posting_chunk L T t key =
     rbind (redb (tget T t key)) (\<lambda>v. case v of
        Some b \<Rightarrow> rbind (unframe_value L b) decode_posting_block
      | None \<Rightarrow> Inr [])"

definition store_posting_chunk :: "lz4 \<Rightarrow> ('b, bytes, bytes) table_ops \<Rightarrow> bytes \<Rightarrow> posting list \<Rightarrow> 'b \<Rightarrow> 'b result" where
  "store_posting_chunk L T key entries t =
     rbind (encode_posting_block entries) (\<lambda>raw. redb (tinsert T t key (frame_value L raw)))"

definition read_posting :: "lz4 \<Rightarrow> ('b, bytes, bytes) table_ops \<Rightarrow> 'b \<Rightarrow> u32 \<Rightarrow> string \<Rightarrow> posting list result" where
  "read_posting L T t scope_id term =
     rbind (term_chunk_keys T t scope_id term) (\<lambda>keys.
     rfold (\<lambda>key out. rbind (load_posting_chunk L T t key) (\<lambda>es. Inr (out @ es))) keys [])"

definition posting_df :: "lz4 \<Rightarrow> ('b, bytes, bytes) table_ops \<Rightarrow> 'b \<Rightarrow> u32 \<Rightarrow> string \<Rightarrow> u64 result" where
  "posting_df L T t scope_id term =
     rbind (term_chunk_keys T t scope_id term) (\<lambda>keys.
     rfold (\<lambda>key total. rbind (redb (tget T t key)) (\<lambda>v. case v of
              Some b \<Rightarrow> rbind (unframe_value L b) (\<lambda>raw. rbind (posting_block_count raw) (\<lambda>n. Inr (total + n)))
            | None \<Rightarrow> Inr total)) keys 0)"

text \<open>\<^verbatim>\<open>binary_search_by_key\<close> on entries with ascending slots finds the first entry whose slot is not below the wanted one.
  The flag is the function's return value.\<close>

definition apply_posting_mutation :: "posting list \<Rightarrow> u64 \<Rightarrow> u32 \<Rightarrow> bool \<times> posting list" where
  "apply_posting_mutation entries slot cnt =
     (let i = length (takeWhile (\<lambda>e. fst e < slot) entries)
      in if i < length entries \<and> fst (entries ! i) = slot
         then (True, if cnt = 0 then take i entries @ drop (Suc i) entries else entries[i := (slot, cnt)])
         else if cnt = 0 then (False, entries) else (True, insert_at i (slot, cnt) entries))"

text \<open>Moving one chunk to the next number. The sum is a 32-bit one, which wraps in a release build.\<close>

definition shift_chunk :: "('b, bytes, bytes) table_ops \<Rightarrow> u32 \<Rightarrow> string \<Rightarrow> bytes \<Rightarrow> 'b \<Rightarrow> 'b result" where
  "shift_chunk T scope_id term key t =
     rbind (redb (tget T t key)) (\<lambda>v.
     rbind (ok_or (panicked ''term_chunk_keys returns only present keys'') v) (\<lambda>raw.
     rbind (redb (tinsert T t (chunked_posting_key scope_id term (chunk_number key + 1)) raw)) (\<lambda>t1.
     rbind (redb (tremove T t1 key)) (\<lambda>(_, t2). Inr t2))))"

definition store_posting_chunk_splitting :: "lz4 \<Rightarrow> ('b, bytes, bytes) table_ops \<Rightarrow> u32 \<Rightarrow> string \<Rightarrow> bytes list \<Rightarrow> nat
    \<Rightarrow> posting list \<Rightarrow> 'b \<Rightarrow> 'b result" where
  "store_posting_chunk_splitting L T scope_id term keys i entries t =
     rbind (encode_posting_block entries) (\<lambda>raw.
     if length raw \<le> POSTINGS_CHUNK_TARGET \<or> length entries < 2 then store_posting_chunk L T (keys ! i) entries t
     else rbind (rfold (shift_chunk T scope_id term) (rev (drop (Suc i) keys)) t) (\<lambda>t1.
          let split = length entries div 2; number = chunk_number (keys ! i)
          in rbind (store_posting_chunk L T (keys ! i) (take split entries) t1)
               (store_posting_chunk L T (chunked_posting_key scope_id term (number + 1)) (drop split entries))))"

text \<open>The \<^verbatim>\<open>while lo < hi\<close> loop.\<close>

function cover_search :: "lz4 \<Rightarrow> ('b, bytes, bytes) table_ops \<Rightarrow> 'b \<Rightarrow> bytes list \<Rightarrow> u64 \<Rightarrow> nat \<Rightarrow> nat \<Rightarrow> nat result" where
  "cover_search L T t earlier slot lo hi =
     (if lo < hi then
        let mid = lo + (hi - lo) div 2
        in rbind (peek_stored_first_slot L T t (earlier ! mid)) (\<lambda>p.
           if p \<le> slot then cover_search L T t earlier slot (mid + 1) hi else cover_search L T t earlier slot lo mid)
      else Inr lo)"
  by pat_completeness auto
termination
  by (relation "measure (\<lambda>(L, T, t, earlier, slot, lo, hi). hi - lo)") auto

declare cover_search.simps [simp del]

definition covering_chunk_index :: "lz4 \<Rightarrow> ('b, bytes, bytes) table_ops \<Rightarrow> 'b \<Rightarrow> bytes list \<Rightarrow> u64 \<Rightarrow> nat result" where
  "covering_chunk_index L T t keys slot =
     (let earlier = butlast keys
      in rbind (cover_search L T t earlier slot 0 (length earlier)) (\<lambda>lo. Inr (lo - 1)))"

text \<open>\<^verbatim>\<open>.last().expect(...)\<close> and \<^verbatim>\<open>.first().expect(...)\<close>\<close>

definition slot_of :: "(posting list \<Rightarrow> posting) \<Rightarrow> posting list \<Rightarrow> u64 result" where
  "slot_of pick entries =
     (if entries = [] then Inl (panicked ''a stored chunk key is never empty'') else Inr (fst (pick entries)))"

text \<open>The tail of \<^verbatim>\<open>set_posting\<close> once the covering chunk is known.\<close>

definition rewrite_chunk :: "lz4 \<Rightarrow> ('b, bytes, bytes) table_ops \<Rightarrow> u32 \<Rightarrow> string \<Rightarrow> bytes list \<Rightarrow> nat \<Rightarrow> posting list
    \<Rightarrow> u64 \<Rightarrow> u32 \<Rightarrow> 'b \<Rightarrow> 'b result" where
  "rewrite_chunk L T scope_id term keys i entries slot cnt t =
     (let (changed, entries') = apply_posting_mutation entries slot cnt
      in if \<not> changed then Inr t
         else if entries' = [] then rbind (redb (tremove T t (keys ! i))) (\<lambda>(_, t'). Inr t')
         else store_posting_chunk_splitting L T scope_id term keys i entries' t)"

definition set_posting :: "lz4 \<Rightarrow> ('b, bytes, bytes) table_ops \<Rightarrow> u32 \<Rightarrow> string \<Rightarrow> u64 \<Rightarrow> u32 \<Rightarrow> 'b \<Rightarrow> 'b result" where
  "set_posting L T scope_id term slot cnt t =
     rbind (term_chunk_keys T t scope_id term) (\<lambda>keys.
     if keys = [] then
       if cnt = 0 then Inr t else store_posting_chunk L T (chunked_posting_key scope_id term 0) [(slot, cnt)] t
     else
       rbind (load_posting_chunk L T t (last keys)) (\<lambda>last_entries.
       rbind (slot_of last last_entries) (\<lambda>last_max.
       if last_max < slot then
         if cnt = 0 then Inr t
         else store_posting_chunk_splitting L T scope_id term keys (length keys - 1) (last_entries @ [(slot, cnt)]) t
       else
         rbind (slot_of hd last_entries) (\<lambda>last_min.
         rbind (if last_min \<le> slot \<or> length keys = 1 then Inr (length keys - 1)
                else covering_chunk_index L T t keys slot) (\<lambda>i.
         rbind (if i = length keys - 1 then Inr last_entries else load_posting_chunk L T t (keys ! i)) (\<lambda>entries.
         rewrite_chunk L T scope_id term keys i entries slot cnt t))))))"

section \<open>Chunk keys\<close>

lemma posting_key_inject [simp]:
  "chunked_posting_key s w c = chunked_posting_key s' w' c' \<longleftrightarrow> s = s' \<and> w = w' \<and> c = c'"
proof
  assume eq: "chunked_posting_key s w c = chunked_posting_key s' w' c'"
  from arg_cong [OF eq, of length] have "length (str_bytes w) = length (str_bytes w')"
    by (simp add: chunked_posting_key_def)
  with eq show "s = s' \<and> w = w' \<and> c = c'" by (simp add: chunked_posting_key_def)
qed simp

lemma length_posting_key: "length (chunked_posting_key s w c) = length w + 8"
  by (simp add: chunked_posting_key_def str_bytes_def)

lemma chunk_number_key [simp]: "chunk_number (chunked_posting_key s w c) = c"
  by (simp add: chunk_number_def chunked_posting_key_def)

lemma posting_key_less_iff: "chunked_posting_key s w c < chunked_posting_key s w c' \<longleftrightarrow> c < c'"
proof -
  have "chunked_posting_key s w a \<le> chunked_posting_key s w b \<longleftrightarrow> a \<le> b" for a b
    unfolding chunked_posting_key_def by (simp add: bytes_le_append_iff)
  then show ?thesis by (metis not_le)
qed

lemma in_term_range:
  assumes "length k = length w + 8"
  shows "chunked_posting_key s w 0 \<le> k \<and> k \<le> chunked_posting_key s w (- 1) \<longleftrightarrow> (\<exists>c. k = chunked_posting_key s w c)"
proof -
  let ?p = "u32_to_be s @ str_bytes w"
  have key: "chunked_posting_key s w c = ?p @ u32_to_be c" for c by (simp add: chunked_posting_key_def)
  have lp: "length ?p = length w + 4" by (simp add: str_bytes_def)
  obtain c where c: "drop (length w + 4) k = u32_to_be c"
    using be_bytes_exist(2) [of "drop (length w + 4) k"] assms by auto
  define q where "q = take (length w + 4) k"
  have k: "k = q @ u32_to_be c" unfolding q_def using c by (metis append_take_drop_id)
  have lq: "length q = length ?p" using assms lp by (simp add: q_def)
  have "?p @ u32_to_be 0 \<le> q @ u32_to_be c \<longleftrightarrow> ?p < q \<or> ?p = q \<and> u32_to_be 0 \<le> u32_to_be c"
    using lq by (intro bytes_le_append_iff) simp
  moreover have "q @ u32_to_be c \<le> ?p @ u32_to_be (- 1) \<longleftrightarrow> q < ?p \<or> q = ?p \<and> u32_to_be c \<le> u32_to_be (- 1)"
    using lq by (intro bytes_le_append_iff) simp
  ultimately have "chunked_posting_key s w 0 \<le> k \<and> k \<le> chunked_posting_key s w (- 1) \<longleftrightarrow> q = ?p"
    unfolding key k by auto
  also have "\<dots> \<longleftrightarrow> (\<exists>c. k = chunked_posting_key s w c)"
    unfolding key k using lq by (auto simp del: append_assoc)
  finally show ?thesis .
qed

section \<open>The specification: one ascending list per term\<close>

definition put_posting :: "u64 \<Rightarrow> u32 \<Rightarrow> posting list \<Rightarrow> posting list" where
  "put_posting slot cnt xs =
     filter (\<lambda>e. fst e < slot) xs @ (if cnt = 0 then [] else [(slot, cnt)]) @ filter (\<lambda>e. slot < fst e) xs"

definition slots_ascend :: "posting list \<Rightarrow> bool" where
  "slots_ascend xs \<longleftrightarrow> sorted_wrt (<) (map fst xs)"

lemma slots_ascend_simps [simp]:
  "slots_ascend []" "slots_ascend (e # xs) \<longleftrightarrow> (\<forall>x \<in> set xs. fst e < fst x) \<and> slots_ascend xs"
  "slots_ascend (xs @ ys) \<longleftrightarrow> slots_ascend xs \<and> slots_ascend ys \<and> (\<forall>x \<in> set xs. \<forall>y \<in> set ys. fst x < fst y)"
  by (auto simp: slots_ascend_def sorted_wrt_append)

lemma slots_ascend_filter: "slots_ascend xs \<Longrightarrow> slots_ascend (filter P xs)"
  by (induction xs) auto

lemma slots_ascend_last: "slots_ascend xs \<Longrightarrow> x \<in> set xs \<Longrightarrow> fst x \<le> fst (last xs)"
  by (induction xs) (auto intro: less_imp_le)

lemma first_slots_ascend:
  assumes "slots_ascend (concat cs)" "\<forall>es \<in> set cs. es \<noteq> []" "1 < length cs"
  shows "fst (hd (cs ! 0)) < fst (hd (cs ! 1))"
proof -
  obtain a b ds where "cs = a # b # ds" using assms(3) by (cases cs rule: remdups_adj.cases) auto
  moreover obtain x xs y ys where "a = x # xs" "b = y # ys" using assms(2) calculation by (metis list.exhaust list.set_intros)
  ultimately show ?thesis using assms(1) by auto
qed

lemma slots_ascend_put: "slots_ascend xs \<Longrightarrow> slots_ascend (put_posting slot cnt xs)"
  by (auto simp: put_posting_def slots_ascend_filter intro: less_trans)

lemma put_posting_length: "length (put_posting slot cnt xs) \<le> Suc (length xs)"
proof -
  have "length (filter (\<lambda>e. fst e < slot) xs) + length (filter (\<lambda>e. slot < fst e) xs) \<le> length xs"
    by (induction xs) auto
  then show ?thesis by (simp add: put_posting_def)
qed

lemma put_posting_nonzero: "\<forall>e \<in> set xs. snd e \<noteq> 0 \<Longrightarrow> \<forall>e \<in> set (put_posting slot cnt xs). snd e \<noteq> 0"
  by (auto simp: put_posting_def)

lemma put_posting_around:
  assumes "\<forall>x \<in> set xs. fst x < slot" "\<forall>x \<in> set ys. slot < fst x"
  shows "put_posting slot cnt (xs @ es @ ys) = xs @ put_posting slot cnt es @ ys"
proof -
  have "filter (\<lambda>e. fst e < slot) xs = xs" "filter (\<lambda>e. slot < fst e) xs = []"
    "filter (\<lambda>e. slot < fst e) ys = ys" "filter (\<lambda>e. fst e < slot) ys = []"
    using assms by (auto simp: filter_id_conv filter_empty_conv dest: less_asym)
  then show ?thesis by (simp add: put_posting_def)
qed

lemma mutation_is_put:
  assumes "slots_ascend es"
  shows "snd (apply_posting_mutation es slot cnt) = put_posting slot cnt es"
    and "\<not> fst (apply_posting_mutation es slot cnt) \<Longrightarrow> put_posting slot cnt es = es"
proof -
  define xs ys where "xs = takeWhile (\<lambda>e. fst e < slot) es" and "ys = dropWhile (\<lambda>e. fst e < slot) es"
  have es: "es = xs @ ys" by (simp add: xs_def ys_def)
  have len: "length (takeWhile (\<lambda>e. fst e < slot) es) = length xs" by (simp add: xs_def)
  have xs: "\<forall>x \<in> set xs. fst x < slot" unfolding xs_def by (auto dest: set_takeWhileD)
  have ys: "ys \<noteq> [] \<Longrightarrow> slot \<le> fst (hd ys)" 
    unfolding ys_def using hd_dropWhile [of "\<lambda>e. fst e < slot" es] by (simp add: not_less)
  have run: "apply_posting_mutation es slot cnt =
      (if length xs < length (xs @ ys) \<and> fst ((xs @ ys) ! length xs) = slot
       then (True, if cnt = 0 then take (length xs) (xs @ ys) @ drop (Suc (length xs)) (xs @ ys)
                   else (xs @ ys)[length xs := (slot, cnt)])
       else if cnt = 0 then (False, xs @ ys) else (True, insert_at (length xs) (slot, cnt) (xs @ ys)))"
    unfolding apply_posting_mutation_def len Let_def by (simp only: es)
  have put: "put_posting slot cnt es = xs @ put_posting slot cnt ys"
    unfolding es using put_posting_around [OF xs, of "[]" cnt ys] by simp
  have "snd (apply_posting_mutation es slot cnt) = put_posting slot cnt es \<and>
    (\<not> fst (apply_posting_mutation es slot cnt) \<longrightarrow> put_posting slot cnt es = es)"
  proof (cases ys)
    case Nil
    then show ?thesis unfolding put run by (simp add: es insert_at_def put_posting_def)
  next
    case (Cons y zs)
    with assms es have zs: "\<forall>z \<in> set zs. fst y < fst z" by simp
    from ys Cons have "slot \<le> fst y" by simp
    then have big: "\<forall>z \<in> set zs. slot < fst z" using zs by (auto intro: le_less_trans)
    show ?thesis
    proof (cases "fst y = slot")
      case True
      have "put_posting slot cnt ys = (if cnt = 0 then [] else [(slot, cnt)]) @ zs"
        using put_posting_around [of "[]" slot zs cnt "[y]"] big True by (simp add: Cons put_posting_def)
      then show ?thesis unfolding put run by (simp add: es Cons True list_update_append)
    next
      case False
      then have "put_posting slot cnt ys = (if cnt = 0 then [] else [(slot, cnt)]) @ ys"
        using put_posting_around [of "[]" slot ys cnt "[]"] big \<open>slot \<le> fst y\<close> by (simp add: Cons put_posting_def)
      then show ?thesis unfolding put run by (simp add: es Cons False insert_at_def)
    qed
  qed
  then show "snd (apply_posting_mutation es slot cnt) = put_posting slot cnt es"
    and "\<not> fst (apply_posting_mutation es slot cnt) \<Longrightarrow> put_posting slot cnt es = es" by blast+
qed

text \<open>The chunk whose first slot is the last one not above the wanted slot covers it.\<close>

lemma covered:
  assumes asc: "slots_ascend (concat cs)" and ne: "\<forall>es \<in> set cs. es \<noteq> []" and i: "i < length cs"
    and lo: "i = 0 \<or> fst (hd (cs ! i)) \<le> slot" and hi: "Suc i < length cs \<longrightarrow> slot < fst (hd (cs ! Suc i))"
  shows "\<forall>x \<in> set (concat (take i cs)). fst x < slot" "\<forall>x \<in> set (concat (drop (Suc i) cs)). slot < fst x"
proof -
  have cs: "cs = take i cs @ cs ! i # drop (Suc i) cs" using i by (rule id_take_nth_drop)
  then have "concat cs = concat (take i cs) @ cs ! i @ concat (drop (Suc i) cs)"
    by (metis concat.simps(2) concat_append)
  then have a: "\<forall>x \<in> set (concat (take i cs)). \<forall>y \<in> set (cs ! i). fst x < fst y"
    and d: "slots_ascend (concat (drop (Suc i) cs))" using asc by (simp_all del: set_concat)
  have "cs ! i \<noteq> []" using ne i by simp
  then have h: "hd (cs ! i) \<in> set (cs ! i)" by simp
  show "\<forall>x \<in> set (concat (take i cs)). fst x < slot"
  proof (cases "i = 0")
    case False
    with lo have "fst (hd (cs ! i)) \<le> slot" by simp
    with a h show ?thesis by (meson less_le_trans)
  qed simp
  show "\<forall>x \<in> set (concat (drop (Suc i) cs)). slot < fst x"
  proof (cases "Suc i < length cs")
    case True
    then have eq: "drop (Suc i) cs = cs ! Suc i # drop (Suc (Suc i)) cs" by (rule Cons_nth_drop_Suc [symmetric])
    obtain e es where e: "cs ! Suc i = e # es" using ne True by (metis nth_mem list.exhaust)
    from hi True e have "slot < fst e" by simp
    moreover have "\<forall>x \<in> set (es @ concat (drop (Suc (Suc i)) cs)). fst e < fst x"
      using d unfolding eq e by (simp del: set_concat)
    ultimately show ?thesis unfolding eq e by (auto simp del: set_concat intro: less_trans)
  qed simp
qed

section \<open>The columns of a table\<close>

text \<open>A column is the chunks of one term, by number.\<close>

definition column :: "(bytes \<rightharpoonup> bytes) \<Rightarrow> u32 \<Rightarrow> string \<Rightarrow> u32 \<rightharpoonup> bytes" where
  "column rs s w = (\<lambda>c. rs (chunked_posting_key s w c))"

definition chunk_nums :: "(u32 \<rightharpoonup> bytes) \<Rightarrow> u32 list" where
  "chunk_nums f = sorted_list_of_set (dom f)"

definition posting_entries :: "lz4 \<Rightarrow> bytes \<Rightarrow> posting list" where
  "posting_entries L b = (case rbind (unframe_value L b) decode_posting_block of Inr es \<Rightarrow> es | Inl _ \<Rightarrow> [])"

definition column_chunks :: "lz4 \<Rightarrow> (u32 \<rightharpoonup> bytes) \<Rightarrow> posting list list" where
  "column_chunks L f = map (\<lambda>c. posting_entries L (the (f c))) (chunk_nums f)"

definition plist :: "lz4 \<Rightarrow> (bytes \<rightharpoonup> bytes) \<Rightarrow> u32 \<Rightarrow> string \<Rightarrow> posting list" where
  "plist L rs s w = concat (column_chunks L (column rs s w))"

lemma chunk_nums_eq: "sorted_wrt (<) cs \<Longrightarrow> set cs = dom f \<Longrightarrow> chunk_nums f = cs"
  unfolding chunk_nums_def by (metis sorted_list_of_set.idem_if_sorted_distinct strict_sorted_iff)

lemma chunk_nums_props: "sorted_wrt (<) (chunk_nums f)" "set (chunk_nums f) = dom f"
  by (simp_all add: chunk_nums_def finite_subset [OF subset_UNIV])

lemma column_chunks_eq:
  assumes "sorted_wrt (<) cs" "set cs = dom f"
  shows "column_chunks L f = map (\<lambda>c. posting_entries L (the (f c))) cs"
  by (simp add: column_chunks_def chunk_nums_eq [OF assms])

lemma column_replace:
  assumes "chunk_nums f = xs @ c # ys"
  shows "column_chunks L (f(c \<mapsto> b)) =
    map (\<lambda>c. posting_entries L (the (f c))) xs @ posting_entries L b # map (\<lambda>c. posting_entries L (the (f c))) ys"
proof -
  have s: "sorted_wrt (<) (xs @ c # ys)" "set (xs @ c # ys) = dom f" using chunk_nums_props [of f] assms by simp_all
  then have "c \<notin> set xs" "c \<notin> set ys" by (auto simp: sorted_wrt_append)
  moreover have "column_chunks L (f(c \<mapsto> b)) = map (\<lambda>d. posting_entries L (the ((f(c \<mapsto> b)) d))) (xs @ c # ys)"
    using s by (intro column_chunks_eq) auto
  ultimately show ?thesis by auto
qed

lemma column_delete:
  assumes "chunk_nums f = xs @ c # ys"
  shows "column_chunks L (f(c := None)) =
    map (\<lambda>c. posting_entries L (the (f c))) xs @ map (\<lambda>c. posting_entries L (the (f c))) ys"
proof -
  have s: "sorted_wrt (<) (xs @ c # ys)" "set (xs @ c # ys) = dom f" using chunk_nums_props [of f] assms by simp_all
  then have c: "c \<notin> set xs" "c \<notin> set ys" by (auto simp: sorted_wrt_append)
  then have "column_chunks L (f(c := None)) = map (\<lambda>d. posting_entries L (the ((f(c := None)) d))) (xs @ ys)"
    using s by (intro column_chunks_eq) (auto simp: sorted_wrt_append)
  with c show ?thesis by auto
qed

lemma unat_plus_1: "(x :: u32) \<noteq> - 1 \<Longrightarrow> unat (x + 1) = Suc (unat x)"
  using unatSuc [of x] by (metis add.commute add_eq_0_iff)

lemma plus_1_mono: "(x :: u32) < y \<Longrightarrow> y \<noteq> - 1 \<Longrightarrow> x + 1 < y + 1"
proof -
  assume "x < y" "y \<noteq> - 1"
  moreover have "x \<noteq> - 1" using \<open>x < y\<close> by (metis not_less word_n1_ge)
  ultimately show ?thesis by (simp add: word_less_nat_alt unat_plus_1)
qed

lemma plus_1_greater: "(x :: u32) \<noteq> - 1 \<Longrightarrow> x < x + 1"
  by (simp add: word_less_nat_alt unat_plus_1)

text \<open>Moving the chunks \<open>ds\<close> up by one.\<close>

definition shifted :: "u32 set \<Rightarrow> (u32 \<rightharpoonup> bytes) \<Rightarrow> u32 \<rightharpoonup> bytes" where
  "shifted D f = (\<lambda>x. if x - 1 \<in> D then f (x - 1) else if x \<in> D then None else f x)"

lemma shifted_insert:
  assumes "d \<noteq> - 1" "\<forall>x \<in> D. x < d"
  shows "shifted D (f(d + 1 := f d, d := None)) = shifted (insert d D) f"
proof
  fix x
  have "d < d + 1" using plus_1_greater [OF assms(1)] .
  then have n: "d + 1 \<notin> D" "d \<notin> D" "d + 1 \<noteq> d" using assms(2) by (auto dest: less_asym)
  have eq: "x - 1 = d \<longleftrightarrow> x = d + 1" by (auto simp: algebra_simps)
  show "shifted D (f(d + 1 := f d, d := None)) x = shifted (insert d D) f x"
  proof (cases "x - 1 \<in> D")
    case True
    then have "x - 1 \<noteq> d + 1" "x - 1 \<noteq> d" using n by metis+
    with True show ?thesis by (simp add: shifted_def)
  next
    case False
    with n eq show ?thesis by (cases "x = d + 1") (simp_all add: shifted_def)
  qed
qed

lemma column_split:
  assumes nums: "chunk_nums f = xs @ c # ys" and max: "f (- 1) = None"
  shows "column_chunks L ((shifted (set ys) f)(c \<mapsto> b1, c + 1 \<mapsto> b2)) =
    map (\<lambda>c. posting_entries L (the (f c))) xs @ posting_entries L b1 # posting_entries L b2 #
    map (\<lambda>c. posting_entries L (the (f c))) ys" (is "column_chunks L ?f = ?r")
proof -
  have s: "sorted_wrt (<) (xs @ c # ys)" and d: "set (xs @ c # ys) = dom f"
    using chunk_nums_props [of f] nums by simp_all
  have no: "- 1 \<notin> set (xs @ c # ys)" unfolding d using max by auto
  then have c1: "c < c + 1" by (intro plus_1_greater) auto
  have up: "c + 1 < y + 1" "y < y + 1" if "y \<in> set ys" for y
    using s no that by (auto simp: sorted_wrt_append intro!: plus_1_mono plus_1_greater)
  have sy: "sorted_wrt (<) (map (\<lambda>y. y + 1) ys)"
    unfolding sorted_wrt_map by (rule sorted_wrt_mono_rel [of _ "(<)"]) (use s no in \<open>auto simp: sorted_wrt_append intro: plus_1_mono\<close>)
  have "sorted_wrt (<) (xs @ c # (c + 1) # map (\<lambda>y. y + 1) ys)"
    using s sy c1 up by (auto simp: sorted_wrt_append) (meson less_trans)+
  moreover have mem: "x - 1 \<in> set ys \<longleftrightarrow> x \<in> (\<lambda>y. y + 1) ` set ys" for x
    by (auto simp: image_iff intro: bexI [of _ "x - 1"])
  have "set (xs @ c # (c + 1) # map (\<lambda>y. y + 1) ys) = dom ?f"
  proof (rule set_eqI)
    fix x
    show "x \<in> set (xs @ c # (c + 1) # map (\<lambda>y. y + 1) ys) \<longleftrightarrow> x \<in> dom ?f"
    proof (cases "x - 1 \<in> set ys")
      case True
      then have "x - 1 \<in> dom f" using d by auto
      with True mem [of x] show ?thesis by (auto simp: shifted_def)
    next
      case False
      then have "x \<in> dom ?f \<longleftrightarrow> x = c \<or> x = c + 1 \<or> x \<in> dom f \<and> x \<notin> set ys"
        by (auto simp: shifted_def split: if_splits)
      moreover have "x \<in> dom f \<longleftrightarrow> x \<in> set xs \<or> x = c \<or> x \<in> set ys" unfolding d [symmetric] by auto
      moreover have "set xs \<inter> set ys = {}" using s by (auto simp: sorted_wrt_append dest: less_asym)
      ultimately show ?thesis using False mem [of x] by auto
    qed
  qed
  ultimately have "column_chunks L ?f = map (\<lambda>c. posting_entries L (the (?f c))) (xs @ c # (c + 1) # map (\<lambda>y. y + 1) ys)"
    by (rule column_chunks_eq)
  moreover have "?f x = f x" if "x \<in> set xs" for x
  proof -
    have "x \<noteq> c" "x \<noteq> c + 1" "x \<notin> set ys" using s c1 that by (auto simp: sorted_wrt_append dest: less_asym less_trans)
    moreover have "x - 1 \<notin> set ys"
    proof
      assume y: "x - 1 \<in> set ys"
      then have "x - 1 < x" using up(2) [OF y] by simp
      moreover have "x < x - 1" using s that y by (auto simp: sorted_wrt_append)
      ultimately show False by (auto dest: less_asym)
    qed
    ultimately show ?thesis by (simp add: shifted_def)
  qed
  moreover have "?f (y + 1) = f y" if y: "y \<in> set ys" for y
    using up [OF y] c1 y by (auto simp: shifted_def)
  moreover have "?f c = Some b1" "?f (c + 1) = Some b2" using c1 by auto
  ultimately show ?thesis by (simp cong: map_cong)
qed

section \<open>Well-formed tables\<close>

definition pchunk_ok :: "posting list \<Rightarrow> bool" where
  "pchunk_ok es \<longleftrightarrow> es \<noteq> [] \<and> slots_ascend es \<and> (\<forall>e \<in> set es. snd e \<noteq> 0) \<and> length es \<le> POSTINGS_CHUNK_TARGET"

definition good_block :: "lz4 \<Rightarrow> bytes \<Rightarrow> bool" where
  "good_block L b \<longleftrightarrow> (\<exists>es raw. pchunk_ok es \<and> encode_posting_block es = Inr raw \<and> b = frame_value L raw)"

definition blocks_ok :: "lz4 \<Rightarrow> (bytes \<rightharpoonup> bytes) \<Rightarrow> bool" where
  "blocks_ok L rs \<longleftrightarrow> (\<forall>k b. rs k = Some b \<longrightarrow> 8 \<le> length k \<and> good_block L b)"

text \<open>Every row is a chunk under a key of the expected shape, and the chunks of a term follow each other by slot.\<close>

definition postings_wf :: "lz4 \<Rightarrow> (bytes \<rightharpoonup> bytes) \<Rightarrow> bool" where
  "postings_wf L rs \<longleftrightarrow> blocks_ok L rs \<and> (\<forall>s w. slots_ascend (plist L rs s w))"

definition chunks_below :: "nat \<Rightarrow> (bytes \<rightharpoonup> bytes) \<Rightarrow> bool" where
  "chunks_below n rs \<longleftrightarrow> (\<forall>s w c. column rs s w c \<noteq> None \<longrightarrow> unat c < n)"

text \<open>Replacing one column of a table.\<close>

definition column_upd :: "u32 \<Rightarrow> string \<Rightarrow> (u32 \<rightharpoonup> bytes) \<Rightarrow> (bytes \<rightharpoonup> bytes) \<Rightarrow> bytes \<rightharpoonup> bytes" where
  "column_upd s w f rs = (\<lambda>k. if \<exists>c. k = chunked_posting_key s w c then f (chunk_number k) else rs k)"

lemma column_upd_self: "column_upd s w (column rs s w) rs = rs"
  by (auto simp: column_upd_def column_def fun_eq_iff)

lemma column_upd_point: "(column_upd s w f rs)(chunked_posting_key s w c := v) = column_upd s w (f(c := v)) rs"
  by (auto simp: column_upd_def fun_eq_iff)

lemma column_upd_insert: "rs(chunked_posting_key s w c := v) = column_upd s w ((column rs s w)(c := v)) rs"
  using column_upd_point [of s w "column rs s w" rs c v] by (simp add: column_upd_self)

lemma column_upd_key: "column_upd s w f rs (chunked_posting_key s w c) = f c"
  by (auto simp: column_upd_def)

lemma column_column_upd: "column (column_upd s w f rs) s' w' = (if s' = s \<and> w' = w then f else column rs s' w')"
  by (auto simp: column_def column_upd_def fun_eq_iff)

definition column_becomes :: "lz4 \<Rightarrow> u32 \<Rightarrow> string \<Rightarrow> nat \<Rightarrow> posting list \<Rightarrow> (bytes \<rightharpoonup> bytes) \<Rightarrow> (bytes \<rightharpoonup> bytes) \<Rightarrow> bool" where
  "column_becomes L s w n r rs rs' \<longleftrightarrow> (\<exists>f. rs' = column_upd s w f rs \<and>
     (\<forall>c b. f c = Some b \<longrightarrow> good_block L b \<and> unat c \<le> n) \<and> concat (column_chunks L f) = r)"

lemma column_becomesI:
  assumes "rs' = column_upd s w f rs" "\<And>c b. f c = Some b \<Longrightarrow> good_block L b \<and> unat c \<le> n" "concat (column_chunks L f) = r"
  shows "column_becomes L s w n r rs rs'"
  using assms unfolding column_becomes_def by blast

lemma becomes_plist:
  assumes "column_becomes L s w n r rs rs'"
  shows "plist L rs' s' w' = (if s' = s \<and> w' = w then r else plist L rs s' w')"
  using assms by (auto simp: column_becomes_def plist_def column_column_upd)

lemma becomes_blocks:
  assumes "column_becomes L s w n r rs rs'" "blocks_ok L rs"
  shows "blocks_ok L rs'"
  using assms by (auto simp: column_becomes_def blocks_ok_def column_upd_def length_posting_key split: if_splits)

lemma becomes_below:
  assumes "column_becomes L s w n r rs rs'" "chunks_below n rs"
  shows "chunks_below (Suc n) rs'"
proof -
  from assms(1) obtain f where f: "rs' = column_upd s w f rs" "\<And>c b. f c = Some b \<Longrightarrow> unat c \<le> n"
    unfolding column_becomes_def by blast
  show ?thesis unfolding chunks_below_def f(1) column_column_upd
    using f(2) assms(2) by (auto simp: chunks_below_def less_Suc_eq_le) (meson less_imp_le)+
qed

lemma chunks_below_max: "chunks_below n rs \<Longrightarrow> n < 2 ^ 32 \<Longrightarrow> column rs s w (- 1) = None"
proof -
  assume n: "chunks_below n rs" "n < 2 ^ 32"
  have "unat (- 1 :: u32) = 2 ^ 32 - 1" by (simp add: unsigned_minus_1_eq_mask mask_eq_exp_minus_1)
  with n have "\<not> unat (- 1 :: u32) < n" by linarith
  with n(1) show "column rs s w (- 1) = None" unfolding chunks_below_def by blast
qed

lemma encode_postings_small: "encode_postings p es = Inr body \<Longrightarrow> length body \<le> 20 * length es"
proof (induction es arbitrary: p body)
  case (Cons e es)
  then obtain delta tail where t: "encode_postings (fst e) es = Inr tail"
    and b: "length body = length (write_varint delta) + length (write_varint (ucast (snd e))) + length tail"
    by (cases e) (auto simp: rbind_Inr)
  then show ?case using Cons.IH [OF t] write_varint_10 [of delta] write_varint_10 [of "ucast (snd e)"] by simp
qed simp

lemma slots_ascend_sorted: "slots_ascend es \<Longrightarrow> sorted (map fst es)"
  by (simp add: slots_ascend_def strict_sorted_imp_sorted)

lemma pchunk_ok_encodes: "pchunk_ok es \<Longrightarrow> \<exists>raw. encode_posting_block es = Inr raw"
  by (simp add: pchunk_ok_def encode_posting_block_iff slots_ascend_sorted)

lemma pchunk_ok_small:
  assumes "pchunk_ok es" "encode_posting_block es = Inr raw"
  shows "length raw \<le> unat MAX_DECOMPRESSED_LEN"
proof -
  from encode_block_parts [OF assms(2)] obtain body where b: "encode_postings 0 es = Inr body"
    and raw: "raw = POSTINGS_BLOCK_FORMAT_V0 # write_varint (word_of_nat (length es)) @ body" by metis
  have "length body \<le> 20 * 4096"
    using encode_postings_small [OF b] assms(1) by (simp add: pchunk_ok_def POSTINGS_CHUNK_TARGET_def)
  then show ?thesis using write_varint_10 [of "word_of_nat (length es)"] by (simp add: raw MAX_DECOMPRESSED_LEN_def)
qed

lemma chunk_fits_target:
  assumes "encode_posting_block es = Inr raw" "length raw \<le> POSTINGS_CHUNK_TARGET"
  shows "length es \<le> POSTINGS_CHUNK_TARGET"
proof -
  from encode_block_parts [OF assms(1)] obtain body where b: "encode_postings 0 es = Inr body"
    and raw: "raw = POSTINGS_BLOCK_FORMAT_V0 # write_varint (word_of_nat (length es)) @ body" by metis
  then show ?thesis using encode_postings_length [OF b] assms(2) by simp
qed

section \<open>Blocks and scans\<close>

context chunk_store_live
begin

lemma good_block_reads:
  assumes "good_block L b"
  shows "\<exists>raw. unframe_value L b = Inr raw \<and> pchunk_ok (posting_entries L b) \<and>
    decode_posting_block raw = Inr (posting_entries L b) \<and> peek_first_slot raw = Inr (fst (hd (posting_entries L b))) \<and>
    posting_block_count raw = Inr (word_of_nat (length (posting_entries L b)))"
proof -
  from assms obtain es raw where es: "pchunk_ok es" "encode_posting_block es = Inr raw" "b = frame_value L raw"
    unfolding good_block_def by blast
  have len: "length es < 2 ^ 64" using es(1) by (simp add: pchunk_ok_def POSTINGS_CHUNK_TARGET_def)
  have u: "unframe_value L b = Inr raw" using unframe_frame [OF pchunk_ok_small [OF es(1,2)]] es(3) by simp
  have "posting_entries L b = es" using block_roundtrips(1) [OF es(2) len] by (simp add: posting_entries_def u)
  with block_roundtrips [OF es(2) len] u es(1) show ?thesis by simp
qed

lemma store_posting_run:
  assumes "pchunk_ok es"
  shows "\<exists>t' b. store_posting_chunk L T k es t = Inr t' \<and> rows t' = (rows t)(k \<mapsto> b) \<and>
    good_block L b \<and> posting_entries L b = es"
proof -
  from pchunk_ok_encodes [OF assms] obtain raw where raw: "encode_posting_block es = Inr raw" by blast
  obtain t' where t': "tinsert T t k (frame_value L raw) = Inr t'" "rows t' = (rows t)(k \<mapsto> frame_value L raw)"
    using insert_eq by blast
  have good: "good_block L (frame_value L raw)" using assms raw by (auto simp: good_block_def)
  have len: "length es < 2 ^ 64" using assms by (simp add: pchunk_ok_def POSTINGS_CHUNK_TARGET_def)
  have "posting_entries L (frame_value L raw) = es"
    using unframe_frame [OF pchunk_ok_small [OF assms raw]] block_roundtrips(1) [OF raw len]
    by (simp add: posting_entries_def)
  with t' good raw show ?thesis by (auto simp: store_posting_chunk_def)
qed

lemma term_keys_run:
  "term_chunk_keys T t s w = Inr (map (chunked_posting_key s w) (chunk_nums (column (rows t) s w)))"
proof -
  let ?k = "chunked_posting_key s w"
  obtain es where es: "trange T t (?k 0) (?k (- 1)) = Inr es" using range_live by blast
  let ?ks = "filter (\<lambda>k. length k = length (?k 0)) (map fst es)"
  have "sorted_wrt (<) ?ks" using range_sorted [OF es] by (rule sorted_wrt_filter)
  moreover have "sorted_wrt (<) (map ?k (chunk_nums (column (rows t) s w)))"
    using chunk_nums_props(1) by (simp add: sorted_wrt_map posting_key_less_iff)
  moreover have "set ?ks = set (map ?k (chunk_nums (column (rows t) s w)))"
  proof (rule set_eqI)
    fix k
    have "k \<in> set ?ks \<longleftrightarrow> length k = length w + 8 \<and> ?k 0 \<le> k \<and> k \<le> ?k (- 1) \<and> rows t k \<noteq> None"
      using range_key [OF es, of k] by (auto simp: length_posting_key)
    also have "\<dots> \<longleftrightarrow> (\<exists>c. k = ?k c) \<and> rows t k \<noteq> None"
      using in_term_range [of k w s] by (auto simp: length_posting_key)
    also have "\<dots> \<longleftrightarrow> k \<in> set (map ?k (chunk_nums (column (rows t) s w)))"
      by (auto simp: chunk_nums_props column_def dom_def)
    finally show "k \<in> set ?ks \<longleftrightarrow> k \<in> set (map ?k (chunk_nums (column (rows t) s w)))" .
  qed
  ultimately have "?ks = map ?k (chunk_nums (column (rows t) s w))"
    by (metis sorted_distinct_set_unique strict_sorted_iff)
  with es show ?thesis by (simp add: term_chunk_keys_def Let_def)
qed

text \<open>Reading: the chunks in order are the list, their counts its length.\<close>

lemma read_posting_run:
  assumes "blocks_ok L (rows t)"
  shows "read_posting L T t s w = Inr (plist L (rows t) s w)"
proof -
  let ?f = "column (rows t) s w" and ?k = "chunked_posting_key s w"
  have "rfold (\<lambda>key out. rbind (load_posting_chunk L T t key) (\<lambda>es. Inr (out @ es))) (map ?k cs) out =
      Inr (out @ concat (map (\<lambda>c. posting_entries L (the (?f c))) cs))" if "set cs \<subseteq> dom ?f" for cs out
    using that
  proof (induction cs arbitrary: out)
    case (Cons c cs)
    then obtain b where b: "rows t (?k c) = Some b" by (auto simp: column_def)
    then have "good_block L b" using assms by (auto simp: blocks_ok_def)
    from good_block_reads [OF this] have "load_posting_chunk L T t (?k c) = Inr (posting_entries L b)"
      by (auto simp: load_posting_chunk_def get_eq b)
    with Cons b show ?case by (simp add: column_def)
  qed simp
  then show ?thesis
    by (simp add: read_posting_def term_keys_run plist_def column_chunks_def chunk_nums_props)
qed

lemma posting_df_run:
  assumes "blocks_ok L (rows t)"
  shows "posting_df L T t s w = Inr (word_of_nat (length (plist L (rows t) s w)))"
proof -
  let ?f = "column (rows t) s w" and ?k = "chunked_posting_key s w"
  let ?step = "\<lambda>key total. rbind (redb (tget T t key)) (\<lambda>v. case v of
              Some b \<Rightarrow> rbind (unframe_value L b) (\<lambda>raw. rbind (posting_block_count raw) (\<lambda>n. Inr (total + n)))
            | None \<Rightarrow> Inr total)"
  have "rfold ?step (map ?k cs) total =
      Inr (total + word_of_nat (length (concat (map (\<lambda>c. posting_entries L (the (?f c))) cs))))"
    if "set cs \<subseteq> dom ?f" for cs total
    using that
  proof (induction cs arbitrary: total)
    case (Cons c cs)
    then obtain b where b: "rows t (?k c) = Some b" by (auto simp: column_def)
    then have "good_block L b" using assms by (auto simp: blocks_ok_def)
    from good_block_reads [OF this] have "?step (?k c) total = Inr (total + word_of_nat (length (posting_entries L b)))"
      by (auto simp: get_eq b)
    with Cons b show ?case by (simp add: column_def add.assoc)
  qed simp
  then show ?thesis
    by (simp add: posting_df_def term_keys_run plist_def column_chunks_def chunk_nums_props)
qed

lemma shift_run:
  assumes "rows t = column_upd s w f rs" "sorted_wrt (>) ds" "- 1 \<notin> set ds" "set ds \<subseteq> dom f"
  shows "\<exists>t'. rfold (shift_chunk T s w) (map (chunked_posting_key s w) ds) t = Inr t' \<and>
    rows t' = column_upd s w (shifted (set ds) f) rs"
  using assms
proof (induction ds arbitrary: t f)
  case (Cons d ds)
  let ?k = "chunked_posting_key s w"
  from Cons.prems(4) obtain b where b: "f d = Some b" by auto
  have g: "rows t (?k d) = Some b" using b by (simp add: Cons.prems(1) column_upd_key)
  obtain t1 where t1: "tinsert T t (?k (d + 1)) b = Inr t1" "rows t1 = (rows t)(?k (d + 1) \<mapsto> b)"
    using insert_eq by blast
  obtain t2 where t2: "tremove T t1 (?k d) = Inr (rows t1 (?k d), t2)" "rows t2 = (rows t1)(?k d := None)"
    using remove_eq by blast
  let ?f = "f(d + 1 := f d, d := None)"
  have step: "shift_chunk T s w (?k d) t = Inr t2"
    using t1(1) t2(1) by (simp add: shift_chunk_def get_eq g)
  have rows2: "rows t2 = column_upd s w ?f rs"
    by (simp add: t2(2) t1(2) Cons.prems(1) column_upd_point b)
  have "d < d + 1" using Cons.prems(3) by (intro plus_1_greater) auto
  then have "set ds \<subseteq> dom ?f" using Cons.prems(2,4) by (auto dest: less_asym)
  moreover have "sorted_wrt (>) ds" "- 1 \<notin> set ds" using Cons.prems(2,3) by simp_all
  ultimately obtain t' where
    "rfold (shift_chunk T s w) (map ?k ds) t2 = Inr t'" "rows t' = column_upd s w (shifted (set ds) ?f) rs"
    using Cons.IH [OF rows2] by blast
  moreover have "shifted (set ds) ?f = shifted (insert d (set ds)) f"
    using Cons.prems(2,3) by (intro shifted_insert) auto
  ultimately show ?case using step by simp
qed (simp add: shifted_def)

abbreviation entries_under :: "'t \<Rightarrow> u32 \<Rightarrow> string \<Rightarrow> u32 list \<Rightarrow> posting list" where
  "entries_under t s w cs \<equiv> concat (map (\<lambda>c. posting_entries L (the (column (rows t) s w c))) cs)"

lemma column_row_ok:
  assumes "blocks_ok L (rows t)" "chunks_below n (rows t)" "column (rows t) s w x = Some b"
  shows "good_block L b" "unat x < n"
  using assms unfolding blocks_ok_def chunks_below_def by (auto simp: column_def) blast

lemma replace_run:
  assumes ok: "blocks_ok L (rows t)" and below: "chunks_below n (rows t)"
    and nums: "chunk_nums (column (rows t) s w) = xs @ c # ys" and es: "pchunk_ok es"
  shows "\<exists>t'. store_posting_chunk L T (chunked_posting_key s w c) es t = Inr t' \<and>
    column_becomes L s w n (entries_under t s w xs @ es @ entries_under t s w ys) (rows t) (rows t')"
proof -
  let ?k = "chunked_posting_key s w" and ?f = "column (rows t) s w"
  from store_posting_run [OF es, of "?k c" t] obtain t' b where
    t': "store_posting_chunk L T (?k c) es t = Inr t'" "rows t' = (rows t)(?k c \<mapsto> b)" "good_block L b" "posting_entries L b = es"
    by blast
  have "?f c \<noteq> None" using chunk_nums_props(2) [of ?f] nums by auto
  then have c: "unat c < n" using column_row_ok(2) [OF ok below] by blast
  have "column_becomes L s w n (entries_under t s w xs @ es @ entries_under t s w ys) (rows t) (rows t')"
  proof (rule column_becomesI)
    show "rows t' = column_upd s w (?f(c \<mapsto> b)) (rows t)" by (simp only: t'(2) column_upd_insert)
    show "good_block L b' \<and> unat x \<le> n" if "(?f(c \<mapsto> b)) x = Some b'" for x b'
      using that t'(3) column_row_ok [OF ok below, of s w x] c by (cases "x = c") (auto intro: less_imp_le)
  qed (simp add: column_replace [OF nums] t'(4))
  with t'(1) show ?thesis by blast
qed

lemma delete_run:
  assumes ok: "blocks_ok L (rows t)" and below: "chunks_below n (rows t)"
    and nums: "chunk_nums (column (rows t) s w) = xs @ c # ys"
  shows "\<exists>old t'. tremove T t (chunked_posting_key s w c) = Inr (old, t') \<and>
    column_becomes L s w n (entries_under t s w xs @ entries_under t s w ys) (rows t) (rows t')"
proof -
  let ?k = "chunked_posting_key s w" and ?f = "column (rows t) s w"
  obtain t' where t': "tremove T t (?k c) = Inr (rows t (?k c), t')" "rows t' = (rows t)(?k c := None)"
    using remove_eq by blast
  have "column_becomes L s w n (entries_under t s w xs @ entries_under t s w ys) (rows t) (rows t')"
  proof (rule column_becomesI)
    show "rows t' = column_upd s w (?f(c := None)) (rows t)" by (simp only: t'(2) column_upd_insert)
    show "good_block L b \<and> unat x \<le> n" if "(?f(c := None)) x = Some b" for x b
      using that column_row_ok [OF ok below, of s w x b] by (auto split: if_splits)
  qed (simp add: column_delete [OF nums])
  with t'(1) show ?thesis by blast
qed

text \<open>The column after a split, row by row.\<close>

lemma split_rows_ok:
  assumes ok: "blocks_ok L (rows t)" and below: "chunks_below n (rows t)" "n < 2 ^ 32"
    and nums: "chunk_nums (column (rows t) s w) = xs @ c # ys"
    and row: "((shifted (set ys) (column (rows t) s w))(c \<mapsto> b2, c + 1 \<mapsto> b3)) x = Some b"
    and b: "good_block L b2" "good_block L b3"
  shows "good_block L b \<and> unat x \<le> n"
proof -
  let ?f = "column (rows t) s w"
  have up: "unat y < n" "unat (y + 1) \<le> n" if "y \<in> set (xs @ c # ys)" for y
  proof -
    have y: "?f y \<noteq> None" using that chunk_nums_props(2) [of ?f] nums by auto
    then show "unat y < n" using column_row_ok(2) [OF ok below(1)] by blast
    moreover have "y \<noteq> - 1" using y chunks_below_max [OF below] by metis
    ultimately show "unat (y + 1) \<le> n" by (simp add: unat_plus_1)
  qed
  note r = column_row_ok [OF ok below(1), of s w _ b]
  have "x - 1 \<in> set ys \<Longrightarrow> unat x \<le> n" using up(2) [of "x - 1"] by simp
  moreover have "x - 1 \<in> set ys \<Longrightarrow> x \<noteq> c + 1 \<Longrightarrow> x \<noteq> c \<Longrightarrow> good_block L b"
    using row r(1) [of "x - 1"] by (simp add: shifted_def)
  moreover have "x - 1 \<notin> set ys \<Longrightarrow> x \<noteq> c + 1 \<Longrightarrow> x \<noteq> c \<Longrightarrow> good_block L b \<and> unat x \<le> n"
    using row r [of x] by (auto simp: shifted_def split: if_splits)
  moreover have "x = c \<or> x = c + 1 \<Longrightarrow> unat x \<le> n" using up [of c] by auto
  moreover have "x = c \<or> x = c + 1 \<Longrightarrow> good_block L b" using row b by (auto split: if_splits)
  ultimately show ?thesis by blast
qed

lemma split_run:
  assumes ok: "blocks_ok L (rows t)" and below: "chunks_below n (rows t)" "n < 2 ^ 32"
    and nums: "chunk_nums (column (rows t) s w) = xs @ c # ys" and es: "pchunk_ok es1" "pchunk_ok es2"
  shows "\<exists>t1 t2 t3. rfold (shift_chunk T s w) (rev (map (chunked_posting_key s w) ys)) t = Inr t1 \<and>
    store_posting_chunk L T (chunked_posting_key s w c) es1 t1 = Inr t2 \<and>
    store_posting_chunk L T (chunked_posting_key s w (c + 1)) es2 t2 = Inr t3 \<and>
    column_becomes L s w n (entries_under t s w xs @ (es1 @ es2) @ entries_under t s w ys) (rows t) (rows t3)"
proof -
  let ?k = "chunked_posting_key s w" and ?f = "column (rows t) s w"
  have sorted: "sorted_wrt (<) (xs @ c # ys)" and dom: "set (xs @ c # ys) = dom ?f"
    using chunk_nums_props [of ?f] nums by simp_all
  have max: "?f (- 1) = None" by (rule chunks_below_max [OF below])
  have "\<exists>t1. rfold (shift_chunk T s w) (map ?k (rev ys)) t = Inr t1 \<and>
      rows t1 = column_upd s w (shifted (set (rev ys)) ?f) (rows t)"
  proof (rule shift_run)
    show "sorted_wrt (>) (rev ys)" using sorted by (simp add: sorted_wrt_append sorted_wrt_rev)
    show "- 1 \<notin> set (rev ys)" "set (rev ys) \<subseteq> dom ?f" using dom max by auto
  qed (simp add: column_upd_self)
  then obtain t1 where t1: "rfold (shift_chunk T s w) (rev (map ?k ys)) t = Inr t1"
    "rows t1 = column_upd s w (shifted (set ys) ?f) (rows t)" by (auto simp: rev_map)
  obtain t2 b2 where t2: "store_posting_chunk L T (?k c) es1 t1 = Inr t2" "rows t2 = (rows t1)(?k c \<mapsto> b2)"
    "good_block L b2" "posting_entries L b2 = es1" using store_posting_run [OF es(1)] by blast
  obtain t3 b3 where t3: "store_posting_chunk L T (?k (c + 1)) es2 t2 = Inr t3" "rows t3 = (rows t2)(?k (c + 1) \<mapsto> b3)"
    "good_block L b3" "posting_entries L b3 = es2" using store_posting_run [OF es(2)] by blast
  let ?g = "(shifted (set ys) ?f)(c \<mapsto> b2, c + 1 \<mapsto> b3)"
  have "column_becomes L s w n (entries_under t s w xs @ (es1 @ es2) @ entries_under t s w ys) (rows t) (rows t3)"
  proof (rule column_becomesI)
    show "rows t3 = column_upd s w ?g (rows t)" by (simp only: t3(2) t2(2) t1(2) column_upd_point)
    show "good_block L b \<and> unat x \<le> n" if "?g x = Some b" for x b
      using split_rows_ok [OF ok below nums that t2(3) t3(3)] .
    show "concat (column_chunks L ?g) = entries_under t s w xs @ (es1 @ es2) @ entries_under t s w ys"
      unfolding column_split [OF nums max] by (simp add: t2(4) t3(4))
  qed
  with t1(1) t2(1) t3(1) show ?thesis by blast
qed

text \<open>Storing the entries of a chunk replaces its part of the list, split or not.\<close>

lemma splitting_run:
  assumes ok: "blocks_ok L (rows t)" and below: "chunks_below n (rows t)" "n < 2 ^ 32"
    and nums: "chunk_nums (column (rows t) s w) = xs @ c # ys"
    and es: "es \<noteq> []" "slots_ascend es" "\<forall>e \<in> set es. snd e \<noteq> 0" "length es \<le> Suc POSTINGS_CHUNK_TARGET"
  shows "\<exists>t'. store_posting_chunk_splitting L T s w (map (chunked_posting_key s w) (xs @ c # ys)) (length xs) es t = Inr t' \<and>
    column_becomes L s w n (entries_under t s w xs @ es @ entries_under t s w ys) (rows t) (rows t')"
proof -
  let ?k = "chunked_posting_key s w"
  from es obtain raw where raw: "encode_posting_block es = Inr raw"
    using encode_posting_block_iff slots_ascend_sorted by blast
  have at_key: "map ?k (xs @ c # ys) ! length xs = ?k c" by (simp add: nth_append)
  show ?thesis
  proof (cases "length raw \<le> POSTINGS_CHUNK_TARGET \<or> length es < 2")
    case True
    then have "length es \<le> POSTINGS_CHUNK_TARGET"
      using chunk_fits_target [OF raw] by (auto simp: POSTINGS_CHUNK_TARGET_def)
    then have "pchunk_ok es" using es by (simp add: pchunk_ok_def)
    from replace_run [OF ok below(1) nums this] show ?thesis
      unfolding store_posting_chunk_splitting_def raw at_key using True by simp
  next
    case False
    let ?m = "length es div 2"
    have "slots_ascend (take ?m es @ drop ?m es)" using es(2) by simp
    then have "slots_ascend (take ?m es)" "slots_ascend (drop ?m es)" by (simp_all only: slots_ascend_simps)
    then have "pchunk_ok (take ?m es)" "pchunk_ok (drop ?m es)"
      using False es by (auto simp: pchunk_ok_def dest: in_set_takeD in_set_dropD)
    from split_run [OF ok below nums this] show ?thesis
      unfolding store_posting_chunk_splitting_def raw at_key using False by (auto simp: Let_def)
  qed
qed

text \<open>The binary search stops at the first chunk, of those before the last, whose first slot is above the wanted one.\<close>

lemma cover_search_run:
  assumes "\<And>i. i < length fs \<Longrightarrow> peek_stored_first_slot L T t (earlier ! i) = Inr (fs ! i)"
    and "lo \<le> hi" "hi \<le> length fs" "lo = 0 \<or> fs ! (lo - 1) \<le> slot" "hi = length fs \<or> slot < fs ! hi"
  shows "\<exists>r \<le> length fs. cover_search L T t earlier slot lo hi = Inr r \<and>
    (r = 0 \<or> fs ! (r - 1) \<le> slot) \<and> (r = length fs \<or> slot < fs ! r)"
  using assms(2-)
proof (induction "hi - lo" arbitrary: lo hi rule: less_induct)
  case less
  show ?case
  proof (cases "lo < hi")
    case True
    define mid where "mid = lo + (hi - lo) div 2"
    have m: "lo \<le> mid" "mid < hi" using True by (auto simp: mid_def)
    have step: "cover_search L T t earlier slot lo hi = (if fs ! mid \<le> slot then cover_search L T t earlier slot (mid + 1) hi
        else cover_search L T t earlier slot lo mid)"
      using True m less.prems(2) by (subst cover_search.simps) (simp add: mid_def [symmetric] assms(1) Let_def)
    show ?thesis
    proof (cases "fs ! mid \<le> slot")
      case True
      with m less.prems less.hyps [of hi "mid + 1"] step show ?thesis by simp
    next
      case False
      with m less.prems less.hyps [of mid lo] step show ?thesis by simp
    qed
  next
    case False
    with less.prems have "cover_search L T t earlier slot lo hi = Inr lo" "lo = hi" by (simp_all add: cover_search.simps)
    with less.prems show ?thesis by auto
  qed
qed

lemma chunk_reads:
  assumes ok: "blocks_ok L (rows t)" and c: "column (rows t) s w c = Some b"
  shows "load_posting_chunk L T t (chunked_posting_key s w c) = Inr (posting_entries L b)"
    "peek_stored_first_slot L T t (chunked_posting_key s w c) = Inr (fst (hd (posting_entries L b)))"
    "pchunk_ok (posting_entries L b)"
proof -
  have "rows t (chunked_posting_key s w c) = Some b" using c by (simp add: column_def)
  moreover then have "good_block L b" using ok by (auto simp: blocks_ok_def)
  note good_block_reads [OF this]
  ultimately show "load_posting_chunk L T t (chunked_posting_key s w c) = Inr (posting_entries L b)"
    "peek_stored_first_slot L T t (chunked_posting_key s w c) = Inr (fst (hd (posting_entries L b)))"
    "pchunk_ok (posting_entries L b)"
    by (auto simp: load_posting_chunk_def peek_stored_first_slot_def get_eq)
qed

lemma column_chunk_ok:
  assumes "blocks_ok L (rows t)" "i < length (chunk_nums (column (rows t) s w))"
  defines "es \<equiv> column_chunks L (column (rows t) s w) ! i" and "k \<equiv> chunked_posting_key s w (chunk_nums (column (rows t) s w) ! i)"
  shows "load_posting_chunk L T t k = Inr es" "peek_stored_first_slot L T t k = Inr (fst (hd es))" "pchunk_ok es"
proof -
  have "chunk_nums (column (rows t) s w) ! i \<in> dom (column (rows t) s w)"
    using assms(2) chunk_nums_props(2) [of "column (rows t) s w"] nth_mem by blast
  then obtain b where b: "column (rows t) s w (chunk_nums (column (rows t) s w) ! i) = Some b" by blast
  then have "es = posting_entries L b" using assms(2) by (simp add: es_def column_chunks_def)
  with chunk_reads [OF assms(1) b] show "load_posting_chunk L T t k = Inr es"
    "peek_stored_first_slot L T t k = Inr (fst (hd es))" "pchunk_ok es" unfolding k_def by simp_all
qed

text \<open>Rewriting the covering chunk.\<close>

lemma rewrite_run:
  assumes ok: "blocks_ok L (rows t)" and below: "chunks_below n (rows t)" "n < 2 ^ 32"
    and i: "i < length (chunk_nums (column (rows t) s w))" and asc: "slots_ascend (plist L (rows t) s w)"
    and lo: "i = 0 \<or> fst (hd (column_chunks L (column (rows t) s w) ! i)) \<le> slot"
    and hi: "Suc i < length (chunk_nums (column (rows t) s w)) \<longrightarrow>
      slot < fst (hd (column_chunks L (column (rows t) s w) ! Suc i))"
  shows "\<exists>t'. rewrite_chunk L T s w (map (chunked_posting_key s w) (chunk_nums (column (rows t) s w))) i
      (column_chunks L (column (rows t) s w) ! i) slot cnt t = Inr t' \<and>
    column_becomes L s w n (put_posting slot cnt (plist L (rows t) s w)) (rows t) (rows t')"
proof -
  let ?f = "column (rows t) s w" and ?k = "chunked_posting_key s w"
  let ?cs = "column_chunks L ?f" and ?ns = "chunk_nums ?f"
  let ?es = "?cs ! i" and ?es' = "put_posting slot cnt (?cs ! i)"
  have len: "length ?cs = length ?ns" by (simp add: column_chunks_def)
  define xs c ys where "xs = take i ?ns" and "c = ?ns ! i" and "ys = drop (Suc i) ?ns"
  have nums: "?ns = xs @ c # ys" unfolding xs_def c_def ys_def using i by (rule id_take_nth_drop)
  have lx: "length xs = i" using i by (simp add: xs_def)
  have pre: "concat (take i ?cs) = entries_under t s w xs" and post: "concat (drop (Suc i) ?cs) = entries_under t s w ys"
    by (simp_all add: column_chunks_def take_map drop_map xs_def ys_def)
  have all: "concat ?cs = concat (take i ?cs) @ ?es @ concat (drop (Suc i) ?cs)"
    using id_take_nth_drop [of i ?cs] i len by (metis concat.simps(2) concat_append)
  have es: "pchunk_ok ?es" using column_chunk_ok(3) [OF ok i] .
  have "\<forall>e \<in> set ?cs. e \<noteq> []" using column_chunk_ok(3) [OF ok] len by (auto simp: in_set_conv_nth pchunk_ok_def)
  note cov = covered [OF asc [unfolded plist_def] this, unfolded len, OF i lo hi]
  have put: "put_posting slot cnt (plist L (rows t) s w) = entries_under t s w xs @ ?es' @ entries_under t s w ys"
    unfolding plist_def all put_posting_around [OF cov] unfolding pre post ..
  note mut = mutation_is_put [of ?es slot cnt]
  have asc_es: "slots_ascend ?es" using es by (simp add: pchunk_ok_def)
  obtain ch es' where run: "apply_posting_mutation ?es slot cnt = (ch, es')" by fastforce
  with mut asc_es have es': "es' = ?es'" and same: "\<not> ch \<Longrightarrow> ?es' = ?es" by auto
  show ?thesis
  proof (cases ch)
    case False
    then have "column_becomes L s w n (put_posting slot cnt (plist L (rows t) s w)) (rows t) (rows t)"
      unfolding put same [OF False] using column_row_ok [OF ok below(1)] all
      by (intro column_becomesI [of _ _ _ ?f]) (auto simp: column_upd_self pre post intro: less_imp_le)
    then show ?thesis using False by (auto simp: rewrite_chunk_def run)
  next
    case changed: True
    have key: "map ?k ?ns ! i = ?k c" using i by (simp add: c_def)
    show ?thesis
    proof (cases "?es' = []")
      case True
      with delete_run [OF ok below(1) nums] changed show ?thesis
        by (auto simp: rewrite_chunk_def run es' key put)
    next
      case False
      have "\<forall>e \<in> set ?es. snd e \<noteq> 0" "length ?es \<le> POSTINGS_CHUNK_TARGET" using es by (simp_all add: pchunk_ok_def)
      then have "\<forall>e \<in> set ?es'. snd e \<noteq> 0" "length ?es' \<le> Suc POSTINGS_CHUNK_TARGET"
        using put_posting_nonzero put_posting_length [of slot cnt ?es] by auto
      note split = splitting_run [OF ok below nums False slots_ascend_put [OF asc_es] this, folded nums put, unfolded lx]
      have "rewrite_chunk L T s w (map ?k ?ns) i ?es slot cnt t = store_posting_chunk_splitting L T s w (map ?k ?ns) i ?es' t"
        using changed False unfolding rewrite_chunk_def run es' by simp
      with split show ?thesis by simp
    qed
  qed
qed

lemma becomes_same:
  assumes "blocks_ok L (rows t)" "chunks_below n (rows t)"
  shows "column_becomes L s w n (plist L (rows t) s w) (rows t) (rows t)"
  using column_row_ok [OF assms]
  by (intro column_becomesI [of _ _ _ "column (rows t) s w"]) (auto simp: column_upd_self plist_def intro: less_imp_le)

lemma first_chunk_run:
  assumes empty: "chunk_nums (column (rows t) s w) = []" and "cnt \<noteq> 0"
  shows "\<exists>t'. store_posting_chunk L T (chunked_posting_key s w 0) [(slot, cnt)] t = Inr t' \<and>
    column_becomes L s w n [(slot, cnt)] (rows t) (rows t')"
proof -
  let ?f = "column (rows t) s w"
  have "dom ?f = {}" using chunk_nums_props(2) [of ?f] empty by simp
  have "pchunk_ok [(slot, cnt)]" using assms(2) by (simp add: pchunk_ok_def POSTINGS_CHUNK_TARGET_def)
  from store_posting_run [OF this, of "chunked_posting_key s w 0" t] obtain t' b where
    t': "store_posting_chunk L T (chunked_posting_key s w 0) [(slot, cnt)] t = Inr t'"
      "rows t' = (rows t)(chunked_posting_key s w 0 \<mapsto> b)" "good_block L b" "posting_entries L b = [(slot, cnt)]" by blast
  have "column_becomes L s w n [(slot, cnt)] (rows t) (rows t')"
  proof (rule column_becomesI)
    show "rows t' = column_upd s w (?f(0 \<mapsto> b)) (rows t)" by (simp only: t'(2) column_upd_insert)
    show "good_block L b' \<and> unat x \<le> n" if "(?f(0 \<mapsto> b)) x = Some b'" for x b'
      using that t'(3) \<open>dom ?f = {}\<close> by (auto split: if_splits)
    show "concat (column_chunks L (?f(0 \<mapsto> b))) = [(slot, cnt)]"
      using column_chunks_eq [of "[0]" "?f(0 \<mapsto> b)" L] \<open>dom ?f = {}\<close> t'(4) by simp
  qed
  with t'(1) show ?thesis by blast
qed

lemma append_run:
  assumes ok: "blocks_ok L (rows t)" and below: "chunks_below n (rows t)" "n < 2 ^ 32"
    and asc: "slots_ascend (plist L (rows t) s w)" and nums: "chunk_nums (column (rows t) s w) = xs @ [c]"
    and es: "column_chunks L (column (rows t) s w) ! length xs = es" "fst (last es) < slot" and cnt: "cnt \<noteq> 0"
  shows "put_posting slot 0 (plist L (rows t) s w) = plist L (rows t) s w"
    "\<exists>t'. store_posting_chunk_splitting L T s w (map (chunked_posting_key s w) (xs @ [c])) (length xs) (es @ [(slot, cnt)]) t = Inr t' \<and>
      column_becomes L s w n (put_posting slot cnt (plist L (rows t) s w)) (rows t) (rows t')"
proof -
  have ok_es: "pchunk_ok es" using column_chunk_ok(3) [OF ok, of "length xs" s w] es(1) nums by simp
  then have ne: "es \<noteq> []" by (simp add: pchunk_ok_def)
  have "column_chunks L (column (rows t) s w) = map (\<lambda>c. posting_entries L (the (column (rows t) s w c))) xs @ [es]"
    using es(1) by (simp add: column_chunks_def nums nth_append)
  then have all: "plist L (rows t) s w = entries_under t s w xs @ es" by (simp add: plist_def)
  have "\<forall>x \<in> set (plist L (rows t) s w). fst x < slot"
    using slots_ascend_last [OF asc] es(2) ne unfolding all by (auto simp del: set_concat intro: le_less_trans)
  then have put: "put_posting slot k (plist L (rows t) s w) = plist L (rows t) s w @ put_posting slot k []" for k
    using put_posting_around [of "plist L (rows t) s w" slot "[]" k "[]"] by simp
  from put [of 0] show "put_posting slot 0 (plist L (rows t) s w) = plist L (rows t) s w" by (simp add: put_posting_def)
  have "put_posting slot cnt [] = [(slot, cnt)]" using cnt by (simp add: put_posting_def)
  then have put1: "put_posting slot cnt (plist L (rows t) s w) = entries_under t s w xs @ es @ [(slot, cnt)]"
    by (simp only: put) (simp add: all)
  have "slots_ascend (es @ [(slot, cnt)])"
    using ok_es \<open>\<forall>x \<in> set (plist L (rows t) s w). fst x < slot\<close> by (simp add: all pchunk_ok_def)
  then show "\<exists>t'. store_posting_chunk_splitting L T s w (map (chunked_posting_key s w) (xs @ [c])) (length xs) (es @ [(slot, cnt)]) t = Inr t' \<and>
      column_becomes L s w n (put_posting slot cnt (plist L (rows t) s w)) (rows t) (rows t')"
    using splitting_run [OF ok below nums, of "es @ [(slot, cnt)]"] ok_es cnt
    by (simp add: put1 pchunk_ok_def)
qed

text \<open>Which chunk is rewritten when the slot is not beyond the last one.\<close>

lemma covering_run:
  assumes ok: "blocks_ok L (rows t)" and asc: "slots_ascend (plist L (rows t) s w)"
    and nums: "chunk_nums (column (rows t) s w) = xs @ [c]" "xs \<noteq> []"
    and low: "slot < fst (hd (column_chunks L (column (rows t) s w) ! length xs))"
  shows "\<exists>i < length xs. covering_chunk_index L T t (map (chunked_posting_key s w) (xs @ [c])) slot = Inr i \<and>
    (i = 0 \<or> fst (hd (column_chunks L (column (rows t) s w) ! i)) \<le> slot) \<and>
    slot < fst (hd (column_chunks L (column (rows t) s w) ! Suc i))"
proof -
  let ?cs = "column_chunks L (column (rows t) s w)" and ?k = "chunked_posting_key s w"
  define fs where "fs = map (\<lambda>i. fst (hd (?cs ! i))) [0..<length xs]"
  have fs: "length fs = length xs" "\<And>i. i < length xs \<Longrightarrow> fs ! i = fst (hd (?cs ! i))" by (simp_all add: fs_def)
  have "peek_stored_first_slot L T t (map ?k xs ! i) = Inr (fs ! i)" if "i < length fs" for i
    using column_chunk_ok(2) [OF ok, of i s w] that fs by (simp add: nums nth_append)
  from cover_search_run [of fs t "map ?k xs" 0 "length xs" slot, OF this] obtain r where
    r: "r \<le> length xs" "cover_search L T t (map ?k xs) slot 0 (length xs) = Inr r"
      "r = 0 \<or> fs ! (r - 1) \<le> slot" "r = length xs \<or> slot < fs ! r" using fs(1) by auto
  have "slot < fst (hd (?cs ! Suc 0))" if "r = 0"
  proof (cases "length xs = 1")
    case False
    with that r nums(2) have "slot < fst (hd (?cs ! 0))" using fs by auto
    moreover have "fst (hd (?cs ! 0)) < fst (hd (?cs ! 1))"
    proof (rule first_slots_ascend)
      show "slots_ascend (concat ?cs)" using asc by (simp add: plist_def)
      show "\<forall>es \<in> set ?cs. es \<noteq> []"
        using column_chunk_ok(3) [OF ok, of _ s w] by (auto simp: in_set_conv_nth pchunk_ok_def column_chunks_def)
    qed (use nums in \<open>auto simp: column_chunks_def\<close>)
    ultimately show ?thesis by simp
  qed (use low in simp)
  moreover have "slot < fst (hd (?cs ! r))" if "r \<noteq> 0"
    using r low fs by (cases "r = length xs") auto
  moreover have "r - 1 < length xs" using r(1) nums(2) by (cases r) auto
  moreover have "r \<noteq> 0 \<Longrightarrow> fst (hd (?cs ! (r - 1))) \<le> slot" using r fs(2) [of "r - 1"] \<open>r - 1 < length xs\<close> by auto
  moreover have "covering_chunk_index L T t (map ?k (xs @ [c])) slot = Inr (r - 1)"
    using r(2) by (simp add: covering_chunk_index_def butlast_append Let_def)
  ultimately show ?thesis by (intro exI [of _ "r - 1"]) (cases r; simp)
qed

lemma set_posting_run:
  assumes ok: "blocks_ok L (rows t)" and below: "chunks_below n (rows t)" "n < 2 ^ 32"
    and asc: "slots_ascend (plist L (rows t) s w)"
  shows "\<exists>t'. set_posting L T s w slot cnt t = Inr t' \<and>
    column_becomes L s w n (put_posting slot cnt (plist L (rows t) s w)) (rows t) (rows t')"
proof -
  let ?f = "column (rows t) s w" and ?k = "chunked_posting_key s w"
  let ?cs = "column_chunks L ?f"
  note keys = term_keys_run [of t s w]
  note same = becomes_same [OF ok below(1), of s w]
  show ?thesis
  proof (cases "chunk_nums ?f" rule: rev_cases)
    case Nil
    then have "plist L (rows t) s w = []" by (simp add: plist_def column_chunks_def)
    then show ?thesis
      using first_chunk_run [OF Nil, of cnt slot n] same by (simp add: set_posting_def keys Nil put_posting_def)
  next
    case (snoc xs c)
    let ?es = "?cs ! length xs"
    have l: "load_posting_chunk L T t (?k c) = Inr ?es" "pchunk_ok ?es"
      using column_chunk_ok(1,3) [OF ok, of "length xs" s w] by (simp_all add: snoc)
    have run: "set_posting L T s w slot cnt t =
       (if fst (last ?es) < slot then
         if cnt = 0 then Inr t
         else store_posting_chunk_splitting L T s w (map ?k (xs @ [c])) (length xs) (?es @ [(slot, cnt)]) t
       else
         rbind (if fst (hd ?es) \<le> slot \<or> xs = [] then Inr (length xs)
                else covering_chunk_index L T t (map ?k (xs @ [c])) slot) (\<lambda>i.
         rbind (if i = length xs then Inr ?es else load_posting_chunk L T t (map ?k (xs @ [c]) ! i)) (\<lambda>entries.
         rewrite_chunk L T s w (map ?k (xs @ [c])) i entries slot cnt t)))"
      using l by (simp add: set_posting_def keys snoc slot_of_def pchunk_ok_def cong: if_cong)
    show ?thesis
    proof (cases "fst (last ?es) < slot")
      case True
      note app = append_run [OF ok below asc snoc refl True]
      from True show ?thesis using app(1) [of 1] app(2) [of cnt] same run by (cases "cnt = 0") simp_all
    next
      case beyond: False
      note rw = rewrite_run [OF ok below _ asc, where slot = slot and cnt = cnt, unfolded snoc]
      show ?thesis
      proof (cases "fst (hd ?es) \<le> slot \<or> xs = []")
        case True
        then have "set_posting L T s w slot cnt t = rewrite_chunk L T s w (map ?k (xs @ [c])) (length xs) ?es slot cnt t"
          using run beyond by simp
        then show ?thesis using rw [of "length xs"] True by (auto simp: snoc)
      next
        case False
        then have "slot < fst (hd ?es)" and ne: "xs \<noteq> []" by (simp_all add: not_le)
        from covering_run [OF ok asc snoc ne this(1)] obtain i where i: "i < length xs" "covering_chunk_index L T t (map ?k (xs @ [c])) slot = Inr i"
          "i = 0 \<or> fst (hd (?cs ! i)) \<le> slot" "slot < fst (hd (?cs ! Suc i))" by blast
        have "load_posting_chunk L T t (map ?k (xs @ [c]) ! i) = Inr (?cs ! i)"
          using column_chunk_ok(1) [OF ok, of i s w] i(1) by (simp add: snoc nth_append)
        then have "set_posting L T s w slot cnt t = rewrite_chunk L T s w (map ?k (xs @ [c])) i (?cs ! i) slot cnt t"
          using run beyond False i(1,2) by simp
        then show ?thesis using rw [of i] i by auto
      qed
    qed
  qed
qed

text \<open>What the callers of the table see.\<close>

lemma set_posting_step:
  assumes wf: "postings_wf L (rows t)" and below: "chunks_below n (rows t)" "n < 2 ^ 32"
  shows "\<exists>t'. set_posting L T s w slot cnt t = Inr t' \<and> postings_wf L (rows t') \<and> chunks_below (Suc n) (rows t') \<and>
    (\<forall>s' w'. plist L (rows t') s' w' = (if s' = s \<and> w' = w then put_posting slot cnt (plist L (rows t) s w) else plist L (rows t) s' w'))"
proof -
  have ok: "blocks_ok L (rows t)" and asc: "\<And>s w. slots_ascend (plist L (rows t) s w)"
    using wf by (simp_all add: postings_wf_def)
  from set_posting_run [OF ok below asc] obtain t' where t': "set_posting L T s w slot cnt t = Inr t'"
    and b: "column_becomes L s w n (put_posting slot cnt (plist L (rows t) s w)) (rows t) (rows t')" by blast
  show ?thesis
    using t' becomes_plist [OF b] becomes_blocks [OF b ok] becomes_below [OF b below(1)] asc slots_ascend_put
    by (auto simp: postings_wf_def)
qed

end

section \<open>Properties\<close>

text \<open>C16. Whatever the chunks of the term look like, \<^verbatim>\<open>set_posting\<close> on an intact table succeeds and changes the postings
  of its term exactly at the given slot, or removes that slot when the frequency is zero; all other terms and scopes
  keep theirs, the table stays intact, and the readers return the list and its length. The only limit is the 32-bit chunk
  number.\<close>

theorem set_posting_correct:
  assumes "chunk_store_live T rows L" and "postings_wf L (rows t)" and "chunks_below n (rows t)" and "n < 2 ^ 32"
  shows "\<exists>t'. set_posting L T s w slot cnt t = Inr t' \<and> postings_wf L (rows t') \<and> chunks_below (Suc n) (rows t') \<and>
    read_posting L T t' s w = Inr (put_posting slot cnt (plist L (rows t) s w)) \<and>
    posting_df L T t' s w = Inr (word_of_nat (length (put_posting slot cnt (plist L (rows t) s w)))) \<and>
    (\<forall>s' w'. (s', w') \<noteq> (s, w) \<longrightarrow> read_posting L T t' s' w' = read_posting L T t s' w')"
proof -
  note store = assms(1)
  obtain t' where t': "set_posting L T s w slot cnt t = Inr t'" "postings_wf L (rows t')" "chunks_below (Suc n) (rows t')"
    and pl: "\<And>s' w'. plist L (rows t') s' w' = (if s' = s \<and> w' = w then put_posting slot cnt (plist L (rows t) s w) else plist L (rows t) s' w')"
    using chunk_store_live.set_posting_step [OF store assms(2-4)] by blast
  have b: "blocks_ok L (rows t')" "blocks_ok L (rows t)" using t'(2) assms(2) by (simp_all add: postings_wf_def)
  show ?thesis
    using t' pl by (auto simp: chunk_store_live.read_posting_run [OF store] chunk_store_live.posting_df_run [OF store] b)
qed

theorem set_posting_correct_witness:
  "\<exists>t'. set_posting rle_lz4 rbt_ops 7 ''graph'' 42 3 RBT.empty = Inr t' \<and> postings_wf rle_lz4 (RBT.lookup t') \<and>
    chunks_below 1 (RBT.lookup t') \<and> read_posting rle_lz4 rbt_ops t' 7 ''graph'' = Inr [(42, 3)] \<and>
    posting_df rle_lz4 rbt_ops t' 7 ''graph'' = Inr 1 \<and>
    (\<forall>s' w'. (s', w') \<noteq> (7, ''graph'') \<longrightarrow>
       read_posting rle_lz4 rbt_ops t' s' w' = read_posting rle_lz4 rbt_ops RBT.empty s' w')"
proof -
  have empty: "plist rle_lz4 Map.empty s w = []" for s w
    by (simp add: plist_def column_chunks_def chunk_nums_def column_def)
  have wf: "postings_wf rle_lz4 (RBT.lookup RBT.empty)" "chunks_below 0 (RBT.lookup (RBT.empty :: (bytes, bytes) rbt))"
    by (simp_all add: postings_wf_def blocks_ok_def empty chunks_below_def column_def)
  have "put_posting 42 3 [] = [(42, 3)]" by (simp add: put_posting_def)
  then show ?thesis
    using set_posting_correct [OF rbt_chunks.chunk_store_live_axioms wf, of 7 "''graph''" 42 3] by (simp add: empty)
qed

end
