(* ===== verification/Fts.thy ===== *)
theory Fts
  imports PropIndex
begin

text \<open>
  The text a node contributes to the full-text index (\<^verbatim>\<open>crates/topodb/src/fts.rs\<close>,
  \<^verbatim>\<open>doc_text\<close>), which the write path compares before and after every operation on a node.
\<close>

definition text_part :: "node_record \<Rightarrow> prop_index \<Rightarrow> string list" where
  "text_part rec item =
     (if pi_label item \<noteq> n_label rec then []
      else case bt_get (n_props rec) (pi_prop item) of Some (PStr s) \<Rightarrow> [s] | _ \<Rightarrow> [])"

fun join_space :: "string list \<Rightarrow> string" where
  "join_space [] = []"
| "join_space [s] = s"
| "join_space (s # t # ss) = s @ '' '' @ join_space (t # ss)"

definition doc_text :: "index_spec \<Rightarrow> node_record \<Rightarrow> string option" where
  "doc_text sp rec =
     (let parts = concat (map (text_part rec) (text_props sp))
      in if parts = [] then None else Some (join_space parts))"

end
