(* ===== verification/Tokenizer.thy ===== *)
theory Tokenizer
  imports Fts
begin

text \<open>
  The analyzer of the full-text index (\<^verbatim>\<open>crates/topodb/src/fts.rs\<close>, lines 305-385): text is split at characters that are
  not alphanumeric, words again at camel-case boundaries, and the parts are lowercased and stemmed. A character of a
  string is its group of UTF-8 bytes; the stemmer belongs to the \<^verbatim>\<open>rust_stemmers\<close> crate and is a parameter.
  Splitting by collected byte offsets equals a one-pass split, and the tokens of a document are those of its parts.
\<close>

section \<open>The code\<close>

text \<open>\<^verbatim>\<open>chars()\<close>: a character starts at every byte that is not a continuation byte.\<close>

definition continuation :: "char \<Rightarrow> bool" where
  "continuation b \<longleftrightarrow> 0x80 \<le> (of_char b :: nat) \<and> (of_char b :: nat) < 0xC0"

function utf8_chars :: "string \<Rightarrow> string list" where
  "utf8_chars [] = []"
| "utf8_chars (b # bs) = (b # takeWhile continuation bs) # utf8_chars (dropWhile continuation bs)"
  by pat_completeness auto
termination
  by (relation "measure length") (auto simp: length_dropWhile_le less_Suc_eq_le)

text \<open>\<^verbatim>\<open>char_indices()\<close>: each character with the offset of its first byte.\<close>

fun char_indices :: "nat \<Rightarrow> string list \<Rightarrow> (nat \<times> string) list" where
  "char_indices i [] = []"
| "char_indices i (c # cs) = (i, c) # char_indices (i + length c) cs"

text \<open>\<^verbatim>\<open>split(|c| !c.is_alphanumeric())\<close>, with the piece read so far.\<close>

fun split_on :: "(string \<Rightarrow> bool) \<Rightarrow> string list \<Rightarrow> string \<Rightarrow> string list" where
  "split_on sep [] piece = [piece]"
| "split_on sep (c # cs) piece = (if sep c then piece # split_on sep cs [] else split_on sep cs (piece @ c))"

text \<open>The two loops over \<^verbatim>\<open>windows(2)\<close> and \<^verbatim>\<open>windows(3)\<close>.\<close>

fun lower_upper_cuts :: "unicode \<Rightarrow> (nat \<times> string) list \<Rightarrow> nat list" where
  "lower_upper_cuts U ((i, prev) # (idx, cur) # cs) =
     (if is_uppercase U cur \<and> (is_lowercase U prev \<or> is_numeric U prev) then [idx] else []) @
     lower_upper_cuts U ((idx, cur) # cs)"
| "lower_upper_cuts U _ = []"

fun acronym_cuts :: "unicode \<Rightarrow> (nat \<times> string) list \<Rightarrow> nat list" where
  "acronym_cuts U ((i, a) # (idx, b) # (j, c) # cs) =
     (if is_uppercase U a \<and> is_uppercase U b \<and> is_lowercase U c then [idx] else []) @ acronym_cuts U ((idx, b) # (j, c) # cs)"
| "acronym_cuts U _ = []"

text \<open>The loop that slices the word.\<close>

fun slices :: "string \<Rightarrow> nat \<Rightarrow> nat list \<Rightarrow> string list" where
  "slices word start [] = [drop start word]"
| "slices word start (stop # cuts) = take (stop - start) (drop start word) # slices word stop cuts"

definition split_camel :: "unicode \<Rightarrow> string \<Rightarrow> string list" where
  "split_camel U word =
     (let chars = char_indices 0 (utf8_chars word);
          cuts = lower_upper_cuts U chars @ acronym_cuts U chars
      in if cuts = [] then [word] else slices word 0 (remdups_adj (sort cuts)))"

record analyzer =
  an_unicode :: unicode
  stem :: "string \<Rightarrow> string"

definition token_of :: "analyzer \<Rightarrow> string \<Rightarrow> string list" where
  "token_of A part =
     (let lowered = to_lowercase (an_unicode A) part in if lowered = [] then [] else [stem A lowered])"

definition tokenize :: "analyzer \<Rightarrow> string \<Rightarrow> string list" where
  "tokenize A input =
     concat (map (\<lambda>word. concat (map (token_of A) (split_camel (an_unicode A) word)))
       (split_on (\<lambda>c. \<not> is_alphanumeric (an_unicode A) c) (utf8_chars input) []))"

definition analyze :: "analyzer \<Rightarrow> string \<Rightarrow> string list" where
  "analyze A input = tokenize A input"

section \<open>Characters\<close>

lemma concat_utf8_chars [simp]: "concat (utf8_chars s) = s"
  by (induction s rule: utf8_chars.induct) auto

lemma utf8_chars_nonempty: "c \<in> set (utf8_chars s) \<Longrightarrow> c \<noteq> []"
  by (induction s rule: utf8_chars.induct) auto

text \<open>A string that does not start inside a character; every \<^verbatim>\<open>str\<close> is one.\<close>

definition aligned :: "string \<Rightarrow> bool" where
  "aligned s \<longleftrightarrow> (case s of [] \<Rightarrow> True | b # _ \<Rightarrow> \<not> continuation b)"

lemma utf8_chars_append: "aligned t \<Longrightarrow> utf8_chars (s @ t) = utf8_chars s @ utf8_chars t"
proof (induction s rule: utf8_chars.induct)
  case (2 b bs)
  have "takeWhile continuation (bs @ t) = takeWhile continuation bs \<and>
      dropWhile continuation (bs @ t) = dropWhile continuation bs @ t"
    using "2.prems" by (induction bs) (cases t; simp add: aligned_def)+
  with 2 show ?case by simp
qed simp

section \<open>Camel-case boundaries\<close>

text \<open>The boundary rule of the documentation: before an uppercase letter that follows a lowercase letter or digit, and
  before the last uppercase letter of a run that is followed by a lowercase letter.\<close>

definition boundary :: "unicode \<Rightarrow> string \<Rightarrow> string \<Rightarrow> string list \<Rightarrow> bool" where
  "boundary U prev cur ahead \<longleftrightarrow>
     is_uppercase U cur \<and> (is_lowercase U prev \<or> is_numeric U prev) \<or>
     is_uppercase U prev \<and> is_uppercase U cur \<and> ahead \<noteq> [] \<and> is_lowercase U (hd ahead)"

text \<open>One pass over the characters.\<close>

fun camel_parts :: "unicode \<Rightarrow> string \<Rightarrow> string \<Rightarrow> string list \<Rightarrow> string list" where
  "camel_parts U part prev [] = [part]"
| "camel_parts U part prev (c # cs) =
     (if boundary U prev c cs then part # camel_parts U c c cs else camel_parts U (part @ c) c cs)"

fun boundary_cuts :: "unicode \<Rightarrow> (nat \<times> string) list \<Rightarrow> nat list" where
  "boundary_cuts U ((i, prev) # (idx, cur) # cs) =
     (if boundary U prev cur (map snd cs) then [idx] else []) @ boundary_cuts U ((idx, cur) # cs)"
| "boundary_cuts U _ = []"

lemma boundary_cuts_set: "set (boundary_cuts U cs) = set (lower_upper_cuts U cs) \<union> set (acronym_cuts U cs)"
proof (induction U cs rule: boundary_cuts.induct)
  case (1 U i prev idx cur cs)
  let ?p = "is_uppercase U cur \<and> (is_lowercase U prev \<or> is_numeric U prev)"
  let ?q = "is_uppercase U prev \<and> is_uppercase U cur \<and> cs \<noteq> [] \<and> is_lowercase U (snd (hd cs))"
  have "acronym_cuts U ((i, prev) # (idx, cur) # cs) = (if ?q then [idx] else []) @ acronym_cuts U ((idx, cur) # cs)"
    by (cases cs) auto
  moreover have "boundary U prev cur (map snd cs) \<longleftrightarrow> ?p \<or> ?q" by (cases cs) (auto simp: boundary_def)
  ultimately show ?case
    by (simp only: 1 boundary_cuts.simps lower_upper_cuts.simps set_append) auto
qed auto

lemma boundary_cuts_sorted:
  "\<forall>c \<in> set cs. c \<noteq> [] \<Longrightarrow> sorted_wrt (<) (boundary_cuts U (char_indices i cs)) \<and>
     (\<forall>x \<in> set (boundary_cuts U (char_indices i cs)). i < x)"
proof (induction cs arbitrary: i)
  case (Cons c cs)
  note IH = Cons.IH [of "i + length c"]
  have "i < i + length c" using Cons.prems by simp
  with IH Cons.prems show ?case by (cases cs) (auto intro: less_trans)
qed simp

lemma remdups_adj_strict: "sorted xs \<Longrightarrow> sorted_wrt (<) (remdups_adj (xs :: 'a::linorder list))"
  by (induction xs rule: remdups_adj.induct) (auto simp: le_less)

lemma cuts_eq:
  assumes "\<forall>c \<in> set cs. c \<noteq> []"
  shows "remdups_adj (sort (lower_upper_cuts U (char_indices 0 cs) @ acronym_cuts U (char_indices 0 cs))) =
    boundary_cuts U (char_indices 0 cs)" (is "remdups_adj (sort ?xs) = ?ys")
proof -
  have "sorted_wrt (<) ?ys" using boundary_cuts_sorted [OF assms] by blast
  moreover have "sorted_wrt (<) (remdups_adj (sort ?xs))"
    by (rule remdups_adj_strict) simp
  ultimately show ?thesis using boundary_cuts_set [of U "char_indices 0 cs"]
    by (intro sorted_distinct_set_unique) (simp_all add: strict_sorted_iff)
qed

lemma snd_char_indices [simp]: "map snd (char_indices i cs) = cs"
  by (induction cs arbitrary: i) auto

lemma slices_parts:
  assumes "word = before @ part @ concat cs" "length before = start" "i + length c = start + length part"
  shows "slices word start (boundary_cuts U ((i, c) # char_indices (i + length c) cs)) = camel_parts U part c cs"
  using assms
proof (induction cs arbitrary: before part start i c)
  case (Cons d ds)
  note IH = Cons.IH [of _ _ _ "i + length c" d]
  show ?case
  proof (cases "boundary U c d ds")
    case True
    have "take (i + length c - start) (drop start word) = part" using Cons.prems by simp
    with IH [of "before @ part" d "i + length c"] Cons.prems True show ?thesis by simp
  next
    case False
    with IH [of before "part @ d" start] Cons.prems show ?thesis by simp
  qed
qed simp

section \<open>Properties\<close>

lemma split_camel_parts:
  "split_camel U word = (case utf8_chars word of [] \<Rightarrow> [word] | c # cs \<Rightarrow> camel_parts U c c cs)"
proof (cases "utf8_chars word")
  case Nil
  then show ?thesis by (simp add: split_camel_def)
next
  case (Cons c cs)
  let ?cs = "char_indices 0 (utf8_chars word)"
  have "split_camel U word = slices word 0 (boundary_cuts U ?cs)"
  proof (cases "lower_upper_cuts U ?cs @ acronym_cuts U ?cs = []")
    case True
    then have "boundary_cuts U ?cs = []" using boundary_cuts_set [of U ?cs] by simp
    with True show ?thesis by (simp add: split_camel_def)
  next
    case False
    moreover have "\<forall>c \<in> set (utf8_chars word). c \<noteq> []" using utf8_chars_nonempty by blast
    ultimately show ?thesis unfolding split_camel_def Let_def by (simp only: cuts_eq if_False)
  qed
  moreover have "word = [] @ c @ concat cs" using concat_utf8_chars [of word] Cons by simp
  from slices_parts [OF this, of 0 0 c U] have "slices word 0 (boundary_cuts U ?cs) = camel_parts U c c cs"
    by (simp add: Cons)
  ultimately show ?thesis by (simp add: Cons)
qed

lemma concat_camel_parts: "concat (camel_parts U part prev cs) = part @ concat cs"
  by (induction U part prev cs rule: camel_parts.induct) auto

lemma concat_split_camel: "concat (split_camel U word) = word"
  using concat_utf8_chars [of word]
  by (cases "utf8_chars word") (simp_all add: split_camel_parts concat_camel_parts del: concat_utf8_chars)

text \<open>A separator cuts the token sequence.\<close>

lemma split_on_append: "sep c \<Longrightarrow> split_on sep (xs @ c # ys) piece = split_on sep xs piece @ split_on sep ys []"
  by (induction xs arbitrary: piece) auto

lemma tokenize_sep:
  assumes "aligned t" "\<not> is_alphanumeric (an_unicode A) [b]" "\<not> continuation b"
  shows "tokenize A (s @ b # t) = tokenize A s @ tokenize A t"
proof -
  have "aligned (b # t)" using assms(3) by (simp add: aligned_def)
  moreover have "utf8_chars (b # t) = [b] # utf8_chars t" using assms(1) by (cases t) (auto simp: aligned_def)
  ultimately have "utf8_chars (s @ b # t) = utf8_chars s @ [b] # utf8_chars t"
    by (simp only: utf8_chars_append)
  then show ?thesis using assms(2) by (simp add: tokenize_def split_on_append)
qed

lemma aligned_join: "\<forall>s \<in> set ss. aligned s \<Longrightarrow> aligned (join_space ss)"
  by (induction ss rule: join_space.induct) (auto simp: aligned_def continuation_def split: list.splits)

lemma tokenize_join:
  assumes "\<forall>s \<in> set ss. aligned s" "\<not> is_alphanumeric (an_unicode A) '' ''" "ss \<noteq> []"
  shows "tokenize A (join_space ss) = concat (map (tokenize A) ss)"
  using assms
proof (induction ss rule: join_space.induct)
  case (3 s t ss)
  have "tokenize A (s @ CHR '' '' # join_space (t # ss)) = tokenize A s @ tokenize A (join_space (t # ss))"
    using "3.prems" by (intro tokenize_sep aligned_join) (auto simp: continuation_def)
  with 3 show ?case by simp
qed simp_all

text \<open>C22. Splitting a word at its collected, sorted and deduplicated byte offsets gives exactly the parts of a one-pass
  split at the documented boundaries, and the parts put together are the word.\<close>

theorem split_camel_correct:
  "split_camel U word = (case utf8_chars word of [] \<Rightarrow> [word] | c # cs \<Rightarrow> camel_parts U c c cs) \<and>
   concat (split_camel U word) = word"
  by (simp add: split_camel_parts [symmetric] concat_split_camel)

text \<open>The tokens of a document are the tokens of its declared text properties one after the other, in declaration
  order: no token spans two properties and none is lost, so the length of a document is the sum of its parts.\<close>

theorem doc_tokens:
  assumes "doc_text sp rec = Some doc" and "\<not> is_alphanumeric (an_unicode A) '' ''"
    and "\<forall>part \<in> set (concat (map (text_part rec) (text_props sp))). aligned part"
  shows "tokenize A doc = concat (map (tokenize A) (concat (map (text_part rec) (text_props sp))))"
  using assms tokenize_join [of "concat (map (text_part rec) (text_props sp))" A]
  by (auto simp: doc_text_def Let_def split: if_splits)

definition ascii_analyzer :: analyzer where
  "ascii_analyzer = \<lparr>an_unicode = ascii_unicode, stem = (\<lambda>s. s)\<rparr>"

lemma ascii_space: "\<not> is_alphanumeric (an_unicode ascii_analyzer) '' ''"
  by code_simp

theorem doc_tokens_witness:
  "tokenize ascii_analyzer (''HTTPServer log'' @ '' '' @ ''v2'') =
     concat (map (tokenize ascii_analyzer) [''HTTPServer log'', ''v2''])"
proof -
  let ?rec = "indexed_example\<lparr>n_props := [(''body'', PStr ''HTTPServer log''), (''rev'', PStr ''v2'')]\<rparr>"
  let ?spec = "\<lparr>equality = [], text_props = [\<lparr>pi_label = ''Person'', pi_prop = ''body''\<rparr>, \<lparr>pi_label = ''Person'', pi_prop = ''rev''\<rparr>]\<rparr>"
  have parts: "concat (map (text_part ?rec) (text_props ?spec)) = [''HTTPServer log'', ''v2'']"
    by (simp add: text_part_def indexed_example_def)
  then have "doc_text ?spec ?rec = Some (''HTTPServer log'' @ '' '' @ ''v2'')" by (simp only: doc_text_def Let_def) simp
  from doc_tokens [OF this ascii_space] show ?thesis unfolding parts by (simp add: aligned_def continuation_def)
qed

end
