(* ===== verification/FtsIndex.thy ===== *)
theory FtsIndex
  imports Postings Tokenizer Slots
begin

text \<open>
  The maintenance of the full-text index (\<^verbatim>\<open>crates/topodb/src/fts.rs\<close>, lines 411-572): the postings, the length of each
  document and the corpus statistics of each scope, moved from a node's old text to its new one. The specification is a
  map from slots to documents, a scope and a token list; the three tables are exactly the inverted index of that map,
  and \<open>fts_update\<close> implements replacing one document.
\<close>

section \<open>The code\<close>

record fts_codecs =
  len_codec :: "u32 serde"
  corpus_codec :: "(u64 \<times> u64) serde"

definition term_freqs :: "string list \<Rightarrow> (string, u32) btree_map" where
  "term_freqs tokens = fold (\<lambda>t m. bt_insert t ((case bt_get m t of Some n \<Rightarrow> n | None \<Rightarrow> 0) + 1) m) tokens []"

definition read_stats :: "('b, bytes, bytes) table_ops \<Rightarrow> fts_codecs \<Rightarrow> 'b \<Rightarrow> u32 \<Rightarrow> (u64 \<times> u64) result" where
  "read_stats T C stats scope_id =
     rbind (redb (tget T stats (u32_to_be scope_id))) (\<lambda>v. case v of
        Some b \<Rightarrow> pc_err (de (corpus_codec C) b)
      | None \<Rightarrow> Inr (0, 0))"

definition write_stats :: "('b, bytes, bytes) table_ops \<Rightarrow> fts_codecs \<Rightarrow> u32 \<Rightarrow> u64 \<Rightarrow> u64 \<Rightarrow> 'b \<Rightarrow> 'b result" where
  "write_stats T C scope_id doc_count total_len stats =
     (if doc_count = 0 then rbind (redb (tremove T stats (u32_to_be scope_id))) (\<lambda>(_, t). Inr t)
      else rbind (pc_err (ser (corpus_codec C) (doc_count, total_len))) (\<lambda>b. redb (tinsert T stats (u32_to_be scope_id) b)))"

definition read_doc_len :: "('b, bytes, bytes) table_ops \<Rightarrow> fts_codecs \<Rightarrow> 'b \<Rightarrow> u64 \<Rightarrow> u32 result" where
  "read_doc_len T C docs slot =
     rbind (redb (tget T docs (slot_key slot))) (\<lambda>v. case v of
        Some b \<Rightarrow> pc_err (de (len_codec C) b)
      | None \<Rightarrow> Inr 0)"

definition write_doc_len :: "('b, bytes, bytes) table_ops \<Rightarrow> fts_codecs \<Rightarrow> u64 \<Rightarrow> u32 option \<Rightarrow> 'b \<Rightarrow> 'b result" where
  "write_doc_len T C slot len docs =
     (case len of
        Some n \<Rightarrow> rbind (pc_err (ser (len_codec C) n)) (\<lambda>b. redb (tinsert T docs (slot_key slot) b))
      | None \<Rightarrow> rbind (redb (tremove T docs (slot_key slot))) (\<lambda>(_, t). Inr t))"

text \<open>The corpus statistics after a transition between having a document and not having one.\<close>

definition moved_stats :: "bool \<Rightarrow> bool \<Rightarrow> u64 \<Rightarrow> u64 \<Rightarrow> u64 \<times> u64 \<Rightarrow> u64 \<times> u64" where
  "moved_stats had has old_len new_len = (\<lambda>(doc_count, total_len).
     if \<not> had \<and> has then (doc_count + 1, total_len + new_len)
     else if had \<and> has then (doc_count, saturating_sub total_len old_len + new_len)
     else if had \<and> \<not> has then (saturating_sub doc_count 1, saturating_sub total_len old_len)
     else (doc_count, total_len))"

definition text_tokens :: "analyzer \<Rightarrow> string option \<Rightarrow> string list" where
  "text_tokens A txt = (case txt of Some s \<Rightarrow> tokenize A s | None \<Rightarrow> [])"

text \<open>\<^verbatim>\<open>terms.extend(old_tf.keys()); terms.extend(new_tf.keys())\<close> on a \<^verbatim>\<open>BTreeSet\<close>, iterated in order.\<close>

definition touched_terms :: "(string, u32) btree_map \<Rightarrow> (string, u32) btree_map \<Rightarrow> string list" where
  "touched_terms old_tf new_tf = sort (remdups (map fst old_tf @ map fst new_tf))"

definition fts_update :: "lz4 \<Rightarrow> ('b, bytes, bytes) table_ops \<Rightarrow> analyzer \<Rightarrow> fts_codecs \<Rightarrow> u32 \<Rightarrow> u64 \<Rightarrow> string option
    \<Rightarrow> string option \<Rightarrow> 'b \<times> 'b \<times> 'b \<Rightarrow> ('b \<times> 'b \<times> 'b) result" where
  "fts_update L T A C scope_id slot old_text new_text = (\<lambda>(postings, docs, stats).
     let old_tokens = text_tokens A old_text; new_tokens = text_tokens A new_text;
         old_text' = (if old_tokens = [] then None else old_text);
         new_text' = (if new_tokens = [] then None else new_text)
     in if old_text' = new_text' then Inr (postings, docs, stats)
        else
          let old_tf = term_freqs old_tokens; new_tf = term_freqs new_tokens;
              terms = touched_terms old_tf new_tf;
              old_len = word_of_nat (length old_tokens) :: u64; new_len = word_of_nat (length new_tokens) :: u64
          in rbind (rfold (\<lambda>w. set_posting L T scope_id w slot (case bt_get new_tf w of Some n \<Rightarrow> n | None \<Rightarrow> 0)) terms postings) (\<lambda>postings'.
             rbind (read_stats T C stats scope_id) (\<lambda>before.
             let (doc_count, total_len) = moved_stats (old_text' \<noteq> None) (new_text' \<noteq> None) old_len new_len before
             in rbind (write_doc_len T C slot (if new_text' \<noteq> None then Some (ucast new_len) else None) docs) (\<lambda>docs'.
                rbind (write_stats T C scope_id doc_count total_len stats) (\<lambda>stats'.
                Inr (postings', docs', stats'))))))"

lemma fts_update_none [simp]: "fts_update L T A C sc slot None None t = Inr t"
  by (cases t) (simp add: fts_update_def text_tokens_def)

section \<open>Term frequencies\<close>

lemma term_freqs_get:
  "bt_get (term_freqs tokens) w = (if w \<in> set tokens then Some (word_of_nat (count_list tokens w)) else None)"
proof -
  let ?step = "\<lambda>t m. bt_insert t ((case bt_get m t of Some n \<Rightarrow> n | None \<Rightarrow> 0) + (1 :: u32)) m"
  have "bt_get (fold ?step tokens m) w = (if w \<in> set tokens
      then Some ((case bt_get m w of Some n \<Rightarrow> n | None \<Rightarrow> 0) + word_of_nat (count_list tokens w)) else bt_get m w)" for m
    by (induction tokens arbitrary: m) (auto simp: algebra_simps)
  from this [of "[]"] show ?thesis by (simp add: term_freqs_def)
qed

lemma chunks_below_mono: "chunks_below n rs \<Longrightarrow> n \<le> m \<Longrightarrow> chunks_below m rs"
  unfolding chunks_below_def by (meson less_le_trans)

lemma truncated_nat [simp]: "ucast (word_of_nat n :: u64) = (word_of_nat n :: u32)"
proof (rule word_unat_eq_iff [THEN iffD2])
  have "n mod 2 ^ 64 mod 2 ^ 32 = n mod 2 ^ 32" by (rule mod_mod_cancel) (simp add: le_imp_power_dvd)
  then show "unat (ucast (word_of_nat n :: u64) :: u32) = unat (word_of_nat n :: u32)"
    by (simp add: unat_of_nat unsigned_ucast_eq take_bit_eq_mod)
qed

lemma touched_terms_props: "distinct (touched_terms f g)" "set (touched_terms f g) = fst ` set f \<union> fst ` set g"
  by (simp_all add: touched_terms_def)

lemma term_freqs_keys: "fst ` set (term_freqs tokens) = set tokens"
proof (rule set_eqI)
  fix w
  have "w \<in> fst ` set (term_freqs tokens) \<longleftrightarrow> bt_get (term_freqs tokens) w \<noteq> None" by (simp add: map_of_eq_None_iff)
  then show "w \<in> fst ` set (term_freqs tokens) \<longleftrightarrow> w \<in> set tokens" by (simp add: term_freqs_get)
qed

lemma touched_terms_set: "set (touched_terms (term_freqs xs) (term_freqs ys)) = set xs \<union> set ys"
  by (simp add: touched_terms_props term_freqs_keys)

lemma count_nonzero:
  assumes "w \<in> set ts" "length ts < 2 ^ 32"
  shows "(word_of_nat (count_list ts w) :: u32) \<noteq> 0"
proof -
  have "0 < count_list ts w" using assms(1) by (simp add: count_list_0_iff neq0_conv [symmetric] del: neq0_conv)
  moreover have "count_list ts w < 2 ^ 32" using count_le_length [of ts w] assms(2) by simp
  ultimately have "unat (word_of_nat (count_list ts w) :: u32) \<noteq> 0" by (simp add: unat_of_nat)
  then show ?thesis by (metis unat_0)
qed

lemma put_posting_mem:
  "(x, n) \<in> set (put_posting slot c xs) \<longleftrightarrow> x = slot \<and> c \<noteq> 0 \<and> n = c \<or> x \<noteq> slot \<and> (x, n) \<in> set xs"
  by (auto simp: put_posting_def)

section \<open>The specification: an inverted index of documents\<close>

type_synonym documents = "u64 \<rightharpoonup> u32 \<times> string list"

definition docs_in :: "documents \<Rightarrow> u32 \<Rightarrow> u64 set" where
  "docs_in D sc = {slot. \<exists>ts. D slot = Some (sc, ts)}"

definition corpus_len :: "documents \<Rightarrow> u32 \<Rightarrow> nat" where
  "corpus_len D sc = (\<Sum>slot \<in> docs_in D sc. length (snd (the (D slot))))"

text \<open>Documents have tokens, and the lengths fit their widths.\<close>

definition docs_ok :: "documents \<Rightarrow> bool" where
  "docs_ok D \<longleftrightarrow> (\<forall>slot sc ts. D slot = Some (sc, ts) \<longrightarrow> ts \<noteq> [] \<and> length ts < 2 ^ 32) \<and> (\<forall>sc. corpus_len D sc < 2 ^ 64)"

definition postings_of :: "lz4 \<Rightarrow> (bytes \<rightharpoonup> bytes) \<Rightarrow> documents \<Rightarrow> bool" where
  "postings_of L rs D \<longleftrightarrow> postings_wf L rs \<and> (\<forall>sc w slot n. (slot, n) \<in> set (plist L rs sc w) \<longleftrightarrow>
     (\<exists>ts. D slot = Some (sc, ts) \<and> w \<in> set ts \<and> n = word_of_nat (count_list ts w)))"

definition lengths_of :: "fts_codecs \<Rightarrow> (bytes \<rightharpoonup> bytes) \<Rightarrow> documents \<Rightarrow> bool" where
  "lengths_of C rs D \<longleftrightarrow> (\<forall>slot. case D slot of
      None \<Rightarrow> rs (slot_key slot) = None
    | Some (sc, ts) \<Rightarrow> \<exists>b. rs (slot_key slot) = Some b \<and> de (len_codec C) b = Inr (word_of_nat (length ts)))"

definition corpora_of :: "fts_codecs \<Rightarrow> (bytes \<rightharpoonup> bytes) \<Rightarrow> documents \<Rightarrow> bool" where
  "corpora_of C rs D \<longleftrightarrow> (\<forall>sc. if docs_in D sc = {} then rs (u32_to_be sc) = None
     else \<exists>b. rs (u32_to_be sc) = Some b \<and>
            de (corpus_codec C) b = Inr (word_of_nat (card (docs_in D sc)), word_of_nat (corpus_len D sc)))"

text \<open>The three tables are the index of the documents.\<close>

definition indexes :: "lz4 \<Rightarrow> fts_codecs \<Rightarrow> ('b \<Rightarrow> bytes \<rightharpoonup> bytes) \<Rightarrow> 'b \<times> 'b \<times> 'b \<Rightarrow> documents \<Rightarrow> bool" where
  "indexes L C rows = (\<lambda>(p, d, s) D. docs_ok D \<and> postings_of L (rows p) D \<and> lengths_of C (rows d) D \<and> corpora_of C (rows s) D)"

text \<open>The document a text is, in a scope.\<close>

definition document :: "analyzer \<Rightarrow> u32 \<Rightarrow> string option \<Rightarrow> (u32 \<times> string list) option" where
  "document A sc txt = (if text_tokens A txt = [] then None else Some (sc, text_tokens A txt))"

lemma finite_docs [simp]: "finite (docs_in D sc)"
  by (rule finite_subset [OF subset_UNIV]) simp

lemma docs_in_other: "D slot = None \<or> fst (the (D slot)) = sc \<Longrightarrow> x = None \<or> fst (the x) = sc \<Longrightarrow> sc' \<noteq> sc \<Longrightarrow>
    docs_in (D(slot := x)) sc' = docs_in D sc' \<and> corpus_len (D(slot := x)) sc' = corpus_len D sc'"
proof -
  assume a: "D slot = None \<or> fst (the (D slot)) = sc" "x = None \<or> fst (the x) = sc" "sc' \<noteq> sc"
  then have d: "docs_in (D(slot := x)) sc' = docs_in D sc'" by (auto simp: docs_in_def)
  have "slot \<notin> docs_in D sc'" using a by (auto simp: docs_in_def)
  then show ?thesis unfolding corpus_len_def d by (auto intro: sum.cong)
qed

lemma docs_in_put: "docs_in (D(slot \<mapsto> (sc, ts))) sc = insert slot (docs_in D sc)"
  by (auto simp: docs_in_def)

lemma docs_in_drop: "docs_in (D(slot := None)) sc = docs_in D sc - {slot}"
  by (auto simp: docs_in_def)

lemma corpus_rest: "slot \<notin> S \<Longrightarrow> (\<Sum>k \<in> S. length (snd (the ((D(slot := x)) k)))) = (\<Sum>k \<in> S. length (snd (the (D k))))"
  by (intro sum.cong) auto

lemma corpus_len_split:
  "D slot = Some (sc, ts) \<Longrightarrow> corpus_len D sc = length ts + corpus_len (D(slot := None)) sc"
proof -
  assume s: "D slot = Some (sc, ts)"
  then have "slot \<in> docs_in D sc" by (auto simp: docs_in_def)
  then have "corpus_len D sc = length (snd (the (D slot))) + (\<Sum>k \<in> docs_in D sc - {slot}. length (snd (the (D k))))"
    unfolding corpus_len_def by (intro sum.remove) auto
  then show ?thesis using s by (simp add: corpus_len_def docs_in_drop corpus_rest)
qed

lemma card_docs_split: "D slot = Some (sc, ts) \<Longrightarrow> card (docs_in D sc) = Suc (card (docs_in (D(slot := None)) sc))"
  unfolding docs_in_drop by (intro card.remove) (auto simp: docs_in_def)

lemma card_docs_le: "docs_ok D \<Longrightarrow> card (docs_in D sc) \<le> corpus_len D sc"
proof -
  assume ok: "docs_ok D"
  have "(\<Sum>slot \<in> docs_in D sc. 1) \<le> corpus_len D sc"
    unfolding corpus_len_def using ok by (intro sum_mono) (fastforce simp: docs_in_def docs_ok_def Suc_le_eq)
  then show ?thesis by simp
qed

section \<open>Corpus statistics\<close>

lemma saturating_sub_nat:
  assumes "b \<le> a" "a < 2 ^ 64"
  shows "saturating_sub (word_of_nat a :: u64) (word_of_nat b) = word_of_nat (a - b)"
proof -
  have "(word_of_nat b :: u64) \<le> word_of_nat a" using assms by (simp add: word_le_nat_alt unat_of_nat)
  then show ?thesis using assms(1) by (simp add: saturating_sub_def of_nat_diff)
qed

definition doc_len :: "(u32 \<times> string list) option \<Rightarrow> nat" where
  "doc_len x = (case x of None \<Rightarrow> 0 | Some (_, ts) \<Rightarrow> length ts)"

lemma moved_stats_correct:
  assumes ok: "docs_ok D" "docs_ok (D(slot := x))" and sc: "D slot = None \<or> fst (the (D slot)) = sc" "x = None \<or> fst (the x) = sc"
  shows "moved_stats (D slot \<noteq> None) (x \<noteq> None) (word_of_nat (doc_len (D slot))) (word_of_nat (doc_len x))
      (word_of_nat (card (docs_in D sc)), word_of_nat (corpus_len D sc)) =
    (word_of_nat (card (docs_in (D(slot := x)) sc)), word_of_nat (corpus_len (D(slot := x)) sc))"
proof -
  let ?B = "D(slot := None)"
  have lt: "corpus_len D sc < 2 ^ 64" "card (docs_in D sc) < 2 ^ 64"
    using ok(1) card_docs_le [OF ok(1), of sc] by (auto simp: docs_ok_def intro: le_less_trans)
  have new: "card (docs_in (D(slot := x)) sc) = card (docs_in ?B sc) + (if x = None then 0 else 1)"
    "corpus_len (D(slot := x)) sc = corpus_len ?B sc + doc_len x"
    using sc(2) card_docs_split [of "D(slot := x)" slot sc] corpus_len_split [of "D(slot := x)" slot sc]
    by (cases x; auto simp: doc_len_def split: prod.splits)+
  have old: "card (docs_in D sc) = card (docs_in ?B sc) + (if D slot = None then 0 else 1)"
    "corpus_len D sc = corpus_len ?B sc + doc_len (D slot)"
  proof -
    show "card (docs_in D sc) = card (docs_in ?B sc) + (if D slot = None then 0 else 1)"
    proof (cases "D slot")
      case None
      then have "?B = D" by auto
      with None show ?thesis by simp
    qed (use sc(1) card_docs_split [of D slot sc] in auto)
    show "corpus_len D sc = corpus_len ?B sc + doc_len (D slot)"
    proof (cases "D slot")
      case None
      then have "?B = D" by auto
      with None show ?thesis by (simp add: doc_len_def)
    qed (use sc(1) corpus_len_split [of D slot sc] in \<open>auto simp: doc_len_def split: prod.splits\<close>)
  qed
  have "saturating_sub (word_of_nat (corpus_len D sc) :: u64) (word_of_nat (doc_len (D slot))) = word_of_nat (corpus_len ?B sc)"
    using saturating_sub_nat [of "doc_len (D slot)" "corpus_len D sc"] lt(1) old(2) by simp
  moreover have "D slot \<noteq> None \<Longrightarrow> saturating_sub (word_of_nat (card (docs_in D sc)) :: u64) 1 = word_of_nat (card (docs_in ?B sc))"
  proof -
    assume "D slot \<noteq> None"
    then have "card (docs_in D sc) = Suc (card (docs_in ?B sc))" using old(1) by simp
    then show ?thesis using saturating_sub_nat [of 1 "card (docs_in D sc)"] lt(2) by simp
  qed
  ultimately show ?thesis
    using old new by (auto simp: moved_stats_def doc_len_def)
qed

section \<open>The update\<close>

locale fts_store = chunk_store_live T rows L + len: serde_codec "len_codec C" + corpus: serde_codec "corpus_codec C"
  for T :: "('t, bytes, bytes) table_ops" and rows and L and C :: fts_codecs +
  assumes ints_serialize: "\<exists>b. ser (len_codec C) n = Inr b" "\<exists>b. ser (corpus_codec C) m = Inr b"
begin

lemma read_stats_run:
  assumes "corpora_of C (rows s) D"
  shows "read_stats T C s sc = Inr (word_of_nat (card (docs_in D sc)), word_of_nat (corpus_len D sc))"
proof (cases "docs_in D sc = {}")
  case True
  with assms have "rows s (u32_to_be sc) = None" unfolding corpora_of_def by (auto dest: spec [of _ sc])
  then show ?thesis by (simp add: read_stats_def get_eq True corpus_len_def)
next
  case False
  with assms have "\<exists>b. rows s (u32_to_be sc) = Some b \<and>
      de (corpus_codec C) b = Inr (word_of_nat (card (docs_in D sc)), word_of_nat (corpus_len D sc))"
    unfolding corpora_of_def by (auto dest: spec [of _ sc])
  then show ?thesis by (auto simp: read_stats_def get_eq pc_err_def)
qed

lemma write_stats_run:
  assumes co: "corpora_of C (rows s) D" and ok: "docs_ok D'"
    and other: "\<And>sc'. sc' \<noteq> sc \<Longrightarrow> docs_in D' sc' = docs_in D sc' \<and> corpus_len D' sc' = corpus_len D sc'"
  shows "\<exists>s'. write_stats T C sc (word_of_nat (card (docs_in D' sc))) (word_of_nat (corpus_len D' sc)) s = Inr s' \<and>
    corpora_of C (rows s') D'"
proof -
  have "card (docs_in D' sc) < 2 ^ 64" using card_docs_le [OF ok, of sc] ok by (auto simp: docs_ok_def intro: le_less_trans)
  then have "unat (word_of_nat (card (docs_in D' sc)) :: u64) = card (docs_in D' sc)" by (simp add: unat_of_nat)
  then have zero: "(word_of_nat (card (docs_in D' sc)) :: u64) = 0 \<longleftrightarrow> docs_in D' sc = {}"
    by (metis card_0_eq finite_docs unat_0 unat_eq_zero)
  obtain b where b: "ser (corpus_codec C) (word_of_nat (card (docs_in D' sc)), word_of_nat (corpus_len D' sc)) = Inr b"
    using ints_serialize(2) by blast
  obtain s1 where s1: "tremove T s (u32_to_be sc) = Inr (rows s (u32_to_be sc), s1)" "rows s1 = (rows s)(u32_to_be sc := None)"
    using remove_eq by blast
  obtain s2 where s2: "tinsert T s (u32_to_be sc) b = Inr s2" "rows s2 = (rows s)(u32_to_be sc \<mapsto> b)" using insert_eq by blast
  have keep: "(if docs_in D' sc' = {} then rows s (u32_to_be sc') = None else \<exists>b. rows s (u32_to_be sc') = Some b \<and>
      de (corpus_codec C) b = Inr (word_of_nat (card (docs_in D' sc')), word_of_nat (corpus_len D' sc')))" if "sc' \<noteq> sc" for sc'
    using co other [OF that] unfolding corpora_of_def by metis
  show ?thesis
  proof (cases "docs_in D' sc = {}")
    case True
    then have "corpora_of C (rows s1) D'" using keep by (auto simp: corpora_of_def s1(2))
    with True zero s1(1) show ?thesis by (simp add: write_stats_def)
  next
    case False
    then have "corpora_of C (rows s2) D'" using keep corpus.de_ser [OF b] by (auto simp: corpora_of_def s2(2))
    with False zero s2(1) b show ?thesis by (simp add: write_stats_def pc_err_def)
  qed
qed

lemma write_doc_len_run:
  assumes "lengths_of C (rows d) D" "x = None \<or> fst (the x) = sc"
  shows "\<exists>d'. write_doc_len T C slot (if x \<noteq> None then Some (word_of_nat (doc_len x)) else None) d = Inr d' \<and>
    lengths_of C (rows d') (D(slot := x))"
proof (cases x)
  case None
  obtain d1 where d1: "tremove T d (slot_key slot) = Inr (rows d (slot_key slot), d1)" "rows d1 = (rows d)(slot_key slot := None)"
    using remove_eq by blast
  then have "rows d1 (slot_key k) = (if k = slot then None else rows d (slot_key k))" for k by (simp add: slot_key_def)
  then have "lengths_of C (rows d1) (D(slot := x))" using assms(1) None by (simp add: lengths_of_def cong: option.case_cong)
  with None d1(1) show ?thesis by (auto simp: write_doc_len_def)
next
  case (Some y)
  then obtain sc' ts where x: "x = Some (sc', ts)" by (cases y) auto
  obtain b where b: "ser (len_codec C) (word_of_nat (length ts)) = Inr b" using ints_serialize(1) by blast
  obtain d1 where d1: "tinsert T d (slot_key slot) b = Inr d1" "rows d1 = (rows d)(slot_key slot \<mapsto> b)" using insert_eq by blast
  then have "rows d1 (slot_key k) = (if k = slot then Some b else rows d (slot_key k))" for k by (simp add: slot_key_def)
  then have "lengths_of C (rows d1) (D(slot := x))"
    using assms(1) x len.de_ser [OF b] by (simp add: lengths_of_def cong: option.case_cong)
  with x d1(1) b show ?thesis by (auto simp: write_doc_len_def doc_len_def pc_err_def)
qed

lemma set_postings_run:
  assumes "postings_wf L (rows p)" "chunks_below n (rows p)" "n + length ws \<le> 2 ^ 32" "distinct ws"
  shows "\<exists>p'. rfold (\<lambda>w. set_posting L T sc w slot (f w)) ws p = Inr p' \<and> postings_wf L (rows p') \<and>
    chunks_below (n + length ws) (rows p') \<and>
    (\<forall>s' w'. plist L (rows p') s' w' =
       (if s' = sc \<and> w' \<in> set ws then put_posting slot (f w') (plist L (rows p) sc w') else plist L (rows p) s' w'))"
  using assms
proof (induction ws arbitrary: p n)
  case (Cons w ws)
  from Cons.prems have "n < 2 ^ 32" by simp
  from set_posting_step [OF Cons.prems(1,2) this] obtain p1 where p1: "set_posting L T sc w slot (f w) p = Inr p1"
    "postings_wf L (rows p1)" "chunks_below (Suc n) (rows p1)"
    "\<And>s' w'. plist L (rows p1) s' w' = (if s' = sc \<and> w' = w then put_posting slot (f w) (plist L (rows p) sc w) else plist L (rows p) s' w')"
    by blast
  from Cons.IH [OF p1(2,3)] Cons.prems obtain p2 where p2: "rfold (\<lambda>w. set_posting L T sc w slot (f w)) ws p1 = Inr p2"
    "postings_wf L (rows p2)" "chunks_below (Suc n + length ws) (rows p2)"
    "\<And>s' w'. plist L (rows p2) s' w' = (if s' = sc \<and> w' \<in> set ws then put_posting slot (f w') (plist L (rows p1) sc w') else plist L (rows p1) s' w')"
    by auto
  show ?case using p1(1) p2 p1(4) Cons.prems(4) by auto
qed simp

text \<open>The postings part: every touched term gets the new frequency of the slot.\<close>

lemma postings_move:
  assumes po: "postings_of L (rows p) D" and wf: "postings_wf L (rows p')" and ok: "docs_ok (D(slot := x))"
    and old: "D slot = (if old = [] then None else Some (sc, old))" and x: "x = (if new = [] then None else Some (sc, new))"
    and pl: "\<And>s' w'. plist L (rows p') s' w' = (if s' = sc \<and> w' \<in> set old \<union> set new
        then put_posting slot (case bt_get (term_freqs new) w' of Some n \<Rightarrow> n | None \<Rightarrow> 0) (plist L (rows p) sc w') else plist L (rows p) s' w')"
  shows "postings_of L (rows p') (D(slot := x))"
proof -
  have mem: "(k, n) \<in> set (plist L (rows p) s' w) \<longleftrightarrow>
     (\<exists>ts. D k = Some (s', ts) \<and> w \<in> set ts \<and> n = word_of_nat (count_list ts w))" for s' w k n
    using po unfolding postings_of_def by blast
  have len: "length new < 2 ^ 32"
  proof (cases "new = []")
    case False
    then have "(D(slot := x)) slot = Some (sc, new)" using x by simp
    with ok show ?thesis unfolding docs_ok_def by blast
  qed simp
  have "(k, n) \<in> set (plist L (rows p') s' w) \<longleftrightarrow>
     (\<exists>ts. (D(slot := x)) k = Some (s', ts) \<and> w \<in> set ts \<and> n = word_of_nat (count_list ts w))" for s' w k n
  proof (cases "s' = sc \<and> w \<in> set old \<union> set new")
    case True
    then show ?thesis
      unfolding pl using mem [of k n sc w] count_nonzero [OF _ len, of w] x
      by (cases "k = slot") (auto simp: put_posting_mem term_freqs_get)
  next
    case False
    then show ?thesis unfolding pl if_not_P [OF False] using mem [of k n s' w] old x by (cases "k = slot") auto
  qed
  with wf show ?thesis by (simp add: postings_of_def)
qed

lemma fts_update_run:
  assumes ix: "indexes L C rows (p, d, s) D" and below: "chunks_below n (rows p)"
    and old: "D slot = document A sc old_text" and ok: "docs_ok (D(slot := document A sc new_text))"
    and room: "n + length (text_tokens A old_text) + length (text_tokens A new_text) \<le> 2 ^ 32"
  shows "\<exists>p' d' s'. fts_update L T A C sc slot old_text new_text (p, d, s) = Inr (p', d', s') \<and>
    indexes L C rows (p', d', s') (D(slot := document A sc new_text)) \<and>
    chunks_below (n + length (text_tokens A old_text) + length (text_tokens A new_text)) (rows p')"
proof -
  let ?o = "text_tokens A old_text" and ?n = "text_tokens A new_text"
  let ?x = "document A sc new_text" and ?ws = "touched_terms (term_freqs ?o) (term_freqs ?n)"
  define ot nt where "ot = (if ?o = [] then None else old_text)" and "nt = (if ?n = [] then None else new_text)"
  have some: "D slot \<noteq> None \<longleftrightarrow> ot \<noteq> None" "?x \<noteq> None \<longleftrightarrow> nt \<noteq> None"
    by (auto simp: old document_def ot_def nt_def text_tokens_def split: option.splits)
  have scs: "D slot = None \<or> fst (the (D slot)) = sc" "?x = None \<or> fst (the ?x) = sc" by (auto simp: old document_def)
  have len: "doc_len (D slot) = length ?o" "doc_len ?x = length ?n" by (auto simp: old document_def doc_len_def)
  have ixs: "docs_ok D" "postings_of L (rows p) D" "lengths_of C (rows d) D" "corpora_of C (rows s) D"
    using ix by (simp_all add: indexes_def)
  have ws: "length ?ws \<le> length ?o + length ?n"
    using distinct_card [of ?ws] touched_terms_props(1) card_mono [of "set (?o @ ?n)" "set ?ws"] card_length [of "?o @ ?n"]
    by (simp add: touched_terms_set)
  show ?thesis
  proof (cases "ot = nt")
    case True
    then have "?x = D slot"
      by (cases "?o = []"; cases "?n = []") (auto simp: old document_def ot_def nt_def text_tokens_def split: option.splits)
    then have same: "D(slot := ?x) = D" by auto
    have "chunks_below (n + length ?o + length ?n) (rows p)" by (rule chunks_below_mono [OF below]) simp
    moreover have "fts_update L T A C sc slot old_text new_text (p, d, s) = Inr (p, d, s)"
      using True by (simp add: fts_update_def Let_def ot_def nt_def)
    ultimately show ?thesis using ix same by auto
  next
    case False
    have "n + length ?ws \<le> 2 ^ 32" using ws room by linarith
    from set_postings_run [OF _ below this touched_terms_props(1), where sc = sc and slot = slot
        and f = "\<lambda>w. case bt_get (term_freqs ?n) w of Some n \<Rightarrow> n | None \<Rightarrow> 0"] ixs(2)
    obtain p' where p': "rfold (\<lambda>w. set_posting L T sc w slot (case bt_get (term_freqs ?n) w of Some n \<Rightarrow> n | None \<Rightarrow> 0)) ?ws p = Inr p'"
      "postings_wf L (rows p')" "chunks_below (n + length ?ws) (rows p')"
      "\<And>s' w'. plist L (rows p') s' w' = (if s' = sc \<and> w' \<in> set ?o \<union> set ?n
        then put_posting slot (case bt_get (term_freqs ?n) w' of Some n \<Rightarrow> n | None \<Rightarrow> 0) (plist L (rows p) sc w') else plist L (rows p) s' w')"
      unfolding postings_of_def touched_terms_set by blast
    have po: "postings_of L (rows p') (D(slot := ?x))"
      by (rule postings_move [OF ixs(2) p'(2) ok _ _ p'(4)]) (simp_all add: old document_def)
    obtain d' where d': "write_doc_len T C slot (if nt \<noteq> None then Some (word_of_nat (length ?n)) else None) d = Inr d'"
      "lengths_of C (rows d') (D(slot := ?x))" using write_doc_len_run [OF ixs(3) scs(2), of slot] some len by auto
    obtain s' where s': "write_stats T C sc (word_of_nat (card (docs_in (D(slot := ?x)) sc))) (word_of_nat (corpus_len (D(slot := ?x)) sc)) s = Inr s'"
      "corpora_of C (rows s') (D(slot := ?x))" using write_stats_run [OF ixs(4) ok docs_in_other [of D slot sc ?x, OF scs]] by blast
    note mv = moved_stats_correct [of D slot ?x sc, OF ixs(1) ok scs, unfolded some len]
    have "fts_update L T A C sc slot old_text new_text (p, d, s) = Inr (p', d', s')"
      using False p'(1) d'(1) s'(1) mv read_stats_run [OF ixs(4), of sc]
      by (cases nt) (auto simp: fts_update_def Let_def ot_def [symmetric] nt_def [symmetric])
    moreover have "chunks_below (n + length ?o + length ?n) (rows p')"
      by (rule chunks_below_mono [OF p'(3)]) (use ws in simp)
    ultimately show ?thesis using po d'(2) s'(2) ok by (auto simp: indexes_def)
  qed
qed

end

section \<open>A concrete instance\<close>

definition fixed_fts :: fts_codecs where
  "fixed_fts = \<lparr>len_codec = \<lparr>ser = (\<lambda>n. Inr (u32_to_be n)), de = (\<lambda>b. Inr (u32_from_be b))\<rparr>,
     corpus_codec = \<lparr>ser = (\<lambda>(n, m). Inr (u64_to_be n @ u64_to_be m)), de = (\<lambda>b. Inr (u64_from_be (take 8 b), u64_from_be (drop 8 b)))\<rparr>\<rparr>"

interpretation rbt_fts: fts_store rbt_ops RBT.lookup rle_lz4 fixed_fts
proof (intro fts_store.intro fts_store_axioms.intro rbt_chunks.chunk_store_live_axioms serde_codec.intro)
qed (auto simp: fixed_fts_def)

lemma empty_indexes: "indexes L C RBT.lookup (RBT.empty, RBT.empty, RBT.empty) Map.empty"
proof -
  have "plist L Map.empty s w = []" for s w by (simp add: plist_def column_chunks_def chunk_nums_def column_def)
  then show ?thesis
    by (simp add: indexes_def docs_ok_def postings_of_def postings_wf_def blocks_ok_def lengths_of_def corpora_of_def
        docs_in_def corpus_len_def)
qed

section \<open>Properties\<close>

text \<open>C15. Moving a node from its old text to its new one turns the index of the documents into the index of the documents
  with that one replaced: postings with exact frequencies, document lengths, and the document count and total length of
  each scope, with no row left for a scope without documents. The update succeeds as long as chunk numbers, lengths and
  totals fit their widths.\<close>

theorem fts_update_refines:
  assumes "fts_store T rows L C" and "indexes L C rows (p, d, s) D" and "chunks_below n (rows p)"
    and "D slot = document A sc old_text" and "docs_ok (D(slot := document A sc new_text))"
    and "n + length (text_tokens A old_text) + length (text_tokens A new_text) \<le> 2 ^ 32"
  shows "\<exists>p' d' s'. fts_update L T A C sc slot old_text new_text (p, d, s) = Inr (p', d', s') \<and>
    indexes L C rows (p', d', s') (D(slot := document A sc new_text))"
  using fts_store.fts_update_run [OF assms] by blast

lemma example_tokens: "text_tokens ascii_analyzer (Some ''graphDb graph'') = [''graph'', ''db'', ''graph'']"
  by code_simp

lemma example_document: "document ascii_analyzer sc (Some ''graphDb graph'') = Some (sc, [''graph'', ''db'', ''graph''])"
  by (simp only: document_def example_tokens) simp

lemma example_docs_ok: "docs_ok [slot \<mapsto> (sc, [''graph'', ''db'', ''graph''])]"
proof -
  let ?D = "[slot \<mapsto> (sc, [''graph'', ''db'', ''graph''])]"
  have "corpus_len ?D s < 4" for s
    using corpus_len_split [of ?D slot sc "[''graph'', ''db'', ''graph'']"]
    by (cases "s = sc") (auto simp: corpus_len_def docs_in_def)
  then have "corpus_len ?D s < 2 ^ 64" for s by (rule less_trans) simp
  then show ?thesis unfolding docs_ok_def by (auto split: if_splits)
qed

lemma no_chunks: "chunks_below n (RBT.lookup (RBT.empty :: (bytes, bytes) rbt))"
  by (simp add: chunks_below_def column_def)

theorem fts_update_refines_witness:
  "\<exists>p' d' s'. fts_update rle_lz4 rbt_ops ascii_analyzer fixed_fts 1 5 None (Some ''graphDb graph'')
      (RBT.empty, RBT.empty, RBT.empty) = Inr (p', d', s') \<and>
    indexes rle_lz4 fixed_fts RBT.lookup (p', d', s') [5 \<mapsto> (1, [''graph'', ''db'', ''graph''])]"
proof -
  have "docs_ok (Map.empty(5 := document ascii_analyzer 1 (Some ''graphDb graph'')))"
    unfolding example_document by (rule example_docs_ok)
  from fts_update_refines [OF rbt_fts.fts_store_axioms empty_indexes no_chunks [of 0] _ this, of None] show ?thesis
    unfolding example_document example_tokens by (simp add: document_def text_tokens_def)
qed

end
