(* ===== verification/EditDistance.thy ===== *)
theory EditDistance
  imports Tokenizer
begin

text \<open>
  The bounded edit distance of the fuzzy fallback (\<^verbatim>\<open>crates/topodb/src/fts.rs\<close>, \<^verbatim>\<open>bounded_levenshtein\<close>): two rows of
  32-bit counters and an early exit. The specification counts single-character edits: the least number of insertions,
  deletions and replacements that turn one word into the other.
\<close>

section \<open>The code\<close>

text \<open>One row: the counters from column 1 on, given the previous row and the counter to the left.\<close>

fun lev_row :: "'c \<Rightarrow> 'c list \<Rightarrow> u32 list \<Rightarrow> u32 \<Rightarrow> u32 list" where
  "lev_row ca (cb # bs) (p # p' # ps) left =
     (let v = min (min (p + (if ca \<noteq> cb then 1 else 0)) (p' + 1)) (left + 1) in v # lev_row ca bs (p' # ps) v)"
| "lev_row ca _ _ left = []"

fun lev_rows :: "u32 \<Rightarrow> 'c list \<Rightarrow> u32 \<Rightarrow> 'c list \<Rightarrow> u32 list \<Rightarrow> u32 list option" where
  "lev_rows bound b i [] prev = Some prev"
| "lev_rows bound b i (ca # as) prev =
     (let cur = (i + 1) # lev_row ca b prev (i + 1)
      in if bound < fold min (tl cur) (hd cur) then None else lev_rows bound b (i + 1) as cur)"

definition bounded_levenshtein :: "string list \<Rightarrow> string \<Rightarrow> u32 \<Rightarrow> u32 option" where
  "bounded_levenshtein a bstr bound =
     (let b = utf8_chars bstr
      in if unat bound < (if length a \<le> length b then length b - length a else length a - length b) then None
         else case lev_rows bound b 0 a (map word_of_nat [0..<Suc (length b)]) of
                None \<Rightarrow> None
              | Some prev \<Rightarrow> if prev ! length b \<le> bound then Some (prev ! length b) else None)"

section \<open>The specification\<close>

text \<open>One edit: insert, delete or replace a character.\<close>

inductive edit :: "'c list \<Rightarrow> 'c list \<Rightarrow> bool" where
  ins: "edit (u @ v) (u @ y # v)"
| del: "edit (u @ x # v) (u @ v)"
| rep: "edit (u @ x # v) (u @ y # v)"

definition within :: "nat \<Rightarrow> 'c list \<Rightarrow> 'c list \<Rightarrow> bool" where
  "within n xs ys \<longleftrightarrow> (\<exists>m \<le> n. (edit ^^ m) xs ys)"

text \<open>The usual recursion, to be related to both.\<close>

fun lev :: "'c list \<Rightarrow> 'c list \<Rightarrow> nat" where
  "lev [] ys = length ys"
| "lev xs [] = length xs"
| "lev (x # xs) (y # ys) = min (min (lev xs ys + (if x \<noteq> y then 1 else 0)) (lev xs (y # ys) + 1)) (lev (x # xs) ys + 1)"

lemma lev_Nil2 [simp]: "lev xs [] = length xs"
  by (cases xs) auto

lemma lev_le_Cons1: "lev (x # xs) ys \<le> lev xs ys + 1"
  by (cases ys) auto

lemma lev_le_Cons2: "lev xs (y # ys) \<le> lev xs ys + 1"
  by (cases xs) auto

lemma lev_Cons2_le: "lev xs ys \<le> lev xs (y # ys) + 1"
proof (induction xs)
  case (Cons x xs)
  have "lev (x # xs) ys \<le> lev xs ys + 1" by (rule lev_le_Cons1)
  with Cons show ?case by (auto simp: min_def)
qed simp

lemma lev_Cons2_swap: "lev xs (y # ys) \<le> lev xs (z # ys) + 1"
proof (induction xs)
  case (Cons x xs)
  have "lev (x # xs) (y # ys) \<le> lev xs ys + 1" "lev (x # xs) (y # ys) \<le> lev xs (y # ys) + 1"
    "lev (x # xs) (y # ys) \<le> lev (x # xs) ys + 1" by auto
  with Cons show ?case by (auto simp: min_def)
qed simp

lemma lev_prefix:
  assumes "\<And>xs. lev xs t \<le> lev xs t' + 1"
  shows "lev xs (w # t) \<le> lev xs (w # t') + 1"
proof (induction xs)
  case Nil
  then show ?case using assms [of "[]"] by simp
next
  case (Cons x xs)
  have "lev (x # xs) (w # t) \<le> lev xs t + (if x \<noteq> w then 1 else 0)" "lev (x # xs) (w # t) \<le> lev xs (w # t) + 1"
    "lev (x # xs) (w # t) \<le> lev (x # xs) t + 1" by auto
  with Cons assms [of xs] assms [of "x # xs"] show ?case by (auto simp: min_def)
qed

lemma lev_edit:
  assumes "edit ys zs"
  shows "lev xs zs \<le> lev xs ys + 1"
proof -
  have prefix: "lev xs (u @ t) \<le> lev xs (u @ t') + 1" if "\<And>xs. lev xs t \<le> lev xs t' + 1" for u and t t' :: "'a list" and xs
  proof (induction u arbitrary: xs)
    case (Cons w u)
    show ?case using lev_prefix [OF Cons.IH] by simp
  qed (simp add: that [simplified])
  from assms show ?thesis
  proof cases
    case (ins u v y)
    show ?thesis unfolding ins by (rule prefix [OF lev_le_Cons2])
  next
    case (del u x v)
    show ?thesis unfolding del by (rule prefix [OF lev_Cons2_le])
  next
    case (rep u x v y)
    show ?thesis unfolding rep by (rule prefix [OF lev_Cons2_swap])
  qed
qed

lemma lev_self: "lev xs xs = 0"
  by (induction xs) auto

lemma lev_le: "(edit ^^ n) xs ys \<Longrightarrow> lev xs ys \<le> n"
proof (induction n arbitrary: ys)
  case (Suc n)
  then obtain zs where "(edit ^^ n) xs zs" "edit zs ys" by auto
  with Suc.IH lev_edit [of zs ys xs] show ?case by fastforce
qed (simp add: lev_self)

lemma edit_Cons: "edit xs ys \<Longrightarrow> edit (w # xs) (w # ys)"
  by (erule edit.cases) (metis append_Cons edit.intros)+

lemma edits_Cons: "(edit ^^ n) xs ys \<Longrightarrow> (edit ^^ n) (w # xs) (w # ys)"
  by (induction n arbitrary: ys) (auto intro: edit_Cons)

lemma lev_edits: "(edit ^^ lev xs ys) xs ys"
proof (induction xs ys rule: lev.induct)
  case (1 ys)
  have "edit [] [y]" for y :: 'a using ins [of "[]" "[]" y] by simp
  moreover have "(edit ^^ length ys) [] ys" for ys :: "'a list"
  proof (induction ys rule: rev_induct)
    case (snoc y ys)
    then show ?case using ins [of ys "[]" y] by auto
  qed simp
  ultimately show ?case by simp
next
  case (2 x xs)
  have "(edit ^^ length xs) xs []" for xs :: "'a list"
  proof (induction xs)
    case (Cons x xs)
    show ?case using relpowp_Suc_I2 [OF del [of "[]" x xs, simplified] Cons.IH] by simp
  qed simp
  from this [of "x # xs"] show ?case by (simp del: relpowp.simps)
next
  case (3 x xs y ys)
  have r: "(edit ^^ (lev xs ys + (if x \<noteq> y then 1 else 0))) (x # xs) (y # ys)"
    using relpowp_Suc_I [OF edits_Cons [OF "3.IH"(1), of x] rep [of "[]" x ys y, simplified]] edits_Cons [OF "3.IH"(1), of x] by auto
  have d: "(edit ^^ (lev xs (y # ys) + 1)) (x # xs) (y # ys)"
    using relpowp_Suc_I2 [OF del [of "[]" x xs, simplified] "3.IH"(2)] by simp
  have i: "(edit ^^ (lev (x # xs) ys + 1)) (x # xs) (y # ys)"
    using relpowp_Suc_I [OF "3.IH"(3) ins [of "[]" ys y, simplified]] by simp
  from r d i show ?case by (simp add: min_def)
qed

lemma lev_within: "within n xs ys \<longleftrightarrow> lev xs ys \<le> n"
  using lev_le lev_edits unfolding within_def by (metis le_trans)

lemma edit_rev: "edit xs ys \<Longrightarrow> edit (rev xs) (rev ys)"
proof (induction rule: edit.induct)
  case (ins u v y)
  show ?case using edit.ins [of "rev v" "rev u" y] by simp
next
  case (del u x v)
  show ?case using edit.del [of "rev v" x "rev u"] by simp
next
  case (rep u x v y)
  show ?case using edit.rep [of "rev v" x "rev u" y] by simp
qed

lemma lev_rev: "lev (rev xs) (rev ys) = lev xs ys"
proof -
  have "(edit ^^ n) xs ys \<Longrightarrow> (edit ^^ n) (rev xs) (rev ys)" for n and xs ys :: "'a list"
    by (induction n arbitrary: ys) (auto intro: edit_rev)
  then have "within n xs ys \<Longrightarrow> within n (rev xs) (rev ys)" for n and xs ys :: "'a list"
    unfolding within_def by blast
  then have "lev (rev xs) (rev ys) \<le> lev xs ys" for xs ys :: "'a list" unfolding lev_within by blast
  from this [of xs ys] this [of "rev xs" "rev ys"] show ?thesis by simp
qed

section \<open>The rows\<close>

lemma lev_bound: "lev xs ys \<le> length xs + length ys"
  by (induction xs ys rule: lev.induct) (auto simp: min_def)

lemma lev_length_diff: "length xs \<le> length ys + lev xs ys" "length ys \<le> length xs + lev xs ys"
  by (induction xs ys rule: lev.induct) (auto simp: min_def)

text \<open>The counters of the row of \<open>xs\<close>, from the column of \<open>ys\<close> over the characters \<open>bs\<close>; columns are kept reversed.\<close>

fun dp_row :: "'c list \<Rightarrow> 'c list \<Rightarrow> 'c list \<Rightarrow> u32 list" where
  "dp_row xs ys [] = [word_of_nat (lev xs ys)]"
| "dp_row xs ys (c # bs) = word_of_nat (lev xs ys) # dp_row xs (c # ys) bs"

lemma dp_row_hd: "\<exists>ps. dp_row xs ys bs = word_of_nat (lev xs ys) # ps"
  by (cases bs) auto

lemma dp_row_nth_last: "dp_row xs ys bs ! length bs = word_of_nat (lev xs (rev bs @ ys))"
  by (induction bs arbitrary: ys) auto

lemma dp_row_mem: "set (dp_row xs ys bs) = {word_of_nat (lev xs (rev (take k bs) @ ys)) | k. k \<le> length bs}"
proof (induction bs arbitrary: ys)
  case (Cons c bs)
  have "{word_of_nat (lev xs (rev (take k (c # bs)) @ ys)) | k. k \<le> length (c # bs)} =
      insert (word_of_nat (lev xs ys) :: u32) {word_of_nat (lev xs (rev (take k bs) @ c # ys)) | k. k \<le> length bs}" (is "?l = ?r")
  proof
    show "?l \<subseteq> ?r"
    proof
      fix v assume "v \<in> ?l"
      then obtain k where k: "k \<le> length (c # bs)" "v = word_of_nat (lev xs (rev (take k (c # bs)) @ ys))" by blast
      then show "v \<in> ?r" by (cases k) auto
    qed
    show "?r \<subseteq> ?l"
      by (auto intro: exI [of _ 0]) (metis (no_types, lifting) Suc_le_mono append.assoc append_Cons append_Nil rev.simps(2) take_Suc_Cons)
  qed
  with Cons show ?case by simp
qed simp

lemma min_word_of_nat: "a < 2 ^ 32 \<Longrightarrow> b < 2 ^ 32 \<Longrightarrow> min (word_of_nat a :: u32) (word_of_nat b) = word_of_nat (min a b)"
  by (auto simp: min_def word_le_nat_alt unat_of_nat)

lemma lev_row_correct:
  assumes "length xs + length ys + length bs + 2 < 2 ^ 32"
  shows "lev_row c bs (dp_row xs ys bs) (word_of_nat (lev (c # xs) ys)) = tl (dp_row (c # xs) ys bs)"
  using assms
proof (induction bs arbitrary: ys)
  case (Cons b bs)
  obtain ps where ps: "dp_row xs (b # ys) bs = word_of_nat (lev xs (b # ys)) # ps" using dp_row_hd by blast
  let ?v = "min (min (lev xs ys + (if c \<noteq> b then 1 else 0)) (lev xs (b # ys) + 1)) (lev (c # xs) ys + 1)"
  have "lev xs ys + 1 < 2 ^ 32" "lev xs (b # ys) + 1 < 2 ^ 32" "lev (c # xs) ys + 1 < 2 ^ 32"
    using lev_bound [of xs ys] lev_bound [of xs "b # ys"] lev_bound [of "c # xs" ys] Cons.prems by auto
  then have "min (min (word_of_nat (lev xs ys) + (if c \<noteq> b then 1 else 0)) (word_of_nat (lev xs (b # ys)) + 1))
      (word_of_nat (lev (c # xs) ys) + 1) = (word_of_nat (lev (c # xs) (b # ys)) :: u32)"
    using min_word_of_nat [of "lev xs ys + (if c \<noteq> b then 1 else 0)" "lev xs (b # ys) + 1"]
      min_word_of_nat [of "min (lev xs ys + (if c \<noteq> b then 1 else 0)) (lev xs (b # ys) + 1)" "lev (c # xs) ys + 1"]
    by (auto simp: add.commute)
  moreover have "dp_row (c # xs) (b # ys) bs = word_of_nat (lev (c # xs) (b # ys)) # tl (dp_row (c # xs) (b # ys) bs)"
    using dp_row_hd [of "c # xs" "b # ys" bs] by auto
  ultimately show ?case using Cons.IH [of "b # ys"] Cons.prems by (simp add: ps Let_def del: lev.simps)
qed simp

text \<open>No later row falls below the minimum of an earlier one.\<close>

lemma lev_later: "\<exists>k \<le> length ys. lev xs (drop k ys) \<le> lev (us @ xs) ys"
proof (induction us ys rule: lev.induct)
  case (2 u us)
  show ?case by simp
next
  case (3 u us y ys)
  have step: "\<exists>k \<le> length (y # ys). lev xs (drop k (y # ys)) \<le> n" if "\<exists>k \<le> length ys. lev xs (drop k ys) \<le> n" for n
    using that by (metis Suc_le_mono drop_Suc_Cons length_Cons)
  have "lev (u # us @ xs) (y # ys) \<in> {lev (us @ xs) ys + (if u \<noteq> y then 1 else 0), lev (us @ xs) (y # ys) + 1, lev (u # us @ xs) ys + 1}"
    by (auto simp: min_def)
  then show ?case
    using "3.IH" step [of "lev (u # us @ xs) (y # ys)"] by (auto intro: order_trans simp del: lev.simps)
qed auto

lemma lev_rows_correct:
  assumes "length as + length xs + length b + 2 < 2 ^ 32"
  shows "case lev_rows bound b (word_of_nat (length xs)) as (dp_row xs [] b) of
      Some r \<Rightarrow> r = dp_row (rev as @ xs) [] b
    | None \<Rightarrow> unat bound < lev (rev as @ xs) (rev b)"
  using assms
proof (induction as arbitrary: xs)
  case (Cons c as)
  let ?cur = "dp_row (c # xs) [] b"
  have "lev_row c b (dp_row xs [] b) (word_of_nat (Suc (length xs))) = tl ?cur"
    using lev_row_correct [of xs "[]" b c] Cons.prems by simp
  moreover obtain ps where ps: "?cur = word_of_nat (Suc (length xs)) # ps" using dp_row_hd [of "c # xs" "[]" b] by auto
  ultimately have cur: "(word_of_nat (length xs) + 1) # lev_row c b (dp_row xs [] b) (word_of_nat (length xs) + 1) = ?cur"
    by (simp add: add.commute)
  have min: "fold min (tl ?cur) (hd ?cur) = Min (set ?cur)" unfolding ps by (simp only: list.sel Min.set_eq_fold)
  show ?case
  proof (cases "bound < fold min (tl ?cur) (hd ?cur)")
    case True
    obtain k where k: "k \<le> length (rev b)" "lev (c # xs) (drop k (rev b)) \<le> lev (rev as @ c # xs) (rev b)"
      using lev_later [of "rev b" "c # xs" "rev as"] by blast
    have "word_of_nat (lev (c # xs) (drop k (rev b))) \<in> set ?cur"
      unfolding dp_row_mem by (rule CollectI, rule exI [of _ "length b - k"]) (simp add: drop_rev)
    then have "bound < word_of_nat (lev (c # xs) (drop k (rev b)))"
      using True Min_le [OF finite_set] unfolding min by (meson less_le_trans)
    moreover have "lev (c # xs) (drop k (rev b)) < 2 ^ 32" using lev_bound [of "c # xs" "drop k (rev b)"] Cons.prems by simp
    ultimately have "unat bound < lev (c # xs) (drop k (rev b))" by (simp add: word_less_nat_alt unat_of_nat)
    with k(2) True cur show ?thesis by (simp add: Let_def)
  next
    case False
    with Cons.IH [of "c # xs"] Cons.prems cur show ?thesis by (simp add: Let_def add.commute cong: option.case_cong)
  qed
qed simp

lemma bounded_levenshtein_lev:
  assumes "length a + length (utf8_chars b) + 2 < 2 ^ 32"
  shows "bounded_levenshtein a b bound =
    (if lev a (utf8_chars b) \<le> unat bound then Some (word_of_nat (lev a (utf8_chars b))) else None)"
proof -
  let ?b = "utf8_chars b"
  let ?d = "lev a ?b"
  have "dp_row [] ys bs = map word_of_nat [length ys..<Suc (length ys + length bs)]" for ys bs :: "string list"
  proof (induction bs arbitrary: ys)
    case (Cons c bs)
    then show ?case by (simp add: upt_conv_Cons del: upt_Suc)
  qed simp
  from this [of "[]" ?b] have start: "map word_of_nat [0..<Suc (length ?b)] = dp_row [] [] ?b" by simp
  have fin: "lev (rev a) (rev ?b) = ?d" by (rule lev_rev)
  have small: "?d < 2 ^ 32" using lev_bound [of a ?b] assms by simp
  then have le: "(word_of_nat ?d :: u32) \<le> bound \<longleftrightarrow> ?d \<le> unat bound" by (simp add: word_le_nat_alt unat_of_nat)
  show ?thesis
  proof (cases "unat bound < (if length a \<le> length ?b then length ?b - length a else length a - length ?b)")
    case True
    have "unat bound < ?d"
    proof (cases "length a \<le> length ?b")
      case le: True
      with True have "unat bound < length ?b - length a" by simp
      with lev_length_diff(2) [where xs = a and ys = ?b] show ?thesis by linarith
    next
      case gt: False
      with True have "unat bound < length a - length ?b" by simp
      with lev_length_diff(1) [where xs = a and ys = ?b] show ?thesis by linarith
    qed
    with True show ?thesis by (simp add: bounded_levenshtein_def Let_def)
  next
    case False
    have rows: "case lev_rows bound ?b 0 a (dp_row [] [] ?b) of Some r \<Rightarrow> r = dp_row (rev a) [] ?b | None \<Rightarrow> unat bound < ?d"
      using lev_rows_correct [of a "[]" ?b bound] assms fin by (simp cong: option.case_cong)
    show ?thesis
    proof (cases "lev_rows bound ?b 0 a (dp_row [] [] ?b)")
      case None
      with rows False show ?thesis unfolding bounded_levenshtein_def Let_def start by simp
    next
      case (Some r)
      with rows have "r ! length ?b = word_of_nat ?d" using dp_row_nth_last [of "rev a" "[]" ?b] fin by simp
      with Some False le show ?thesis unfolding bounded_levenshtein_def Let_def start by simp
    qed
  qed
qed

section \<open>Properties\<close>

text \<open>C21. The bounded distance is exact: for every bound it answers whether that many single-character insertions,
  deletions and replacements suffice, and if so the least number that does, in spite of working with two rows of 32-bit
  counters and stopping as soon as a whole row exceeds the bound.\<close>

theorem bounded_levenshtein_exact:
  assumes "length a + length (utf8_chars b) + 2 < 2 ^ 32"
  shows "case bounded_levenshtein a b bound of
      Some d \<Rightarrow> d \<le> bound \<and> within (unat d) a (utf8_chars b) \<and> (\<forall>n < unat d. \<not> within n a (utf8_chars b))
    | None \<Rightarrow> \<not> within (unat bound) a (utf8_chars b)"
proof -
  have "lev a (utf8_chars b) < 2 ^ 32" using lev_bound [of a "utf8_chars b"] assms by simp
  then have "unat (word_of_nat (lev a (utf8_chars b)) :: u32) = lev a (utf8_chars b)" by (simp add: unat_of_nat)
  then show ?thesis unfolding bounded_levenshtein_lev [OF assms] lev_within by (auto simp: word_le_nat_alt)
qed

lemma kitten_chars: "utf8_chars ''kitten'' = [''k'', ''i'', ''t'', ''t'', ''e'', ''n'']"
  "utf8_chars ''sitting'' = [''s'', ''i'', ''t'', ''t'', ''i'', ''n'', ''g'']"
  by code_simp+

theorem bounded_levenshtein_exact_witness:
  "bounded_levenshtein (utf8_chars ''kitten'') ''sitting'' 3 = Some 3 \<and>
   within 3 (utf8_chars ''kitten'') (utf8_chars ''sitting'') \<and> \<not> within 2 (utf8_chars ''kitten'') (utf8_chars ''sitting'')"
proof -
  have run: "bounded_levenshtein (utf8_chars ''kitten'') ''sitting'' 3 = Some 3" by code_simp
  from bounded_levenshtein_exact [of "utf8_chars ''kitten''" "''sitting''" 3] run show ?thesis
    by (simp add: kitten_chars)
qed

end
