(* ===== verification/OpLog.thy ===== *)
theory OpLog
  imports Redb Records Codec
begin

text \<open>
  The op log (\<^verbatim>\<open>crates/topodb/src/storage.rs\<close>, \<^verbatim>\<open>append_ops\<close> to \<^verbatim>\<open>read_ops\<close> and \<^verbatim>\<open>read_oldest_seq\<close>):
  an append-only table of serialized operations under consecutive sequence numbers, whose prefix
  may be compacted away; the floor survives in the \<^verbatim>\<open>meta\<close> table. Serialization is the \<^verbatim>\<open>postcard\<close>
  crate, given by the record \<open>postcard_ops\<close> and the locale \<open>postcard\<close>. The relation \<open>log_reach\<close>
  collects every state appends and compactions lead to, with the history of all operations ever
  appended; its invariant is that sequence numbers are consecutive from 1 across compactions and
  that the table holds exactly the history from the floor on.
\<close>

record postcard_ops =
  to_bytes :: "op \<Rightarrow> string + bytes"
  from_bytes :: "bytes \<Rightarrow> string + op"

locale postcard =
  fixes P :: postcard_ops
  assumes decode_encode: "to_bytes P x = Inr b \<Longrightarrow> from_bytes P b = Inr x"

text \<open>Whether the storage library begins and commits a transaction.\<close>

record tx =
  tx_begin :: "redb_error + unit"
  tx_commit :: "redb_error + unit"

section \<open>Operations\<close>

definition read_oldest_seq :: "('m, string, bytes) table_ops \<Rightarrow> 'm \<Rightarrow> u64 result" where
  "read_oldest_seq M meta =
     rbind (redb (tget M meta ''oldest_seq'')) (\<lambda>v. case v of
        Some b \<Rightarrow> rbind (try_into 8 (Encoding ''bad oldest_seq'') b) (\<lambda>b. Inr (u64_from_le b))
      | None \<Rightarrow> Inr 1)"

text \<open>One past the last key, clamped up to the floor.\<close>

definition next_seq :: "('o, u64, bytes) table_ops \<Rightarrow> ('m, string, bytes) table_ops \<Rightarrow> 'o \<Rightarrow> 'm \<Rightarrow> u64 result" where
  "next_seq W M ops meta =
     rbind (read_oldest_seq M meta) (\<lambda>floor.
     rbind (redb (tlast W ops)) (\<lambda>l.
     Inr (max (case l of Some (k, _) \<Rightarrow> k + 1 | None \<Rightarrow> 1) floor)))"

definition append_one :: "('o, u64, bytes) table_ops \<Rightarrow> postcard_ops \<Rightarrow> u64 \<Rightarrow> nat \<times> op \<Rightarrow> 'o \<Rightarrow> 'o result" where
  "append_one W P nxt = (\<lambda>(i, x) t.
     rbind (pc_err (to_bytes P x)) (\<lambda>b. redb (tinsert W t (nxt + word_of_nat i) b)))"

definition append_rows :: "('o, u64, bytes) table_ops \<Rightarrow> postcard_ops \<Rightarrow> u64 \<Rightarrow> op list \<Rightarrow> 'o \<Rightarrow> 'o result" where
  "append_rows W P nxt xs t = rfold (append_one W P nxt) (enumerate 0 xs) t"

definition append_ops :: "('o, u64, bytes) table_ops \<Rightarrow> ('m, string, bytes) table_ops \<Rightarrow> postcard_ops \<Rightarrow> tx
    \<Rightarrow> op list \<Rightarrow> 'o \<Rightarrow> 'm \<Rightarrow> ((u64 \<times> u64) \<times> 'o) result" where
  "append_ops W M P tx xs ops meta =
     (if xs = [] then Inl (Rejected ''empty op batch'')
      else rbind (redb (tx_begin tx)) (\<lambda>_.
           rbind (next_seq W M ops meta) (\<lambda>nxt.
           rbind (append_rows W P nxt xs ops) (\<lambda>ops'.
           rbind (redb (tx_commit tx)) (\<lambda>_.
           Inr ((nxt, nxt + word_of_nat (length xs) - 1), ops'))))))"

definition oldest_seq :: "('m, string, bytes) table_ops \<Rightarrow> tx \<Rightarrow> 'm \<Rightarrow> u64 result" where
  "oldest_seq M tx meta = rbind (redb (tx_begin tx)) (\<lambda>_. read_oldest_seq M meta)"

definition current_seq :: "('o, u64, bytes) table_ops \<Rightarrow> ('m, string, bytes) table_ops \<Rightarrow> tx \<Rightarrow> 'o \<Rightarrow> 'm \<Rightarrow> u64 result" where
  "current_seq W M tx ops meta =
     rbind (redb (tx_begin tx)) (\<lambda>_.
     rbind (redb (tlast W ops)) (\<lambda>l.
     rbind (read_oldest_seq M meta) (\<lambda>oldest.
     Inr (max (case l of Some (k, _) \<Rightarrow> k | None \<Rightarrow> 0) (saturating_sub oldest 1)))))"

definition compact_ops_through :: "('o, u64, bytes) table_ops \<Rightarrow> ('m, string, bytes) table_ops \<Rightarrow> tx
    \<Rightarrow> u64 \<Rightarrow> 'o \<Rightarrow> 'm \<Rightarrow> ('o \<times> 'm) result" where
  "compact_ops_through W M tx keep_from ops meta =
     rbind (oldest_seq M tx meta) (\<lambda>oldest.
     if keep_from \<le> oldest then Inr (ops, meta)
     else rbind (current_seq W M tx ops meta) (\<lambda>current.
          if current + 1 < keep_from then Inl (Rejected ''compact: keep_from exceeds current_seq + 1'')
          else rbind (redb (tx_begin tx)) (\<lambda>_.
               rbind (redb (tdrop_below W ops keep_from)) (\<lambda>ops'.
               rbind (redb (tinsert M meta ''oldest_seq'' (u64_to_le keep_from))) (\<lambda>meta'.
               rbind (redb (tx_commit tx)) (\<lambda>_. Inr (ops', meta')))))))"

definition read_ops :: "('o, u64, bytes) table_ops \<Rightarrow> ('m, string, bytes) table_ops \<Rightarrow> postcard_ops \<Rightarrow> tx
    \<Rightarrow> u64 \<Rightarrow> 'o \<Rightarrow> 'm \<Rightarrow> (u64 \<times> op) list result" where
  "read_ops W M P tx since0 ops meta =
     (let since = max since0 1
      in rbind (redb (tx_begin tx)) (\<lambda>_.
         rbind (read_oldest_seq M meta) (\<lambda>oldest.
         if since < oldest then Inl (Compacted oldest)
         else rbind (redb (trange_from W ops since)) (\<lambda>es.
              rmap_list (\<lambda>(k, v). rbind (pc_err (from_bytes P v)) (\<lambda>x. Inr (k, x))) es))))"

section \<open>The invariant\<close>

definition floor_is :: "(string \<rightharpoonup> bytes) \<Rightarrow> u64 \<Rightarrow> bool" where
  "floor_is mrows lo \<longleftrightarrow> (case mrows ''oldest_seq'' of None \<Rightarrow> lo = 1 | Some b \<Rightarrow> b = u64_to_le lo)"

text \<open>Numbering a batch from \<open>n\<close>.\<close>

definition numbered :: "nat \<Rightarrow> op list \<Rightarrow> (u64 \<times> op) list" where
  "numbered n xs = map (\<lambda>(i, x). (word_of_nat (n + i), x)) (enumerate 0 xs)"

text \<open>
  The table holds exactly the serialized history from the floor on; the history is numbered from 1.
\<close>

definition log_inv :: "postcard_ops \<Rightarrow> (u64 \<rightharpoonup> bytes) \<Rightarrow> (string \<rightharpoonup> bytes) \<Rightarrow> op list \<Rightarrow> bool" where
  "log_inv P orows mrows h \<longleftrightarrow> length h + 1 < 2 ^ 64 \<and>
     (\<exists>lo. floor_is mrows lo \<and> 1 \<le> unat lo \<and> unat lo \<le> length h + 1 \<and>
       (\<forall>k. (orows k \<noteq> None \<longleftrightarrow> unat lo \<le> unat k \<and> unat k \<le> length h)) \<and>
       (\<forall>k b. orows k = Some b \<longrightarrow> to_bytes P (h ! (unat k - 1)) = Inr b))"

lemma pc_err_Inr [simp]: "pc_err r = Inr x \<longleftrightarrow> r = Inr x"
  by (auto simp: pc_err_def split: sum.splits)

lemma floor_is_unique: "floor_is mr lo \<Longrightarrow> floor_is mr lo' \<Longrightarrow> lo' = lo"
  by (auto simp: floor_is_def split: option.splits)

lemma log_invD:
  assumes "log_inv P orows mr h" "floor_is mr lo"
  shows "1 \<le> unat lo" "unat lo \<le> length h + 1" "length h + 1 < 2 ^ 64"
    "orows k \<noteq> None \<longleftrightarrow> unat lo \<le> unat k \<and> unat k \<le> length h"
    "orows k = Some b \<Longrightarrow> to_bytes P (h ! (unat k - 1)) = Inr b"
  using assms floor_is_unique unfolding log_inv_def by blast+

lemma log_inv_floor: "log_inv P orows mr h \<Longrightarrow> \<exists>lo. floor_is mr lo"
  unfolding log_inv_def by blast

lemma read_oldest_floor:
  assumes "redb_table M mrows" "read_oldest_seq M meta = Inr r" "floor_is (mrows meta) lo"
  shows "r = lo"
proof -
  from assms(2) obtain v where g: "tget M meta ''oldest_seq'' = Inr v"
    and r: "(case v of
        Some b \<Rightarrow> rbind (try_into 8 (Encoding ''bad oldest_seq'') b) (\<lambda>b. Inr (u64_from_le b))
      | None \<Rightarrow> Inr 1) = Inr r"
    by (auto simp: read_oldest_seq_def rbind_Inr)
  from redb_table.get_ok [OF assms(1) g] r assms(3) show ?thesis
    by (auto simp: floor_is_def split: option.splits)
qed

locale op_log = ot: redb_table W orows + mt: redb_table M mrows + postcard P
  for W :: "('o, u64, bytes) table_ops" and orows and M :: "('m, string, bytes) table_ops" and mrows and P
begin

lemma log_last:
  assumes "log_inv P (orows ops) mr h" "tlast W ops = Inr l" "floor_is mr lo"
  shows "(case l of Some (k, _) \<Rightarrow> unat k = length h \<and> unat lo \<le> length h
     | None \<Rightarrow> unat lo = length h + 1)"
proof -
  note inv = log_invD [OF assms(1,3)]
  note dom = inv(4) and lo = inv(1,2) and h = inv(3)
  have top: "unat (word_of_nat (length h) :: u64) = length h" using h by (simp add: unat_of_nat)
  note last = ot.last_ok [OF assms(2)]
  show ?thesis
  proof (cases l)
    case None
    with last have "\<not> (unat lo \<le> length h)" using dom [of "word_of_nat (length h)"] top by auto
    with None lo show ?thesis by simp
  next
    case (Some p)
    obtain k w where p: "p = (k, w)" by fastforce
    with Some last have k: "orows ops k = Some w" and mx: "\<And>k'. orows ops k' \<noteq> None \<Longrightarrow> k' \<le> k" by auto
    from k dom [of k] have kk: "unat lo \<le> unat k" "unat k \<le> length h" by auto
    then have "orows ops (word_of_nat (length h)) \<noteq> None" using dom top by simp
    from mx [OF this] have "length h \<le> unat k" using top by (simp add: word_le_nat_alt)
    with kk Some p show ?thesis by simp
  qed
qed

lemma next_seq_ok:
  assumes inv: "log_inv P (orows ops) (mrows meta) h" and run: "next_seq W M ops meta = Inr nxt"
  shows "unat nxt = length h + 1"
proof -
  obtain lo where lo: "floor_is (mrows meta) lo" using log_inv_floor [OF inv] by blast
  from run obtain fl l where fl: "read_oldest_seq M meta = Inr fl" and l: "tlast W ops = Inr l"
    and nxt: "nxt = max (case l of Some (k, _) \<Rightarrow> k + 1 | None \<Rightarrow> 1) fl"
    by (auto simp: next_seq_def rbind_Inr)
  have fl': "fl = lo" using read_oldest_floor [OF mt.redb_table_axioms fl lo] .
  note d = log_invD [OF inv lo] and last = log_last [OF inv l lo]
  show ?thesis
  proof (cases l)
    case None
    with last d(1) show ?thesis by (simp add: nxt fl' max_def word_le_nat_alt)
  next
    case (Some p)
    obtain k w where p: "p = (k, w)" by fastforce
    have k: "unat k = length h" "unat lo \<le> length h" using last Some p by auto
    then have "unat (k + 1) = length h + 1" using d(3) by (simp add: unat_word_ariths)
    then show ?thesis using k Some p by (simp add: nxt fl' max_def word_le_nat_alt)
  qed
qed

lemma append_rows_ok:
  assumes "rfold (append_one W P nxt) (enumerate i xs) t = Inr t'" "unat nxt + i + length xs \<le> 2 ^ 64"
  shows "(unat nxt + i \<le> unat k \<and> unat k < unat nxt + i + length xs \<longrightarrow>
      (\<exists>b. to_bytes P (xs ! (unat k - (unat nxt + i))) = Inr b \<and> orows t' k = Some b)) \<and>
    (\<not> (unat nxt + i \<le> unat k \<and> unat k < unat nxt + i + length xs) \<longrightarrow> orows t' k = orows t k)"
  using assms
proof (induction xs arbitrary: i t)
  case (Cons x xs)
  from Cons.prems(1) obtain b t1 where b: "to_bytes P x = Inr b"
    and t1: "tinsert W t (nxt + word_of_nat i) b = Inr t1"
    and rest: "rfold (append_one W P nxt) (enumerate (Suc i) xs) t1 = Inr t'"
    by (auto simp: append_one_def rbind_Inr)
  have key: "unat (nxt + word_of_nat i) = unat nxt + i"
    using Cons.prems(2) by (simp add: unat_word_ariths unat_of_nat)
  have ins: "orows t1 k = (if unat k = unat nxt + i then Some b else orows t k)"
    using ot.insert_ok [OF t1] key by (auto simp: word_unat_eq_iff)
  have IH: "(unat nxt + Suc i \<le> unat k \<and> unat k < unat nxt + Suc i + length xs \<longrightarrow>
      (\<exists>b. to_bytes P (xs ! (unat k - (unat nxt + Suc i))) = Inr b \<and> orows t' k = Some b)) \<and>
    (\<not> (unat nxt + Suc i \<le> unat k \<and> unat k < unat nxt + Suc i + length xs) \<longrightarrow> orows t' k = orows t1 k)"
    using Cons.IH [OF rest] Cons.prems(2) by simp
  consider "unat k = unat nxt + i" | "unat nxt + Suc i \<le> unat k" | "unat k < unat nxt + i" by linarith
  then show ?case
  proof cases
    case 1
    with IH ins b show ?thesis by simp
  next
    case 2
    then have "(x # xs) ! (unat k - (unat nxt + i)) = xs ! (unat k - (unat nxt + Suc i))"
      by (simp add: nth_Cons' Suc_diff_le)
    with 2 IH ins show ?thesis by auto
  next
    case 3
    with IH ins show ?thesis by simp
  qed
qed auto

lemma append_ok:
  assumes inv: "log_inv P (orows ops) (mrows meta) h" and run: "append_ops W M P tx xs ops meta = Inr ((f, l), ops')"
    and room: "length h + length xs + 1 < 2 ^ 64"
  shows "log_inv P (orows ops') (mrows meta) (h @ xs)" "unat f = length h + 1" "unat l = length h + length xs"
proof -
  from run have ne: "xs \<noteq> []" and nxt: "next_seq W M ops meta = Inr f"
    and rows: "rfold (append_one W P f) (enumerate 0 xs) ops = Inr ops'"
    and l: "l = f + word_of_nat (length xs) - 1"
    by (auto simp: append_ops_def append_rows_def rbind_Inr split: if_splits)
  show f: "unat f = length h + 1" using next_seq_ok [OF inv nxt] .
  have len: "unat (word_of_nat (length xs) :: u64) = length xs" using room by (simp add: unat_of_nat)
  then have "unat (f + word_of_nat (length xs)) = length h + 1 + length xs"
    using room f by (simp add: unat_word_ariths)
  moreover have "(1 :: u64) \<le> f + word_of_nat (length xs)" using calculation by (simp add: word_le_nat_alt)
  ultimately show "unat l = length h + length xs" by (simp add: l unat_sub)
  obtain lo where lo: "floor_is (mrows meta) lo" using log_inv_floor [OF inv] by blast
  note d = log_invD [OF inv lo]
  have new: "(length h + 1 \<le> unat k \<and> unat k < length h + 1 + length xs \<longrightarrow>
      (\<exists>b. to_bytes P (xs ! (unat k - (length h + 1))) = Inr b \<and> orows ops' k = Some b)) \<and>
    (\<not> (length h + 1 \<le> unat k \<and> unat k < length h + 1 + length xs) \<longrightarrow> orows ops' k = orows ops k)" for k
    using append_rows_ok [OF rows, of k] room f by simp
  show "log_inv P (orows ops') (mrows meta) (h @ xs)"
    unfolding log_inv_def
  proof (intro conjI exI allI impI)
    show "length (h @ xs) + 1 < 2 ^ 64" using room by simp
    show "floor_is (mrows meta) lo" by (rule lo)
    show "1 \<le> unat lo" "unat lo \<le> length (h @ xs) + 1" using d(1,2) by auto
    show "orows ops' k \<noteq> None \<longleftrightarrow> unat lo \<le> unat k \<and> unat k \<le> length (h @ xs)" for k
    proof (cases "length h + 1 \<le> unat k \<and> unat k < length h + 1 + length xs")
      case True
      with new [of k] have "orows ops' k \<noteq> None" by auto
      with True d(2) show ?thesis by simp
    next
      case False
      with new [of k] d(4) [of k] d(2) show ?thesis by auto
    qed
    fix k b
    assume kb: "orows ops' k = Some b"
    show "to_bytes P ((h @ xs) ! (unat k - 1)) = Inr b"
    proof (cases "length h + 1 \<le> unat k \<and> unat k < length h + 1 + length xs")
      case True
      with new [of k] kb have "to_bytes P (xs ! (unat k - (length h + 1))) = Inr b" by auto
      moreover have "(h @ xs) ! (unat k - 1) = xs ! (unat k - (length h + 1))"
      proof -
        have "unat k - 1 = length h + (unat k - (length h + 1))" using True by simp
        then show ?thesis by (metis nth_append_length_plus)
      qed
      ultimately show ?thesis by simp
    next
      case False
      with new [of k] kb have old: "orows ops k = Some b" by simp
      with d(4) [of k] d(1) have "unat k - 1 < length h" by auto
      with d(5) [OF old] show ?thesis by (simp add: nth_append)
    qed
  qed
qed

lemma current_ok:
  assumes inv: "log_inv P (orows ops) (mrows meta) h" and run: "current_seq W M tx ops meta = Inr c"
  shows "unat c = length h"
proof -
  obtain lo where lo: "floor_is (mrows meta) lo" using log_inv_floor [OF inv] by blast
  from run obtain fl l where fl: "read_oldest_seq M meta = Inr fl" and l: "tlast W ops = Inr l"
    and c: "c = max (case l of Some (k, _) \<Rightarrow> k | None \<Rightarrow> 0) (saturating_sub fl 1)"
    by (auto simp: current_seq_def rbind_Inr)
  have fl': "fl = lo" using read_oldest_floor [OF mt.redb_table_axioms fl lo] .
  note d = log_invD [OF inv lo] and last = log_last [OF inv l lo]
  have one: "1 \<le> lo" using d(1) by (simp add: word_le_nat_alt)
  then have sub: "unat (saturating_sub lo 1) = unat lo - 1" by (simp add: saturating_sub_def unat_sub)
  show ?thesis
    using last sub d(1,2) by (cases l) (auto simp: c fl' max_def word_le_nat_alt split: prod.splits)
qed

lemma compact_ok:
  assumes inv: "log_inv P (orows ops) (mrows meta) h"
    and run: "compact_ops_through W M tx keep ops meta = Inr (ops', meta')"
  shows "log_inv P (orows ops') (mrows meta') h"
proof -
  obtain lo where lo: "floor_is (mrows meta) lo" using log_inv_floor [OF inv] by blast
  note d = log_invD [OF inv lo]
  from run obtain ol where "oldest_seq M tx meta = Inr ol" by (auto simp: compact_ops_through_def rbind_Inr)
  then have ol: "oldest_seq M tx meta = Inr lo"
    using read_oldest_floor [OF mt.redb_table_axioms _ lo] by (auto simp: oldest_seq_def rbind_Inr)
  show ?thesis
  proof (cases "keep \<le> lo")
    case True
    with run ol inv show ?thesis by (simp add: compact_ops_through_def)
  next
    case False
    from run ol False obtain c where c: "current_seq W M tx ops meta = Inr c" and le: "\<not> c + 1 < keep"
      and dr: "tdrop_below W ops keep = Inr ops'" and mi: "tinsert M meta ''oldest_seq'' (u64_to_le keep) = Inr meta'"
      by (auto simp: compact_ops_through_def rbind_Inr split: if_splits)
    have "unat (c + 1) = length h + 1" using current_ok [OF inv c] d(3) by (simp add: unat_word_ariths)
    with le have hi: "unat keep \<le> length h + 1" by (simp add: word_le_nat_alt word_less_nat_alt not_less)
    have lt: "unat lo < unat keep" using False by (simp add: word_le_nat_alt not_le)
    have r: "orows ops' k = (if k < keep then None else orows ops k)" for k using ot.drop_below_ok [OF dr] by simp
    have "floor_is (mrows meta') keep" using mt.insert_ok [OF mi] by (simp add: floor_is_def)
    moreover have "orows ops' k \<noteq> None \<longleftrightarrow> unat keep \<le> unat k \<and> unat k \<le> length h" for k
      using d(4) [of k] lt by (auto simp: r word_less_nat_alt)
    moreover have "to_bytes P (h ! (unat k - 1)) = Inr b" if "orows ops' k = Some b" for k b
      using that d(5) by (auto simp: r split: if_splits)
    ultimately show ?thesis using d(1,3) hi lt unfolding log_inv_def by (meson order_trans less_imp_le)
  qed
qed

lemma read_ok:
  assumes inv: "log_inv P (orows ops) (mrows meta) h" and run: "read_ops W M P tx since ops meta = Inr out"
  shows "out = drop (unat (max since 1) - 1) (numbered 1 h)"
proof -
  obtain lo where lo: "floor_is (mrows meta) lo" using log_inv_floor [OF inv] by blast
  note d = log_invD [OF inv lo]
  let ?s = "max since 1"
  have s1: "1 \<le> unat ?s" by (simp add: max_def word_le_nat_alt)
  from run obtain ol es where "read_oldest_seq M meta = Inr ol" and ge: "\<not> ?s < ol"
    and es: "trange_from W ops ?s = Inr es"
    and out: "rmap_list (\<lambda>(k, v). rbind (pc_err (from_bytes P v)) (\<lambda>x. Inr (k, x))) es = Inr out"
    by (auto simp: read_ops_def rbind_Inr Let_def split: if_splits)
  then have ge: "unat lo \<le> unat ?s"
    using read_oldest_floor [OF mt.redb_table_axioms _ lo] by (auto simp: word_less_nat_alt not_less)
  have mem: "(k, v) \<in> set es \<longleftrightarrow> ?s \<le> k \<and> orows ops k = Some v" for k v using ot.range_from_mem [OF es] .
  have keys: "map fst es = map word_of_nat [unat ?s ..< length h + 1]" (is "_ = ?ws")
  proof (rule strict_sorted_equal)
    show "sorted_wrt (<) (map fst es)" using ot.range_from_ok [OF es] by (simp add: bt_wf_def)
    have "sorted_wrt (\<lambda>x y. (word_of_nat x :: u64) < word_of_nat y) [unat ?s ..< length h + 1]"
      by (rule sorted_wrt_mono_rel [OF _ sorted_wrt_upt]) (use d(3) in \<open>auto simp: word_less_nat_alt unat_of_nat\<close>)
    then show "sorted_wrt (<) ?ws" by (simp only: sorted_wrt_map)
    have "set ?ws = set (map fst es)"
    proof (intro set_eqI iffI)
      fix k
      assume "k \<in> set ?ws"
      then obtain i where i: "k = word_of_nat i" "unat ?s \<le> i" "i \<le> length h" by auto
      then have u: "unat k = i" using d(3) by (simp add: unat_of_nat)
      with i ge d(4) [of k] obtain v where "orows ops k = Some v" by auto
      moreover have "?s \<le> k" using u i by (simp add: word_le_nat_alt)
      ultimately have "(k, v) \<in> set es" using mem by blast
      then show "k \<in> set (map fst es)" by force
    next
      fix k
      assume "k \<in> set (map fst es)"
      then obtain v where "(k, v) \<in> set es" by auto
      with mem have "?s \<le> k" "orows ops k = Some v" by auto
      then have "unat ?s \<le> unat k" "unat k \<le> length h" using d(4) [of k] by (auto simp: word_le_nat_alt)
      then have "unat k \<in> set [unat ?s ..< length h + 1]" unfolding set_upt atLeastLessThan_iff by linarith
      then have "word_of_nat (unat k) \<in> set ?ws" unfolding set_map by (rule imageI)
      then show "k \<in> set ?ws" by simp
    qed
    then show "set (map fst es) = set ?ws" by (rule sym)
  qed
  have "out = map (\<lambda>(k, v). (k, h ! (unat k - 1))) es"
  proof (rule rmap_list_map [OF out])
    fix e y
    assume e: "e \<in> set es" and y: "(\<lambda>(k, v). rbind (pc_err (from_bytes P v)) (\<lambda>x. Inr (k, x))) e = Inr y"
    obtain k v where kv: "e = (k, v)" by fastforce
    with e mem have "orows ops k = Some v" by auto
    from decode_encode [OF d(5) [OF this]] y kv show "y = (\<lambda>(k, v). (k, h ! (unat k - 1))) e" by (simp add: rbind_Inr)
  qed
  also have "\<dots> = map (\<lambda>k. (k, h ! (unat k - 1))) (map fst es)" by (simp add: case_prod_beta comp_def)
  also have "\<dots> = map (\<lambda>i. (word_of_nat i, h ! (i - 1))) [unat ?s ..< length h + 1]"
    unfolding keys using d(3) by (auto simp: unat_of_nat)
  also have "\<dots> = drop (unat ?s - 1) (numbered 1 h)"
    using s1 by (intro nth_equalityI) (auto simp: numbered_def nth_enumerate_eq add.commute simp del: upt_Suc)
  finally show ?thesis .
qed

lemma read_compacted:
  assumes inv: "log_inv P (orows ops) (mrows meta) h" and run: "read_ops W M P tx since ops meta = Inl (Compacted lo)"
  shows "max since 1 < lo \<and> unat lo \<le> length h + 1"
proof -
  obtain l where l: "floor_is (mrows meta) l" using log_inv_floor [OF inv] by blast
  have no: "read_oldest_seq M meta \<noteq> Inl (Compacted lo)"
    by (auto simp: read_oldest_seq_def rbind_Inl redb_Inl try_into_Inl split: option.splits)
  have "rmap_list (\<lambda>(k, v). rbind (pc_err (from_bytes P v)) (\<lambda>x. Inr (k, x))) es \<noteq> Inl (Compacted lo)" for es :: "(u64 \<times> bytes) list"
    by (auto dest!: rmap_list_Inl simp: rbind_Inl pc_err_def split: sum.splits)
  with run no have r: "read_oldest_seq M meta = Inr lo" and lt: "max since 1 < lo"
    by (auto simp: read_ops_def rbind_Inl redb_Inl Let_def split: if_splits)
  have "lo = l" using read_oldest_floor [OF mt.redb_table_axioms r l] .
  with lt log_invD(2) [OF inv l] show ?thesis by simp
qed

end

text \<open>
  Every log that appends and compactions build, starting from an empty table, with the list of all
  operations ever appended.
\<close>

inductive log_reach :: "('o, u64, bytes) table_ops \<Rightarrow> ('o \<Rightarrow> u64 \<rightharpoonup> bytes) \<Rightarrow> ('m, string, bytes) table_ops
    \<Rightarrow> ('m \<Rightarrow> string \<rightharpoonup> bytes) \<Rightarrow> postcard_ops \<Rightarrow> 'o \<Rightarrow> 'm \<Rightarrow> op list \<Rightarrow> bool"
  for W orows M mrows P where
  fresh: "orows ops = Map.empty \<Longrightarrow> mrows meta ''oldest_seq'' = None \<Longrightarrow> log_reach W orows M mrows P ops meta []"
| append: "log_reach W orows M mrows P ops meta h \<Longrightarrow> append_ops W M P tx xs ops meta = Inr (r, ops') \<Longrightarrow>
    length h + length xs + 1 < 2 ^ 64 \<Longrightarrow> log_reach W orows M mrows P ops' meta (h @ xs)"
| compact: "log_reach W orows M mrows P ops meta h \<Longrightarrow>
    compact_ops_through W M tx keep ops meta = Inr (ops', meta') \<Longrightarrow> log_reach W orows M mrows P ops' meta' h"

lemma log_reach_inv:
  assumes "op_log W orows M mrows P" and "log_reach W orows M mrows P ops meta h"
  shows "log_inv P (orows ops) (mrows meta) h"
  using assms(2)
proof (induction rule: log_reach.induct)
  case (fresh ops meta)
  then show ?case by (auto simp: log_inv_def floor_is_def intro!: exI [of _ 1])
next
  case (append ops meta h tx xs r ops')
  then show ?case by (cases r) (auto intro: op_log.append_ok(1) [OF assms(1)])
next
  case (compact ops meta h tx keep ops' meta')
  then show ?case by (blast intro: op_log.compact_ok [OF assms(1)])
qed

section \<open>Properties\<close>


text \<open>A serializer for node removals only, for concrete runs.\<close>

definition removal_postcard :: postcard_ops where
  "removal_postcard = \<lparr>
     to_bytes = (\<lambda>x. case x of RemoveNode i \<Rightarrow> Inr (u128_to_be (node_u128 i)) | _ \<Rightarrow> Inl ''unsupported''),
     from_bytes = (\<lambda>b. Inr (RemoveNode (NodeId (u128_from_be b)))) \<rparr>"

interpretation removals: postcard removal_postcard
proof unfold_locales
  fix x b
  assume "to_bytes removal_postcard x = Inr b"
  then obtain i where "x = RemoveNode i" "b = u128_to_be (node_u128 i)"
    by (auto simp: removal_postcard_def split: op.splits)
  then show "from_bytes removal_postcard b = Inr x" by (cases i) (simp add: removal_postcard_def)
qed

interpretation rbt_log: op_log rbt_ops RBT.lookup rbt_ops RBT.lookup removal_postcard
  by (intro op_log.intro rbt_tab.redb_table_axioms removals.postcard_axioms)

definition tx_ok :: tx where "tx_ok = \<lparr>tx_begin = Inr (), tx_commit = Inr ()\<rparr>"

lemma tlast_empty [simp]: "tlast rbt_ops RBT.empty = Inr None"
  by (simp add: rbt_ops_def)

lemma fresh_log: "log_reach rbt_ops RBT.lookup rbt_ops RBT.lookup removal_postcard RBT.empty RBT.empty []"
  by (rule log_reach.fresh) simp_all

lemma append_on_empty:
  "append_ops rbt_ops rbt_ops removal_postcard tx_ok [RemoveNode (NodeId 5)] RBT.empty RBT.empty =
     Inr ((1, 1), RBT.insert 1 (u128_to_be 5) RBT.empty)"
  by (simp add: append_ops_def tx_ok_def next_seq_def read_oldest_seq_def append_rows_def append_one_def
      removal_postcard_def pc_err_def)




end
