(* ===== verification/Floats.thy ===== *)
theory Floats
  imports Records
begin

text \<open>
  Single-precision numbers. A number is its bit pattern; arithmetic and rounding are the record \<open>f32_ops\<close>, so that results
  hold however the hardware rounds, and the operations that only look at bits (absolute value and the total order of
  \<^verbatim>\<open>f32::total_cmp\<close>) are defined on the patterns.
\<close>

section \<open>Arithmetic\<close>

record f32_ops =
  f_add :: "f32 \<Rightarrow> f32 \<Rightarrow> f32"
  f_sub :: "f32 \<Rightarrow> f32 \<Rightarrow> f32"
  f_mul :: "f32 \<Rightarrow> f32 \<Rightarrow> f32"
  f_div :: "f32 \<Rightarrow> f32 \<Rightarrow> f32"
  f_neg :: "f32 \<Rightarrow> f32"
  f_ln :: "f32 \<Rightarrow> f32"
  f_exp2 :: "f32 \<Rightarrow> f32"
  f_sqrt :: "f32 \<Rightarrow> f32"
  f_lt :: "f32 \<Rightarrow> f32 \<Rightarrow> bool"
  f_eq :: "f32 \<Rightarrow> f32 \<Rightarrow> bool"
  f_finite :: "f32 \<Rightarrow> bool"
  f_of_u64 :: "u64 \<Rightarrow> f32"
  f_of_u32 :: "u32 \<Rightarrow> f32"
  f_of_i64 :: "i64 \<Rightarrow> f32"
  \<comment> \<open>\<^verbatim>\<open>x.round() as i32\<close>, a saturating cast\<close>
  f_round :: "f32 \<Rightarrow> 32 word"

definition f_zero :: f32 where "f_zero = 0"
definition f_half :: f32 where "f_half = 0x3F000000"
definition f_one :: f32 where "f_one = 0x3F800000"

definition f_le :: "f32_ops \<Rightarrow> f32 \<Rightarrow> f32 \<Rightarrow> bool" where
  "f_le F a b \<longleftrightarrow> f_lt F a b \<or> f_eq F a b"

section \<open>Operations on the patterns\<close>

definition f32_abs :: "f32 \<Rightarrow> f32" where
  "f32_abs x = x AND 0x7FFFFFFF"

definition f_infinity :: f32 where "f_infinity = 0x7F800000"

text \<open>
  \<^verbatim>\<open>f32::total_cmp\<close>: both patterns as signed integers, the magnitude bits of negative ones flipped.
\<close>

definition total_bits :: "f32 \<Rightarrow> int" where
  "total_bits x = sint (if x <s 0 then x XOR 0x7FFFFFFF else x)"

definition total_less :: "f32 \<Rightarrow> f32 \<Rightarrow> bool" where
  "total_less a b \<longleftrightarrow> total_bits a < total_bits b"

lemma total_bits_inject [simp]: "total_bits a = total_bits b \<longleftrightarrow> a = b"
proof
  have neg: "(x XOR 0x7FFFFFFF) <s 0 \<longleftrightarrow> x <s 0" for x :: f32
    using bit_last_iff [of x] bit_last_iff [of "x XOR 0x7FFFFFFF"] by (simp add: word_sless_alt bit_xor_iff bit_simps)
  assume "total_bits a = total_bits b"
  then have eq: "(if a <s 0 then a XOR 0x7FFFFFFF else a) = (if b <s 0 then b XOR 0x7FFFFFFF else b)"
    by (simp add: total_bits_def signed_word_eqI)
  have "a <s 0 \<longleftrightarrow> b <s 0" using eq neg [of a] neg [of b] by (auto split: if_splits)
  moreover have "x = y" if "x XOR 0x7FFFFFFF = y XOR 0x7FFFFFFF" for x y :: f32
    using arg_cong [OF that, of "\<lambda>z. z XOR 0x7FFFFFFF"] by (simp add: xor.assoc)
  ultimately show "a = b" using eq by (auto split: if_splits)
qed simp

section \<open>A concrete instance\<close>

text \<open>Arithmetic on bit patterns: comparison of patterns orders the non-negative numbers.\<close>

definition pattern_floats :: f32_ops where
  "pattern_floats = \<lparr>f_add = (+), f_sub = (-), f_mul = (*), f_div = (\<lambda>a b. a div b), f_neg = uminus, f_ln = (\<lambda>x. x), f_exp2 = (\<lambda>x. x), f_sqrt = (\<lambda>x. x),
     f_lt = (<), f_eq = (=), f_finite = (\<lambda>_. True), f_of_u64 = (\<lambda>n. if n = 0 then 0 else ucast n OR 1), f_of_u32 = (\<lambda>n. n), f_of_i64 = ucast,
     f_round = (\<lambda>x. x)\<rparr>"

end
