(* ===== verification/Quant.thy ===== *)
theory Quant
  imports Floats
begin

text \<open>
  Scalar quantization (\<^verbatim>\<open>crates/topodb/src/quant.rs\<close>): a vector is stored as signed 8-bit codes scaled by its largest
  component, and vectors are compared by the cosine of their codes, accumulated in 64-bit integers. A code is a byte read
  by \<^const>\<open>sint\<close>. The theorems say that codes never use the value -128, that the accumulation cannot overflow, and that a
  score exists exactly when neither side is zero.
\<close>

type_synonym codes = "u8 list"

definition max_abs :: "f32_ops \<Rightarrow> f32 list \<Rightarrow> f32" where
  "max_abs F v = foldl (\<lambda>m x. let a = f32_abs x in if f_lt F m a then a else m) f_zero v"

definition f_127 :: f32 where "f_127 = 0x42FE0000"

definition clamp_code :: "32 word \<Rightarrow> u8" where
  "clamp_code c = ucast (if c <s - 127 then - 127 else if 127 <s c then 127 else c)"

definition quantize :: "f32_ops \<Rightarrow> f32 list \<Rightarrow> f32 \<times> codes" where
  "quantize F v =
     (let m = max_abs F v
      in if f_eq F m f_zero \<or> \<not> f32_is_finite m then (f_zero, replicate (length v) 0)
         else let s = f_div F f_127 m in (m, map (\<lambda>x. clamp_code (f_round F (f_mul F x s))) v))"

definition dequantize :: "f32_ops \<Rightarrow> f32 \<Rightarrow> codes \<Rightarrow> f32 list" where
  "dequantize F scale cs = map (\<lambda>c. f_div F (f_mul F (f_of_i64 F (scast c)) scale) f_127) cs"

definition is_zero :: "codes \<Rightarrow> bool" where
  "is_zero cs \<longleftrightarrow> (\<forall>c \<in> set cs. c = 0)"

text \<open>The three sums of \<^verbatim>\<open>cosine_q\<close>, in one pass over the shorter of the two vectors.\<close>

definition cosine_sums :: "codes \<Rightarrow> codes \<Rightarrow> i64 \<times> i64 \<times> i64" where
  "cosine_sums a b = foldl (\<lambda>(dot, na, nb) (x, y).
     let x = scast x; y = scast y in (dot + x * y, na + x * x, nb + y * y)) (0, 0, 0) (zip a b)"

definition cosine_q :: "f32_ops \<Rightarrow> codes \<Rightarrow> codes \<Rightarrow> f32 option" where
  "cosine_q F a b =
     (case cosine_sums a b of (dot, na, nb) \<Rightarrow>
        if na = 0 \<or> nb = 0 then None
        else Some (f_div F (f_of_i64 F dot) (f_mul F (f_sqrt F (f_of_i64 F na)) (f_sqrt F (f_of_i64 F nb)))))"

section \<open>Codes\<close>

lemma length_quantize [simp]: "length (snd (quantize F v)) = length v"
  by (simp add: quantize_def Let_def)

lemma clamp_code_bounds: "- 127 \<le> sint (clamp_code c) \<and> sint (clamp_code c) \<le> 127"
proof -
  let ?c = "if c <s - 127 then - 127 else if 127 <s c then 127 else c"
  have "- 127 \<le> sint ?c \<and> sint ?c \<le> 127" by (auto simp: word_sless_alt)
  moreover have "sint (ucast ?c :: u8) = signed_take_bit 7 (sint ?c)"
    by (simp only: sint_uint [of ?c] signed_take_bit_signed_take_bit) (simp add: signed_ucast_eq)
  ultimately have "sint (ucast ?c :: u8) = sint ?c" by (simp add: signed_take_bit_int_eq_self)
  with \<open>- 127 \<le> sint ?c \<and> sint ?c \<le> 127\<close> show ?thesis by (simp add: clamp_code_def)
qed

section \<open>The accumulation\<close>

text \<open>The exact sums.\<close>

definition exact_sums :: "codes \<Rightarrow> codes \<Rightarrow> int \<times> int \<times> int" where
  "exact_sums a b = (let ps = zip a b in
     (\<Sum>(x, y) \<leftarrow> ps. sint x * sint y, \<Sum>(x, y) \<leftarrow> ps. sint x * sint x, \<Sum>(x, y) \<leftarrow> ps. sint y * sint y))"

lemma cosine_sums_of_int:
  "cosine_sums a b = (case exact_sums a b of (d, na, nb) \<Rightarrow> (of_int d, of_int na, of_int nb))"
proof -
  have "foldl (\<lambda>(dot, na, nb) (x, y). let x = scast x; y = scast y in (dot + x * y, na + x * x, nb + y * y)) (d, p, q) ps =
      (d + of_int (\<Sum>(x, y) \<leftarrow> ps. sint x * sint y), p + of_int (\<Sum>(x, y) \<leftarrow> ps. sint x * sint x), q + of_int (\<Sum>(x, y) \<leftarrow> ps. sint y * sint y))"
    for d p q :: i64 and ps :: "(u8 \<times> u8) list"
    by (induction ps arbitrary: d p q) (auto simp: Let_def algebra_simps)
  from this [of 0 0 0] show ?thesis by (simp add: cosine_sums_def exact_sums_def Let_def)
qed

lemma code_square: "0 \<le> sint x * sint x \<and> sint x * sint x \<le> 16384" for x :: u8
proof -
  have b: "- 128 \<le> sint x" "sint x \<le> 127" using sint_greater_eq [of x] sint_less [of x] by simp_all
  then have "\<bar>sint x\<bar> \<le> 128" by linarith
  then have "\<bar>sint x\<bar> * \<bar>sint x\<bar> \<le> 128 * 128" by (intro mult_mono) simp_all
  then show ?thesis by (simp add: abs_mult [symmetric] abs_mult_self_eq)
qed

lemma square_sum_bounds: "0 \<le> (\<Sum>x \<leftarrow> xs. sint x * sint x) \<and> (\<Sum>x \<leftarrow> xs. sint x * sint x) \<le> 16384 * int (length xs)" for xs :: codes
proof (induction xs)
  case (Cons x xs)
  with code_square [of x] show ?case by simp
qed simp

lemma square_sum_zero: "(\<Sum>x \<leftarrow> xs. sint x * sint x) = 0 \<longleftrightarrow> is_zero xs" for xs :: codes
proof (induction xs)
  case (Cons x xs)
  have "0 \<le> (\<Sum>x \<leftarrow> xs. sint x * sint x)" "0 \<le> sint x * sint x" using square_sum_bounds [of xs] code_square [of x] by blast+
  then have "(\<Sum>x \<leftarrow> x # xs. sint x * sint x) = 0 \<longleftrightarrow> sint x * sint x = 0 \<and> (\<Sum>x \<leftarrow> xs. sint x * sint x) = 0"
    by (simp only: list.map sum_list.Cons add_nonneg_eq_0_iff)
  with Cons show ?case by (auto simp: is_zero_def signed_eq_0_iff)
qed (simp add: is_zero_def)

lemma norms:
  assumes "length a = length b"
  shows "exact_sums a b = (\<Sum>(x, y) \<leftarrow> zip a b. sint x * sint y, \<Sum>x \<leftarrow> a. sint x * sint x, \<Sum>x \<leftarrow> b. sint x * sint x)"
  using assms by (induction a b rule: list_induct2) (auto simp: exact_sums_def Let_def)

text \<open>The dot product is bounded by the mean of the two norms.\<close>

lemma dot_bound: "2 * \<bar>\<Sum>(x, y) \<leftarrow> zip a b. sint x * sint y\<bar> \<le> (\<Sum>x \<leftarrow> a. sint x * sint x) + (\<Sum>x \<leftarrow> b. sint x * sint x)"
  if "length a = length b" for a b :: codes
  using that
proof (induction a b rule: list_induct2)
  case (Cons x a y b)
  have "0 \<le> (sint x - sint y) * (sint x - sint y)" "0 \<le> (sint x + sint y) * (sint x + sint y)" by simp_all
  then have "2 * (sint x * sint y) \<le> sint x * sint x + sint y * sint y" "- (2 * (sint x * sint y)) \<le> sint x * sint x + sint y * sint y"
    by (simp_all add: algebra_simps)
  moreover have "2 * \<bar>p + q\<bar> \<le> (xx + s) + (yy + t)" if "2 * \<bar>q\<bar> \<le> s + t" "2 * p \<le> xx + yy" "- (2 * p) \<le> xx + yy" for p q xx yy s t :: int
    using that by (simp add: abs_if split: if_splits)
  ultimately show ?case using Cons.IH by simp
qed simp

lemma sint_of_int64: "sint (of_int z :: i64) = z" if "- (2 ^ 63) \<le> z" "z < 2 ^ 63"
  using that by (simp add: signed_of_int signed_take_bit_int_eq_self)

text \<open>The three sums fit 64 bits for every vector of fewer than \<open>2 ^ 48\<close> components.\<close>

lemma cosine_sums_exact:
  assumes "length a = length b" "length a < 2 ^ 48"
  shows "(case cosine_sums a b of (d, na, nb) \<Rightarrow> (sint d, sint na, sint nb)) =
    (\<Sum>(x, y) \<leftarrow> zip a b. sint x * sint y, \<Sum>x \<leftarrow> a. sint x * sint x, \<Sum>x \<leftarrow> b. sint x * sint x)"
proof -
  have "16384 * int (length a) < 2 ^ 62" "16384 * int (length b) < 2 ^ 62" using assms by simp_all
  then have "0 \<le> (\<Sum>x \<leftarrow> a. sint x * sint x)" "(\<Sum>x \<leftarrow> a. sint x * sint x) < 2 ^ 62"
    "0 \<le> (\<Sum>x \<leftarrow> b. sint x * sint x)" "(\<Sum>x \<leftarrow> b. sint x * sint x) < 2 ^ 62"
    using square_sum_bounds [of a] square_sum_bounds [of b] by linarith+
  with dot_bound [OF assms(1)] show ?thesis
    by (simp add: cosine_sums_of_int norms [OF assms(1)] sint_of_int64 abs_le_iff)
qed

lemma cosine_q_None:
  assumes "length a = length b" "length a < 2 ^ 48"
  shows "cosine_q F a b = None \<longleftrightarrow> is_zero a \<or> is_zero b"
proof -
  obtain d na nb where s: "cosine_sums a b = (d, na, nb)" by (metis prod_cases3)
  have "sint na = (\<Sum>x \<leftarrow> a. sint x * sint x)" "sint nb = (\<Sum>x \<leftarrow> b. sint x * sint x)" using cosine_sums_exact [OF assms] by (simp_all add: s)
  then have "na = 0 \<longleftrightarrow> is_zero a" "nb = 0 \<longleftrightarrow> is_zero b" using square_sum_zero by (metis signed_eq_0_iff)+
  then show ?thesis by (simp add: cosine_q_def s)
qed

end
