(* ===== verification/HnswFormat.thy ===== *)
theory HnswFormat
  imports Quant Adj
begin

text \<open>
  The rows and parameters of the nearest-neighbour index (\<^verbatim>\<open>crates/topodb/src/hnsw.rs\<close>, lines 18-174): tuning parameters
  and their validation, the header of a cluster, the link rows and their keys, and the level a node is given by its id.
\<close>

section \<open>Parameters\<close>

record hnsw_params =
  hp_version :: u32
  hp_m :: u32
  hp_m0 :: u32
  hp_ef_construction :: u32
  hp_level_cap :: u8
  hp_build_threshold :: u64
  hp_rebuild_num :: u32
  hp_rebuild_den :: u32

definition default_params :: hnsw_params where
  "default_params = \<lparr>hp_version = 3, hp_m = 16, hp_m0 = 32, hp_ef_construction = 128, hp_level_cap = 16,
     hp_build_threshold = 1024, hp_rebuild_num = 3, hp_rebuild_den = 10\<rparr>"

text \<open>\<^verbatim>\<open>is_power_of_two\<close>: exactly one bit is set.\<close>

definition is_power_of_two :: "u32 \<Rightarrow> bool" where
  "is_power_of_two w \<longleftrightarrow> w \<noteq> 0 \<and> w AND (w - 1) = 0"

definition validate_params :: "hnsw_params \<Rightarrow> unit result" where
  "validate_params p =
     (if hp_m p < 2 \<or> \<not> is_power_of_two (hp_m p) then Inl (Rejected ''hnsw m must be a power of two >= 2'')
      else if hp_m0 p < hp_m p then Inl (Rejected ''hnsw m0 must be >= m'')
      else if hp_ef_construction p < hp_m p then Inl (Rejected ''hnsw ef_construction must be >= m'')
      else if hp_rebuild_den p = 0 \<or> hp_rebuild_den p \<le> hp_rebuild_num p then Inl (Rejected ''hnsw rebuild ratio must be a proper fraction'')
      else if hp_build_threshold p < 2 then Inl (Rejected ''hnsw build_threshold must be >= 2'')
      else Inr ())"

section \<open>Rows\<close>

definition HNSW_META_FORMAT_V0 :: u8 where "HNSW_META_FORMAT_V0 = 0"

record cluster_meta =
  cm_format :: u8
  cm_built :: bool
  cm_entry_slot :: u64
  cm_entry_level :: u8
  cm_graph_len :: u64
  cm_stale :: u64

record link_row =
  lr_tomb :: bool
  lr_neighbors :: "u64 list"

definition meta_key :: "u32 \<Rightarrow> u32 \<Rightarrow> bytes" where
  "meta_key model scope = u32_to_be model @ u32_to_be scope"

definition link_prefix :: "u32 \<Rightarrow> u32 \<Rightarrow> bytes" where
  "link_prefix model scope = meta_key model scope"

definition link_key :: "u32 \<Rightarrow> u32 \<Rightarrow> u64 \<Rightarrow> u8 \<Rightarrow> bytes" where
  "link_key model scope slot level = meta_key model scope @ u64_to_be slot @ [level]"

section \<open>Levels\<close>

definition splitmix64 :: "u64 \<Rightarrow> u64" where
  "splitmix64 x =
     (let x = x + 0x9E3779B97F4A7C15;
          z = (x XOR drop_bit 30 x) * 0xBF58476D1CE4E5B9;
          z = (z XOR drop_bit 27 z) * 0x94D049BB133111EB
      in z XOR drop_bit 31 z)"

definition leading_zeros :: "'a::len word \<Rightarrow> nat" where
  "leading_zeros w = length (takeWhile (\<lambda>i. \<not> bit w i) (rev [0..<LENGTH('a)]))"

definition trailing_zeros :: "'a::len word \<Rightarrow> nat" where
  "trailing_zeros w = length (takeWhile (\<lambda>i. \<not> bit w i) [0..<LENGTH('a)])"

text \<open>A parameter \<open>m\<close> that is odd makes the level a division by zero, which panics.\<close>

definition level_for :: "node_id \<Rightarrow> u32 \<Rightarrow> u8 \<Rightarrow> u8 result" where
  "level_for i m level_cap =
     (let v = node_u128 i;
          h = splitmix64 (splitmix64 (ucast (drop_bit 64 v)) XOR ucast v);
          bits_per_level = trailing_zeros m
      in if bits_per_level = 0 then Inl (panicked ''attempt to divide by zero'')
         else Inr (min (word_of_nat (leading_zeros h div bits_per_level)) level_cap))"

lemma key_inject [simp]:
  "meta_key m c = meta_key m' c' \<longleftrightarrow> m = m' \<and> c = c'"
  "link_key m c s l = link_key m' c' s' l' \<longleftrightarrow> m = m' \<and> c = c' \<and> s = s' \<and> l = l'"
  by (simp_all add: meta_key_def link_key_def)

text \<open>Validated parameters give every node a level, at most the cap and at most 64.\<close>

lemma trailing_zeros_even: "0 < trailing_zeros w \<longleftrightarrow> \<not> bit w 0" for w :: "'a::len word"
  by (simp add: trailing_zeros_def upt_conv_Cons)

lemma leading_zeros_le: "leading_zeros w \<le> LENGTH('a)" for w :: "'a::len word"
  using length_takeWhile_le [of "\<lambda>i. \<not> bit w i" "rev [0..<LENGTH('a)]"] by (simp add: leading_zeros_def)

lemma validated_even:
  assumes "validate_params p = Inr ()"
  shows "\<not> bit (hp_m p) 0"
proof
  assume odd: "bit (hp_m p) 0"
  have p: "2 \<le> hp_m p" "hp_m p AND (hp_m p - 1) = 0"
    using assms by (auto simp: validate_params_def is_power_of_two_def not_less split: if_splits)
  have "take_bit 1 (hp_m p) = 1" using odd by (simp add: bit_0 take_bit_Suc mod_2_eq_odd)
  then have "push_bit 1 (drop_bit 1 (hp_m p)) + 1 = hp_m p" using bits_ident [of 1 "hp_m p"] by argo
  then have pred: "push_bit 1 (drop_bit 1 (hp_m p)) = hp_m p - 1" by (simp only: eq_diff_eq)
  have "\<not> bit (hp_m p) n" if "0 < n" for n
    using that arg_cong [OF p(2), of "\<lambda>w. bit w n"] bit_imp_le_length [of "hp_m p" n]
    unfolding pred [symmetric] bit_and_iff bit_push_bit_iff bit_drop_bit_eq by auto
  then have "hp_m p = 1" using odd by (intro bit_word_eqI) (auto simp: bit_1_iff intro: ccontr)
  with p(1) show False by (simp add: word_le_nat_alt)
qed

lemma level_for_ok:
  assumes "validate_params p = Inr ()"
  obtains l where "level_for i (hp_m p) (hp_level_cap p) = Inr l" "l \<le> hp_level_cap p" "l \<le> 64"
proof -
  have bits: "trailing_zeros (hp_m p) \<noteq> 0" using validated_even [OF assms] trailing_zeros_even [of "hp_m p"] by simp
  have "leading_zeros h div trailing_zeros (hp_m p) \<le> 64" for h :: u64
    using leading_zeros_le [of h] div_le_dividend [of "leading_zeros h" "trailing_zeros (hp_m p)"]
    by (simp del: div_le_dividend)
  then have "(word_of_nat (leading_zeros h div trailing_zeros (hp_m p)) :: u8) \<le> 64" for h :: u64
    by (simp add: word_le_nat_alt unat_of_nat) (meson le_trans mod_less_eq_dividend)
  then show thesis using that bits by (simp add: level_for_def Let_def min.coboundedI1)
qed

end
