(* ===== verification/Store.thy ===== *)
theory Store
  imports Disk PropIndex FtsIndex OpLog HnswFormat
begin

text \<open>
  The tables of a database and the record-level operations on them
  (\<^verbatim>\<open>crates/topodb/src/storage.rs\<close>, the free functions, and \<^verbatim>\<open>vector_store.rs\<close>, lines 37-193). The
  record \<open>store\<close> is the state of a write transaction: every table, the in-memory mirrors and the
  journal. The record \<open>env\<close> gathers what the definitions take from outside: the calls of the storage
  library per table type, the serializer, the compressor, the Unicode tables, floating-point
  arithmetic, the stemmer, and the index and graph parameters the database is opened with.
\<close>

section \<open>State and environment\<close>

record ('b, 'd, 'l, 'm, 'o) store = "('b, 'd) interning" +
  nodes :: 'b
  edges :: 'b
  vector_dims :: 'b
  vectors :: 'b
  embedding_ref :: 'b
  meta :: 'm
  node_slots :: 'b
  node_ids :: 'b
  edge_slots :: 'b
  edge_ids :: 'b
  out_adj :: 'b
  in_adj :: 'b
  prop_table :: 'b
  label_index :: 'l
  hnsw_links :: 'b
  hnsw_meta :: 'b
  postings :: 'b
  fts_docs :: 'b
  fts_stats :: 'b
  ops_table :: 'o

type_synonym qvec = "f32 \<times> codes"

record ('b, 'd, 'l, 'm, 'o) env =
  eB :: "('b, bytes, bytes) table_ops"
  eD :: "('d, bytes, string) table_ops"
  eL :: "('l, bytes, u64) table_ops"
  eM :: "('m, string, bytes) table_ops"
  eO :: "('o, u64, bytes) table_ops"
  lz :: lz4
  uni :: unicode
  pc_op :: postcard_ops
  pc_node :: "node_record_disk_v3 serde"
  pc_edge :: "edge_record_disk_v4 serde"
  pc_ref :: "(u32 \<times> u32) serde"
  pc_qvec :: "qvec serde"
  pc_meta :: "cluster_meta serde"
  pc_links :: "link_row serde"
  fp :: f32_ops
  hparams :: hnsw_params
  stemmer :: "string \<Rightarrow> string"
  pc_fts :: fts_codecs
  spec :: index_spec

section \<open>Vector rows\<close>

definition vector_key :: "u32 \<Rightarrow> u32 \<Rightarrow> u64 \<Rightarrow> bytes" where
  "vector_key model scope slot = u32_to_be model @ u32_to_be scope @ u64_to_be slot"

definition encode_ref :: "('b, 'd, 'l, 'm, 'o) env \<Rightarrow> u32 \<Rightarrow> u32 \<Rightarrow> bytes result" where
  "encode_ref E model scope = pc_err (ser (pc_ref E) (model, scope))"

definition decode_ref :: "('b, 'd, 'l, 'm, 'o) env \<Rightarrow> bytes \<Rightarrow> (u32 \<times> u32) result" where
  "decode_ref E b = pc_err (de (pc_ref E) b)"

text \<open>The current \<open>(model, scope)\<close> of a slot, if it has an embedding.\<close>

definition read_ref :: "('b, 'd, 'l, 'm, 'o) env \<Rightarrow> 'b \<Rightarrow> u64 \<Rightarrow> (u32 \<times> u32) option result" where
  "read_ref E refs slot =
     rbind (redb (tget (eB E) refs (slot_key slot))) (\<lambda>v. case v of
        Some g \<Rightarrow> rbind (decode_ref E g) (\<lambda>r. Inr (Some r))
      | None \<Rightarrow> Inr None)"

definition put_vector :: "('b, 'd, 'l, 'm, 'o) env \<Rightarrow> u32 \<Rightarrow> u32 \<Rightarrow> u64 \<Rightarrow> f32 list \<Rightarrow> 'b \<Rightarrow> 'b \<Rightarrow> ('b \<times> 'b) result" where
  "put_vector E model scope slot v vecs refs =
     rbind (read_ref E refs slot) (\<lambda>old.
     rbind (case old of
              Some (old_model, old_scope) \<Rightarrow>
                if old_model \<noteq> model
                then rbind (redb (tremove (eB E) vecs (vector_key old_model old_scope slot))) (\<lambda>(_, t). Inr t)
                else Inr vecs
            | None \<Rightarrow> Inr vecs) (\<lambda>vecs1.
     rbind (pc_err (ser (pc_qvec E) (quantize (fp E) v))) (\<lambda>raw.
     rbind (redb (tinsert (eB E) vecs1 (vector_key model scope slot) (frame_value (lz E) raw))) (\<lambda>vecs2.
     rbind (encode_ref E model scope) (\<lambda>r.
     rbind (redb (tinsert (eB E) refs (slot_key slot) r)) (\<lambda>refs'.
     Inr (vecs2, refs')))))))"

definition remove_vector :: "('b, 'd, 'l, 'm, 'o) env \<Rightarrow> u64 \<Rightarrow> 'b \<Rightarrow> 'b \<Rightarrow> ('b \<times> 'b) result" where
  "remove_vector E slot vecs refs =
     rbind (read_ref E refs slot) (\<lambda>old. case old of
        None \<Rightarrow> Inr (vecs, refs)
      | Some (model, scope) \<Rightarrow>
          rbind (redb (tremove (eB E) vecs (vector_key model scope slot))) (\<lambda>(_, vecs').
          rbind (redb (tremove (eB E) refs (slot_key slot))) (\<lambda>(_, refs').
          Inr (vecs', refs'))))"

definition read_qvec_by_slot :: "('b, 'd, 'l, 'm, 'o) env \<Rightarrow> 'b \<Rightarrow> 'b \<Rightarrow> u64 \<Rightarrow> (u32 \<times> u32 \<times> qvec) option result" where
  "read_qvec_by_slot E vecs refs slot =
     rbind (read_ref E refs slot) (\<lambda>r. case r of
        None \<Rightarrow> Inr None
      | Some (model, scope) \<Rightarrow>
          rbind (redb (tget (eB E) vecs (vector_key model scope slot))) (\<lambda>v. case v of
             Some b \<Rightarrow> rbind (unframe_value (lz E) b) (\<lambda>raw.
                       rbind (pc_err (de (pc_qvec E) raw)) (\<lambda>q. Inr (Some (model, scope, q))))
           | None \<Rightarrow> Inl (Encoding ''read_qvec_by_slot: embedding_ref present but vectors row missing'')))"

section \<open>Record reads\<close>

definition read_embedding_by_slot :: "('b, 'd, 'l, 'm, 'o) env \<Rightarrow> 'b \<Rightarrow> 'b \<Rightarrow> dicts \<Rightarrow> u64
    \<Rightarrow> (string \<times> f32 list) option result" where
  "read_embedding_by_slot E vecs refs d slot =
     rbind (read_qvec_by_slot E vecs refs slot) (\<lambda>r. case r of
        None \<Rightarrow> Inr None
      | Some (model_id, _, scale, codes) \<Rightarrow>
          rbind (resolve d Model model_id) (\<lambda>model. Inr (Some (model, dequantize (fp E) scale codes))))"

definition read_node_by_slot :: "('b, 'd, 'l, 'm, 'o) env \<Rightarrow> ('b, 'd, 'l, 'm, 'o, 'z) store_scheme \<Rightarrow> u64
    \<Rightarrow> node_record option result" where
  "read_node_by_slot E st slot =
     rbind (redb (tget (eB E) (nodes st) (slot_key slot))) (\<lambda>v. case v of
        None \<Rightarrow> Inr None
      | Some b \<Rightarrow>
          rbind (unframe_value (lz E) b) (\<lambda>raw.
          rbind (pc_err (de (pc_node E) raw)) (\<lambda>disk.
          rbind (node_from_disk_v3 disk (i_dicts st) (i_scopes st)) (\<lambda>rec.
          rbind (read_embedding_by_slot E (vectors st) (embedding_ref st) (i_dicts st) slot) (\<lambda>emb.
          Inr (Some (rec\<lparr>n_embedding := emb\<rparr>)))))))"

definition read_node :: "('b, 'd, 'l, 'm, 'o) env \<Rightarrow> ('b, 'd, 'l, 'm, 'o, 'z) store_scheme \<Rightarrow> node_id
    \<Rightarrow> node_record option result" where
  "read_node E st i =
     rbind (node_slot (eB E) (node_slots st) i) (\<lambda>s. case s of
        None \<Rightarrow> Inr None
      | Some slot \<Rightarrow>
          rbind (read_node_by_slot E st slot) (\<lambda>r. case r of
             Some rec \<Rightarrow> Inr (Some rec)
           | None \<Rightarrow> Inl (Encoding ''node slot mapping without record row'')))"

definition read_edge_by_slot :: "('b, 'd, 'l, 'm, 'o) env \<Rightarrow> ('b, 'd, 'l, 'm, 'o, 'z) store_scheme \<Rightarrow> u64
    \<Rightarrow> edge_record option result" where
  "read_edge_by_slot E st slot =
     rbind (redb (tget (eB E) (edges st) (slot_key slot))) (\<lambda>v. case v of
        None \<Rightarrow> Inr None
      | Some b \<Rightarrow>
          rbind (unframe_value (lz E) b) (\<lambda>raw.
          rbind (pc_err (de (pc_edge E) raw)) (\<lambda>disk.
          rbind (edge_from_disk_v4 (eB E) disk (i_dicts st) (i_scopes st) (node_ids st)) (\<lambda>rec.
          Inr (Some rec)))))"

definition read_edge :: "('b, 'd, 'l, 'm, 'o) env \<Rightarrow> ('b, 'd, 'l, 'm, 'o, 'z) store_scheme \<Rightarrow> edge_id
    \<Rightarrow> edge_record option result" where
  "read_edge E st i =
     rbind (edge_slot (eB E) (edge_slots st) i) (\<lambda>s. case s of
        None \<Rightarrow> Inr None
      | Some slot \<Rightarrow>
          rbind (read_edge_by_slot E st slot) (\<lambda>r. case r of
             Some rec \<Rightarrow> Inr (Some rec)
           | None \<Rightarrow> Inl (Encoding ''edge slot mapping without record row'')))"

section \<open>Record writes\<close>

definition put_node :: "('b, 'd, 'l, 'm, 'o) env \<Rightarrow> node_record \<Rightarrow> (('b, 'd, 'l, 'm, 'o, 'z) store_scheme, unit) sm" where
  "put_node E rec =
     mbind (mread (\<lambda>st. rbind (node_slot (eB E) (node_slots st) (n_id rec))
                          (ok_or (Encoding ''put_node: missing node slot'')))) (\<lambda>slot.
     mbind (node_to_disk_v3 (eB E) (eD E) rec) (\<lambda>disk.
     mbind (mlift (pc_err (ser (pc_node E) disk))) (\<lambda>raw.
     mupd (\<lambda>st. rbind (redb (tinsert (eB E) (nodes st) (slot_key slot) (frame_value (lz E) raw))) (\<lambda>t.
                  Inr ((), st\<lparr>nodes := t\<rparr>))))))"

definition put_edge :: "('b, 'd, 'l, 'm, 'o) env \<Rightarrow> edge_record \<Rightarrow> (('b, 'd, 'l, 'm, 'o, 'z) store_scheme, unit) sm" where
  "put_edge E rec =
     mbind (mread (\<lambda>st. rbind (edge_slot (eB E) (edge_slots st) (e_id rec))
                          (ok_or (Encoding ''put_edge: missing edge slot'')))) (\<lambda>slot.
     mbind (mget node_slots) (\<lambda>slots.
     mbind (edge_to_disk_v4 (eB E) (eD E) slots rec) (\<lambda>disk.
     mbind (mlift (pc_err (ser (pc_edge E) disk))) (\<lambda>raw.
     mupd (\<lambda>st. rbind (redb (tinsert (eB E) (edges st) (slot_key slot) (frame_value (lz E) raw))) (\<lambda>t.
                  Inr ((), st\<lparr>edges := t\<rparr>)))))))"

definition check_or_pin_dim :: "('b, bytes, bytes) table_ops \<Rightarrow> u32 \<Rightarrow> nat \<Rightarrow> 'b \<Rightarrow> 'b result" where
  "check_or_pin_dim B model_id dim t =
     rbind (if dim < 2 ^ 32 then Inr (word_of_nat dim :: u32) else Inl (Encoding ''embedding dim exceeds u32'')) (\<lambda>dim_u32.
     rbind (redb (tget B t (u32_to_be model_id))) (\<lambda>v.
     rbind (case v of
              Some b \<Rightarrow> rbind (try_into 4 (Encoding ''bad vector_dims value'') b) (\<lambda>b. Inr (Some (u32_from_le b)))
            | None \<Rightarrow> Inr None) (\<lambda>existing.
     case existing of
       Some n \<Rightarrow> if n = dim_u32 then Inr t else Inl (Rejected ''embedding dim is pinned'')
     | None \<Rightarrow> redb (tinsert B t (u32_to_be model_id) (u32_to_le dim_u32)))))"

definition label_index_key :: "u32 \<Rightarrow> u32 \<Rightarrow> node_id \<Rightarrow> bytes" where
  "label_index_key label_id scope_id i = u32_to_be label_id @ u32_to_be scope_id @ u128_to_be (node_u128 i)"

section \<open>Writes keep the mirrors\<close>

lemma keeps_mupd:
  assumes "\<And>st x st'. f st = Inr (x, st') \<Longrightarrow>
    i_dicts st' = i_dicts st \<and> i_scopes st' = i_scopes st \<and> i_journal st' = i_journal st"
  shows "keeps (mupd f)"
proof (rule keeps_untouched)
  show "untouched (mupd f)"
    unfolding untouched_def
  proof
    fix st
    show "let st' = snd (mupd f st) in i_dicts st' = i_dicts st \<and> i_scopes st' = i_scopes st \<and> i_journal st' = i_journal st"
      using assms [of st] by (cases "f st") (auto simp: mupd_def)
  qed
qed

lemma keeps_put_node [simp, intro]: "keeps (put_node E rec)"
  unfolding put_node_def by (intro keeps_mbind keeps_reads keeps_encoders keeps_mupd) (auto simp: rbind_Inr)

lemma keeps_put_edge [simp, intro]: "keeps (put_edge E rec)"
  unfolding put_edge_def by (intro keeps_mbind keeps_reads keeps_encoders keeps_mupd) (auto simp: rbind_Inr)

section \<open>A node written is the node read\<close>

text \<open>Interning leaves the other tables alone.\<close>

lemma dict_intern_more: "dict_intern D k s st = (r, st') \<Longrightarrow> interning.more st' = interning.more st"
  by (auto simp: dict_intern_def split: prod.splits)

lemma registry_intern_more: "registry_intern B s st = (r, st') \<Longrightarrow> interning.more st' = interning.more st"
  by (auto simp: registry_intern_def split: prod.splits)

definition leaves_more :: "(('b, 'd, 'z) interning_scheme, 'a) sm \<Rightarrow> bool" where
  "leaves_more m \<longleftrightarrow> (\<forall>st. interning.more (snd (m st)) = interning.more st)"

lemma leaves_more_mbind: "leaves_more m \<Longrightarrow> (\<And>x. leaves_more (f x)) \<Longrightarrow> leaves_more (mbind m f)"
  unfolding leaves_more_def mbind_def by (auto split: prod.splits sum.splits) (metis snd_conv)+

lemma leaves_more_basic:
  "leaves_more (mret x)" "leaves_more (mlift r)" "leaves_more (dict_intern D k s)" "leaves_more (registry_intern B c)"
  by (auto simp: leaves_more_def monad_simps dict_intern_def registry_intern_def split: prod.splits)

lemma leaves_more_props: "leaves_more (props_to_disk D ps p)"
  by (induction D ps p rule: props_to_disk.induct) (auto intro!: leaves_more_mbind leaves_more_basic)

lemma leaves_more_encoders: "leaves_more (node_to_disk_v3 B D r)" "leaves_more (edge_to_disk_v4 B D slots e)"
  unfolding node_to_disk_v3_def edge_to_disk_v4_def
  by (intro leaves_more_mbind leaves_more_props leaves_more_basic)+

lemma leaves_moreD: "leaves_more m \<Longrightarrow> m st = (r, st') \<Longrightarrow> interning.more st' = interning.more st"
  unfolding leaves_more_def by (metis snd_conv)

lemma more_fields:
  fixes st st' :: "('b, 'd, 'l, 'm, 'o, 'z) store_scheme"
  assumes "interning.more st' = interning.more st"
  shows "nodes st' = nodes st" "edges st' = edges st" "vectors st' = vectors st" "embedding_ref st' = embedding_ref st"
    "node_slots st' = node_slots st" "node_ids st' = node_ids st" "edge_slots st' = edge_slots st"
    "edge_ids st' = edge_ids st" "out_adj st' = out_adj st" "in_adj st' = in_adj st" "meta st' = meta st"
    "vector_dims st' = vector_dims st" "label_index st' = label_index st" "prop_table st' = prop_table st"
  using assms by (cases st; cases st'; simp)+

definition row_small :: "('b, 'd, 'l, 'm, 'o) env \<Rightarrow> ('b, 'd, 'l, 'm, 'o, 'z) store_scheme \<Rightarrow> node_record \<Rightarrow> bool" where
  "row_small E st rec \<longleftrightarrow> (\<forall>disk st1 raw. node_to_disk_v3 (eB E) (eD E) rec st = (Inr disk, st1) \<longrightarrow>
     ser (pc_node E) disk = Inr raw \<longrightarrow> length raw \<le> unat MAX_DECOMPRESSED_LEN)"

lemma put_node_read:
  assumes lz: "lz4_codec (lz E)" and pc: "serde_codec (pc_node E)" and tab: "redb_table_live (eB E) rows"
    and run: "put_node E rec st = (Inr (), st')" and wf: "interning_wf st" and ps: "bt_wf (n_props rec)"
    and small: "row_small E st rec"
  shows "\<exists>slot. node_slot (eB E) (node_slots st') (n_id rec) = Inr (Some slot) \<and> node_slots st' = node_slots st \<and>
    read_node_by_slot E st' slot =
      rbind (read_embedding_by_slot E (vectors st) (embedding_ref st) (i_dicts st') slot)
        (\<lambda>emb. Inr (Some (rec\<lparr>n_embedding := emb\<rparr>)))"
proof -
  note t = redb_table_live.axioms(1) [OF tab]
  from run obtain slot disk st1 raw tb where slot: "node_slot (eB E) (node_slots st) (n_id rec) = Inr (Some slot)"
    and disk: "node_to_disk_v3 (eB E) (eD E) rec st = (Inr disk, st1)"
    and raw: "ser (pc_node E) disk = Inr raw"
    and ins: "tinsert (eB E) (nodes st1) (slot_key slot) (frame_value (lz E) raw) = Inr tb"
    and st': "st' = st1\<lparr>nodes := tb\<rparr>"
    by (auto simp: put_node_def mbind_Inr monad_simps mupd_Inr rbind_Inr)
  note more = more_fields [OF leaves_moreD [OF leaves_more_encoders(1) disk]]
  have k: "interning_wf st1" using keeps_run [OF keeps_encoders(1) disk wf] by blast
  have dec: "node_from_disk_v3 disk (i_dicts st1) (i_scopes st1) = Inr (rec\<lparr>n_embedding := None\<rparr>)"
    using node_roundtrip [OF disk wf ps grows_refl k] .
  have "length raw \<le> unat MAX_DECOMPRESSED_LEN" using small disk raw unfolding row_small_def by blast
  then have un: "unframe_value (lz E) (frame_value (lz E) raw) = Inr raw" by (rule lz4_codec.unframe_frame [OF lz])
  have de: "de (pc_node E) raw = Inr disk" using serde_codec.de_ser [OF pc raw] .
  have get: "tget (eB E) tb (slot_key slot) = Inr (Some (frame_value (lz E) raw))"
    using redb_table_live.get_eq [OF tab, of tb] redb_table.insert_ok [OF t ins] by simp
  show ?thesis
    using slot by (intro exI [of _ slot]) (simp add: st' more read_node_by_slot_def get un de dec pc_err_def)
qed

section \<open>Embeddings\<close>

lemma vector_key_inject [simp]: "vector_key m c s = vector_key m' c' s' \<longleftrightarrow> m = m' \<and> c = c' \<and> s = s'"
  by (simp add: vector_key_def)

lemma put_vector_read:
  assumes lz: "lz4_codec (lz E)" and pq: "serde_codec (pc_qvec E)" and pr: "serde_codec (pc_ref E)"
    and tab: "redb_table_live (eB E) rows"
    and run: "put_vector E model scope slot v vecs refs = Inr (vecs', refs')"
    and small: "\<And>raw. ser (pc_qvec E) (quantize (fp E) v) = Inr raw \<Longrightarrow> length raw \<le> unat MAX_DECOMPRESSED_LEN"
  shows "read_qvec_by_slot E vecs' refs' slot = Inr (Some (model, scope, quantize (fp E) v))"
proof -
  note t = redb_table_live.axioms(1) [OF tab] and get = redb_table_live.get_eq [OF tab]
  from run obtain vecs1 raw r where raw: "ser (pc_qvec E) (quantize (fp E) v) = Inr raw"
    and iv: "tinsert (eB E) vecs1 (vector_key model scope slot) (frame_value (lz E) raw) = Inr vecs'"
    and r: "ser (pc_ref E) (model, scope) = Inr r"
    and ir: "tinsert (eB E) refs (slot_key slot) r = Inr refs'"
    by (auto simp: put_vector_def encode_ref_def rbind_Inr)
  have un: "unframe_value (lz E) (frame_value (lz E) raw) = Inr raw" by (rule lz4_codec.unframe_frame [OF lz small [OF raw]])
  show ?thesis
    using redb_table.insert_ok [OF t iv] redb_table.insert_ok [OF t ir]
      serde_codec.de_ser [OF pq raw] serde_codec.de_ser [OF pr r]
    by (simp add: read_qvec_by_slot_def read_ref_def decode_ref_def get un pc_err_def)
qed

end
