(* ===== verification/Ranking.thy ===== *)
theory Ranking
  imports Prelude "HOL-Library.Multiset"
begin

text \<open>
  Sorting and cutting, shared by the searches: the stable sort of the Rust standard library under a comparison, and
  what the first \<open>k\<close> of a sorted list are worth.
\<close>

section \<open>Sorting\<close>

text \<open>\<^verbatim>\<open>sort_by\<close>, a stable sort; \<open>before a b\<close> says that the comparison of \<open>a\<close> with \<open>b\<close> is not \<^verbatim>\<open>Greater\<close>.\<close>

fun insert_by :: "('a \<Rightarrow> 'a \<Rightarrow> bool) \<Rightarrow> 'a \<Rightarrow> 'a list \<Rightarrow> 'a list" where
  "insert_by before x [] = [x]"
| "insert_by before x (y # ys) = (if before x y then x # y # ys else y # insert_by before x ys)"

definition sort_by :: "('a \<Rightarrow> 'a \<Rightarrow> bool) \<Rightarrow> 'a list \<Rightarrow> 'a list" where
  "sort_by before xs = foldr (insert_by before) xs []"

lemma mset_insert_by [simp]: "mset (insert_by le x ys) = add_mset x (mset ys)"
  by (induction ys) auto

lemma mset_sort_by [simp]: "mset (sort_by le xs) = mset xs"
  by (induction xs) (auto simp: sort_by_def)

lemma set_insert_by [simp]: "set (insert_by le x ys) = insert x (set ys)"
  by (induction ys) auto

lemma set_sort_by [simp]: "set (sort_by le xs) = set xs"
  by (induction xs) (auto simp: sort_by_def)

lemma length_sort_by [simp]: "length (sort_by le xs) = length xs"
  by (metis mset_sort_by size_mset)

text \<open>A comparison that orders the elements of a set.\<close>

definition orders :: "('a \<Rightarrow> 'a \<Rightarrow> bool) \<Rightarrow> 'a set \<Rightarrow> bool" where
  "orders le S \<longleftrightarrow> (\<forall>a \<in> S. \<forall>b \<in> S. le a b \<or> le b a) \<and> (\<forall>a \<in> S. \<forall>b \<in> S. \<forall>c \<in> S. le a b \<longrightarrow> le b c \<longrightarrow> le a c)"

lemma orders_subset: "orders le S \<Longrightarrow> T \<subseteq> S \<Longrightarrow> orders le T"
  unfolding orders_def by blast

lemma sorted_insert_by:
  assumes "orders le (insert x (set ys))" "sorted_wrt le ys"
  shows "sorted_wrt le (insert_by le x ys)"
  using assms
proof (induction ys)
  case (Cons y ys)
  have total: "le x y \<or> le y x" using Cons.prems(1) unfolding orders_def by simp
  show ?case
  proof (cases "le x y")
    case True
    have "le x z" if "z \<in> set ys" for z
    proof -
      have "le y z" using Cons.prems(2) that by simp
      with True that Cons.prems(1) show ?thesis unfolding orders_def by (meson insertI1 insertI2 list.set_intros)
    qed
    with True Cons.prems(2) show ?thesis by simp
  next
    case False
    have "orders le (insert x (set ys))" by (rule orders_subset [OF Cons.prems(1)]) auto
    with Cons.IH Cons.prems(2) False total show ?thesis by auto
  qed
qed simp

lemma sorted_sort_by: "orders le (set xs) \<Longrightarrow> sorted_wrt le (sort_by le xs)"
proof (induction xs)
  case (Cons x xs)
  have "orders le (set xs)" by (rule orders_subset [OF Cons.prems]) auto
  with Cons have "sorted_wrt le (sort_by le xs)" by blast
  moreover have "orders le (insert x (set (sort_by le xs)))" using Cons.prems by simp
  ultimately show ?case using sorted_insert_by [of le x "sort_by le xs"] by (simp add: sort_by_def)
qed (simp add: sort_by_def)

section \<open>The best of a multiset\<close>

text \<open>A cut of the best: at most \<open>k\<close> candidates, all of them when there are no more; if their ranks are comparable,
  the list is in order and nothing left out ranks above it.\<close>

definition top_ranked :: "('a \<Rightarrow> 'a \<Rightarrow> bool) \<Rightarrow> nat \<Rightarrow> 'a multiset \<Rightarrow> 'a list \<Rightarrow> bool" where
  "top_ranked before k cands out \<longleftrightarrow> mset out \<subseteq># cands \<and> length out = min k (size cands) \<and>
     (orders before (set_mset cands) \<longrightarrow>
        sorted_wrt before out \<and> (\<forall>x \<in> set out. \<forall>y \<in> set_mset (cands - mset out). before x y))"

lemma top_ranked_take: "top_ranked before k (mset xs) (take k (sort_by before xs))"
proof -
  let ?s = "sort_by before xs"
  have split: "mset (take k ?s) + mset (drop k ?s) = mset xs" by (metis append_take_drop_id mset_append mset_sort_by)
  have "sorted_wrt before (take k ?s @ drop k ?s)" if "orders before (set xs)" using sorted_sort_by [OF that] by simp
  moreover have "mset xs - mset (take k ?s) = mset (drop k ?s)" using split by (metis add_diff_cancel_left')
  moreover have "mset (take k ?s) \<subseteq># mset xs" by (metis split mset_subset_eq_add_left)
  ultimately show ?thesis unfolding top_ranked_def sorted_wrt_append by (auto simp: min.commute)
qed

end
