(* ===== verification/Hnsw.thy ===== *)
theory Hnsw
  imports Store Ranking
begin

text \<open>
  The nearest-neighbour graph (\<^verbatim>\<open>crates/topodb/src/hnsw.rs\<close>, lines 176-1145): one layered graph per cluster, a pair of
  model and scope, kept in two tables. Every operation is translated with its decoded-vector memo and its early returns.
  A binary heap is the list of its elements, best first: descending score under \<^verbatim>\<open>total_cmp\<close>, then ascending slot.
\<close>

section \<open>Rows\<close>

definition read_meta :: "('b, 'd, 'l, 'm, 'o) env \<Rightarrow> 'b \<Rightarrow> u32 \<Rightarrow> u32 \<Rightarrow> cluster_meta option result" where
  "read_meta E t model scope =
     rbind (redb (tget (eB E) t (meta_key model scope))) (\<lambda>v. case v of
        None \<Rightarrow> Inr None
      | Some b \<Rightarrow> rbind (pc_err (de (pc_meta E) b)) (\<lambda>m.
          if cm_format m \<noteq> HNSW_META_FORMAT_V0 then Inl (Encoding ''unknown hnsw meta format'') else Inr (Some m)))"

definition write_meta :: "('b, 'd, 'l, 'm, 'o) env \<Rightarrow> 'b \<Rightarrow> u32 \<Rightarrow> u32 \<Rightarrow> cluster_meta \<Rightarrow> 'b result" where
  "write_meta E t model scope m =
     rbind (pc_err (ser (pc_meta E) m)) (\<lambda>b. redb (tinsert (eB E) t (meta_key model scope) b))"

definition read_links :: "('b, 'd, 'l, 'm, 'o) env \<Rightarrow> 'b \<Rightarrow> u32 \<Rightarrow> u32 \<Rightarrow> u64 \<Rightarrow> u8 \<Rightarrow> link_row option result" where
  "read_links E t model scope slot level =
     rbind (redb (tget (eB E) t (link_key model scope slot level))) (\<lambda>v. case v of
        None \<Rightarrow> Inr None
      | Some b \<Rightarrow> rbind (unframe_value (lz E) b) (\<lambda>raw. rbind (pc_err (de (pc_links E) raw)) (\<lambda>row. Inr (Some row))))"

definition write_links :: "('b, 'd, 'l, 'm, 'o) env \<Rightarrow> 'b \<Rightarrow> u32 \<Rightarrow> u32 \<Rightarrow> u64 \<Rightarrow> u8 \<Rightarrow> link_row \<Rightarrow> 'b result" where
  "write_links E t model scope slot level row =
     rbind (pc_err (ser (pc_links E) row)) (\<lambda>raw. redb (tinsert (eB E) t (link_key model scope slot level) (frame_value (lz E) raw)))"

section \<open>Vectors\<close>

record 'b graph_reader =
  gr_vectors :: 'b
  gr_refs :: 'b
  gr_model :: u32
  gr_scope :: u32

text \<open>The memo of one graph operation; an absent or foreign vector is remembered too.\<close>

type_synonym vec_cache = "u64 \<rightharpoonup> codes option"

definition resolve_vec :: "('b, 'd, 'l, 'm, 'o) env \<Rightarrow> 'b graph_reader \<Rightarrow> u64 \<Rightarrow> codes option result" where
  "resolve_vec E R slot =
     rbind (read_qvec_by_slot E (gr_vectors R) (gr_refs R) slot) (\<lambda>r. Inr (case r of
         Some (m, s, _, cs) \<Rightarrow> if m = gr_model R \<and> s = gr_scope R then Some cs else None
       | None \<Rightarrow> None))"

definition cache_get :: "('b, 'd, 'l, 'm, 'o) env \<Rightarrow> 'b graph_reader \<Rightarrow> u64 \<Rightarrow> vec_cache \<Rightarrow> (codes option \<times> vec_cache) result" where
  "cache_get E R slot cache =
     (case cache slot of
        Some hit \<Rightarrow> Inr (hit, cache)
      | None \<Rightarrow> rbind (resolve_vec E R slot) (\<lambda>v. Inr (v, cache(slot \<mapsto> v))))"

section \<open>Searching a layer\<close>

type_synonym scored = "f32 \<times> u64"

definition closer :: "scored \<Rightarrow> scored \<Rightarrow> bool" where
  "closer = (\<lambda>(a, s) (b, t). total_less b a \<or> a = b \<and> s \<le> t)"

definition heap_push :: "scored \<Rightarrow> scored list \<Rightarrow> scored list" where
  "heap_push x h = insert_by closer x h"

record layer_walk =
  lw_visited :: "u64 set"
  lw_cands :: "scored list"
  lw_results :: "scored list"
  lw_cache :: vec_cache

definition heap_bound :: "nat \<Rightarrow> scored list \<Rightarrow> scored list" where
  "heap_bound n h = (if n < length h then butlast h else h)"

text \<open>A member of the layer always routes; it ranks when it has a score and is not tombstoned.\<close>

definition admit :: "f32_ops \<Rightarrow> codes \<Rightarrow> nat \<Rightarrow> u64 \<Rightarrow> link_row \<Rightarrow> codes option \<Rightarrow> layer_walk \<Rightarrow> layer_walk" where
  "admit F query ef slot row v w =
     (case (case v of Some cs \<Rightarrow> cosine_q F query cs | None \<Rightarrow> None) of
        Some score \<Rightarrow>
          let w' = w\<lparr>lw_cands := heap_push (score, slot) (lw_cands w)\<rparr>
          in if lr_tomb row then w'
             else w'\<lparr>lw_results := heap_bound (max ef 1) (heap_push (score, slot) (lw_results w'))\<rparr>
      | None \<Rightarrow> w\<lparr>lw_cands := heap_push (f_infinity, slot) (lw_cands w)\<rparr>)"

definition seed_slot :: "('b, 'd, 'l, 'm, 'o) env \<Rightarrow> 'b \<Rightarrow> 'b graph_reader \<Rightarrow> codes \<Rightarrow> nat \<Rightarrow> u8 \<Rightarrow> u64 \<Rightarrow> layer_walk \<Rightarrow> layer_walk result" where
  "seed_slot E links R query ef level slot w =
     (if slot \<in> lw_visited w then Inr w
      else
        let w1 = w\<lparr>lw_visited := insert slot (lw_visited w)\<rparr>
        in rbind (read_links E links (gr_model R) (gr_scope R) slot level) (\<lambda>r. case r of
             None \<Rightarrow> Inr w1
           | Some row \<Rightarrow> rbind (cache_get E R slot (lw_cache w1)) (\<lambda>(v, cache).
               Inr (admit (fp E) query ef slot row v (w1\<lparr>lw_cache := cache\<rparr>)))))"

definition walk_done :: "nat \<Rightarrow> f32 \<Rightarrow> scored list \<Rightarrow> bool" where
  "walk_done ef score results \<longleftrightarrow> ef \<le> length results \<and> results \<noteq> [] \<and> total_less score (fst (last results))"

text \<open>Seeding visits more slots or changes nothing, so the walk ends.\<close>

lemma admit_keeps [simp]:
  "lw_visited (admit F q ef slot row v w) = lw_visited w" "lw_cache (admit F q ef slot row v w) = lw_cache w"
  by (simp_all add: admit_def Let_def split: option.split)

lemma seed_visits:
  assumes "seed_slot E links R q ef level slot w = Inr w'"
  shows "lw_visited w' = insert slot (lw_visited w)" "slot \<in> lw_visited w \<Longrightarrow> w' = w"
  using assms
  by (auto simp: seed_slot_def Let_def rbind_Inr split: if_splits option.splits prod.splits)

lemma seeds_visit:
  assumes "rfold (seed_slot E links R q ef level) slots w = Inr w'"
  shows "lw_visited w' = lw_visited w \<union> set slots" "set slots \<subseteq> lw_visited w \<Longrightarrow> w' = w"
  using assms by (induction slots arbitrary: w) (auto simp: rbind_Inr dest: seed_visits)

function walk_layer :: "('b, 'd, 'l, 'm, 'o) env \<Rightarrow> 'b \<Rightarrow> 'b graph_reader \<Rightarrow> codes \<Rightarrow> nat \<Rightarrow> u8 \<Rightarrow> layer_walk \<Rightarrow> layer_walk result" where
  "walk_layer E links R query ef level w =
     (case lw_cands w of
        [] \<Rightarrow> Inr w
      | (score, slot) # rest \<Rightarrow>
          if walk_done ef score (lw_results w) then Inr w
          else
            let w1 = w\<lparr>lw_cands := rest\<rparr>
            in rbind (read_links E links (gr_model R) (gr_scope R) slot level) (\<lambda>r.
               rbind (case r of None \<Rightarrow> Inr w1 | Some row \<Rightarrow> rfold (seed_slot E links R query ef level) (lr_neighbors row) w1) (\<lambda>w2.
               walk_layer E links R query ef level w2)))"
  by pat_completeness auto

termination
proof (relation "(\<lambda>(E, links, R, q, ef, level, w). card (- lw_visited w)) <*mlex*> measure (\<lambda>(E, links, R, q, ef, level, w). length (lw_cands w))",
    goal_cases)
  case (2 E links R query ef level w x rest score slot w1 r w2)
  have "lw_visited w \<subset> lw_visited w2 \<or> w2 = w1"
    using 2(4,6) seeds_visit [of E links R query ef level _ w1 w2] by (cases r) fastforce+
  then show ?case
  proof
    assume "lw_visited w \<subset> lw_visited w2"
    then have "card (- lw_visited w2) < card (- lw_visited w)" by (intro psubset_card_mono) auto
    then show ?thesis by (simp add: mlex_iff)
  qed (use 2(1,4) in \<open>simp add: mlex_iff\<close>)
qed (simp add: wf_mlex)

declare walk_layer.simps [simp del]

definition search_layer :: "('b, 'd, 'l, 'm, 'o) env \<Rightarrow> 'b \<Rightarrow> 'b graph_reader \<Rightarrow> u64 list \<Rightarrow> codes \<Rightarrow> nat \<Rightarrow> u8 \<Rightarrow> vec_cache
    \<Rightarrow> (scored list \<times> vec_cache) result" where
  "search_layer E links R entry_pts query ef level cache =
     rbind (rfold (seed_slot E links R query ef level) entry_pts
              \<lparr>lw_visited = {}, lw_cands = [], lw_results = [], lw_cache = cache\<rparr>) (\<lambda>w.
     rbind (walk_layer E links R query ef level w) (\<lambda>w.
     Inr (take ef (sort_by closer (lw_results w)), lw_cache w)))"

section \<open>Choosing neighbours\<close>

definition diverse :: "f32_ops \<Rightarrow> f32 \<Rightarrow> codes \<Rightarrow> (u64 \<times> codes) list \<Rightarrow> bool" where
  "diverse F score v kept \<longleftrightarrow> (\<forall>(_, kv) \<in> set kept. case cosine_q F v kv of Some sim_to_kept \<Rightarrow> total_less sim_to_kept score | None \<Rightarrow> True)"

fun select_loop :: "('b, 'd, 'l, 'm, 'o) env \<Rightarrow> 'b graph_reader \<Rightarrow> nat \<Rightarrow> scored list \<Rightarrow> (u64 \<times> codes) list \<Rightarrow> u64 list \<Rightarrow> vec_cache
    \<Rightarrow> ((u64 \<times> codes) list \<times> u64 list \<times> vec_cache) result" where
  "select_loop E R max_m [] kept pruned cache = Inr (kept, pruned, cache)"
| "select_loop E R max_m ((score, slot) # cands) kept pruned cache =
     (if max_m \<le> length kept then Inr (kept, pruned, cache)
      else rbind (cache_get E R slot cache) (\<lambda>(v, cache). case v of
             None \<Rightarrow> select_loop E R max_m cands kept pruned cache
           | Some v \<Rightarrow>
               if diverse (fp E) score v kept then select_loop E R max_m cands (kept @ [(slot, v)]) pruned cache
               else select_loop E R max_m cands kept (pruned @ [slot]) cache))"

fun backfill :: "nat \<Rightarrow> u64 list \<Rightarrow> u64 set \<Rightarrow> u64 set" where
  "backfill max_m [] members = members"
| "backfill max_m (slot # pruned) members =
     (if max_m \<le> card members then members else backfill max_m pruned (insert slot members))"

definition select_neighbors :: "('b, 'd, 'l, 'm, 'o) env \<Rightarrow> 'b graph_reader \<Rightarrow> scored list \<Rightarrow> nat \<Rightarrow> vec_cache
    \<Rightarrow> (u64 list \<times> vec_cache) result" where
  "select_neighbors E R cands max_m cache =
     rbind (select_loop E R max_m cands [] [] cache) (\<lambda>(kept, pruned, cache).
     let members = backfill max_m pruned (set (map fst kept))
     in Inr (filter (\<lambda>slot. slot \<in> members) (map snd cands), cache))"

fun score_row :: "('b, 'd, 'l, 'm, 'o) env \<Rightarrow> 'b graph_reader \<Rightarrow> codes \<Rightarrow> u64 list \<Rightarrow> vec_cache \<Rightarrow> (scored list \<times> vec_cache) result" where
  "score_row E R nv [] cache = Inr ([], cache)"
| "score_row E R nv (cand # nbrs) cache =
     rbind (cache_get E R cand cache) (\<lambda>(cv, cache).
     rbind (score_row E R nv nbrs cache) (\<lambda>(scored, cache).
     Inr (case (case cv of Some cv \<Rightarrow> cosine_q (fp E) nv cv | None \<Rightarrow> None) of
            Some score \<Rightarrow> (score, cand) # scored
          | None \<Rightarrow> scored, cache)))"

definition prune_neighbor :: "('b, 'd, 'l, 'm, 'o) env \<Rightarrow> 'b graph_reader \<Rightarrow> u64 \<Rightarrow> u8 \<Rightarrow> nat \<Rightarrow> u64 \<Rightarrow> 'b \<times> vec_cache
    \<Rightarrow> ('b \<times> vec_cache) result" where
  "prune_neighbor E R new_slot level max_m neighbor_slot = (\<lambda>(links, cache).
     rbind (read_links E links (gr_model R) (gr_scope R) neighbor_slot level) (\<lambda>r.
     let row = (case r of Some row \<Rightarrow> row | None \<Rightarrow> \<lparr>lr_tomb = False, lr_neighbors = []\<rparr>);
         nbrs = (if new_slot \<in> set (lr_neighbors row) then lr_neighbors row else lr_neighbors row @ [new_slot])
     in rbind (if max_m < length nbrs
               then rbind (cache_get E R neighbor_slot cache) (\<lambda>(v, cache). case v of
                      Some nv \<Rightarrow>
                        rbind (score_row E R nv nbrs cache) (\<lambda>(scored, cache).
                        select_neighbors E R (sort_by closer scored) max_m cache)
                    | None \<Rightarrow> Inr (take max_m (sort nbrs), cache))
               else Inr (nbrs, cache)) (\<lambda>(nbrs, cache).
        rbind (write_links E links (gr_model R) (gr_scope R) neighbor_slot level (row\<lparr>lr_neighbors := nbrs\<rparr>)) (\<lambda>links.
        Inr (links, cache)))))"

section \<open>Inserting\<close>

definition empty_row :: link_row where "empty_row = \<lparr>lr_tomb = False, lr_neighbors = []\<rparr>"

text \<open>The levels of \<^verbatim>\<open>lo..=hi\<close>, of a loop that counts down from \<open>hi\<close> to \<open>lo + 1\<close>, and of one that counts down to 0.\<close>

definition levels_between :: "nat \<Rightarrow> u8 \<Rightarrow> u8 list" where
  "levels_between lo hi = map word_of_nat [lo..<Suc (unat hi)]"

definition levels_above :: "u8 \<Rightarrow> u8 \<Rightarrow> u8 list" where
  "levels_above lo hi = rev (levels_between (Suc (unat lo)) hi)"

definition levels_down :: "u8 \<Rightarrow> u8 list" where
  "levels_down hi = rev (levels_between 0 hi)"

definition write_empty_rows :: "('b, 'd, 'l, 'm, 'o) env \<Rightarrow> 'b graph_reader \<Rightarrow> u64 \<Rightarrow> u8 list \<Rightarrow> 'b \<Rightarrow> 'b result" where
  "write_empty_rows E R slot = rfold (\<lambda>lvl links. write_links E links (gr_model R) (gr_scope R) slot lvl empty_row)"

text \<open>The greedy descent, one search with a single result per level; \<open>pick\<close> chooses the next entry from the hits.\<close>

definition descend :: "('b, 'd, 'l, 'm, 'o) env \<Rightarrow> 'b \<Rightarrow> 'b graph_reader \<Rightarrow> codes \<Rightarrow> (scored list \<Rightarrow> scored option) \<Rightarrow> u8 list
    \<Rightarrow> u64 \<times> vec_cache \<Rightarrow> (u64 \<times> vec_cache) result" where
  "descend E links R query pick = rfold (\<lambda>lvl (entry, cache).
     rbind (search_layer E links R [entry] query 1 lvl cache) (\<lambda>(hits, cache).
     Inr (case pick hits of Some (_, found) \<Rightarrow> found | None \<Rightarrow> entry, cache)))"

definition first_hit :: "scored list \<Rightarrow> scored option" where
  "first_hit hits = (case hits of [] \<Rightarrow> None | h # _ \<Rightarrow> Some h)"

definition max_links :: "hnsw_params \<Rightarrow> u8 \<Rightarrow> nat" where
  "max_links p level = unat (if level = 0 then hp_m0 p else hp_m p)"

definition ids_or :: "u64 \<Rightarrow> scored list \<Rightarrow> u64 list" where
  "ids_or entry cands = (if cands = [] then [entry] else map snd cands)"

text \<open>One level of an insertion: search, choose, write the row, and link back from every chosen neighbour.\<close>

definition insert_level :: "('b, 'd, 'l, 'm, 'o) env \<Rightarrow> 'b graph_reader \<Rightarrow> codes \<Rightarrow> u64 \<Rightarrow> u64 \<Rightarrow> u8 \<Rightarrow> 'b \<times> vec_cache \<times> u64 list
    \<Rightarrow> ('b \<times> vec_cache \<times> u64 list) result" where
  "insert_level E R query slot entry lvl = (\<lambda>(links, cache, entry_pts).
     rbind (search_layer E links R entry_pts query (unat (hp_ef_construction (hparams E))) lvl cache) (\<lambda>(cands, cache).
     let max_m = max_links (hparams E) lvl
     in rbind (select_neighbors E R cands max_m cache) (\<lambda>(selected, cache).
        rbind (write_links E links (gr_model R) (gr_scope R) slot lvl \<lparr>lr_tomb = False, lr_neighbors = selected\<rparr>) (\<lambda>links.
        rbind (rfold (prune_neighbor E R slot lvl max_m) selected (links, cache)) (\<lambda>(links, cache).
        Inr (links, cache, ids_or entry cands))))))"

definition hnsw_insert :: "('b, 'd, 'l, 'm, 'o) env \<Rightarrow> 'b graph_reader \<Rightarrow> u64 \<Rightarrow> node_id \<Rightarrow> f32 list \<Rightarrow> 'b \<times> 'b \<Rightarrow> ('b \<times> 'b) result" where
  "hnsw_insert E R slot i vector = (\<lambda>(links, meta_t).
     let query = snd (quantize (fp E) vector)
     in if is_zero query then Inr (links, meta_t)
        else
          rbind (level_for i (hp_m (hparams E)) (hp_level_cap (hparams E))) (\<lambda>level.
          rbind (read_meta E meta_t (gr_model R) (gr_scope R)) (\<lambda>m. case m of
             None \<Rightarrow>
               rbind (write_empty_rows E R slot (levels_between 0 level) links) (\<lambda>links.
               rbind (write_meta E meta_t (gr_model R) (gr_scope R) \<lparr>cm_format = HNSW_META_FORMAT_V0, cm_built = True,
                        cm_entry_slot = slot, cm_entry_level = level, cm_graph_len = 1, cm_stale = 0\<rparr>) (\<lambda>meta_t.
               Inr (links, meta_t)))
           | Some cur \<Rightarrow>
               rbind (descend E links R query first_hit (levels_above level (cm_entry_level cur)) (cm_entry_slot cur, Map.empty)) (\<lambda>(entry, cache).
               rbind (if cm_entry_level cur < level
                      then write_empty_rows E R slot (levels_between (Suc (unat (cm_entry_level cur))) level) links
                      else Inr links) (\<lambda>links.
               rbind (rfold (insert_level E R query slot entry) (levels_down (min level (cm_entry_level cur))) (links, cache, [entry])) (\<lambda>(links, _).
               let new_meta = cur\<lparr>cm_graph_len := cm_graph_len cur + 1\<rparr>;
                   new_meta = (if cm_entry_level cur < level then new_meta\<lparr>cm_entry_slot := slot, cm_entry_level := level\<rparr> else new_meta)
               in rbind (write_meta E meta_t (gr_model R) (gr_scope R) new_meta) (\<lambda>meta_t. Inr (links, meta_t))))))))"

section \<open>Tombstones and rewiring\<close>

definition tombstone :: "('b, 'd, 'l, 'm, 'o) env \<Rightarrow> u32 \<Rightarrow> u32 \<Rightarrow> u64 \<Rightarrow> 'b \<times> 'b \<Rightarrow> (bool \<times> 'b \<times> 'b) result" where
  "tombstone E model scope slot = (\<lambda>(links, meta_t).
     rbind (read_links E links model scope slot 0) (\<lambda>r. case r of
        None \<Rightarrow> Inr (False, links, meta_t)
      | Some row \<Rightarrow>
          if lr_tomb row then Inr (False, links, meta_t)
          else
            rbind (write_links E links model scope slot 0 (row\<lparr>lr_tomb := True\<rparr>)) (\<lambda>links.
            rbind (read_meta E meta_t model scope) (\<lambda>m. case m of
               Some m \<Rightarrow> rbind (write_meta E meta_t model scope (m\<lparr>cm_stale := cm_stale m + 1\<rparr>)) (\<lambda>meta_t. Inr (True, links, meta_t))
             | None \<Rightarrow> Inr (True, links, meta_t)))))"

text \<open>The highest level a slot occupies, probing upwards; \<open>u8\<close> levels end at 255, where the increment overflows.\<close>

function own_level :: "('b, 'd, 'l, 'm, 'o) env \<Rightarrow> 'b \<Rightarrow> 'b graph_reader \<Rightarrow> u64 \<Rightarrow> u8 \<Rightarrow> u8 result" where
  "own_level E links R slot lvl =
     (if lvl = 255 then Inl (panicked ''attempt to add with overflow'')
      else rbind (read_links E links (gr_model R) (gr_scope R) slot (lvl + 1)) (\<lambda>r. case r of
             Some _ \<Rightarrow> own_level E links R slot (lvl + 1)
           | None \<Rightarrow> Inr lvl))"
  by pat_completeness auto

termination
proof (relation "measure (\<lambda>(E, links, R, slot, lvl). 255 - unat lvl)", goal_cases)
  case (2 E links R slot lvl r row)
  then have "unat lvl \<noteq> 255" by (simp add: word_unat_eq_iff)
  with unat_bound [of lvl] have "unat lvl < 255" by simp
  then show ?case by (simp add: unat_word_ariths)
qed simp

declare own_level.simps [simp del]

definition reinsert_level :: "('b, 'd, 'l, 'm, 'o) env \<Rightarrow> 'b graph_reader \<Rightarrow> codes \<Rightarrow> u64 \<Rightarrow> u64 \<Rightarrow> u8 \<Rightarrow> 'b \<times> vec_cache \<times> u64 list
    \<Rightarrow> ('b \<times> vec_cache \<times> u64 list) result" where
  "reinsert_level E R query slot entry lvl = (\<lambda>(links, cache, entry_pts).
     rbind (search_layer E links R entry_pts query (unat (hp_ef_construction (hparams E))) lvl cache) (\<lambda>(cands, cache).
     let kept = filter (\<lambda>(_, s). s \<noteq> slot) cands
     in rbind (select_neighbors E R kept (max_links (hparams E) lvl) cache) (\<lambda>(selected, cache).
        rbind (write_links E links (gr_model R) (gr_scope R) slot lvl \<lparr>lr_tomb = False, lr_neighbors = selected\<rparr>) (\<lambda>links.
        Inr (links, cache, ids_or entry kept)))))"

definition reinsert_links :: "('b, 'd, 'l, 'm, 'o) env \<Rightarrow> 'b graph_reader \<Rightarrow> u64 \<Rightarrow> f32 list \<Rightarrow> 'b \<times> 'b \<Rightarrow> ('b \<times> 'b) result" where
  "reinsert_links E R slot vector = (\<lambda>(links, meta_t).
     rbind (read_meta E meta_t (gr_model R) (gr_scope R)) (\<lambda>m. case m of
        None \<Rightarrow> Inr (links, meta_t)
      | Some cur \<Rightarrow>
          rbind (read_links E links (gr_model R) (gr_scope R) slot 0) (\<lambda>r. case r of
             None \<Rightarrow> Inr (links, meta_t)
           | Some _ \<Rightarrow>
               let query = snd (quantize (fp E) vector)
               in if is_zero query
                  then rbind (tombstone E (gr_model R) (gr_scope R) slot (links, meta_t)) (\<lambda>(_, lm). Inr lm)
                  else
                    rbind (own_level E links R slot 0) (\<lambda>own.
                    let level = min own (cm_entry_level cur)
                    in rbind (descend E links R query (find (\<lambda>(_, s). s \<noteq> slot)) (levels_above level (cm_entry_level cur))
                                (cm_entry_slot cur, Map.empty)) (\<lambda>(entry, cache).
                       rbind (rfold (reinsert_level E R query slot entry) (levels_down level) (links, cache, [entry])) (\<lambda>(links, _).
                       rbind (write_meta E meta_t (gr_model R) (gr_scope R) (cur\<lparr>cm_stale := cm_stale cur + 1\<rparr>)) (\<lambda>meta_t.
                       Inr (links, meta_t))))))))"

section \<open>Searching\<close>

text \<open>\<^verbatim>\<open>4 * k\<close> on 64-bit sizes, which wraps in a release build.\<close>

definition ef_search :: "u64 \<Rightarrow> u64" where
  "ef_search k = max (4 * k) 64"

definition hnsw_search :: "('b, 'd, 'l, 'm, 'o) env \<Rightarrow> 'b \<Rightarrow> cluster_meta \<Rightarrow> 'b graph_reader \<Rightarrow> f32 list \<Rightarrow> u64 \<Rightarrow> u64
    \<Rightarrow> (u64 \<times> f32) list result" where
  "hnsw_search E links m R query ef k =
     (let ef_eff = max ef k; qquery = snd (quantize (fp E) query)
      in rbind (descend E links R qquery first_hit (levels_above 0 (cm_entry_level m)) (cm_entry_slot m, Map.empty)) (\<lambda>(entry, cache).
         rbind (search_layer E links R [entry] qquery (unat ef_eff) 0 cache) (\<lambda>(hits, _).
         Inr (map (\<lambda>(score, slot). (slot, score)) hits))))"

section \<open>Clusters\<close>

definition vector_prefix :: "u32 \<Rightarrow> u32 \<Rightarrow> bytes" where
  "vector_prefix model scope = u32_to_be model @ u32_to_be scope"

text \<open>The rows of a cluster in the vector table, in slot order.\<close>

definition cluster_range :: "('b, 'd, 'l, 'm, 'o) env \<Rightarrow> 'b \<Rightarrow> u32 \<Rightarrow> u32 \<Rightarrow> (bytes \<times> bytes) list result" where
  "cluster_range E t model scope =
     redb (trange (eB E) t (vector_prefix model scope @ u64_to_be 0) (vector_prefix model scope @ u64_to_be (- 1)))"

definition cluster_vector_count :: "('b, 'd, 'l, 'm, 'o) env \<Rightarrow> 'b \<Rightarrow> u32 \<Rightarrow> u32 \<Rightarrow> u64 result" where
  "cluster_vector_count E t model scope = rbind (cluster_range E t model scope) (\<lambda>es. Inr (foldl (\<lambda>n _. n + 1) 0 es))"

text \<open>Slicing a key that is too short panics.\<close>

definition key_slice :: "nat \<Rightarrow> nat \<Rightarrow> bytes \<Rightarrow> bytes result" where
  "key_slice lo hi key = (if hi \<le> length key then Inr (take (hi - lo) (drop lo key)) else Inl (panicked ''slice index out of range''))"

fun clusters_loop :: "(bytes \<times> bytes) list \<Rightarrow> (u32 \<times> u32) list \<Rightarrow> (u32 \<times> u32) list result" where
  "clusters_loop [] out = Inr out"
| "clusters_loop ((key, _) # es) out =
     rbind (key_slice 0 4 key) (\<lambda>m. rbind (key_slice 4 8 key) (\<lambda>s.
     let c = (u32_from_be m, u32_from_be s)
     in clusters_loop es (if out \<noteq> [] \<and> last out = c then out else out @ [c])))"

definition clusters :: "('b, 'd, 'l, 'm, 'o) env \<Rightarrow> 'b \<Rightarrow> (u32 \<times> u32) list result" where
  "clusters E t = rbind (redb (titer (eB E) t)) (\<lambda>es. clusters_loop es [])"

definition decode_qvec :: "('b, 'd, 'l, 'm, 'o) env \<Rightarrow> bytes \<Rightarrow> qvec result" where
  "decode_qvec E b = rbind (unframe_value (lz E) b) (\<lambda>raw. pc_err (de (pc_qvec E) raw))"

definition vector_row :: "('b, 'd, 'l, 'm, 'o) env \<Rightarrow> bytes \<times> bytes \<Rightarrow> (u64 \<times> qvec) result" where
  "vector_row E = (\<lambda>(key, v).
     rbind (key_slice 8 16 key) (\<lambda>b. rbind (decode_qvec E v) (\<lambda>q. Inr (u64_from_be b, q))))"

definition build_row :: "('b, 'd, 'l, 'm, 'o) env \<Rightarrow> 'b graph_reader \<Rightarrow> 'b \<Rightarrow> bytes \<times> bytes \<Rightarrow> 'b \<times> 'b \<Rightarrow> ('b \<times> 'b) result" where
  "build_row E R idt e lm =
     rbind (vector_row E e) (\<lambda>(slot, scale, cs).
     if is_zero cs then Inr lm
     else rbind (node_ulid (eB E) idt slot) (\<lambda>u. case u of
            None \<Rightarrow> Inr lm
          | Some i \<Rightarrow> hnsw_insert E R slot i (dequantize (fp E) scale cs) lm))"

definition drop_row :: "('b, 'd, 'l, 'm, 'o) env \<Rightarrow> bytes \<Rightarrow> 'b \<Rightarrow> 'b result" where
  "drop_row E k t = rbind (redb (tremove (eB E) t k)) (\<lambda>(_, t). Inr t)"

definition build_cluster :: "('b, 'd, 'l, 'm, 'o) env \<Rightarrow> 'b \<Rightarrow> 'b graph_reader \<Rightarrow> 'b \<Rightarrow> u32 \<Rightarrow> u32 \<Rightarrow> 'b \<times> 'b \<Rightarrow> ('b \<times> 'b) result" where
  "build_cluster E vecs R idt model scope = (\<lambda>(links, meta_t).
     rbind (redb (trange (eB E) links (link_prefix model scope @ replicate 9 0) (link_prefix model scope @ replicate 9 255))) (\<lambda>es.
     rbind (rfold (drop_row E) (map fst es) links) (\<lambda>links.
     rbind (drop_row E (meta_key model scope) meta_t) (\<lambda>meta_t.
     rbind (cluster_range E vecs model scope) (\<lambda>es.
     rfold (build_row E R idt) es (links, meta_t))))))"

end
