(* ===== verification/Write.thy ===== *)
theory Write
  imports Hnsw Validate
begin

text \<open>
  The write path (\<^verbatim>\<open>crates/topodb/src/storage.rs\<close>: \<^verbatim>\<open>resolve_op\<close>, the upsert rewrite,
  \<^verbatim>\<open>apply_op\<close>, \<^verbatim>\<open>apply_ops_in_txn\<close>, \<^verbatim>\<open>apply_batches\<close>, \<^verbatim>\<open>apply_batch\<close>). One definition per arm of
  \<^verbatim>\<open>apply_op\<close>; each is a state function on the transaction's \<open>store\<close>. A group of batches shares one
  transaction: it commits as a whole, or the tables are dropped and the journal of interned names
  is reverted from the in-memory mirrors.
\<close>

section \<open>Resolving operations\<close>

definition unwrap_or :: "'a \<Rightarrow> 'a option \<Rightarrow> 'a" where
  "unwrap_or d x = (case x of None \<Rightarrow> d | Some y \<Rightarrow> y)"

fun resolve_op :: "i64 \<Rightarrow> op \<Rightarrow> op" where
  "resolve_op now_ms (CreateEdge i sc ty f t ps valid_from _) =
     CreateEdge i sc ty f t ps (Some (unwrap_or now_ms valid_from)) (Some now_ms)"
| "resolve_op now_ms (CloseEdge i valid_to _) =
     CloseEdge i (Some (unwrap_or now_ms valid_to)) (Some now_ms)"
| "resolve_op now_ms other = other"

text \<open>A \<^verbatim>\<open>HashMap\<close> is an association list with distinct keys.\<close>

type_synonym node_remap = "(node_id \<times> node_id) list"

definition hm_insert :: "'k \<Rightarrow> 'v \<Rightarrow> ('k \<times> 'v) list \<Rightarrow> ('k \<times> 'v) list" where
  "hm_insert k v m = filter (\<lambda>e. fst e \<noteq> k) m @ [(k, v)]"

definition remap_id :: "node_remap \<Rightarrow> node_id \<Rightarrow> node_id" where
  "remap_id m i = unwrap_or i (map_of m i)"

definition remap_op_node_ids :: "node_remap \<Rightarrow> op \<Rightarrow> op" where
  "remap_op_node_ids m x =
     (if m = [] then x
      else case x of
             CreateEdge i sc ty f t ps vf ra \<Rightarrow> CreateEdge i sc ty (remap_id m f) (remap_id m t) ps vf ra
           | SetNodeProps i ps \<Rightarrow> SetNodeProps (remap_id m i) ps
           | SetEmbedding i model v \<Rightarrow> SetEmbedding (remap_id m i) model v
           | RemoveNode i \<Rightarrow> RemoveNode (remap_id m i)
           | other \<Rightarrow> other)"

definition keep_oldest :: "node_id option \<Rightarrow> node_id \<Rightarrow> node_id option" where
  "keep_oldest best i = Some (case best of None \<Rightarrow> i | Some b \<Rightarrow> min b i)"

definition lookup_indexed_node :: "('b, 'd, 'l, 'm, 'o) env \<Rightarrow> ('b, 'd, 'l, 'm, 'o, 'z) store_scheme
    \<Rightarrow> string \<Rightarrow> string \<Rightarrow> prop_value \<Rightarrow> scope \<Rightarrow> node_id option result" where
  "lookup_indexed_node E st label prop v sc =
     (if \<not> (\<exists>c \<in> set (equality (spec E)). pi_label c = label \<and> pi_prop c = prop) then Inr None
      else case id_of (i_dicts st) PropKey prop of
        None \<Rightarrow> Inr None
      | Some prop_key \<Rightarrow> (case index_value_of v of
          None \<Rightarrow> Inr None
        | Some iv \<Rightarrow>
            rbind (prop_lookup (uni E) (eB E) (prop_table st) prop_key iv) (\<lambda>slots.
            rfold (\<lambda>slot best. rbind (read_node_by_slot E st slot) (\<lambda>r. case r of
                      Some rec \<Rightarrow> Inr (if n_label rec = label \<and> n_scope rec = sc then keep_oldest best (n_id rec) else best)
                    | None \<Rightarrow> Inr best)) slots None)))"

section \<open>The upsert rewrite\<close>

type_synonym pending_create = "scope \<times> string \<times> string \<times> prop_value \<times> node_id"

record rewrite_state =
  pending :: "pending_create list"
  upsert_remap :: node_remap
  rewritten :: "op list"

text \<open>The first pending create with the same scope, label, key and value.\<close>

definition find_pending :: "pending_create list \<Rightarrow> scope \<Rightarrow> string \<Rightarrow> string \<Rightarrow> prop_value \<Rightarrow> node_id option" where
  "find_pending ps sc label key v =
     map_option (\<lambda>(_, _, _, _, pid). pid)
       (find (\<lambda>(s, l, k, w, _). s = sc \<and> l = label \<and> k = key \<and> prop_value_eq w v) ps)"

definition existing_upsert :: "('b, 'd, 'l, 'm, 'o) env \<Rightarrow> ('b, 'd, 'l, 'm, 'o, 'z) store_scheme \<Rightarrow> pending_create list
    \<Rightarrow> scope \<Rightarrow> string \<Rightarrow> string \<Rightarrow> prop_value option \<Rightarrow> node_id option result" where
  "existing_upsert E st ps sc label key v =
     (case v of
        None \<Rightarrow> Inr None
      | Some v \<Rightarrow> rbind (lookup_indexed_node E st label key v sc) (\<lambda>r.
          Inr (case r of Some i \<Rightarrow> Some i | None \<Rightarrow> find_pending ps sc label key v)))"

fun rewrite_step :: "('b, 'd, 'l, 'm, 'o) env \<Rightarrow> ('b, 'd, 'l, 'm, 'o, 'z) store_scheme \<Rightarrow> op \<Rightarrow> rewrite_state
    \<Rightarrow> rewrite_state result" where
  "rewrite_step E st (UpsertNode i sc label key ps) rs =
     rbind (existing_upsert E st (pending rs) sc label key (bt_get ps key)) (\<lambda>existing. case existing of
        Some found \<Rightarrow> Inr (rs\<lparr>upsert_remap := hm_insert i found (upsert_remap rs)\<rparr>)
      | None \<Rightarrow> Inr (rs\<lparr>pending := pending rs @ (case bt_get ps key of Some v \<Rightarrow> [(sc, label, key, v, i)] | None \<Rightarrow> []),
                        rewritten := rewritten rs @ [CreateNode i sc label ps]\<rparr>))"
| "rewrite_step E st other rs =
     Inr (rs\<lparr>rewritten := rewritten rs @ [remap_op_node_ids (upsert_remap rs) other]\<rparr>)"

definition rewrite_upserts :: "('b, 'd, 'l, 'm, 'o) env \<Rightarrow> ('b, 'd, 'l, 'm, 'o, 'z) store_scheme \<Rightarrow> op list
    \<Rightarrow> rewrite_state result" where
  "rewrite_upserts E st resolved =
     rfold (rewrite_step E st) resolved \<lparr>pending = [], upsert_remap = [], rewritten = []\<rparr>"

section \<open>Index maintenance of the nearest-neighbour graph\<close>

definition run_hnsw :: "('b \<times> 'b \<Rightarrow> ('a \<times> 'b \<times> 'b) result) \<Rightarrow> (('b, 'd, 'l, 'm, 'o, 'z) store_scheme, 'a) sm" where
  "run_hnsw f = mupd (\<lambda>st. rbind (f (hnsw_links st, hnsw_meta st)) (\<lambda>(x, l, m).
     Inr (x, st\<lparr>hnsw_links := l, hnsw_meta := m\<rparr>)))"

definition cluster_reader :: "'b \<Rightarrow> 'b \<Rightarrow> u32 \<Rightarrow> u32 \<Rightarrow> 'b graph_reader" where
  "cluster_reader vecs refs model scope = \<lparr>gr_vectors = vecs, gr_refs = refs, gr_model = model, gr_scope = scope\<rparr>"

text \<open>The ratio check multiplies 64-bit integers, which wrap in a release build.\<close>

definition maybe_rebuild_cluster :: "('b, 'd, 'l, 'm, 'o) env \<Rightarrow> u32 \<Rightarrow> u32 \<Rightarrow> (('b, 'd, 'l, 'm, 'o, 'z) store_scheme, unit) sm" where
  "maybe_rebuild_cluster E model scope =
     mbind (mread (\<lambda>st. read_meta E (hnsw_meta st) model scope)) (\<lambda>m. case m of
        None \<Rightarrow> mret ()
      | Some m \<Rightarrow>
          if cm_graph_len m * ucast (hp_rebuild_num (hparams E)) \<le> cm_stale m * ucast (hp_rebuild_den (hparams E))
          then mbind (mget (\<lambda>st. (vectors st, embedding_ref st, node_ids st))) (\<lambda>(v, r, n).
               run_hnsw (\<lambda>lm. rbind (build_cluster E v (cluster_reader v r model scope) n model scope lm) (\<lambda>lm'. Inr ((), lm'))))
          else mret ())"

definition apply_hnsw_set_embedding :: "('b, 'd, 'l, 'm, 'o) env \<Rightarrow> (u32 \<times> u32) option \<Rightarrow> u32 \<Rightarrow> u32 \<Rightarrow> u64 \<Rightarrow> node_id
    \<Rightarrow> f32 list \<Rightarrow> (('b, 'd, 'l, 'm, 'o, 'z) store_scheme, unit) sm" where
  "apply_hnsw_set_embedding E old_ref model scope slot i v =
     mbind (case old_ref of
              Some (old_model, old_scope) \<Rightarrow>
                if old_model \<noteq> model
                then mbind (run_hnsw (tombstone E old_model old_scope slot)) (\<lambda>newly.
                     if newly then maybe_rebuild_cluster E old_model old_scope else mret ())
                else mret ()
            | None \<Rightarrow> mret ()) (\<lambda>_.
     mbind (mread (\<lambda>st. read_links E (hnsw_links st) model scope slot 0)) (\<lambda>existing_row.
     mbind (mget (\<lambda>st. (vectors st, embedding_ref st, node_ids st))) (\<lambda>(vecs, refs, ids).
     if existing_row \<noteq> None
     then mbind (run_hnsw (\<lambda>lm. rbind (reinsert_links E (cluster_reader vecs refs model scope) slot v lm) (\<lambda>lm'. Inr ((), lm')))) (\<lambda>_.
          maybe_rebuild_cluster E model scope)
     else mbind (mread (\<lambda>st. read_meta E (hnsw_meta st) model scope)) (\<lambda>m. case m of
            Some _ \<Rightarrow> run_hnsw (\<lambda>lm. rbind (hnsw_insert E (cluster_reader vecs refs model scope) slot i v lm) (\<lambda>lm'. Inr ((), lm')))
          | None \<Rightarrow>
              mbind (mread (\<lambda>st. cluster_vector_count E (vectors st) model scope)) (\<lambda>n.
              if hp_build_threshold (hparams E) \<le> n
              then run_hnsw (\<lambda>lm. rbind (build_cluster E vecs (cluster_reader vecs refs model scope) ids model scope lm) (\<lambda>lm'. Inr ((), lm')))
              else mret ())))))"

section \<open>Applying one operation\<close>

definition found_node :: "('b, 'd, 'l, 'm, 'o) env \<Rightarrow> string \<Rightarrow> node_id \<Rightarrow> (('b, 'd, 'l, 'm, 'o, 'z) store_scheme, node_record) sm" where
  "found_node E msg i = mread (\<lambda>st. rbind (read_node E st i) (ok_or (Rejected msg)))"

definition found_slot :: "('b, 'd, 'l, 'm, 'o) env \<Rightarrow> topo_error \<Rightarrow> node_id \<Rightarrow> (('b, 'd, 'l, 'm, 'o, 'z) store_scheme, u64) sm" where
  "found_slot E e i = mread (\<lambda>st. rbind (node_slot (eB E) (node_slots st) i) (ok_or e))"

definition apply_create_node :: "('b, 'd, 'l, 'm, 'o) env \<Rightarrow> node_id \<Rightarrow> scope \<Rightarrow> string \<Rightarrow> props
    \<Rightarrow> (('b, 'd, 'l, 'm, 'o, 'z) store_scheme, unit) sm" where
  "apply_create_node E i sc label ps =
     mbind (mupd (\<lambda>st. rbind (alloc_node_slot (eM E) (eB E) (meta st) (node_slots st) (node_ids st) i) (\<lambda>(slot, m, f, r).
              Inr (slot, st\<lparr>meta := m, node_slots := f, node_ids := r\<rparr>)))) (\<lambda>slot.
     mbind (put_node E \<lparr>n_id = i, n_scope = sc, n_label = label, n_props = ps, n_embedding = None\<rparr>) (\<lambda>_.
     mbind (dict_intern (eD E) Label label) (\<lambda>label_id.
     mbind (registry_intern (eB E) sc) (\<lambda>scope_id.
     mupd (\<lambda>st. rbind (redb (tinsert (eL E) (label_index st) (label_index_key label_id scope_id i) slot)) (\<lambda>t.
              Inr ((), st\<lparr>label_index := t\<rparr>)))))))"

definition merge_props :: "(string, prop_value option) btree_map \<Rightarrow> props \<Rightarrow> props" where
  "merge_props ups ps = fold (\<lambda>(k, v) p. case v of Some w \<Rightarrow> bt_insert k w p | None \<Rightarrow> bt_remove k p) ups ps"

definition apply_set_node_props :: "('b, 'd, 'l, 'm, 'o) env \<Rightarrow> node_id \<Rightarrow> (string, prop_value option) btree_map
    \<Rightarrow> (('b, 'd, 'l, 'm, 'o, 'z) store_scheme, unit) sm" where
  "apply_set_node_props E i ups =
     mbind (found_node E ''SetNodeProps: node not found'' i) (\<lambda>rec.
     put_node E (rec\<lparr>n_props := merge_props ups (n_props rec)\<rparr>))"

text \<open>A rejection by the dimension check is rewritten to name the operation; other errors pass through.\<close>

definition dim_err :: "'a result \<Rightarrow> 'a result" where
  "dim_err r = (case r of Inl (Rejected msg) \<Rightarrow> Inl (Rejected (''SetEmbedding for model: '' @ msg)) | r \<Rightarrow> r)"

lemma dim_err_Inr [simp]: "dim_err r = Inr x \<longleftrightarrow> r = Inr x"
  by (auto simp: dim_err_def split: sum.splits topo_error.splits)

definition apply_set_embedding :: "('b, 'd, 'l, 'm, 'o) env \<Rightarrow> node_id \<Rightarrow> string \<Rightarrow> f32 list
    \<Rightarrow> (('b, 'd, 'l, 'm, 'o, 'z) store_scheme, unit) sm" where
  "apply_set_embedding E i model v =
     (if v = [] then mfail (Rejected ''embedding must have at least one dimension'')
      else if \<exists>c \<in> set v. \<not> f32_is_finite c then mfail (Rejected ''embedding contains a non-finite component'')
      else
        mbind (found_node E ''SetEmbedding: node not found'' i) (\<lambda>rec.
        mbind (dict_intern (eD E) Model model) (\<lambda>model_id.
        mbind (mupd (\<lambda>st. rbind (dim_err (check_or_pin_dim (eB E) model_id (length v) (vector_dims st))) (\<lambda>t.
                 Inr ((), st\<lparr>vector_dims := t\<rparr>)))) (\<lambda>_.
        mbind (found_slot E (Encoding ''SetEmbedding: missing node slot after read_node hit'') i) (\<lambda>slot.
        mbind (registry_intern (eB E) (n_scope rec)) (\<lambda>scope_id.
        mbind (mread (\<lambda>st. read_ref E (embedding_ref st) slot)) (\<lambda>old_ref.
        mbind (mupd (\<lambda>st. rbind (put_vector E model_id scope_id slot v (vectors st) (embedding_ref st)) (\<lambda>(vs, rs).
                 Inr ((), st\<lparr>vectors := vs, embedding_ref := rs\<rparr>)))) (\<lambda>_.
        apply_hnsw_set_embedding E old_ref model_id scope_id slot i v))))))))"


text \<open>
  Removing a node: its row, its label entry, its vector, both sides of its adjacency and its slot
  mapping; then, per incident edge, the counterpart entry in the other endpoint's adjacency and,
  the first time the edge is met, its row and its slot mapping.
\<close>

definition remove_node_row :: "('b, 'd, 'l, 'm, 'o) env \<Rightarrow> node_id \<Rightarrow> u64 \<Rightarrow> (('b, 'd, 'l, 'm, 'o, 'z) store_scheme, unit) sm" where
  "remove_node_row E i removed_slot =
     mbind (mupd (\<lambda>st. rbind (redb (tremove (eB E) (nodes st) (slot_key removed_slot))) (\<lambda>(old, t).
              Inr (old, st\<lparr>nodes := t\<rparr>)))) (\<lambda>removed. case removed of
        None \<Rightarrow> mfail (Encoding ''RemoveNode: node slot present but record row missing'')
      | Some b \<Rightarrow>
          mbind (mlift (unframe_value (lz E) b)) (\<lambda>raw.
          mbind (mlift (pc_err (de (pc_node E) raw))) (\<lambda>disk.
          mupd (\<lambda>st. rbind (redb (tremove (eL E) (label_index st) (label_index_key (nd_label disk) (nd_scope disk) i))) (\<lambda>(_, t).
                 Inr ((), st\<lparr>label_index := t\<rparr>))))))"

definition remove_node_vector :: "('b, 'd, 'l, 'm, 'o) env \<Rightarrow> u64 \<Rightarrow> (('b, 'd, 'l, 'm, 'o, 'z) store_scheme, unit) sm" where
  "remove_node_vector E removed_slot =
     mbind (mread (\<lambda>st. read_ref E (embedding_ref st) removed_slot)) (\<lambda>old_ref.
     mbind (mupd (\<lambda>st. rbind (remove_vector E removed_slot (vectors st) (embedding_ref st)) (\<lambda>(vs, rs).
              Inr ((), st\<lparr>vectors := vs, embedding_ref := rs\<rparr>)))) (\<lambda>_.
     case old_ref of
       Some (model, scope) \<Rightarrow>
         mbind (run_hnsw (tombstone E model scope removed_slot)) (\<lambda>newly.
         if newly then maybe_rebuild_cluster E model scope else mret ())
     | None \<Rightarrow> mret ()))"

definition remove_edge_row :: "('b, 'd, 'l, 'm, 'o) env \<Rightarrow> u64 \<Rightarrow> (('b, 'd, 'l, 'm, 'o, 'z) store_scheme, unit) sm" where
  "remove_edge_row E s =
     mbind (mupd (\<lambda>st. rbind (redb (tremove (eB E) (edges st) (slot_key s))) (\<lambda>(_, t). Inr ((), st\<lparr>edges := t\<rparr>)))) (\<lambda>_.
     mbind (mread (\<lambda>st. edge_ulid (eB E) (edge_ids st) s)) (\<lambda>r. case r of
        Some edge_id \<Rightarrow> mupd (\<lambda>st. rbind (remove_edge_mapping (eB E) (edge_slots st) (edge_ids st) edge_id) (\<lambda>(f, r).
                          Inr ((), st\<lparr>edge_slots := f, edge_ids := r\<rparr>)))
      | None \<Rightarrow> mret ()))"

text \<open>The two adjacency tables, by direction.\<close>

definition drop_counterpart :: "('b, 'd, 'l, 'm, 'o) env \<Rightarrow> bool \<Rightarrow> u64 \<Rightarrow> u32 \<Rightarrow> u64 \<Rightarrow> (('b, 'd, 'l, 'm, 'o, 'z) store_scheme, unit) sm" where
  "drop_counterpart E inbound other ty s =
     mupd (\<lambda>st. if inbound
                then rbind (adj_remove_edge (lz E) (eB E) other ty s (in_adj st)) (\<lambda>(_, t). Inr ((), st\<lparr>in_adj := t\<rparr>))
                else rbind (adj_remove_edge (lz E) (eB E) other ty s (out_adj st)) (\<lambda>(_, t). Inr ((), st\<lparr>out_adj := t\<rparr>)))"

fun cascade :: "('b, 'd, 'l, 'm, 'o) env \<Rightarrow> bool \<Rightarrow> u64 \<Rightarrow> (u32 \<times> adj_entry) list \<Rightarrow> u64 set
    \<Rightarrow> (('b, 'd, 'l, 'm, 'o, 'z) store_scheme, u64 set) sm" where
  "cascade E inbound removed_slot [] seen = mret seen"
| "cascade E inbound removed_slot ((ty, e) # es) seen =
     mbind (if a_target e \<noteq> removed_slot then drop_counterpart E inbound (a_target e) ty (a_edge e) else mret ()) (\<lambda>_.
     mbind (if a_edge e \<in> seen then mret () else remove_edge_row E (a_edge e)) (\<lambda>_.
     cascade E inbound removed_slot es (insert (a_edge e) seen)))"

definition apply_remove_node :: "('b, 'd, 'l, 'm, 'o) env \<Rightarrow> node_id \<Rightarrow> (('b, 'd, 'l, 'm, 'o, 'z) store_scheme, unit) sm" where
  "apply_remove_node E i =
     mbind (found_slot E (Rejected ''RemoveNode: node not found'') i) (\<lambda>removed_slot.
     mbind (remove_node_row E i removed_slot) (\<lambda>_.
     mbind (remove_node_vector E removed_slot) (\<lambda>_.
     mbind (mupd (\<lambda>st. rbind (adj_remove_all (lz E) (eB E) removed_slot (out_adj st)) (\<lambda>(es, t).
              Inr (es, st\<lparr>out_adj := t\<rparr>)))) (\<lambda>out_entries.
     mbind (mupd (\<lambda>st. rbind (adj_remove_all (lz E) (eB E) removed_slot (in_adj st)) (\<lambda>(es, t).
              Inr (es, st\<lparr>in_adj := t\<rparr>)))) (\<lambda>in_entries.
     mbind (mupd (\<lambda>st. rbind (remove_node_mapping (eB E) (node_slots st) (node_ids st) i) (\<lambda>(f, r).
              Inr ((), st\<lparr>node_slots := f, node_ids := r\<rparr>)))) (\<lambda>_.
     mbind (cascade E True removed_slot out_entries {}) (\<lambda>seen.
     mbind (cascade E False removed_slot in_entries seen) (\<lambda>_. mret ()))))))))"

text \<open>
  A resolved edge operation carries its instant; \<^verbatim>\<open>expect\<close> on a missing one is the error
  \<^const>\<open>panicked\<close>.
\<close>

definition expect :: "string \<Rightarrow> 'a option \<Rightarrow> 'a result" where
  "expect msg x = ok_or (panicked msg) x"

definition cross_scope :: "scope \<Rightarrow> scope \<Rightarrow> bool" where
  "cross_scope a b \<longleftrightarrow> a \<noteq> b \<and> a \<noteq> Shared \<and> b \<noteq> Shared"

definition insert_adjacency :: "('b, 'd, 'l, 'm, 'o) env \<Rightarrow> u64 \<Rightarrow> u64 \<Rightarrow> u32 \<Rightarrow> u64 \<Rightarrow> u32 \<Rightarrow> i64
    \<Rightarrow> (('b, 'd, 'l, 'm, 'o, 'z) store_scheme, unit) sm" where
  "insert_adjacency E from_slot to_slot edge_type s scope_id valid_from =
     mbind (mupd (\<lambda>st. rbind (adj_insert (lz E) (eB E) from_slot edge_type
                \<lparr>a_target = to_slot, a_edge = s, a_scope = scope_id, a_valid_from = valid_from, a_valid_to = None\<rparr>
                (out_adj st)) (\<lambda>t. Inr ((), st\<lparr>out_adj := t\<rparr>)))) (\<lambda>_.
     mupd (\<lambda>st. rbind (adj_insert (lz E) (eB E) to_slot edge_type
                \<lparr>a_target = from_slot, a_edge = s, a_scope = scope_id, a_valid_from = valid_from, a_valid_to = None\<rparr>
                (in_adj st)) (\<lambda>t. Inr ((), st\<lparr>in_adj := t\<rparr>))))"

definition apply_create_edge :: "('b, 'd, 'l, 'm, 'o) env \<Rightarrow> edge_id \<Rightarrow> scope \<Rightarrow> string \<Rightarrow> node_id \<Rightarrow> node_id \<Rightarrow> props
    \<Rightarrow> i64 option \<Rightarrow> i64 option \<Rightarrow> (('b, 'd, 'l, 'm, 'o, 'z) store_scheme, unit) sm" where
  "apply_create_edge E i sc ty f t ps valid_from recorded_at =
     mbind (found_node E ''CreateEdge: from node not found'' f) (\<lambda>from_rec.
     mbind (found_node E ''CreateEdge: to node not found'' t) (\<lambda>to_rec.
     if cross_scope (n_scope from_rec) (n_scope to_rec)
     then mfail (Rejected ''CreateEdge: cross-scope edge requires at least one Shared endpoint'')
     else
       mbind (mupd (\<lambda>st. rbind (alloc_edge_slot (eM E) (eB E) (meta st) (edge_slots st) (edge_ids st) i) (\<lambda>(s, m, fw, rv).
                Inr (s, st\<lparr>meta := m, edge_slots := fw, edge_ids := rv\<rparr>)))) (\<lambda>s.
       mbind (found_slot E (Encoding ''missing from slot'') f) (\<lambda>from_slot.
       mbind (found_slot E (Encoding ''missing to slot'') t) (\<lambda>to_slot.
       mbind (dict_intern (eD E) EdgeType ty) (\<lambda>edge_type.
       mbind (registry_intern (eB E) sc) (\<lambda>scope_id.
       mbind (mlift (expect ''apply_op only runs on resolved ops (valid_from filled by resolve_op)'' valid_from)) (\<lambda>vf.
       mbind (put_edge E \<lparr>e_id = i, e_scope = sc, e_ty = ty, e_from = f, e_to = t, e_props = ps, e_valid_from = vf,
                e_valid_to = None, e_recorded_at = unwrap_or vf recorded_at, e_superseded_at = None\<rparr>) (\<lambda>_.
       insert_adjacency E from_slot to_slot edge_type s scope_id vf)))))))))"

text \<open>Closing both adjacency entries; the second is not attempted when the first is missing.\<close>

definition close_adjacency :: "('b, 'd, 'l, 'm, 'o) env \<Rightarrow> u64 \<Rightarrow> u64 \<Rightarrow> u32 \<Rightarrow> u64 \<Rightarrow> i64
    \<Rightarrow> (('b, 'd, 'l, 'm, 'o, 'z) store_scheme, unit) sm" where
  "close_adjacency E from_slot to_slot edge_type s vt =
     mbind (mupd (\<lambda>st. rbind (adj_close (lz E) (eB E) from_slot edge_type s vt (out_adj st)) (\<lambda>(b, t).
              Inr (b, st\<lparr>out_adj := t\<rparr>)))) (\<lambda>out_ok.
     if \<not> out_ok then mfail (Encoding ''adjacency missing closed edge'')
     else mbind (mupd (\<lambda>st. rbind (adj_close (lz E) (eB E) to_slot edge_type s vt (in_adj st)) (\<lambda>(b, t).
              Inr (b, st\<lparr>in_adj := t\<rparr>)))) (\<lambda>in_ok.
          if \<not> in_ok then mfail (Encoding ''adjacency missing closed edge'') else mret ()))"

definition apply_close_edge :: "('b, 'd, 'l, 'm, 'o) env \<Rightarrow> edge_id \<Rightarrow> i64 option \<Rightarrow> i64 option
    \<Rightarrow> (('b, 'd, 'l, 'm, 'o, 'z) store_scheme, unit) sm" where
  "apply_close_edge E i valid_to superseded_at =
     mbind (mread (\<lambda>st. rbind (read_edge E st i) (ok_or (Rejected ''CloseEdge: edge not found'')))) (\<lambda>rec.
     if e_valid_to rec \<noteq> None then mfail (Rejected ''CloseEdge: edge already closed'')
     else
       mbind (mlift (expect ''apply_op only runs on resolved ops (valid_to filled by resolve_op)'' valid_to)) (\<lambda>vt.
       let rec' = rec\<lparr>e_valid_to := Some vt, e_superseded_at := Some (unwrap_or vt superseded_at)\<rparr> in
       mbind (put_edge E rec') (\<lambda>_.
       mbind (mread (\<lambda>st. rbind (edge_slot (eB E) (edge_slots st) i) (ok_or (Encoding ''missing edge slot'')))) (\<lambda>s.
       mbind (found_slot E (Encoding ''missing from slot'') (e_from rec')) (\<lambda>from_slot.
       mbind (found_slot E (Encoding ''missing to slot'') (e_to rec')) (\<lambda>to_slot.
       mbind (dict_intern (eD E) EdgeType (e_ty rec')) (\<lambda>edge_type.
       close_adjacency E from_slot to_slot edge_type s vt)))))))"

fun apply_op :: "('b, 'd, 'l, 'm, 'o) env \<Rightarrow> op \<Rightarrow> (('b, 'd, 'l, 'm, 'o, 'z) store_scheme, unit) sm" where
  "apply_op E (UpsertNode _ _ _ _ _) = mfail (Encoding ''internal: UpsertNode reached apply_op unresolved'')"
| "apply_op E (CreateNode i sc label ps) = apply_create_node E i sc label ps"
| "apply_op E (SetNodeProps i ups) = apply_set_node_props E i ups"
| "apply_op E (SetEmbedding i model v) = apply_set_embedding E i model v"
| "apply_op E (RemoveNode i) = apply_remove_node E i"
| "apply_op E (CreateEdge i sc ty f t ps vf ra) = apply_create_edge E i sc ty f t ps vf ra"
| "apply_op E (CloseEdge i vt sa) = apply_close_edge E i vt sa"

section \<open>Every operation keeps the mirrors\<close>

lemma keeps_if [intro]: "keeps m \<Longrightarrow> keeps n \<Longrightarrow> keeps (if b then m else n)"
  by simp

lemma keeps_option [intro]: "keeps m \<Longrightarrow> (\<And>x. keeps (f x)) \<Longrightarrow> keeps (case o' of None \<Rightarrow> m | Some x \<Rightarrow> f x)"
  by (cases o') auto

lemma keeps_pair [intro]: "(\<And>x y. keeps (f x y)) \<Longrightarrow> keeps (case p of (x, y) \<Rightarrow> f x y)"
  by (cases p) auto

lemma keeps_run_hnsw [simp, intro]: "keeps (run_hnsw f)"
  unfolding run_hnsw_def by (rule keeps_mupd) (auto simp: rbind_Inr)

lemma keeps_maybe_rebuild [simp, intro]: "keeps (maybe_rebuild_cluster E m s)"
  unfolding maybe_rebuild_cluster_def by (intro keeps_mbind keeps_reads keeps_if keeps_option keeps_pair keeps_run_hnsw)

lemma keeps_hnsw_set [simp, intro]: "keeps (apply_hnsw_set_embedding E old m s slot i v)"
  unfolding apply_hnsw_set_embedding_def
  by (intro keeps_mbind keeps_reads keeps_if keeps_option keeps_pair keeps_run_hnsw keeps_maybe_rebuild)

lemma keeps_found [simp, intro]: "keeps (found_node E msg i)" "keeps (found_slot E e i)"
  by (simp_all add: found_node_def found_slot_def)

lemma keeps_create_node [simp, intro]: "keeps (apply_create_node E i sc l ps)"
  unfolding apply_create_node_def
  by (intro keeps_mbind keeps_reads keeps_put_node keeps_dict_intern keeps_registry_intern keeps_mupd) (auto simp: rbind_Inr)

lemma keeps_set_node_props [simp, intro]: "keeps (apply_set_node_props E i ups)"
  unfolding apply_set_node_props_def by (intro keeps_mbind keeps_found keeps_put_node)

lemma keeps_set_embedding [simp, intro]: "keeps (apply_set_embedding E i m v)"
  unfolding apply_set_embedding_def
  by (intro keeps_if keeps_mbind keeps_reads keeps_found keeps_dict_intern keeps_registry_intern keeps_hnsw_set keeps_mupd)
     (auto simp: rbind_Inr)

lemma keeps_remove_node_row [simp, intro]: "keeps (remove_node_row E i s)"
  unfolding remove_node_row_def
  by (intro keeps_mbind keeps_option keeps_reads keeps_mupd) (auto simp: rbind_Inr)

lemma keeps_remove_node_vector [simp, intro]: "keeps (remove_node_vector E s)"
  unfolding remove_node_vector_def
  by (intro keeps_mbind keeps_option keeps_pair keeps_if keeps_reads keeps_run_hnsw keeps_maybe_rebuild keeps_mupd)
     (auto simp: rbind_Inr)

lemma keeps_remove_edge_row [simp, intro]: "keeps (remove_edge_row E s)"
  unfolding remove_edge_row_def
  by (intro keeps_mbind keeps_option keeps_reads keeps_mupd) (auto simp: rbind_Inr)

lemma keeps_drop_counterpart [simp, intro]: "keeps (drop_counterpart E b s ty e)"
  unfolding drop_counterpart_def by (rule keeps_mupd) (auto simp: rbind_Inr split: if_splits)

lemma keeps_cascade [simp, intro]: "keeps (cascade E b s es seen)"
  by (induction E b s es seen rule: cascade.induct)
     (auto simp del: keeps_reads intro!: keeps_mbind keeps_if keeps_reads)

lemma keeps_remove_node [simp, intro]: "keeps (apply_remove_node E i)"
  unfolding apply_remove_node_def
  by (intro keeps_mbind keeps_reads keeps_found keeps_remove_node_row keeps_remove_node_vector keeps_cascade keeps_mupd)
     (auto simp: rbind_Inr)

lemma keeps_adjacency [simp, intro]:
  "keeps (insert_adjacency E f t ty s sc vf)" "keeps (close_adjacency E f t ty s vt)"
  unfolding insert_adjacency_def close_adjacency_def
  by (intro keeps_mbind keeps_if keeps_reads keeps_mupd; auto simp: rbind_Inr)+

lemma keeps_create_edge [simp, intro]: "keeps (apply_create_edge E i sc ty f t ps vf ra)"
  unfolding apply_create_edge_def
  by (intro keeps_mbind keeps_if keeps_reads keeps_found keeps_dict_intern keeps_registry_intern keeps_put_edge
      keeps_adjacency keeps_mupd)
     (auto simp: rbind_Inr)

lemma keeps_close_edge [simp, intro]: "keeps (apply_close_edge E i vt sa)"
  unfolding apply_close_edge_def Let_def
  by (intro keeps_mbind keeps_if keeps_reads keeps_found keeps_dict_intern keeps_put_edge keeps_adjacency)

lemma keeps_apply_op [simp, intro]: "keeps (apply_op E x)"
  by (cases x) simp_all

end
