(* ===== verification/EdgeIndex.thy ===== *)
theory EdgeIndex
  imports Disk Adj
begin

text \<open>
  What the two adjacency tables are supposed to contain: an index of the edge rows. \<open>index_of\<close>
  computes, from the edge rows by slot, the entries under a slot and an edge type, in either
  direction; the lemmas say how the index moves when one edge row is added, changed or removed.
\<close>

type_synonym edge_rows = "u64 \<rightharpoonup> edge_record_disk_v4"

datatype side = Outgoing | Incoming

fun anchor :: "side \<Rightarrow> edge_record_disk_v4 \<Rightarrow> u64" where
  "anchor Outgoing d = ed_from d"
| "anchor Incoming d = ed_to d"

fun opposite :: "side \<Rightarrow> edge_record_disk_v4 \<Rightarrow> u64" where
  "opposite Outgoing d = ed_to d"
| "opposite Incoming d = ed_from d"

definition index_entry :: "side \<Rightarrow> u64 \<Rightarrow> edge_record_disk_v4 \<Rightarrow> adj_entry" where
  "index_entry sd s d = \<lparr>a_target = opposite sd d, a_edge = s, a_scope = ed_scope d, a_valid_from = ed_valid_from d,
     a_valid_to = ed_valid_to d\<rparr>"

definition anchored :: "side \<Rightarrow> edge_rows \<Rightarrow> u64 \<Rightarrow> u32 \<Rightarrow> u64 set" where
  "anchored sd ers n ty = {s. \<exists>d. ers s = Some d \<and> anchor sd d = n \<and> ed_ty d = ty}"

definition index_of :: "side \<Rightarrow> edge_rows \<Rightarrow> u64 \<Rightarrow> u32 \<Rightarrow> adj_entry multiset" where
  "index_of sd ers n ty = image_mset (\<lambda>s. index_entry sd s (the (ers s))) (mset_set (anchored sd ers n ty))"

lemma finite_anchored [simp]: "finite (anchored sd ers n ty)"
  by (rule finite_subset [OF subset_UNIV]) simp

lemma a_edge_index_entry [simp]: "a_edge (index_entry sd s d) = s" "a_target (index_entry sd s d) = opposite sd d"
  by (simp_all add: index_entry_def)

lemma index_mem:
  "e \<in># index_of sd ers n ty \<longleftrightarrow>
     (\<exists>d. ers (a_edge e) = Some d \<and> anchor sd d = n \<and> ed_ty d = ty \<and> e = index_entry sd (a_edge e) d)"
proof
  assume "e \<in># index_of sd ers n ty"
  then obtain s where "s \<in> anchored sd ers n ty" "e = index_entry sd s (the (ers s))" by (auto simp: index_of_def)
  then show "\<exists>d. ers (a_edge e) = Some d \<and> anchor sd d = n \<and> ed_ty d = ty \<and> e = index_entry sd (a_edge e) d"
    by (auto simp: anchored_def)
next
  assume "\<exists>d. ers (a_edge e) = Some d \<and> anchor sd d = n \<and> ed_ty d = ty \<and> e = index_entry sd (a_edge e) d"
  then obtain d where d: "ers (a_edge e) = Some d" "anchor sd d = n" "ed_ty d = ty" "e = index_entry sd (a_edge e) d" by blast
  then have "a_edge e \<in> anchored sd ers n ty" by (auto simp: anchored_def)
  moreover have "index_entry sd (a_edge e) (the (ers (a_edge e))) = e" using d by simp
  ultimately show "e \<in># index_of sd ers n ty" unfolding index_of_def by (simp add: rev_image_eqI)
qed

lemma index_cong:
  assumes "\<And>s d. anchor sd d = n \<Longrightarrow> ed_ty d = ty \<Longrightarrow> ers s = Some d \<longleftrightarrow> ers' s = Some d"
  shows "index_of sd ers n ty = index_of sd ers' n ty"
proof -
  have "anchored sd ers n ty = anchored sd ers' n ty" using assms by (auto simp: anchored_def)
  moreover have "the (ers s) = the (ers' s)" if "s \<in> anchored sd ers n ty" for s
  proof -
    from that obtain d where d: "ers s = Some d" "anchor sd d = n" "ed_ty d = ty" by (auto simp: anchored_def)
    with assms [OF d(2,3), of s] show ?thesis by simp
  qed
  ultimately show ?thesis by (auto simp: index_of_def intro!: image_mset_cong)
qed

lemma index_insert:
  assumes "ers s = None"
  shows "index_of sd (ers(s \<mapsto> d)) n ty =
    (if anchor sd d = n \<and> ed_ty d = ty then add_mset (index_entry sd s d) (index_of sd ers n ty) else index_of sd ers n ty)"
proof (cases "anchor sd d = n \<and> ed_ty d = ty")
  case True
  have "anchored sd (ers(s \<mapsto> d)) n ty = insert s (anchored sd ers n ty)" "s \<notin> anchored sd ers n ty"
    using True assms by (auto simp: anchored_def)
  moreover have "image_mset (\<lambda>x. index_entry sd x (the ((ers(s \<mapsto> d)) x))) (mset_set (anchored sd ers n ty)) =
      image_mset (\<lambda>x. index_entry sd x (the (ers x))) (mset_set (anchored sd ers n ty))"
    using calculation(2) by (intro image_mset_cong) auto
  ultimately show ?thesis using True by (simp add: index_of_def)
next
  case False
  then have "index_of sd (ers(s \<mapsto> d)) n ty = index_of sd ers n ty"
    by (intro index_cong) (use assms in \<open>auto split: if_splits\<close>)
  then show ?thesis using False by simp
qed

lemma index_remove: "index_of sd (ers(s := None)) n ty = {# e \<in># index_of sd ers n ty. a_edge e \<noteq> s #}"
proof -
  have "anchored sd (ers(s := None)) n ty = {x \<in> anchored sd ers n ty. x \<noteq> s}" by (auto simp: anchored_def split: if_splits)
  then have "mset_set (anchored sd (ers(s := None)) n ty) = {# x \<in># mset_set (anchored sd ers n ty). x \<noteq> s #}"
    by simp
  then show ?thesis
    unfolding index_of_def
    by (simp add: filter_mset_image_mset) (intro image_mset_cong, auto)
qed

lemma index_unique: "size {# e \<in># index_of sd ers n ty. a_edge e = s #} \<le> 1"
proof -
  have "{# e \<in># index_of sd ers n ty. a_edge e = s #} =
      image_mset (\<lambda>x. index_entry sd x (the (ers x))) {# x \<in># mset_set (anchored sd ers n ty). x = s #}"
    by (simp add: index_of_def filter_mset_image_mset)
  also have "size \<dots> = card {x \<in> anchored sd ers n ty. x = s}" by simp
  also have "\<dots> \<le> card {s}" by (rule card_mono) auto
  finally show ?thesis by simp
qed

text \<open>Changing a row without moving it changes its entry in place.\<close>

lemma index_update:
  assumes "ers s = Some d" "anchor sd d' = anchor sd d" "ed_ty d' = ed_ty d"
  shows "index_of sd (ers(s \<mapsto> d')) n ty =
    (if anchor sd d = n \<and> ed_ty d = ty
     then add_mset (index_entry sd s d') (index_of sd ers n ty - {#index_entry sd s d#}) else index_of sd ers n ty)"
proof -
  have e: "ers = (ers(s := None))(s \<mapsto> d)" "ers(s \<mapsto> d') = (ers(s := None))(s \<mapsto> d')" using assms(1) by auto
  have "index_of sd ers n ty = (if anchor sd d = n \<and> ed_ty d = ty
      then add_mset (index_entry sd s d) (index_of sd (ers(s := None)) n ty) else index_of sd (ers(s := None)) n ty)"
    by (subst e(1)) (rule index_insert, simp)
  moreover have "index_of sd (ers(s \<mapsto> d')) n ty = (if anchor sd d' = n \<and> ed_ty d' = ty
      then add_mset (index_entry sd s d') (index_of sd (ers(s := None)) n ty) else index_of sd (ers(s := None)) n ty)"
    by (subst e(2)) (rule index_insert, simp)
  ultimately show ?thesis using assms(2,3) by simp
qed

lemma index_edge_in:
  "e \<in># index_of sd ers n ty \<Longrightarrow> a_edge e = s \<Longrightarrow> ers s = Some d \<Longrightarrow> e = index_entry sd s d"
  by (auto simp: index_mem)

end
