(* ===== verification/Instance.thy ===== *)
theory Instance
  imports Store
begin

text \<open>
  A concrete environment that meets every contract the development assumes: search trees for
  tables, a run-length compressor, fixed-width serializers that refuse what they cannot encode,
  and arithmetic on bit patterns. The contracts are discharged here by interpretation, and
  the witnesses of the write and read path run the engine in it.
\<close>

section \<open>Serializers\<close>

definition at :: "nat \<Rightarrow> nat \<Rightarrow> bytes \<Rightarrow> bytes" where
  "at i n b = take n (drop i b)"

definition fixed_node :: "node_record_disk_v3 serde" where
  "fixed_node = \<lparr>
     ser = (\<lambda>d. if nd_props d = [] then Inr (id_key (node_u128 (nd_id d)) @ u32_to_be (nd_scope d) @ u32_to_be (nd_label d))
                else Inl ''properties''),
     de = (\<lambda>b. Inr \<lparr>nd_id = NodeId (u128_from_be (at 0 16 b)), nd_scope = u32_from_be (at 16 4 b),
                  nd_label = u32_from_be (at 20 4 b), nd_props = []\<rparr>) \<rparr>"

definition opt_bytes :: "i64 option \<Rightarrow> bytes" where
  "opt_bytes x = (case x of None \<Rightarrow> replicate 9 0 | Some v \<Rightarrow> 1 # u64_to_be v)"

definition opt_from :: "bytes \<Rightarrow> i64 option" where
  "opt_from b = (case b of [] \<Rightarrow> None | c # r \<Rightarrow> if c = 1 then Some (u64_from_be r) else None)"

definition fixed_edge :: "edge_record_disk_v4 serde" where
  "fixed_edge = \<lparr>
     ser = (\<lambda>d. if ed_props d = []
                then Inr (id_key (edge_u128 (ed_id d)) @ u32_to_be (ed_scope d) @ u32_to_be (ed_ty d) @ u64_to_be (ed_from d) @
                       u64_to_be (ed_to d) @ u64_to_be (ed_valid_from d) @ opt_bytes (ed_valid_to d) @
                       u64_to_be (ed_recorded_at d) @ opt_bytes (ed_superseded_at d))
                else Inl ''properties''),
     de = (\<lambda>b. Inr \<lparr>ed_id = EdgeId (u128_from_be (at 0 16 b)), ed_scope = u32_from_be (at 16 4 b),
                  ed_ty = u32_from_be (at 20 4 b), ed_from = u64_from_be (at 24 8 b), ed_to = u64_from_be (at 32 8 b),
                  ed_props = [], ed_valid_from = u64_from_be (at 40 8 b), ed_valid_to = opt_from (at 48 9 b),
                  ed_recorded_at = u64_from_be (at 57 8 b), ed_superseded_at = opt_from (at 65 9 b)\<rparr>) \<rparr>"

definition fixed_ref :: "(u32 \<times> u32) serde" where
  "fixed_ref = \<lparr>
     ser = (\<lambda>(m, s). Inr (u32_to_be m @ u32_to_be s)),
     de = (\<lambda>b. Inr (u32_from_be (at 0 4 b), u32_from_be (at 4 4 b))) \<rparr>"

definition fixed_qvec :: "qvec serde" where
  "fixed_qvec = \<lparr>
     ser = (\<lambda>(scale, codes). if length codes \<le> 65536 then Inr (u32_to_be scale @ codes) else Inl ''too long''),
     de = (\<lambda>b. Inr (u32_from_be (at 0 4 b), drop 4 b)) \<rparr>"

definition fixed_meta :: "cluster_meta serde" where
  "fixed_meta = \<lparr>
     ser = (\<lambda>m. Inr ([cm_format m, if cm_built m then 1 else 0] @ u64_to_be (cm_entry_slot m) @ [cm_entry_level m] @
                   u64_to_be (cm_graph_len m) @ u64_to_be (cm_stale m))),
     de = (\<lambda>b. Inr \<lparr>cm_format = b ! 0, cm_built = (b ! 1 = 1), cm_entry_slot = u64_from_be (at 2 8 b), cm_entry_level = b ! 10,
                  cm_graph_len = u64_from_be (at 11 8 b), cm_stale = u64_from_be (at 19 8 b)\<rparr>) \<rparr>"

fun slots_from :: "bytes \<Rightarrow> u64 list" where
  "slots_from b = (if length b < 8 then [] else u64_from_be (take 8 b) # slots_from (drop 8 b))"

declare slots_from.simps [simp del]

definition fixed_links :: "link_row serde" where
  "fixed_links = \<lparr>
     ser = (\<lambda>r. if length (lr_neighbors r) \<le> 65536
                then Inr ((if lr_tomb r then 1 else 0) # concat (map u64_to_be (lr_neighbors r))) else Inl ''too long''),
     de = (\<lambda>b. Inr \<lparr>lr_tomb = (hd b = 1), lr_neighbors = slots_from (tl b)\<rparr>) \<rparr>"

definition fixed_ops :: postcard_ops where
  "fixed_ops = \<lparr>
     to_bytes = (\<lambda>x. case x of
         RemoveNode i \<Rightarrow> Inr (0 # id_key (node_u128 i))
       | CreateNode i Shared l [] \<Rightarrow> Inr (1 # id_key (node_u128 i) @ str_bytes l)
       | CreateEdge i Shared ty f t [] (Some vf) (Some ra) \<Rightarrow>
           Inr (2 # id_key (edge_u128 i) @ id_key (node_u128 f) @ id_key (node_u128 t) @ u64_to_be vf @ u64_to_be ra @ str_bytes ty)
       | CloseEdge i (Some vt) (Some sa) \<Rightarrow> Inr (3 # id_key (edge_u128 i) @ u64_to_be vt @ u64_to_be sa)
       | _ \<Rightarrow> Inl ''unsupported''),
     from_bytes = (\<lambda>c. case c of
         [] \<Rightarrow> Inl ''empty''
       | k # b \<Rightarrow>
           if k = 0 then Inr (RemoveNode (NodeId (u128_from_be b)))
           else if k = 1 then Inr (CreateNode (NodeId (u128_from_be (at 0 16 b))) Shared (bytes_str (drop 16 b)) [])
           else if k = 2 then Inr (CreateEdge (EdgeId (u128_from_be (at 0 16 b))) Shared (bytes_str (drop 64 b))
             (NodeId (u128_from_be (at 16 16 b))) (NodeId (u128_from_be (at 32 16 b))) []
             (Some (u64_from_be (at 48 8 b))) (Some (u64_from_be (at 56 8 b))))
           else Inr (CloseEdge (EdgeId (u128_from_be (at 0 16 b))) (Some (u64_from_be (at 16 8 b))) (Some (u64_from_be (at 24 8 b))))) \<rparr>"

lemma opt_roundtrip [simp]: "opt_from (opt_bytes x) = x" "length (opt_bytes x) = 9"
  by (cases x; simp add: opt_from_def opt_bytes_def numeral_eq_Suc)+

lemma id_collapse [simp]: "NodeId (node_u128 i) = i" "EdgeId (edge_u128 j) = j"
  by (cases i, simp) (cases j, simp)

interpretation node_serde: serde_codec fixed_node
proof unfold_locales
  fix x b
  assume "ser fixed_node x = Inr b"
  then show "de fixed_node b = Inr x"
    by (cases x; cases "nd_id x") (auto simp: fixed_node_def at_def split: if_splits)
qed

interpretation edge_serde: serde_codec fixed_edge
proof unfold_locales
  fix x b
  assume "ser fixed_edge x = Inr b"
  then show "de fixed_edge b = Inr x"
    by (cases x; cases "ed_id x") (auto simp: fixed_edge_def at_def split: if_splits)
qed

interpretation ref_serde: serde_codec fixed_ref
  by unfold_locales (auto simp: fixed_ref_def at_def)

interpretation qvec_serde: serde_codec fixed_qvec
  by unfold_locales (auto simp: fixed_qvec_def at_def split: if_splits)

interpretation meta_serde: serde_codec fixed_meta
  by unfold_locales (auto simp: fixed_meta_def at_def nth_append)

lemma slots_from_concat: "slots_from (concat (map u64_to_be ss)) = ss"
proof (induction ss)
  case Nil
  show ?case by (subst slots_from.simps) simp
next
  case (Cons s ss)
  then show ?case by (subst slots_from.simps) simp
qed

interpretation links_serde: serde_codec fixed_links
  by unfold_locales (auto simp: fixed_links_def slots_from_concat split: if_splits)

interpretation fixed_log: postcard fixed_ops
proof unfold_locales
  fix x b
  assume "to_bytes fixed_ops x = Inr b"
  then show "from_bytes fixed_ops b = Inr x"
    by (cases x) (auto simp: fixed_ops_def at_def split: scope.splits list.splits option.splits)
qed

section \<open>The environment\<close>

type_synonym tree_environment = "((bytes, bytes) rbt, (bytes, string) rbt, (bytes, u64) rbt, (string, bytes) rbt, (u64, bytes) rbt) env"
type_synonym tree_store = "((bytes, bytes) rbt, (bytes, string) rbt, (bytes, u64) rbt, (string, bytes) rbt, (u64, bytes) rbt) store"

definition tree_env :: "tree_environment" where
  "tree_env = \<lparr>eB = rbt_ops, eD = rbt_ops, eL = rbt_ops, eM = rbt_ops, eO = rbt_ops, lz = rle_lz4, uni = ascii_unicode,
     pc_op = fixed_ops, pc_node = fixed_node, pc_edge = fixed_edge, pc_ref = fixed_ref, pc_qvec = fixed_qvec,
     pc_meta = fixed_meta, pc_links = fixed_links, fp = pattern_floats, hparams = default_params,
     stemmer = (\<lambda>s. s), pc_fts = fixed_fts, spec = \<lparr>equality = [], text_props = []\<rparr>\<rparr>"

definition empty_store :: tree_store where
  "empty_store = \<lparr>i_dicts = dicts_default, i_dict_table = RBT.empty, i_scopes = registry_default,
     i_scopes_table = RBT.empty, i_journal = journal_default, nodes = RBT.empty, edges = RBT.empty,
     vector_dims = RBT.empty, vectors = RBT.empty, embedding_ref = RBT.empty, meta = RBT.empty,
     node_slots = RBT.empty, node_ids = RBT.empty, edge_slots = RBT.empty, edge_ids = RBT.empty,
     out_adj = RBT.empty, in_adj = RBT.empty, prop_table = RBT.empty, label_index = RBT.empty,
     hnsw_links = RBT.empty, hnsw_meta = RBT.empty, postings = RBT.empty, fts_docs = RBT.empty,
     fts_stats = RBT.empty, ops_table = RBT.empty\<rparr>"

lemma empty_store_wf [simp]: "interning_wf empty_store"
  by (simp add: interning_wf_def empty_store_def registry_wf_def registry_default_def)

lemma tree_env_simps [simp]:
  "eB tree_env = rbt_ops" "eD tree_env = rbt_ops" "eL tree_env = rbt_ops" "eM tree_env = rbt_ops" "eO tree_env = rbt_ops"
  "lz tree_env = rle_lz4" "uni tree_env = ascii_unicode" "pc_op tree_env = fixed_ops" "pc_node tree_env = fixed_node"
  "pc_edge tree_env = fixed_edge" "pc_ref tree_env = fixed_ref" "pc_qvec tree_env = fixed_qvec"
  "pc_meta tree_env = fixed_meta" "pc_links tree_env = fixed_links" "fp tree_env = pattern_floats" "hparams tree_env = default_params"
  "spec tree_env = \<lparr>equality = [], text_props = []\<rparr>"
  by (simp_all add: tree_env_def)

lemma empty_store_simps [simp]:
  "i_dicts empty_store = dicts_default" "i_scopes empty_store = registry_default" "i_journal empty_store = journal_default"
  "nodes empty_store = RBT.empty" "edges empty_store = RBT.empty" "vector_dims empty_store = RBT.empty"
  "vectors empty_store = RBT.empty" "embedding_ref empty_store = RBT.empty" "meta empty_store = RBT.empty"
  "node_slots empty_store = RBT.empty" "node_ids empty_store = RBT.empty" "edge_slots empty_store = RBT.empty"
  "edge_ids empty_store = RBT.empty" "out_adj empty_store = RBT.empty" "in_adj empty_store = RBT.empty"
  "prop_table empty_store = RBT.empty" "label_index empty_store = RBT.empty" "ops_table empty_store = RBT.empty"
  by (simp_all add: empty_store_def)

end
