(* ===== verification/Graph.thy ===== *)
theory Graph
  imports Write EdgeIndex Instance
begin

text \<open>
  The abstract graph and the invariant of the store. A \<open>graph\<close> is what a client sees: nodes and
  edges by id and the pinned dimension of every embedding model; \<open>spec_op\<close> is the effect of one
  operation on it. A store \<open>represents\<close> a graph when every node and edge read returns the graph's
  record. \<open>store_inv\<close> says that the slot tables are inverse to each other, that only existing nodes
  have embeddings, and that both adjacency tables are exactly the index of the edge rows.
\<close>

section \<open>The abstract graph\<close>

record graph =
  g_nodes :: "node_id \<rightharpoonup> node_record"
  g_edges :: "edge_id \<rightharpoonup> edge_record"
  g_dims :: "string \<rightharpoonup> u32"

text \<open>The effect of a resolved operation; \<open>None\<close> is a rejection. The stored vector is the quantized one.\<close>

fun spec_op :: "(f32 list \<Rightarrow> f32 list) \<Rightarrow> op \<Rightarrow> graph \<Rightarrow> graph option" where
  "spec_op q (CreateNode i sc l ps) G =
     Some (G\<lparr>g_nodes := (g_nodes G)(i \<mapsto> \<lparr>n_id = i, n_scope = sc, n_label = l, n_props = ps, n_embedding = None\<rparr>)\<rparr>)"
| "spec_op q (SetNodeProps i ups) G =
     (case g_nodes G i of
        None \<Rightarrow> None
      | Some r \<Rightarrow> Some (G\<lparr>g_nodes := (g_nodes G)(i \<mapsto> r\<lparr>n_props := merge_props ups (n_props r)\<rparr>)\<rparr>))"
| "spec_op q (SetEmbedding i m v) G =
     (case g_nodes G i of
        None \<Rightarrow> None
      | Some r \<Rightarrow>
          if v = [] \<or> (\<exists>c \<in> set v. \<not> f32_is_finite c) \<or> g_dims G m \<notin> {None, Some (word_of_nat (length v))} then None
          else Some (G\<lparr>g_nodes := (g_nodes G)(i \<mapsto> r\<lparr>n_embedding := Some (m, q v)\<rparr>),
                       g_dims := (g_dims G)(m \<mapsto> word_of_nat (length v))\<rparr>))"
| "spec_op q (RemoveNode i) G =
     (case g_nodes G i of
        None \<Rightarrow> None
      | Some r \<Rightarrow> Some (G\<lparr>g_nodes := (g_nodes G)(i := None),
          g_edges := (\<lambda>e. case g_edges G e of
             None \<Rightarrow> None | Some x \<Rightarrow> if e_from x = i \<or> e_to x = i then None else Some x)\<rparr>))"
| "spec_op q (CreateEdge i sc ty f t ps vf ra) G =
     (case (g_nodes G f, g_nodes G t, vf) of
        (Some a, Some b, Some w) \<Rightarrow>
          if cross_scope (n_scope a) (n_scope b) then None
          else Some (G\<lparr>g_edges := (g_edges G)(i \<mapsto> \<lparr>e_id = i, e_scope = sc, e_ty = ty, e_from = f, e_to = t, e_props = ps,
                 e_valid_from = w, e_valid_to = None, e_recorded_at = unwrap_or w ra, e_superseded_at = None\<rparr>)\<rparr>)
      | _ \<Rightarrow> None)"
| "spec_op q (CloseEdge i vt sa) G =
     (case (g_edges G i, vt) of
        (Some x, Some w) \<Rightarrow>
          if e_valid_to x \<noteq> None then None
          else Some (G\<lparr>g_edges := (g_edges G)(i \<mapsto> x\<lparr>e_valid_to := Some w, e_superseded_at := Some (unwrap_or w sa)\<rparr>)\<rparr>)
      | _ \<Rightarrow> None)"
| "spec_op q (UpsertNode _ _ _ _ _) G = None"

text \<open>What a stored vector reads back as.\<close>

definition stored_vector :: "('b, 'd, 'l, 'm, 'o) env \<Rightarrow> f32 list \<Rightarrow> f32 list" where
  "stored_vector E v = (case quantize (fp E) v of (scale, codes) \<Rightarrow> dequantize (fp E) scale codes)"

section \<open>Rows by slot\<close>

definition decode_row :: "lz4 \<Rightarrow> 'a serde \<Rightarrow> bytes \<Rightarrow> 'a result" where
  "decode_row L S b = rbind (unframe_value L b) (\<lambda>raw. pc_err (de S raw))"

definition row_at :: "lz4 \<Rightarrow> 'a serde \<Rightarrow> (bytes \<rightharpoonup> bytes) \<Rightarrow> u64 \<Rightarrow> 'a option" where
  "row_at L S rs s = (case rs (slot_key s) of
     None \<Rightarrow> None | Some b \<Rightarrow> (case decode_row L S b of Inl _ \<Rightarrow> None | Inr d \<Rightarrow> Some d))"

lemma row_at_upd [simp]:
  "row_at L S (rs(slot_key s \<mapsto> b)) s' = (if s' = s then (case decode_row L S b of Inl _ \<Rightarrow> None | Inr d \<Rightarrow> Some d) else row_at L S rs s')"
  "row_at L S (rs(slot_key s := None)) s' = (if s' = s then None else row_at L S rs s')"
  by (simp_all add: row_at_def)

section \<open>The environment's contract\<close>

text \<open>
  What the engine relies on: a medium that does not fail, a lossless compressor, faithful
  serializers, and records that serialize below the frame's decompression cap.
\<close>

definition below_cap :: "'a serde \<Rightarrow> bool" where
  "below_cap S \<longleftrightarrow> (\<forall>x b. ser S x = Inr b \<longrightarrow> length b \<le> unat MAX_DECOMPRESSED_LEN)"

locale engine =
  fixes E :: "('b, 'd, 'l, 'm, 'o) env" and rows :: "'b \<Rightarrow> bytes \<rightharpoonup> bytes" and mrows :: "'m \<Rightarrow> string \<rightharpoonup> bytes"
  assumes tab: "redb_table_live (eB E) rows" and mtab: "redb_table (eM E) mrows" and lzc: "lz4_codec (lz E)"
    and serdes: "serde_codec (pc_node E)" "serde_codec (pc_edge E)" "serde_codec (pc_ref E)" "serde_codec (pc_qvec E)"
    and caps: "below_cap (pc_node E)" "below_cap (pc_edge E)" "below_cap (pc_qvec E)"

sublocale engine \<subseteq> bt: redb_table_live "eB E" rows
  by (rule tab)

sublocale engine \<subseteq> ch: chunk_store "eB E" rows "lz E"
  by (intro chunk_store.intro bt.redb_table_axioms lzc)

section \<open>Invariant and representation\<close>

definition store_inv :: "('b, 'd, 'l, 'm, 'o) env \<Rightarrow> ('b \<Rightarrow> bytes \<rightharpoonup> bytes) \<Rightarrow> ('m \<Rightarrow> string \<rightharpoonup> bytes)
    \<Rightarrow> ('b, 'd, 'l, 'm, 'o, 'z) store_scheme \<Rightarrow> bool" where
  "store_inv E rows mrows st \<longleftrightarrow>
     interning_wf st \<and>
     (\<exists>n. slots_inv (rows (node_slots st)) (rows (node_ids st)) n \<and> counter_is (mrows (meta st)) ''next_node_slot'' n) \<and>
     (\<exists>n. slots_inv (rows (edge_slots st)) (rows (edge_ids st)) n \<and> counter_is (mrows (meta st)) ''next_edge_slot'' n) \<and>
     (\<forall>s. rows (embedding_ref st) (slot_key s) \<noteq> None \<longrightarrow> rows (node_ids st) (slot_key s) \<noteq> None) \<and>
     (\<forall>s. row_at (lz E) (pc_edge E) (rows (edges st)) s \<noteq> None \<longleftrightarrow> rows (edge_ids st) (slot_key s) \<noteq> None) \<and>
     adj_wf (lz E) (rows (out_adj st)) \<and> adj_wf (lz E) (rows (in_adj st)) \<and>
     (\<forall>s ty. adj_ms (chunk_at (lz E) (rows (out_adj st))) s ty = index_of Outgoing (row_at (lz E) (pc_edge E) (rows (edges st))) s ty) \<and>
     (\<forall>s ty. adj_ms (chunk_at (lz E) (rows (in_adj st))) s ty = index_of Incoming (row_at (lz E) (pc_edge E) (rows (edges st))) s ty)"

definition dims_agree :: "dicts \<Rightarrow> (bytes \<rightharpoonup> bytes) \<Rightarrow> (string \<rightharpoonup> u32) \<Rightarrow> bool" where
  "dims_agree d rs dims \<longleftrightarrow> (\<forall>k. rs (u32_to_be k) =
     (case d_ids (dmap d Model) k of None \<Rightarrow> None | Some m \<Rightarrow> map_option u32_to_le (dims m))) \<and>
     (\<forall>m. dims m \<noteq> None \<longrightarrow> d_names (dmap d Model) m \<noteq> None)"

definition represents :: "('b, 'd, 'l, 'm, 'o) env \<Rightarrow> ('b \<Rightarrow> bytes \<rightharpoonup> bytes)
    \<Rightarrow> ('b, 'd, 'l, 'm, 'o, 'z) store_scheme \<Rightarrow> graph \<Rightarrow> bool" where
  "represents E rows st G \<longleftrightarrow>
     (\<forall>i. read_node E st i = Inr (g_nodes G i)) \<and> (\<forall>i. read_edge E st i = Inr (g_edges G i)) \<and>
     (\<forall>i r. g_nodes G i = Some r \<longrightarrow> n_id r = i) \<and> (\<forall>i x. g_edges G i = Some x \<longrightarrow> e_id x = i) \<and>
     dims_agree (i_dicts st) (rows (vector_dims st)) (g_dims G)"

text \<open>Ids are minted once, property maps are ordered maps, and no adjacency list is out of chunk numbers.\<close>

fun op_ok :: "('b \<Rightarrow> bytes \<rightharpoonup> bytes) \<Rightarrow> ('b, 'd, 'l, 'm, 'o, 'z) store_scheme \<Rightarrow> graph \<Rightarrow> op \<Rightarrow> bool" where
  "op_ok rows st G (CreateNode i sc l ps) \<longleftrightarrow> g_nodes G i = None \<and> bt_wf ps"
| "op_ok rows st G (CreateEdge i sc ty f t ps vf ra) \<longleftrightarrow> g_edges G i = None \<and> bt_wf ps \<and>
     (\<forall>s ty. rows (out_adj st) (out_adj_key s ty (- 1)) = None \<and> rows (in_adj st) (out_adj_key s ty (- 1)) = None)"
| "op_ok rows st G _ \<longleftrightarrow> True"

section \<open>Reads survive growth of the mirrors\<close>

lemma resolve_mono: "dicts_ext d d' \<Longrightarrow> resolve d k i = Inr x \<Longrightarrow> resolve d' k i = Inr x"
  by (auto simp: resolve_def dicts_ext_def split: option.splits)

lemma scope_resolve_mono: "registry_ext g g' \<Longrightarrow> scope_resolve g i = Inr x \<Longrightarrow> scope_resolve g' i = Inr x"
  by (auto simp: scope_resolve_def registry_ext_def split: option.splits)

lemma props_from_disk_mono:
  "props_from_disk d p q = Inr ps \<Longrightarrow> dicts_ext d d' \<Longrightarrow> props_from_disk d' p q = Inr ps"
  by (induction d p q rule: props_from_disk.induct) (auto simp: rbind_Inr dest: resolve_mono)

lemma props_from_disk_wf: "props_from_disk d p q = Inr ps \<Longrightarrow> bt_wf q \<Longrightarrow> bt_wf ps"
  by (induction d p q rule: props_from_disk.induct) (auto simp: rbind_Inr)

lemma node_from_disk_mono:
  assumes "node_from_disk_v3 x d g = Inr r" "dicts_ext d d'" "registry_ext g g'"
  shows "node_from_disk_v3 x d' g' = Inr r"
proof -
  from assms(1) obtain p sc l where f: "props_from_disk d (nd_props x) [] = Inr p" "scope_resolve g (nd_scope x) = Inr sc"
    "resolve d Label (nd_label x) = Inr l"
    "r = \<lparr>n_id = nd_id x, n_scope = sc, n_label = l, n_props = p, n_embedding = None\<rparr>"
    by (auto simp: node_from_disk_v3_def rbind_Inr)
  show ?thesis
    using props_from_disk_mono [OF f(1) assms(2)] scope_resolve_mono [OF assms(3) f(2)] resolve_mono [OF assms(2) f(3)]
    by (simp add: node_from_disk_v3_def f(4))
qed

context engine
begin

lemma read_slot_eq:
  assumes "slots_inv (rows fw) rv n"
  shows "read_slot (eB E) fw i = Inr (map_option u64_from_le (rows fw (id_key i)))"
proof (cases "rows fw (id_key i)")
  case (Some b)
  then obtain s where "b = u64_to_le s" using slots_inv_fwd [OF assms] by blast
  then show ?thesis using Some by (simp add: read_slot_def bt.get_eq)
qed (simp add: read_slot_def bt.get_eq)

lemma read_id_eq:
  assumes "slots_inv fw (rows rv) n"
  shows "read_id (eB E) rv s = Inr (map_option u128_from_be (rows rv (slot_key s)))"
proof (cases "rows rv (slot_key s)")
  case (Some b)
  then obtain i where "b = id_key i" using slots_inv_rvs [OF assms] by blast
  then show ?thesis using Some by (simp add: read_id_def bt.get_eq)
qed (simp add: read_id_def bt.get_eq)

abbreviation same_vector :: "('b, 'd, 'l, 'm, 'o, 'z) store_scheme \<Rightarrow> ('b, 'd, 'l, 'm, 'o, 'z) store_scheme \<Rightarrow> u64 \<Rightarrow> bool" where
  "same_vector st st' s \<equiv> rows (embedding_ref st') (slot_key s) = rows (embedding_ref st) (slot_key s) \<and>
     (\<forall>m c. rows (vectors st') (vector_key m c s) = rows (vectors st) (vector_key m c s))"

lemma read_qvec_frame:
  "same_vector st st' s \<Longrightarrow>
     read_qvec_by_slot E (vectors st') (embedding_ref st') s = read_qvec_by_slot E (vectors st) (embedding_ref st) s"
  unfolding read_qvec_by_slot_def read_ref_def
  by (intro rbind_cong) (auto simp: bt.get_eq split: option.split)

lemma read_embedding_frame:
  assumes "same_vector st st' s" "dicts_ext (i_dicts st) (i_dicts st')"
    and "read_embedding_by_slot E (vectors st) (embedding_ref st) (i_dicts st) s = Inr r"
  shows "read_embedding_by_slot E (vectors st') (embedding_ref st') (i_dicts st') s = Inr r"
proof -
  have q: "read_qvec_by_slot E (vectors st') (embedding_ref st') s = read_qvec_by_slot E (vectors st) (embedding_ref st) s"
    using assms(1) by (rule read_qvec_frame)
  from assms(3) obtain v where v: "read_qvec_by_slot E (vectors st) (embedding_ref st) s = Inr v"
    by (auto simp: read_embedding_by_slot_def rbind_Inr)
  show ?thesis
    using assms(3) resolve_mono [OF assms(2)]
    by (cases v) (auto simp: read_embedding_by_slot_def q v rbind_Inr)
qed

lemma read_node_by_slot_row:
  "read_node_by_slot E st s = (case rows (nodes st) (slot_key s) of
     None \<Rightarrow> Inr None
   | Some b \<Rightarrow> rbind (decode_row (lz E) (pc_node E) b) (\<lambda>disk.
       rbind (node_from_disk_v3 disk (i_dicts st) (i_scopes st)) (\<lambda>rec.
       rbind (read_embedding_by_slot E (vectors st) (embedding_ref st) (i_dicts st) s) (\<lambda>emb.
       Inr (Some (rec\<lparr>n_embedding := emb\<rparr>))))))"
  by (simp add: read_node_by_slot_def bt.get_eq decode_row_def rbind_assoc split: option.split)

lemma read_edge_by_slot_row:
  "read_edge_by_slot E st s = (case rows (edges st) (slot_key s) of
     None \<Rightarrow> Inr None
   | Some b \<Rightarrow> rbind (decode_row (lz E) (pc_edge E) b) (\<lambda>disk.
       rbind (edge_from_disk_v4 (eB E) disk (i_dicts st) (i_scopes st) (node_ids st)) (\<lambda>rec. Inr (Some rec))))"
  by (simp add: read_edge_by_slot_def bt.get_eq decode_row_def rbind_assoc split: option.split)

lemma node_by_slot_frame:
  assumes g: "grows st st'" and row: "rows (nodes st') (slot_key s) = rows (nodes st) (slot_key s)"
    and v: "same_vector st st' s" and r: "read_node_by_slot E st s = Inr r"
  shows "read_node_by_slot E st' s = Inr r"
proof (cases "rows (nodes st) (slot_key s)")
  case None
  with r row show ?thesis by (simp add: read_node_by_slot_row)
next
  case (Some b)
  have ext: "dicts_ext (i_dicts st) (i_dicts st')" "registry_ext (i_scopes st) (i_scopes st')"
    using g by (auto simp: grows_def)
  from r Some obtain disk rec emb where "decode_row (lz E) (pc_node E) b = Inr disk"
    "node_from_disk_v3 disk (i_dicts st) (i_scopes st) = Inr rec"
    "read_embedding_by_slot E (vectors st) (embedding_ref st) (i_dicts st) s = Inr emb"
    "r = Some (rec\<lparr>n_embedding := emb\<rparr>)"
    by (auto simp: read_node_by_slot_row rbind_Inr)
  with Some row show ?thesis
    by (simp add: read_node_by_slot_row node_from_disk_mono [OF _ ext] read_embedding_frame [OF v ext(1)])
qed

lemma node_frame:
  assumes g: "grows st st'" and sl: "slots_inv (rows (node_slots st)) (rows (node_ids st)) n"
      "slots_inv (rows (node_slots st')) (rows (node_ids st')) n'"
    and i: "rows (node_slots st') (id_key (node_u128 i)) = rows (node_slots st) (id_key (node_u128 i))"
    and row: "\<And>s. rows (node_slots st) (id_key (node_u128 i)) = Some (u64_to_le s) \<Longrightarrow>
      rows (nodes st') (slot_key s) = rows (nodes st) (slot_key s) \<and> same_vector st st' s"
    and r: "read_node E st i = Inr r"
  shows "read_node E st' i = Inr r"
proof (cases "rows (node_slots st) (id_key (node_u128 i))")
  case None
  with r i show ?thesis by (simp add: read_node_def node_slot_def read_slot_eq [OF sl(1)] read_slot_eq [OF sl(2)])
next
  case (Some b)
  then obtain s where b: "b = u64_to_le s" using slots_inv_fwd [OF sl(1)] by blast
  from r Some b obtain rec where rec: "read_node_by_slot E st s = Inr (Some rec)" "r = Some rec"
    by (auto simp: read_node_def node_slot_def read_slot_eq [OF sl(1)] rbind_Inr split: option.splits)
  from row [OF Some [unfolded b]] node_by_slot_frame [OF g _ _ rec(1)] have "read_node_by_slot E st' s = Inr (Some rec)" by blast
  then show ?thesis using rec Some i b by (simp add: read_node_def node_slot_def read_slot_eq [OF sl(2)])
qed

lemma edge_from_disk_frame:
  assumes "grows st st'" and "slots_inv fw (rows idt) n" "slots_inv fw' (rows idt') n'"
    and "rows idt' (slot_key (ed_from d)) = rows idt (slot_key (ed_from d))"
    and "rows idt' (slot_key (ed_to d)) = rows idt (slot_key (ed_to d))"
    and r: "edge_from_disk_v4 (eB E) d (i_dicts st) (i_scopes st) idt = Inr r"
  shows "edge_from_disk_v4 (eB E) d (i_dicts st') (i_scopes st') idt' = Inr r"
proof -
  have ext: "dicts_ext (i_dicts st) (i_dicts st')" "registry_ext (i_scopes st) (i_scopes st')"
    using assms(1) by (auto simp: grows_def)
  have ulid: "node_ulid (eB E) idt' (ed_from d) = node_ulid (eB E) idt (ed_from d)"
    "node_ulid (eB E) idt' (ed_to d) = node_ulid (eB E) idt (ed_to d)"
    using assms(4,5) by (simp_all add: node_ulid_def read_id_eq [OF assms(2)] read_id_eq [OF assms(3)])
  from r obtain p f t sc l where f: "props_from_disk (i_dicts st) (ed_props d) [] = Inr p"
    "node_ulid (eB E) idt (ed_from d) = Inr (Some f)" "node_ulid (eB E) idt (ed_to d) = Inr (Some t)"
    "scope_resolve (i_scopes st) (ed_scope d) = Inr sc" "resolve (i_dicts st) EdgeType (ed_ty d) = Inr l"
    "r = \<lparr>e_id = ed_id d, e_scope = sc, e_ty = l, e_from = f, e_to = t, e_props = p, e_valid_from = ed_valid_from d,
      e_valid_to = ed_valid_to d, e_recorded_at = ed_recorded_at d, e_superseded_at = ed_superseded_at d\<rparr>"
    by (auto simp: edge_from_disk_v4_def rbind_Inr)
  show ?thesis
    using props_from_disk_mono [OF f(1) ext(1)] scope_resolve_mono [OF ext(2) f(4)] resolve_mono [OF ext(1) f(5)]
    by (simp add: edge_from_disk_v4_def f ulid)
qed

lemma edge_frame:
  assumes g: "grows st st'" and sl: "slots_inv (rows (edge_slots st)) (rows (edge_ids st)) n"
      "slots_inv (rows (edge_slots st')) (rows (edge_ids st')) n'"
    and nsl: "slots_inv (rows (node_slots st)) (rows (node_ids st)) k" "slots_inv (rows (node_slots st')) (rows (node_ids st')) k'"
    and i: "rows (edge_slots st') (id_key (edge_u128 i)) = rows (edge_slots st) (id_key (edge_u128 i))"
    and row: "\<And>s. rows (edge_slots st) (id_key (edge_u128 i)) = Some (u64_to_le s) \<Longrightarrow>
      rows (edges st') (slot_key s) = rows (edges st) (slot_key s)"
    and ends: "\<And>s d. rows (edge_slots st) (id_key (edge_u128 i)) = Some (u64_to_le s) \<Longrightarrow>
      row_at (lz E) (pc_edge E) (rows (edges st)) s = Some d \<Longrightarrow>
      rows (node_ids st') (slot_key (ed_from d)) = rows (node_ids st) (slot_key (ed_from d)) \<and>
      rows (node_ids st') (slot_key (ed_to d)) = rows (node_ids st) (slot_key (ed_to d))"
    and r: "read_edge E st i = Inr r"
  shows "read_edge E st' i = Inr r"
proof (cases "rows (edge_slots st) (id_key (edge_u128 i))")
  case None
  with r i show ?thesis by (simp add: read_edge_def edge_slot_def read_slot_eq [OF sl(1)] read_slot_eq [OF sl(2)])
next
  case (Some b)
  then obtain s where b: "b = u64_to_le s" using slots_inv_fwd [OF sl(1)] by blast
  from r Some b obtain rec where rec: "read_edge_by_slot E st s = Inr (Some rec)" "r = Some rec"
    by (auto simp: read_edge_def edge_slot_def read_slot_eq [OF sl(1)] rbind_Inr split: option.splits)
  then obtain c d where c: "rows (edges st) (slot_key s) = Some c" "decode_row (lz E) (pc_edge E) c = Inr d"
    "edge_from_disk_v4 (eB E) d (i_dicts st) (i_scopes st) (node_ids st) = Inr rec"
    by (auto simp: read_edge_by_slot_row rbind_Inr split: option.splits)
  then have "row_at (lz E) (pc_edge E) (rows (edges st)) s = Some d" by (simp add: row_at_def)
  with ends [OF Some [unfolded b]] have "edge_from_disk_v4 (eB E) d (i_dicts st') (i_scopes st') (node_ids st') = Inr rec"
    by (intro edge_from_disk_frame [OF g nsl(1) nsl(2) _ _ c(3)]) blast+
  then have "read_edge_by_slot E st' s = Inr (Some rec)"
    using row [OF Some [unfolded b]] c by (simp add: read_edge_by_slot_row)
  then show ?thesis using rec Some i b by (simp add: read_edge_def edge_slot_def read_slot_eq [OF sl(2)])
qed

end

section \<open>The concrete environment meets the contract\<close>

lemma fixed_below_cap: "below_cap fixed_node" "below_cap fixed_edge" "below_cap fixed_qvec"
  by (auto simp: below_cap_def fixed_node_def fixed_edge_def fixed_qvec_def MAX_DECOMPRESSED_LEN_def split: if_splits)

interpretation tree: engine tree_env RBT.lookup RBT.lookup
  by (intro engine.intro; simp add: rbt_tab.redb_table_live_axioms rbt_tab.redb_table_axioms rle.lz4_codec_axioms
      node_serde.serde_codec_axioms edge_serde.serde_codec_axioms ref_serde.serde_codec_axioms
      qvec_serde.serde_codec_axioms fixed_below_cap)

end
