(* ===== verification/Bfs.thy ===== *)
theory Bfs
  imports Main
begin

text \<open>
  Bounded breadth-first search as a state machine: visited nodes, collected edges and a queue of
  nodes with their hop counts. The traversal of \<^verbatim>\<open>crates/topodb/src/read.rs\<close> is a run of this
  machine; here it is shown that a finished run has visited exactly the nodes within the
  hop bound and collected exactly the edges leaving a node that is strictly inside it. The
  point is that a node is marked when it is first queued: this is only complete because the
  queue keeps the hops in order, so the hop recorded for a node is its distance.
\<close>

type_synonym ('a, 'e) bfs_state = "'a set \<times> 'e set \<times> ('a \<times> nat) list"

fun visit :: "('e \<times> 'a) list \<Rightarrow> nat \<Rightarrow> ('a, 'e) bfs_state \<Rightarrow> ('a, 'e) bfs_state" where
  "visit [] h s = s"
| "visit ((e, b) # xs) h (V, S, F) = visit xs h (insert b V, insert e S, if b \<in> V then F else F @ [(b, h)])"

lemma visit_effect:
  assumes "visit xs h (V, S, F) = (V', S', F')"
  shows "V' = V \<union> snd ` set xs \<and> S' = S \<union> fst ` set xs \<and>
    (\<exists>G. F' = F @ G \<and> fst ` set G = V' - V \<and> (\<forall>p \<in> set G. snd p = h))"
  using assms
proof (induction xs arbitrary: V S F)
  case (Cons x xs)
  obtain e b where x: "x = (e, b)" by fastforce
  from Cons.IH [OF Cons.prems [unfolded x visit.simps]] obtain G where V': "V' = insert b V \<union> snd ` set xs"
    and S': "S' = insert e S \<union> fst ` set xs" and G: "F' = (if b \<in> V then F else F @ [(b, h)]) @ G"
      "fst ` set G = V' - insert b V" "\<forall>p \<in> set G. snd p = h"
    by blast
  let ?G = "if b \<in> V then G else (b, h) # G"
  have "F' = F @ ?G" "fst ` set ?G = V' - V" "\<forall>p \<in> set ?G. snd p = h" using G V' by auto
  then show ?case using V' S' by (auto simp: x)
qed simp

inductive bfs_step :: "('a \<Rightarrow> ('e \<times> 'a) list) \<Rightarrow> nat \<Rightarrow> ('a, 'e) bfs_state \<Rightarrow> ('a, 'e) bfs_state \<Rightarrow> bool" for nbrs H where
  skip: "H \<le> h \<Longrightarrow> bfs_step nbrs H (V, S, (a, h) # F) (V, S, F)"
| expand: "h < H \<Longrightarrow> bfs_step nbrs H (V, S, (a, h) # F) (visit (nbrs a) (Suc h) (V, S, F))"

locale bounded_bfs =
  fixes nbrs :: "'a \<Rightarrow> ('e \<times> 'a) list" and H :: nat and seeds :: "'a set"
begin

text \<open>The nodes within \<open>k\<close> hops of a seed.\<close>

primrec reach :: "nat \<Rightarrow> 'a set" where
  "reach 0 = seeds"
| "reach (Suc k) = reach k \<union> {b. \<exists>a \<in> reach k. \<exists>e. (e, b) \<in> set (nbrs a)}"

lemma reach_mono: "j \<le> k \<Longrightarrow> reach j \<subseteq> reach k"
  by (rule lift_Suc_mono_le [of reach]) auto

definition bfs_inv :: "('a \<Rightarrow> nat) \<Rightarrow> ('a, 'e) bfs_state \<Rightarrow> bool" where
  "bfs_inv d = (\<lambda>(V, S, F).
     seeds \<subseteq> V \<and>
     (\<forall>a \<in> V. a \<in> reach (d a) \<and> d a \<le> H \<and> (\<forall>k. a \<in> reach k \<longrightarrow> d a \<le> k)) \<and>
     (\<forall>(a, h) \<in> set F. a \<in> V \<and> h = d a) \<and>
     sorted (map snd F) \<and> (\<forall>p \<in> set F. snd p \<le> Suc (snd (hd F))) \<and>
     (\<forall>a \<in> V. a \<notin> fst ` set F \<longrightarrow> d a < H \<longrightarrow> (\<forall>(e, b) \<in> set (nbrs a). e \<in> S \<and> b \<in> V)) \<and>
     (\<forall>e \<in> S. \<exists>a \<in> V. d a < H \<and> (\<exists>b. (e, b) \<in> set (nbrs a))))"

lemma bfs_invD:
  assumes "bfs_inv d (V, S, F)"
  shows "seeds \<subseteq> V" "a \<in> V \<Longrightarrow> a \<in> reach (d a)" "a \<in> V \<Longrightarrow> d a \<le> H" "a \<in> V \<Longrightarrow> a \<in> reach k \<Longrightarrow> d a \<le> k"
    "(a, h) \<in> set F \<Longrightarrow> a \<in> V \<and> h = d a" "sorted (map snd F)" "p \<in> set F \<Longrightarrow> snd p \<le> Suc (snd (hd F))"
    "a \<in> V \<Longrightarrow> a \<notin> fst ` set F \<Longrightarrow> d a < H \<Longrightarrow> (e, b) \<in> set (nbrs a) \<Longrightarrow> e \<in> S \<and> b \<in> V"
    "e \<in> S \<Longrightarrow> \<exists>a \<in> V. d a < H \<and> (\<exists>b. (e, b) \<in> set (nbrs a))"
  using assms unfolding bfs_inv_def by fast+

lemma bfs_start:
  assumes "\<And>p. p \<in> set F \<longleftrightarrow> fst p \<in> seeds \<and> snd p = 0"
  shows "bfs_inv (\<lambda>_. 0) (seeds, {}, F)"
proof -
  have "map snd F = map (\<lambda>_. 0) F" using assms by (intro map_cong) auto
  then have srt: "sorted (map snd F)" by (simp add: map_replicate_const)
  show ?thesis unfolding bfs_inv_def prod.case using assms by (intro conjI ballI srt) (auto, metis fst_conv image_eqI snd_conv)
qed

text \<open>Everything closer than the head of the queue is already marked.\<close>

lemma marked_below:
  assumes inv: "bfs_inv d (V, S, (a, h) # F)" and "h \<le> H" "k \<le> h"
  shows "reach k \<subseteq> V"
  using assms(3)
proof (induction k)
  case 0
  show ?case using bfs_invD(1) [OF inv] by simp
next
  case (Suc k)
  then have V: "reach k \<subseteq> V" by simp
  have "b \<in> V" if c: "c \<in> reach k" and b: "(e, b) \<in> set (nbrs c)" for b c e
  proof -
    have cV: "c \<in> V" using c V by blast
    have dc: "d c \<le> k" using bfs_invD(4) [OF inv cV c] .
    have "c \<notin> fst ` set ((a, h) # F)"
    proof
      assume "c \<in> fst ` set ((a, h) # F)"
      then obtain g where g: "(c, g) \<in> set ((a, h) # F)" by force
      then have "g = d c" using bfs_invD(5) [OF inv] by blast
      moreover have "h \<le> g" using bfs_invD(6) [OF inv] g by (auto simp: sorted_map)
      ultimately show False using dc Suc.prems by simp
    qed
    then show ?thesis using bfs_invD(8) [OF inv cV _ _ b] dc Suc.prems assms(2) by simp
  qed
  then show ?case using V by auto
qed

lemma bfs_expand:
  assumes inv: "bfs_inv d (V, S, (a, h) # F)" and h: "h < H" and vis: "visit (nbrs a) (Suc h) (V, S, F) = (V', S', F')"
  shows "bfs_inv (\<lambda>b. if b \<in> V then d b else Suc h) (V', S', F')"
proof -
  let ?d = "\<lambda>b. if b \<in> V then d b else Suc h"
  from visit_effect [OF vis] obtain G where V': "V' = V \<union> snd ` set (nbrs a)" and S': "S' = S \<union> fst ` set (nbrs a)"
    and F': "F' = F @ G" and G: "fst ` set G = V' - V" "\<forall>p \<in> set G. snd p = Suc h" by blast
  have a: "a \<in> V" "h = d a" using bfs_invD(5) [OF inv, of a h] by auto
  have Fh: "\<And>p. p \<in> set F \<Longrightarrow> h \<le> snd p \<and> snd p \<le> Suc h" using bfs_invD(6,7) [OF inv] by auto
  have ra: "a \<in> reach h" using bfs_invD(2) [OF inv a(1)] a(2) by simp
  have "?d b \<le> k" if "b \<in> V'" "b \<in> reach k" for b k
  proof (cases "b \<in> V")
    case True
    then show ?thesis using bfs_invD(4) [OF inv True that(2)] by simp
  next
    case False
    then have "\<not> k \<le> h" using marked_below [OF inv _, of k] h that(2) by auto
    then show ?thesis using False by simp
  qed
  moreover have "b \<in> reach (?d b) \<and> ?d b \<le> H" if "b \<in> V'" for b
    using that bfs_invD(2,3) [OF inv, of b] ra h by (auto simp: V')
  moreover have "b \<in> V' \<and> g = ?d b" if "(b, g) \<in> set F'" for b g
  proof (cases "(b, g) \<in> set F")
    case True
    then show ?thesis using bfs_invD(5) [OF inv, of b g] V' by auto
  next
    case False
    then have "(b, g) \<in> set G" using that F' by simp
    then show ?thesis using G by force
  qed
  moreover have "sorted (map snd F')" "\<forall>p \<in> set F'. snd p \<le> Suc (snd (hd F'))"
  proof -
    have "sorted (map snd F)" using bfs_invD(6) [OF inv] by simp
    moreover have "map snd G = replicate (length G) (Suc h)" using G(2) by (simp add: map_replicate_const [symmetric] cong: map_cong)
    ultimately show "sorted (map snd F')" using Fh by (auto simp: F' sorted_append)
    have all: "h \<le> snd p \<and> snd p \<le> Suc h" if "p \<in> set F'" for p
    proof (cases "p \<in> set F")
      case False
      then show ?thesis using that G(2) by (simp add: F')
    qed (rule Fh)
    show "\<forall>p \<in> set F'. snd p \<le> Suc (snd (hd F'))"
    proof
      fix p
      assume p: "p \<in> set F'"
      then have "hd F' \<in> set F'" by (cases F') auto
      with all p show "snd p \<le> Suc (snd (hd F'))" by (meson Suc_le_mono order_trans)
    qed
  qed
  moreover have "e \<in> S' \<and> b \<in> V'" if c: "c \<in> V'" "c \<notin> fst ` set F'" "?d c < H" and eb: "(e, b) \<in> set (nbrs c)" for c e b
  proof (cases "c = a")
    case True
    then show ?thesis using eb V' S' by (force intro: rev_image_eqI)
  next
    case False
    have cV: "c \<in> V" using c(1,2) G(1) F' by auto
    then show ?thesis using bfs_invD(8) [OF inv cV _ _ eb] c False F' V' S' by auto
  qed
  moreover have "\<exists>c \<in> V'. ?d c < H \<and> (\<exists>b. (e, b) \<in> set (nbrs c))" if "e \<in> S'" for e
  proof (cases "e \<in> S")
    case True
    then show ?thesis using bfs_invD(9) [OF inv] V' by force
  next
    case False
    then have "\<exists>b. (e, b) \<in> set (nbrs a)" using that S' by force
    then show ?thesis using a h V' by auto
  qed
  moreover have "seeds \<subseteq> V'" using bfs_invD(1) [OF inv] V' by blast
  ultimately show ?thesis unfolding bfs_inv_def by blast
qed

lemma bfs_skip:
  assumes inv: "bfs_inv d (V, S, (a, h) # F)" and h: "H \<le> h"
  shows "bfs_inv d (V, S, F)"
proof -
  have "\<forall>p \<in> set F. snd p \<le> Suc (snd (hd F))"
  proof
    fix p
    assume p: "p \<in> set F"
    then have "hd F \<in> set F" by (cases F) auto
    then have "h \<le> snd (hd F)" using bfs_invD(6) [OF inv] by simp
    then show "snd p \<le> Suc (snd (hd F))" using bfs_invD(7) [OF inv, of p] p by simp
  qed
  moreover have "e \<in> S \<and> b \<in> V" if "c \<in> V" "c \<notin> fst ` set F" "d c < H" "(e, b) \<in> set (nbrs c)" for c e b
  proof -
    have "c \<noteq> a" using bfs_invD(5) [OF inv, of a h] that(3) h by auto
    then show ?thesis using bfs_invD(8) [OF inv that(1) _ that(3,4)] that(2) by simp
  qed
  moreover have "sorted (map snd F)" using bfs_invD(6) [OF inv] by simp
  moreover have "c \<in> V \<and> g = d c" if "(c, g) \<in> set F" for c g using bfs_invD(5) [OF inv, of c g] that by simp
  ultimately show ?thesis unfolding bfs_inv_def using bfs_invD(1-4,9) [OF inv] by blast
qed

lemma bfs_run: "(bfs_step nbrs H)\<^sup>*\<^sup>* s s' \<Longrightarrow> \<exists>d. bfs_inv d s \<Longrightarrow> \<exists>d. bfs_inv d s'"
proof (induction rule: rtranclp_induct)
  case (step s1 s2)
  from step.IH step.prems obtain d where d: "bfs_inv d s1" by blast
  from step.hyps(2) show ?case
  proof cases
    case skip
    with bfs_skip d show ?thesis by blast
  next
    case (expand h V S a F)
    then show ?thesis using bfs_expand [of d V S a h F] d by (cases "visit (nbrs a) (Suc h) (V, S, F)") auto
  qed
qed

theorem bfs_result:
  assumes run: "(bfs_step nbrs H)\<^sup>*\<^sup>* (seeds, {}, F) (V, S, [])" and F: "\<And>p. p \<in> set F \<longleftrightarrow> fst p \<in> seeds \<and> snd p = 0"
  shows "V = reach H" "S = {e. \<exists>a b k. k < H \<and> a \<in> reach k \<and> (e, b) \<in> set (nbrs a)}"
proof -
  obtain d where inv: "bfs_inv d (V, S, [])" using bfs_run [OF run] bfs_start [OF F] by blast
  have marked: "reach k \<subseteq> V" if "k \<le> H" for k
    using that
  proof (induction k)
    case 0
    show ?case using bfs_invD(1) [OF inv] by simp
  next
    case (Suc k)
    have "b \<in> V" if "c \<in> reach k" "(e, b) \<in> set (nbrs c)" for b c e
      using bfs_invD(8) [OF inv, of c e b] bfs_invD(4) [OF inv, of c k] that Suc by auto
    then show ?case using Suc by auto
  qed
  show "V = reach H" using marked [of H] bfs_invD(2,3) [OF inv] reach_mono by blast
  have "\<exists>a b k. k < H \<and> a \<in> reach k \<and> (e, b) \<in> set (nbrs a)" if "e \<in> S" for e
    using bfs_invD(9) [OF inv that] bfs_invD(2) [OF inv] by blast
  moreover have "e \<in> S" if "k < H" "a \<in> reach k" "(e, b) \<in> set (nbrs a)" for e a b k
    using bfs_invD(8) [OF inv _ _ _ that(3)] bfs_invD(4) [OF inv _ that(2)] marked [of k] that by auto
  ultimately show "S = {e. \<exists>a b k. k < H \<and> a \<in> reach k \<and> (e, b) \<in> set (nbrs a)}" by blast
qed

end

end
