(* ===== verification/Channel.thy ===== *)
theory Channel
  imports Ids
begin

text \<open>
  Bounded channels. The engine's threads talk over channels of the \<^verbatim>\<open>crossbeam_channel\<close> crate,
  whose source is not part of the repository; a sending half is a value of an unknown type with
  the one call the engine makes on it without blocking, \<^verbatim>\<open>try_send\<close>, and the locale
  \<open>bounded_channel\<close> states its documented behaviour. Access bumps
  (\<^verbatim>\<open>crates/topodb/src/db.rs\<close>: \<^verbatim>\<open>Db::bump\<close>) go over such a channel; the theorem
  says exactly which of them arrive.
\<close>

datatype sent = Sent | Full | Disconnected

record ('c, 'a) sender_ops =
  try_send :: "'c \<Rightarrow> 'a \<Rightarrow> sent \<times> 'c"

locale bounded_channel =
  fixes C :: "('c, 'a) sender_ops" and queue :: "'c \<Rightarrow> 'a list" and capacity :: "'c \<Rightarrow> nat" and connected :: "'c \<Rightarrow> bool"
  assumes disconnected: "\<not> connected c \<Longrightarrow> try_send C c x = (Disconnected, c)"
    and full: "connected c \<Longrightarrow> capacity c \<le> length (queue c) \<Longrightarrow> try_send C c x = (Full, c)"
    and room: "connected c \<Longrightarrow> length (queue c) < capacity c \<Longrightarrow> fst (try_send C c x) = Sent"
      "connected c \<Longrightarrow> length (queue c) < capacity c \<Longrightarrow> queue (snd (try_send C c x)) = queue c @ [x]"
      "connected c \<Longrightarrow> length (queue c) < capacity c \<Longrightarrow> capacity (snd (try_send C c x)) = capacity c"
      "connected c \<Longrightarrow> length (queue c) < capacity c \<Longrightarrow> connected (snd (try_send C c x))"
begin

text \<open>Sending a list: what fits is appended, the rest is dropped.\<close>

lemma send_all:
  assumes "connected c"
  shows "queue (fold (\<lambda>x c. snd (try_send C c x)) xs c) = queue c @ take (capacity c - length (queue c)) xs \<and>
    capacity (fold (\<lambda>x c. snd (try_send C c x)) xs c) = capacity c \<and>
    connected (fold (\<lambda>x c. snd (try_send C c x)) xs c)"
  using assms
proof (induction xs arbitrary: c)
  case (Cons x xs)
  show ?case
  proof (cases "length (queue c) < capacity c")
    case True
    note r = room [OF Cons.prems True, of x]
    have "take (capacity c - length (queue c)) (x # xs) = x # take (capacity c - Suc (length (queue c))) xs"
      using True by (simp add: take_Cons')
    then show ?thesis using Cons.IH [OF r(4)] r by simp
  next
    case False
    then show ?thesis using Cons.IH [OF Cons.prems] full [OF Cons.prems] Cons.prems by simp
  qed
qed simp

end

section \<open>Access bumps\<close>

text \<open>\<^verbatim>\<open>None\<close> is the sender taken by a shutdown, or behind a poisoned lock.\<close>

definition bump :: "('c, node_id \<times> i64) sender_ops \<Rightarrow> i64 \<Rightarrow> node_id list \<Rightarrow> 'c option \<Rightarrow> 'c option" where
  "bump C now xs tx = map_option (fold (\<lambda>i c. snd (try_send C c (i, now))) xs) tx"

lemma fold_map_send: "fold (\<lambda>i c. snd (try_send C c (i, now))) xs c = fold (\<lambda>x c. snd (try_send C c x)) (map (\<lambda>i. (i, now)) xs) c"
  by (induction xs arbitrary: c) simp_all

text \<open>A channel as a capacity, a queue and a flag.\<close>

type_synonym 'a list_chan = "nat \<times> 'a list \<times> bool"

definition list_chan :: "('a list_chan, 'a) sender_ops" where
  "list_chan = \<lparr>try_send = (\<lambda>(n, q, open) x.
     if \<not> open then (Disconnected, (n, q, open))
     else if n \<le> length q then (Full, (n, q, open)) else (Sent, (n, q @ [x], open)))\<rparr>"

interpretation list_channel: bounded_channel list_chan "\<lambda>(n, q, open). q" "\<lambda>(n, q, open). n" "\<lambda>(n, q, open). open"
  by unfold_locales (auto simp: list_chan_def)

text \<open>Bumping never blocks and never loses more than it must: over an open channel the first bumps
  that fit arrive, in order and with the one timestamp of the call, and the rest are dropped.\<close>

theorem bump_delivers:
  assumes "bounded_channel C queue capacity connected" and "connected c"
  shows "\<exists>c'. bump C now xs (Some c) = Some c' \<and>
    queue c' = queue c @ map (\<lambda>i. (i, now)) (take (capacity c - length (queue c)) xs)"
  using bounded_channel.send_all [OF assms, of "map (\<lambda>i. (i, now)) xs"]
  by (simp add: bump_def fold_map_send take_map)

theorem bump_delivers_witness:
  "bump list_chan 9 [NodeId 1, NodeId 2, NodeId 3] (Some (2, [], True)) = Some (2, [(NodeId 1, 9), (NodeId 2, 9)], True)"
proof -
  from bump_delivers [OF list_channel.bounded_channel_axioms, of "(2, [], True)" 9 "[NodeId 1, NodeId 2, NodeId 3]"]
  show ?thesis by (simp add: bump_def list_chan_def)
qed

end
