(* ===== verification/Traverse.thy ===== *)
theory Traverse
  imports Graph Interval Bfs Channel
begin

text \<open>
  Graph reads over the adjacency tables: the bounded, scoped, temporal traversal
  (\<^verbatim>\<open>crates/topodb/src/read.rs\<close>: \<^verbatim>\<open>traverse\<close>, \<^verbatim>\<open>traverse_interval\<close>, \<^verbatim>\<open>traverse_inner\<close>) and the edge
  listings (\<^verbatim>\<open>crates/topodb/src/db.rs\<close>: \<^verbatim>\<open>scan_adjacency\<close>, \<^verbatim>\<open>edges_between\<close>). A \<^verbatim>\<open>HashSet\<close> is iterated in an
  unspecified order, so the order is a parameter: a function that lists a set. Everything
  reads one snapshot of the store. The clock is read at the start (\<open>now\<close>) and again for the access bumps (\<open>later\<close>).
\<close>

section \<open>Requests\<close>

record traversal_query =
  q_scopes :: scope_set
  q_seeds :: "node_id list"
  q_max_hops :: u8
  q_edge_types :: "string list option"
  q_direction :: direction
  q_as_of :: "i64 option"
  q_time_axis :: time_axis

record subgraph =
  sg_nodes :: "node_record list"
  sg_edges :: "edge_record list"

section \<open>Traversal\<close>

definition type_filter :: "dicts \<Rightarrow> string list option \<Rightarrow> u32 list option" where
  "type_filter d tys = map_option (List.map_filter (id_of d EdgeType)) tys"

definition hop_gate :: "('b, 'd, 'l, 'm, 'o) env \<Rightarrow> ('b, 'd, 'l, 'm, 'o, 'z) store_scheme \<Rightarrow> traversal_query
    \<Rightarrow> valid_interval option \<Rightarrow> i64 \<Rightarrow> adj_entry \<Rightarrow> bool result" where
  "hop_gate E st q iv t e =
     (case iv of
        Some iv \<Rightarrow> Inr (interval_matches iv (a_valid_from e) (a_valid_to e))
      | None \<Rightarrow> (case q_time_axis q of
          Valid \<Rightarrow> Inr (valid_at t (a_valid_from e) (a_valid_to e))
        | Recorded \<Rightarrow> rbind (read_edge_by_slot E st (a_edge e)) (\<lambda>r. Inr (case r of
              None \<Rightarrow> False
            | Some rec \<Rightarrow> recorded_at_time t (e_recorded_at rec) (e_superseded_at rec)))))"

text \<open>One candidate: scope of the entry, time, existence and scope of the node it leads to.\<close>

definition admits :: "('b, 'd, 'l, 'm, 'o) env \<Rightarrow> ('b, 'd, 'l, 'm, 'o, 'z) store_scheme \<Rightarrow> traversal_query
    \<Rightarrow> valid_interval option \<Rightarrow> i64 \<Rightarrow> adj_entry \<Rightarrow> bool result" where
  "admits E st q iv t e =
     rbind (scope_resolve (i_scopes st) (a_scope e)) (\<lambda>entry_scope.
     if \<not> contains (q_scopes q) entry_scope then Inr False
     else rbind (hop_gate E st q iv t e) (\<lambda>ok.
       if \<not> ok then Inr False
       else rbind (read_node_by_slot E st (a_target e)) (\<lambda>r. Inr (case r of
           None \<Rightarrow> False
         | Some other \<Rightarrow> contains (q_scopes q) (n_scope other)))))"

type_synonym walk = "u64 set \<times> u64 set \<times> (u64 \<times> u8) list"

fun scan_candidates :: "('b, 'd, 'l, 'm, 'o) env \<Rightarrow> ('b, 'd, 'l, 'm, 'o, 'z) store_scheme \<Rightarrow> traversal_query
    \<Rightarrow> valid_interval option \<Rightarrow> i64 \<Rightarrow> u8 \<Rightarrow> (u32 \<times> adj_entry) list \<Rightarrow> walk \<Rightarrow> walk result" where
  "scan_candidates E st q iv t hop [] w = Inr w"
| "scan_candidates E st q iv t hop ((ty, e) # es) (visited, result_edges, frontier) =
     rbind (admits E st q iv t e) (\<lambda>ok.
     if \<not> ok then scan_candidates E st q iv t hop es (visited, result_edges, frontier)
     else scan_candidates E st q iv t hop es
       (insert (a_target e) visited, insert (a_edge e) result_edges,
        if a_target e \<in> visited then frontier else frontier @ [(a_target e, hop + 1)]))"

definition candidates :: "('b, 'd, 'l, 'm, 'o) env \<Rightarrow> ('b, 'd, 'l, 'm, 'o, 'z) store_scheme \<Rightarrow> traversal_query
    \<Rightarrow> u32 list option \<Rightarrow> u64 \<Rightarrow> (u32 \<times> adj_entry) list result" where
  "candidates E st q tf slot =
     rbind (if q_direction q \<in> {Out, Both} then read_adj (lz E) (eB E) (out_adj st) slot tf else Inr []) (\<lambda>os.
     rbind (if q_direction q \<in> {In, Both} then read_adj (lz E) (eB E) (in_adj st) slot tf else Inr []) (\<lambda>is.
     Inr (os @ is)))"

fun seed_walk :: "('b, 'd, 'l, 'm, 'o) env \<Rightarrow> ('b, 'd, 'l, 'm, 'o, 'z) store_scheme \<Rightarrow> traversal_query \<Rightarrow> node_id list
    \<Rightarrow> u64 set \<times> (u64 \<times> u8) list \<Rightarrow> (u64 set \<times> (u64 \<times> u8) list) result" where
  "seed_walk E st q [] w = Inr w"
| "seed_walk E st q (seed # seeds) (visited, frontier) =
     rbind (node_slot (eB E) (node_slots st) seed) (\<lambda>s. case s of
        None \<Rightarrow> seed_walk E st q seeds (visited, frontier)
      | Some slot \<Rightarrow> rbind (read_node_by_slot E st slot) (\<lambda>r. case r of
          None \<Rightarrow> seed_walk E st q seeds (visited, frontier)
        | Some rec \<Rightarrow>
            if contains (q_scopes q) (n_scope rec) \<and> slot \<notin> visited
            then seed_walk E st q seeds (insert slot visited, frontier @ [(slot, 0)])
            else seed_walk E st q seeds (visited, frontier)))"

lemma scan_grows:
  assumes "scan_candidates E st q iv t hop es (V, S, F) = Inr (V', S', F')"
  shows "V \<subset> V' \<or> V' = V \<and> F' = F"
  using assms
proof (induction es arbitrary: V S F)
  case (Cons p es)
  obtain ty e where p: "p = (ty, e)" by fastforce
  from Cons.prems obtain ok where ok: "admits E st q iv t e = Inr ok"
    and run: "(if \<not> ok then scan_candidates E st q iv t hop es (V, S, F) else scan_candidates E st q iv t hop es
       (insert (a_target e) V, insert (a_edge e) S, if a_target e \<in> V then F else F @ [(a_target e, hop + 1)])) = Inr (V', S', F')"
    by (auto simp: p rbind_Inr)
  show ?case
  proof (cases "ok")
    case True
    with run Cons.IH [of "insert (a_target e) V" "insert (a_edge e) S"] show ?thesis by (cases "a_target e \<in> V") (auto simp: insert_absorb)
  next
    case False
    with run Cons.IH show ?thesis by simp
  qed
qed simp

lemma scan_measure:
  assumes "scan_candidates E st q iv t hop es (V, S, F) = Inr (V', S', F')"
  shows "card (- V') < card (- V) \<or> card (- V') = card (- V) \<and> length F' < Suc (length F)"
  using scan_grows [OF assms] by (auto intro!: psubset_card_mono)

text \<open>The queue loop ends because there are finitely many slots and each is queued once.\<close>

function (sequential) walk_loop :: "('b, 'd, 'l, 'm, 'o) env \<Rightarrow> ('b, 'd, 'l, 'm, 'o, 'z) store_scheme \<Rightarrow> traversal_query
    \<Rightarrow> valid_interval option \<Rightarrow> i64 \<Rightarrow> u32 list option \<Rightarrow> walk \<Rightarrow> (u64 set \<times> u64 set) result" where
  "walk_loop E st q iv t tf (visited, result_edges, []) = Inr (visited, result_edges)"
| "walk_loop E st q iv t tf (visited, result_edges, (slot, hop) # frontier) =
     (if q_max_hops q \<le> hop then walk_loop E st q iv t tf (visited, result_edges, frontier)
      else rbind (candidates E st q tf slot) (\<lambda>cs.
           rbind (scan_candidates E st q iv t hop cs (visited, result_edges, frontier))
             (walk_loop E st q iv t tf)))"
  by pat_completeness auto
termination
  by (relation "measures [\<lambda>(E, st, q, iv, t, tf, V, S, F). card (- V), \<lambda>(E, st, q, iv, t, tf, V, S, F). length F]")
     (auto dest!: scan_measure)

fun collect_nodes :: "('b, 'd, 'l, 'm, 'o) env \<Rightarrow> ('b, 'd, 'l, 'm, 'o, 'z) store_scheme \<Rightarrow> u64 list \<Rightarrow> node_record list result" where
  "collect_nodes E st [] = Inr []"
| "collect_nodes E st (s # ss) = rbind (read_node_by_slot E st s) (\<lambda>r. rbind (collect_nodes E st ss) (\<lambda>rs.
     Inr (case r of Some rec \<Rightarrow> rec # rs | None \<Rightarrow> rs)))"

fun collect_edges :: "('b, 'd, 'l, 'm, 'o) env \<Rightarrow> ('b, 'd, 'l, 'm, 'o, 'z) store_scheme \<Rightarrow> u64 list \<Rightarrow> edge_record list result" where
  "collect_edges E st [] = Inr []"
| "collect_edges E st (s # ss) = rbind (read_edge_by_slot E st s) (\<lambda>r. rbind (collect_edges E st ss) (\<lambda>rs.
     Inr (case r of Some rec \<Rightarrow> rec # rs | None \<Rightarrow> rs)))"

definition traverse_read :: "('b, 'd, 'l, 'm, 'o) env \<Rightarrow> (u64 set \<Rightarrow> u64 list) \<Rightarrow> redb_error + unit \<Rightarrow> i64
    \<Rightarrow> ('b, 'd, 'l, 'm, 'o, 'z) store_scheme \<Rightarrow> traversal_query \<Rightarrow> valid_interval option \<Rightarrow> subgraph result" where
  "traverse_read E order begin_read now st q iv =
     (if q_max_hops q = 0 \<or> 4 < q_max_hops q then Inl (Rejected ''max_hops must be in 1..=4'')
      else
        let t = unwrap_or now (q_as_of q); tf = type_filter (i_dicts st) (q_edge_types q) in
        rbind (redb begin_read) (\<lambda>_.
        rbind (seed_walk E st q (q_seeds q) ({}, [])) (\<lambda>(visited, frontier).
        rbind (walk_loop E st q iv t tf (visited, {}, frontier)) (\<lambda>(visited, result_edges).
        rbind (collect_nodes E st (order visited)) (\<lambda>ns.
        rbind (collect_edges E st (order result_edges)) (\<lambda>es.
        Inr \<lparr>sg_nodes = ns, sg_edges = es\<rparr>))))))"

definition traverse_inner :: "('b, 'd, 'l, 'm, 'o) env \<Rightarrow> (u64 set \<Rightarrow> u64 list) \<Rightarrow> ('c, node_id \<times> i64) sender_ops \<Rightarrow> redb_error + unit \<Rightarrow> i64 \<Rightarrow> i64
    \<Rightarrow> ('b, 'd, 'l, 'm, 'o, 'z) store_scheme \<Rightarrow> traversal_query \<Rightarrow> valid_interval option \<Rightarrow> 'c option \<Rightarrow> subgraph result \<times> 'c option" where
  "traverse_inner E order C begin_read now later st q iv bump_tx =
     (case traverse_read E order begin_read now st q iv of
        Inl e \<Rightarrow> (Inl e, bump_tx)
      | Inr sg \<Rightarrow> (Inr sg, bump C later (map n_id (sg_nodes sg)) bump_tx))"

definition traverse :: "('b, 'd, 'l, 'm, 'o) env \<Rightarrow> (u64 set \<Rightarrow> u64 list) \<Rightarrow> ('c, node_id \<times> i64) sender_ops \<Rightarrow> redb_error + unit \<Rightarrow> i64 \<Rightarrow> i64
    \<Rightarrow> ('b, 'd, 'l, 'm, 'o, 'z) store_scheme \<Rightarrow> traversal_query \<Rightarrow> 'c option \<Rightarrow> subgraph result \<times> 'c option" where
  "traverse E order C begin_read now later st q = traverse_inner E order C begin_read now later st q None"

definition traverse_interval :: "('b, 'd, 'l, 'm, 'o) env \<Rightarrow> (u64 set \<Rightarrow> u64 list) \<Rightarrow> ('c, node_id \<times> i64) sender_ops \<Rightarrow> redb_error + unit \<Rightarrow> i64 \<Rightarrow> i64
    \<Rightarrow> ('b, 'd, 'l, 'm, 'o, 'z) store_scheme \<Rightarrow> traversal_query \<Rightarrow> valid_interval \<Rightarrow> 'c option \<Rightarrow> subgraph result \<times> 'c option" where
  "traverse_interval E order C begin_read now later st q iv bump_tx =
     (case validate_interval iv of
        Inl e \<Rightarrow> (Inl e, bump_tx)
      | Inr _ \<Rightarrow>
          if q_as_of q \<noteq> None then (Inl (Rejected ''valid_interval and as_of are mutually exclusive''), bump_tx)
          else if q_time_axis q = Recorded
          then (Inl (Rejected ''valid_interval gates the valid axis only; time_axis must be Valid''), bump_tx)
          else traverse_inner E order C begin_read now later st q (Some iv) bump_tx)"

section \<open>Edge listings\<close>

datatype edge_direction = EdgeOut | EdgeIn

datatype edge_gate = OpenOnly bool time_axis | IntervalGate valid_interval

fun should_skip_entry :: "edge_gate \<Rightarrow> adj_entry \<Rightarrow> bool" where
  "should_skip_entry (OpenOnly open_only axis) e =
     (if \<not> open_only then False else (case axis of Valid \<Rightarrow> a_valid_to e \<noteq> None | Recorded \<Rightarrow> False))"
| "should_skip_entry (IntervalGate iv) e = (\<not> interval_matches iv (a_valid_from e) (a_valid_to e))"

fun should_skip_record :: "edge_gate \<Rightarrow> edge_record \<Rightarrow> bool" where
  "should_skip_record (OpenOnly open_only axis) x =
     (if \<not> open_only then False else (case axis of Valid \<Rightarrow> False | Recorded \<Rightarrow> e_superseded_at x \<noteq> None))"
| "should_skip_record (IntervalGate iv) x = False"

fun scan_entries :: "('b, 'd, 'l, 'm, 'o) env \<Rightarrow> ('b, 'd, 'l, 'm, 'o, 'z) store_scheme \<Rightarrow> scope_set \<Rightarrow> u64 option \<Rightarrow> edge_gate
    \<Rightarrow> (u32 \<times> adj_entry) list \<Rightarrow> edge_record list result" where
  "scan_entries E st scopes filter_slot gate [] = Inr []"
| "scan_entries E st scopes filter_slot gate ((ty, e) # es) =
     (if is_some_and filter_slot (\<lambda>slot. a_target e \<noteq> slot) then scan_entries E st scopes filter_slot gate es
      else if should_skip_entry gate e then scan_entries E st scopes filter_slot gate es
      else rbind (scope_resolve (i_scopes st) (a_scope e)) (\<lambda>entry_scope.
        if \<not> contains scopes entry_scope then scan_entries E st scopes filter_slot gate es
        else rbind (read_edge_by_slot E st (a_edge e)) (\<lambda>r. case r of
            None \<Rightarrow> scan_entries E st scopes filter_slot gate es
          | Some rec \<Rightarrow>
              if should_skip_record gate rec then scan_entries E st scopes filter_slot gate es
              else rbind (scan_entries E st scopes filter_slot gate es) (\<lambda>out. Inr (rec # out)))))"

text \<open>The slot to filter on: \<open>None\<close> when the filter node has no slot, \<open>Some None\<close> without a filter.\<close>

definition filter_slot_of :: "('b, 'd, 'l, 'm, 'o) env \<Rightarrow> ('b, 'd, 'l, 'm, 'o, 'z) store_scheme \<Rightarrow> node_id option \<Rightarrow> u64 option option result" where
  "filter_slot_of E st filter_node =
     (case filter_node of
        None \<Rightarrow> Inr (Some None)
      | Some node \<Rightarrow> rbind (node_slot (eB E) (node_slots st) node) (\<lambda>s. Inr (map_option Some s)))"

definition scan_adjacency :: "('b, 'd, 'l, 'm, 'o) env \<Rightarrow> redb_error + unit \<Rightarrow> ('b, 'd, 'l, 'm, 'o, 'z) store_scheme \<Rightarrow> scope_set
    \<Rightarrow> node_id \<Rightarrow> node_id option \<Rightarrow> string option \<Rightarrow> edge_direction \<Rightarrow> edge_gate \<Rightarrow> edge_record list result" where
  "scan_adjacency E begin_read st scopes primary filter_node ty direction gate =
     (let tf = map_option (\<lambda>name. case id_of (i_dicts st) EdgeType name of None \<Rightarrow> [] | Some k \<Rightarrow> [k]) ty in
      rbind (redb begin_read) (\<lambda>_.
      rbind (node_slot (eB E) (node_slots st) primary) (\<lambda>p. case p of
        None \<Rightarrow> Inr []
      | Some primary_slot \<Rightarrow>
          rbind (filter_slot_of E st filter_node) (\<lambda>f. case f of
            None \<Rightarrow> Inr []
          | Some filter_slot \<Rightarrow>
              rbind (read_adj (lz E) (eB E) (case direction of EdgeOut \<Rightarrow> out_adj st | EdgeIn \<Rightarrow> in_adj st) primary_slot tf) (\<lambda>entries.
              rbind (scan_entries E st scopes filter_slot gate entries) (\<lambda>out.
              Inr (sort_key (\<lambda>x. edge_u128 (e_id x)) out)))))))"

definition edges_from :: "('b, 'd, 'l, 'm, 'o) env \<Rightarrow> redb_error + unit \<Rightarrow> ('b, 'd, 'l, 'm, 'o, 'z) store_scheme \<Rightarrow> scope_set
    \<Rightarrow> node_id \<Rightarrow> node_id option \<Rightarrow> string option \<Rightarrow> bool \<Rightarrow> time_axis \<Rightarrow> edge_record list result" where
  "edges_from E begin_read st scopes f t ty open_only axis =
     scan_adjacency E begin_read st scopes f t ty EdgeOut (OpenOnly open_only axis)"

definition edges_to :: "('b, 'd, 'l, 'm, 'o) env \<Rightarrow> redb_error + unit \<Rightarrow> ('b, 'd, 'l, 'm, 'o, 'z) store_scheme \<Rightarrow> scope_set
    \<Rightarrow> node_id \<Rightarrow> node_id option \<Rightarrow> string option \<Rightarrow> bool \<Rightarrow> time_axis \<Rightarrow> edge_record list result" where
  "edges_to E begin_read st scopes t f ty open_only axis =
     scan_adjacency E begin_read st scopes t f ty EdgeIn (OpenOnly open_only axis)"

definition edges_from_interval :: "('b, 'd, 'l, 'm, 'o) env \<Rightarrow> redb_error + unit \<Rightarrow> ('b, 'd, 'l, 'm, 'o, 'z) store_scheme \<Rightarrow> scope_set
    \<Rightarrow> node_id \<Rightarrow> node_id option \<Rightarrow> string option \<Rightarrow> valid_interval \<Rightarrow> edge_record list result" where
  "edges_from_interval E begin_read st scopes f t ty iv =
     rbind (validate_interval iv) (\<lambda>_. scan_adjacency E begin_read st scopes f t ty EdgeOut (IntervalGate iv))"

definition edges_to_interval :: "('b, 'd, 'l, 'm, 'o) env \<Rightarrow> redb_error + unit \<Rightarrow> ('b, 'd, 'l, 'm, 'o, 'z) store_scheme \<Rightarrow> scope_set
    \<Rightarrow> node_id \<Rightarrow> node_id option \<Rightarrow> string option \<Rightarrow> valid_interval \<Rightarrow> edge_record list result" where
  "edges_to_interval E begin_read st scopes t f ty iv =
     rbind (validate_interval iv) (\<lambda>_. scan_adjacency E begin_read st scopes t f ty EdgeIn (IntervalGate iv))"

fun scan_between :: "('b, 'd, 'l, 'm, 'o) env \<Rightarrow> ('b, 'd, 'l, 'm, 'o, 'z) store_scheme \<Rightarrow> u64 \<Rightarrow> (u32 \<times> adj_entry) list
    \<Rightarrow> edge_record list result" where
  "scan_between E st to_slot [] = Inr []"
| "scan_between E st to_slot ((ty, e) # es) =
     (if a_target e \<noteq> to_slot then scan_between E st to_slot es
      else rbind (read_edge_by_slot E st (a_edge e)) (\<lambda>r. rbind (scan_between E st to_slot es) (\<lambda>out.
        Inr (case r of Some rec \<Rightarrow> rec # out | None \<Rightarrow> out))))"

definition edges_between :: "('b, 'd, 'l, 'm, 'o) env \<Rightarrow> redb_error + unit \<Rightarrow> ('b, 'd, 'l, 'm, 'o, 'z) store_scheme
    \<Rightarrow> node_id \<Rightarrow> node_id \<Rightarrow> edge_record list result" where
  "edges_between E begin_read st f t =
     rbind (redb begin_read) (\<lambda>_.
     rbind (node_slot (eB E) (node_slots st) f) (\<lambda>a. case a of
       None \<Rightarrow> Inr []
     | Some from_slot \<Rightarrow> rbind (node_slot (eB E) (node_slots st) t) (\<lambda>b. case b of
         None \<Rightarrow> Inr []
       | Some to_slot \<Rightarrow> rbind (read_adj (lz E) (eB E) (out_adj st) from_slot None) (\<lambda>entries.
           scan_between E st to_slot entries))))"

text \<open>\<^verbatim>\<open>unwrap_or_default\<close>: a failed read is an empty listing.\<close>

definition unwrap_or_nil :: "'a list result \<Rightarrow> 'a list" where
  "unwrap_or_nil r = (case r of Inl _ \<Rightarrow> [] | Inr xs \<Rightarrow> xs)"

definition all_edges_between :: "('b, 'd, 'l, 'm, 'o) env \<Rightarrow> redb_error + unit \<Rightarrow> ('b, 'd, 'l, 'm, 'o, 'z) store_scheme
    \<Rightarrow> node_id \<Rightarrow> node_id \<Rightarrow> edge_record list" where
  "all_edges_between E begin_read st f t = unwrap_or_nil (edges_between E begin_read st f t)"

definition open_edges_between :: "('b, 'd, 'l, 'm, 'o) env \<Rightarrow> redb_error + unit \<Rightarrow> ('b, 'd, 'l, 'm, 'o, 'z) store_scheme
    \<Rightarrow> node_id \<Rightarrow> node_id \<Rightarrow> edge_id list" where
  "open_edges_between E begin_read st f t =
     map e_id (filter (\<lambda>x. e_valid_to x = None) (unwrap_or_nil (edges_between E begin_read st f t)))"

end
