(* ===== verification/Simulation.thy ===== *)
theory Simulation
  imports Graph
begin

text \<open>
  The write path implements the abstract graph. For every operation: if the store satisfies its
  invariant and represents a graph, a successful run of \<open>apply_op\<close> leads to a store that again
  satisfies the invariant and represents the graph \<open>spec_op\<close> yields.
\<close>

section \<open>Growth of the mirrors\<close>

lemma dims_grow:
  assumes "dims_agree d rs dims" "dicts_ext d d'" "dicts_wf d" "dicts_wf d'"
  shows "dims_agree d' rs dims"
proof -
  have wf: "dm_wf (dmap d Model)" "dm_wf (dmap d' Model)" using assms(3,4) unfolding dicts_wf_def by blast+
  have names: "d_names (dmap d Model) m = Some k \<longleftrightarrow> d_ids (dmap d Model) k = Some m"
    "d_names (dmap d' Model) m = Some k \<longleftrightarrow> d_ids (dmap d' Model) k = Some m" for m k
    using wf by (simp_all only: dm_wf_def)
  have dm: "dims m = None" if "d_ids (dmap d' Model) k = Some m" "d_ids (dmap d Model) k = None" for m k
  proof (rule ccontr)
    assume "dims m \<noteq> None"
    then obtain k0 where "d_names (dmap d Model) m = Some k0" using assms(1) by (auto simp only: dims_agree_def)
    then have "d_ids (dmap d Model) k0 = Some m" by (simp only: names)
    then have "d_ids (dmap d' Model) k0 = Some m" using dicts_extD [OF assms(2)] by blast
    with that(1) have "k0 = k" using names(2) by (metis option.inject)
    with that(2) \<open>d_ids (dmap d Model) k0 = Some m\<close> show False by simp
  qed
  show ?thesis
    unfolding dims_agree_def
  proof (intro conjI allI impI)
    fix k
    have r: "rs (u32_to_be k) = (case d_ids (dmap d Model) k of None \<Rightarrow> None | Some m \<Rightarrow> map_option u32_to_le (dims m))"
      using assms(1) by (simp only: dims_agree_def)
    show "rs (u32_to_be k) = (case d_ids (dmap d' Model) k of None \<Rightarrow> None | Some m \<Rightarrow> map_option u32_to_le (dims m))"
    proof (cases "d_ids (dmap d Model) k")
      case None
      then show ?thesis using r dm [of k] by (simp del: dmap.simps split: option.splits)
    next
      case (Some m)
      then show ?thesis using r dicts_extD [OF assms(2) Some] by (simp del: dmap.simps)
    qed
  next
    fix m
    assume "dims m \<noteq> None"
    then obtain k where "d_names (dmap d Model) m = Some k" using assms(1) by (auto simp only: dims_agree_def)
    then have "d_ids (dmap d' Model) k = Some m" using dicts_extD [OF assms(2)] names(1) by blast
    then show "d_names (dmap d' Model) m \<noteq> None" by (simp only: names(2) [symmetric]) simp
  qed
qed

section \<open>The pieces of the invariant\<close>

lemma store_invD:
  assumes "store_inv E rows mrows st"
  shows "interning_wf st"
    "\<exists>n. slots_inv (rows (node_slots st)) (rows (node_ids st)) n \<and> counter_is (mrows (meta st)) ''next_node_slot'' n"
    "\<exists>n. slots_inv (rows (edge_slots st)) (rows (edge_ids st)) n \<and> counter_is (mrows (meta st)) ''next_edge_slot'' n"
    "rows (embedding_ref st) (slot_key s) \<noteq> None \<Longrightarrow> rows (node_ids st) (slot_key s) \<noteq> None"
    "row_at (lz E) (pc_edge E) (rows (edges st)) s \<noteq> None \<longleftrightarrow> rows (edge_ids st) (slot_key s) \<noteq> None"
    "adj_wf (lz E) (rows (out_adj st))" "adj_wf (lz E) (rows (in_adj st))"
    "adj_ms (chunk_at (lz E) (rows (out_adj st))) s ty = index_of Outgoing (row_at (lz E) (pc_edge E) (rows (edges st))) s ty"
    "adj_ms (chunk_at (lz E) (rows (in_adj st))) s ty = index_of Incoming (row_at (lz E) (pc_edge E) (rows (edges st))) s ty"
  using assms unfolding store_inv_def by blast+

lemma store_invI:
  assumes "interning_wf st"
    and "slots_inv (rows (node_slots st)) (rows (node_ids st)) n" "counter_is (mrows (meta st)) ''next_node_slot'' n"
    and "slots_inv (rows (edge_slots st)) (rows (edge_ids st)) k" "counter_is (mrows (meta st)) ''next_edge_slot'' k"
    and "\<And>s. rows (embedding_ref st) (slot_key s) \<noteq> None \<Longrightarrow> rows (node_ids st) (slot_key s) \<noteq> None"
    and "\<And>s. row_at (lz E) (pc_edge E) (rows (edges st)) s \<noteq> None \<longleftrightarrow> rows (edge_ids st) (slot_key s) \<noteq> None"
    and "adj_wf (lz E) (rows (out_adj st))" "adj_wf (lz E) (rows (in_adj st))"
    and "\<And>s ty. adj_ms (chunk_at (lz E) (rows (out_adj st))) s ty = index_of Outgoing (row_at (lz E) (pc_edge E) (rows (edges st))) s ty"
    and "\<And>s ty. adj_ms (chunk_at (lz E) (rows (in_adj st))) s ty = index_of Incoming (row_at (lz E) (pc_edge E) (rows (edges st))) s ty"
  shows "store_inv E rows mrows st"
  unfolding store_inv_def
proof (intro conjI allI impI)
  show "\<exists>n. slots_inv (rows (node_slots st)) (rows (node_ids st)) n \<and> counter_is (mrows (meta st)) ''next_node_slot'' n"
    using assms(2,3) by blast
  show "\<exists>n. slots_inv (rows (edge_slots st)) (rows (edge_ids st)) n \<and> counter_is (mrows (meta st)) ''next_edge_slot'' n"
    using assms(4,5) by blast
qed (rule assms, assumption?)+

lemma representsD:
  assumes "represents E rows st G"
  shows "read_node E st i = Inr (g_nodes G i)" "read_edge E st j = Inr (g_edges G j)"
    "g_nodes G i = Some r \<Longrightarrow> n_id r = i" "g_edges G j = Some x \<Longrightarrow> e_id x = j"
    "dims_agree (i_dicts st) (rows (vector_dims st)) (g_dims G)"
  using assms unfolding represents_def by blast+

context engine
begin

text \<open>A step that only touches node rows, vectors and the mirrors keeps the invariant.\<close>

lemma store_inv_cong:
  assumes "store_inv E rows mrows st" "interning_wf st'" "meta st' = meta st"
    and "rows (node_slots st') = rows (node_slots st)" "rows (node_ids st') = rows (node_ids st)"
    and "rows (edge_slots st') = rows (edge_slots st)" "rows (edge_ids st') = rows (edge_ids st)"
    and "rows (edges st') = rows (edges st)" "rows (out_adj st') = rows (out_adj st)" "rows (in_adj st') = rows (in_adj st)"
    and "\<And>s. rows (embedding_ref st') (slot_key s) \<noteq> None \<Longrightarrow> rows (node_ids st) (slot_key s) \<noteq> None"
  shows "store_inv E rows mrows st'"
  using assms(1,2,11) unfolding store_inv_def by (simp only: assms(3-10)) blast

lemma edges_kept:
  assumes inv: "store_inv E rows mrows st" and rep: "represents E rows st G" and g: "grows st st'"
    and same: "rows (node_slots st') = rows (node_slots st)" "rows (node_ids st') = rows (node_ids st)"
      "rows (edge_slots st') = rows (edge_slots st)" "rows (edge_ids st') = rows (edge_ids st)" "rows (edges st') = rows (edges st)"
  shows "read_edge E st' i = Inr (g_edges G i)"
proof -
  obtain n where n: "slots_inv (rows (node_slots st)) (rows (node_ids st)) n" using store_invD(2) [OF inv] by blast
  obtain k where k: "slots_inv (rows (edge_slots st)) (rows (edge_ids st)) k" using store_invD(3) [OF inv] by blast
  show ?thesis
    by (rule edge_frame [OF g k _ n _ _ _ _ representsD(2) [OF rep], where n' = k and k' = n]) (simp_all add: same n k)
qed

lemma unframe_row: "ser S x = Inr raw \<Longrightarrow> below_cap S \<Longrightarrow> serde_codec S \<Longrightarrow> decode_row (lz E) S (frame_value (lz E) raw) = Inr x"
  using lz4_codec.unframe_frame [OF lzc, of raw] serde_codec.de_ser [of S x raw]
  by (simp add: decode_row_def below_cap_def pc_err_def)

lemma put_node_effect:
  assumes run: "put_node E rec st = (Inr (), st')" and wf: "interning_wf st" and ps: "bt_wf (n_props rec)"
    and sl: "slots_inv (rows (node_slots st)) rv n"
  obtains slot t b disk where "rows (node_slots st) (id_key (node_u128 (n_id rec))) = Some (u64_to_le slot)"
    "interning.more st' = interning.more (st\<lparr>nodes := t\<rparr>)" "rows t = (rows (nodes st))(slot_key slot \<mapsto> b)"
    "decode_row (lz E) (pc_node E) b = Inr disk"
    "node_from_disk_v3 disk (i_dicts st') (i_scopes st') = Inr (rec\<lparr>n_embedding := None\<rparr>)"
    "interning_wf st'" "grows st st'"
proof -
  from run obtain slot disk st1 raw tb where slot: "node_slot (eB E) (node_slots st) (n_id rec) = Inr (Some slot)"
    and disk: "node_to_disk_v3 (eB E) (eD E) rec st = (Inr disk, st1)"
    and raw: "ser (pc_node E) disk = Inr raw"
    and ins: "tinsert (eB E) (nodes st1) (slot_key slot) (frame_value (lz E) raw) = Inr tb"
    and st': "st' = st1\<lparr>nodes := tb\<rparr>"
    by (auto simp: put_node_def mbind_Inr monad_simps mupd_Inr rbind_Inr)
  have more: "interning.more st1 = interning.more st" by (rule leaves_moreD [OF leaves_more_encoders(1) disk])
  note k = keeps_run [OF keeps_encoders(1) disk wf]
  have dec: "node_from_disk_v3 disk (i_dicts st1) (i_scopes st1) = Inr (rec\<lparr>n_embedding := None\<rparr>)"
    using node_roundtrip [OF disk wf ps grows_refl] k by blast
  have wf': "interning_wf st'" "grows st st'" using k by (simp_all add: st' interning_wf_def grows_def)
  have m': "interning.more st' = interning.more (st\<lparr>nodes := tb\<rparr>)"
    using more by (cases st; cases st1; simp add: st')
  have sr: "rows (node_slots st) (id_key (node_u128 (n_id rec))) = Some (u64_to_le slot)"
    using slot slots_inv_fwd [OF sl] by (fastforce simp: node_slot_def read_slot_eq [OF sl])
  have rt: "rows tb = (rows (nodes st))(slot_key slot \<mapsto> frame_value (lz E) raw)"
    using bt.insert_ok [OF ins] more_fields(1) [OF more] by simp
  show thesis
    by (rule that [OF sr m' rt unframe_row [OF raw caps(1) serdes(1)] _ wf']) (simp add: dec st')
qed

text \<open>Rewriting one node's row: that node reads as the new record, every other read is unchanged.\<close>

lemma put_node_reads:
  assumes run: "put_node E rec st = (Inr (), st')" and wf: "interning_wf st" and ps: "bt_wf (n_props rec)"
    and sl: "slots_inv (rows (node_slots st)) (rows (node_ids st)) n"
    and emb: "\<And>s. rows (node_slots st) (id_key (node_u128 (n_id rec))) = Some (u64_to_le s) \<Longrightarrow>
      read_embedding_by_slot E (vectors st) (embedding_ref st) (i_dicts st) s = Inr (n_embedding rec)"
  shows "read_node E st' (n_id rec) = Inr (Some rec)"
    and "i \<noteq> n_id rec \<Longrightarrow> read_node E st i = Inr r \<Longrightarrow> read_node E st' i = Inr r"
proof -
  from run wf ps sl obtain slot t b disk where e: "rows (node_slots st) (id_key (node_u128 (n_id rec))) = Some (u64_to_le slot)"
    "interning.more st' = interning.more (st\<lparr>nodes := t\<rparr>)" "rows t = (rows (nodes st))(slot_key slot \<mapsto> b)"
    "decode_row (lz E) (pc_node E) b = Inr disk"
    "node_from_disk_v3 disk (i_dicts st') (i_scopes st') = Inr (rec\<lparr>n_embedding := None\<rparr>)"
    "interning_wf st'" "grows st st'" by (rule put_node_effect)
  note fs = more_fields [OF e(2)]
  have ext: "dicts_ext (i_dicts st) (i_dicts st')" using e(7) by (simp add: grows_def)
  have "read_embedding_by_slot E (vectors st') (embedding_ref st') (i_dicts st') slot = Inr (n_embedding rec)"
    by (rule read_embedding_frame [OF _ ext emb [OF e(1)]]) (simp add: fs)
  then have "read_node_by_slot E st' slot = Inr (Some rec)"
    by (simp add: read_node_by_slot_row fs e(3,4,5))
  then show "read_node E st' (n_id rec) = Inr (Some rec)"
    using e(1) by (simp add: read_node_def node_slot_def fs read_slot_eq [OF sl])
  show "read_node E st' i = Inr r" if ne: "i \<noteq> n_id rec" and r: "read_node E st i = Inr r"
  proof (rule node_frame [OF e(7) sl _ _ _ r])
    show "slots_inv (rows (node_slots st')) (rows (node_ids st')) n" using sl by (simp add: fs)
    show "rows (node_slots st') (id_key (node_u128 i)) = rows (node_slots st) (id_key (node_u128 i))" by (simp add: fs)
    fix s
    assume s: "rows (node_slots st) (id_key (node_u128 i)) = Some (u64_to_le s)"
    have "node_u128 i \<noteq> node_u128 (n_id rec)" using ne by (metis id_collapse(1))
    then have "s \<noteq> slot" using slots_inv_inj [OF sl s] e(1) by blast
    then show "rows (nodes st') (slot_key s) = rows (nodes st) (slot_key s) \<and> same_vector st st' s" by (simp add: fs e(3))
  qed
qed

lemma put_node_step:
  assumes inv: "store_inv E rows mrows st" and rep: "represents E rows st G"
    and run: "put_node E rec st = (Inr (), st')" and ps: "bt_wf (n_props rec)"
    and emb: "\<And>s. rows (node_slots st) (id_key (node_u128 (n_id rec))) = Some (u64_to_le s) \<Longrightarrow>
      read_embedding_by_slot E (vectors st) (embedding_ref st) (i_dicts st) s = Inr (n_embedding rec)"
  shows "store_inv E rows mrows st' \<and> represents E rows st' (G\<lparr>g_nodes := (g_nodes G)(n_id rec \<mapsto> rec)\<rparr>)"
proof -
  note wf = store_invD(1) [OF inv]
  obtain n where sl: "slots_inv (rows (node_slots st)) (rows (node_ids st)) n" using store_invD(2) [OF inv] by blast
  from run wf ps sl obtain slot t b disk where e: "interning.more st' = interning.more (st\<lparr>nodes := t\<rparr>)"
    "interning_wf st'" "grows st st'" by (rule put_node_effect)
  note fs = more_fields [OF e(1)]
  have "store_inv E rows mrows st'"
    by (rule store_inv_cong [OF inv e(2)]) (simp_all add: fs store_invD(4) [OF inv])
  moreover have "read_edge E st' i = Inr (g_edges G i)" for i
    by (rule edges_kept [OF inv rep e(3)]) (simp_all add: fs)
  moreover have "dims_agree (i_dicts st') (rows (vector_dims st')) (g_dims G)"
    using dims_grow [OF representsD(5) [OF rep]] e(2,3) wf by (simp add: fs grows_def interning_wf_def)
  moreover have "read_node E st' i = Inr (((g_nodes G)(n_id rec \<mapsto> rec)) i)" for i
    using put_node_reads [OF run wf ps sl emb] representsD(1) [OF rep] by simp
  ultimately show ?thesis using representsD(3,4) [OF rep] by (simp add: represents_def)
qed

lemma read_nodeD:
  assumes sl: "slots_inv (rows (node_slots st)) rv n" and r: "read_node E st i = Inr (Some rec)"
  obtains s b disk where "rows (node_slots st) (id_key (node_u128 i)) = Some (u64_to_le s)"
    "rows (nodes st) (slot_key s) = Some b" "decode_row (lz E) (pc_node E) b = Inr disk"
    "node_from_disk_v3 disk (i_dicts st) (i_scopes st) = Inr (rec\<lparr>n_embedding := None\<rparr>)"
    "read_embedding_by_slot E (vectors st) (embedding_ref st) (i_dicts st) s = Inr (n_embedding rec)"
    "bt_wf (n_props rec)"
proof -
  from r obtain s where s: "node_slot (eB E) (node_slots st) i = Inr (Some s)" "read_node_by_slot E st s = Inr (Some rec)"
    by (auto simp: read_node_def rbind_Inr split: option.splits)
  from s(1) have fw: "rows (node_slots st) (id_key (node_u128 i)) = Some (u64_to_le s)"
    using slots_inv_fwd [OF sl] by (fastforce simp: node_slot_def read_slot_eq [OF sl])
  from s(2) obtain b disk rec0 emb where x: "rows (nodes st) (slot_key s) = Some b" "decode_row (lz E) (pc_node E) b = Inr disk"
    "node_from_disk_v3 disk (i_dicts st) (i_scopes st) = Inr rec0"
    "read_embedding_by_slot E (vectors st) (embedding_ref st) (i_dicts st) s = Inr emb" "rec = rec0\<lparr>n_embedding := emb\<rparr>"
    by (auto simp: read_node_by_slot_row rbind_Inr split: option.splits)
  have "n_embedding rec0 = None" "bt_wf (n_props rec0)"
    using x(3) by (auto simp: node_from_disk_v3_def rbind_Inr dest: props_from_disk_wf)
  then show thesis using that [OF fw x(1,2)] x by simp
qed

lemma bt_wf_merge_props: "bt_wf ps \<Longrightarrow> bt_wf (merge_props ups ps)"
  unfolding merge_props_def
  by (induction ups arbitrary: ps) (auto split: option.splits)

lemma sim_set_node_props:
  assumes inv: "store_inv E rows mrows st" and rep: "represents E rows st G"
    and run: "apply_set_node_props E i ups st = (Inr (), st')"
  shows "\<exists>G'. spec_op (stored_vector E) (SetNodeProps i ups) G = Some G' \<and> store_inv E rows mrows st' \<and> represents E rows st' G'"
proof -
  from run obtain rec where rec: "read_node E st i = Inr (Some rec)"
    and put: "put_node E (rec\<lparr>n_props := merge_props ups (n_props rec)\<rparr>) st = (Inr (), st')"
    by (auto simp: apply_set_node_props_def found_node_def mbind_Inr monad_simps rbind_Inr)
  have g: "g_nodes G i = Some rec" using rec representsD(1) [OF rep] by simp
  have i: "n_id rec = i" using representsD(3) [OF rep g] .
  obtain n where sl: "slots_inv (rows (node_slots st)) (rows (node_ids st)) n" using store_invD(2) [OF inv] by blast
  from sl rec obtain s where s: "rows (node_slots st) (id_key (node_u128 i)) = Some (u64_to_le s)"
    "read_embedding_by_slot E (vectors st) (embedding_ref st) (i_dicts st) s = Inr (n_embedding rec)" "bt_wf (n_props rec)"
    by (rule read_nodeD)
  from put_node_step [OF inv rep put] have "store_inv E rows mrows st' \<and>
      represents E rows st' (G\<lparr>g_nodes := (g_nodes G)(i \<mapsto> rec\<lparr>n_props := merge_props ups (n_props rec)\<rparr>)\<rparr>)"
    using s i by (simp add: bt_wf_merge_props)
  with g show ?thesis by simp
qed

text \<open>A step that grows the mirrors and leaves every record table alone.\<close>

lemma represents_cong:
  fixes st st' :: "('b, 'd, 'l, 'm, 'o, 'z) store_scheme"
  assumes inv: "store_inv E rows mrows st" and rep: "represents E rows st G" and g: "grows st st'" and wf: "interning_wf st'"
    and same: "rows (node_slots st') = rows (node_slots st)" "rows (node_ids st') = rows (node_ids st)"
      "rows (edge_slots st') = rows (edge_slots st)" "rows (edge_ids st') = rows (edge_ids st)" "rows (edges st') = rows (edges st)"
      "rows (nodes st') = rows (nodes st)" "rows (vectors st') = rows (vectors st)"
      "rows (embedding_ref st') = rows (embedding_ref st)" "rows (vector_dims st') = rows (vector_dims st)"
  shows "represents E rows st' G"
proof -
  obtain n where sl: "slots_inv (rows (node_slots st)) (rows (node_ids st)) n" using store_invD(2) [OF inv] by blast
  have "read_node E st' i = Inr (g_nodes G i)" for i
    by (rule node_frame [OF g sl _ _ _ representsD(1) [OF rep], where n' = n]) (simp_all add: same sl)
  moreover have "read_edge E st' i = Inr (g_edges G i)" for i by (rule edges_kept [OF inv rep g same(1-5)])
  moreover have "dims_agree (i_dicts st') (rows (vector_dims st')) (g_dims G)"
    using dims_grow [OF representsD(5) [OF rep]] wf g store_invD(1) [OF inv] by (simp add: same grows_def interning_wf_def)
  ultimately show ?thesis using representsD(3,4) [OF rep] by (simp add: represents_def)
qed

lemma read_edgeD:
  assumes sl: "slots_inv (rows (edge_slots st)) rv n" and nsl: "slots_inv (rows (node_slots st)) (rows (node_ids st)) k"
    and r: "read_edge E st i = Inr (Some x)"
  obtains s d where "rows (edge_slots st) (id_key (edge_u128 i)) = Some (u64_to_le s)"
    "row_at (lz E) (pc_edge E) (rows (edges st)) s = Some d"
    "edge_from_disk_v4 (eB E) d (i_dicts st) (i_scopes st) (node_ids st) = Inr x"
    "rows (node_ids st) (slot_key (ed_from d)) = Some (id_key (node_u128 (e_from x)))"
    "rows (node_ids st) (slot_key (ed_to d)) = Some (id_key (node_u128 (e_to x)))" "bt_wf (e_props x)"
proof -
  from r obtain s where s: "edge_slot (eB E) (edge_slots st) i = Inr (Some s)" "read_edge_by_slot E st s = Inr (Some x)"
    by (auto simp: read_edge_def rbind_Inr split: option.splits)
  from s(1) have fw: "rows (edge_slots st) (id_key (edge_u128 i)) = Some (u64_to_le s)"
    using slots_inv_fwd [OF sl] by (fastforce simp: edge_slot_def read_slot_eq [OF sl])
  from s(2) obtain b d where x: "rows (edges st) (slot_key s) = Some b" "decode_row (lz E) (pc_edge E) b = Inr d"
    "edge_from_disk_v4 (eB E) d (i_dicts st) (i_scopes st) (node_ids st) = Inr x"
    by (auto simp: read_edge_by_slot_row rbind_Inr split: option.splits)
  have ulid: "rows (node_ids st) (slot_key t) = Some (id_key (node_u128 j))" if "node_ulid (eB E) (node_ids st) t = Inr (Some j)" for t j
  proof (cases "rows (node_ids st) (slot_key t)")
    case (Some c)
    then obtain a where "c = id_key a" using slots_inv_rvs [OF nsl] by blast
    with Some that show ?thesis by (cases j) (auto simp: node_ulid_def read_id_eq [OF nsl])
  qed (use that in \<open>simp add: node_ulid_def read_id_eq [OF nsl]\<close>)
  have "node_ulid (eB E) (node_ids st) (ed_from d) = Inr (Some (e_from x))"
    "node_ulid (eB E) (node_ids st) (ed_to d) = Inr (Some (e_to x))" "bt_wf (e_props x)"
    using x(3) by (auto simp: edge_from_disk_v4_def rbind_Inr dest: props_from_disk_wf)
  then show thesis using that [OF fw _ x(3)] x(1,2) ulid by (simp add: row_at_def)
qed

text \<open>Edge reads survive when the endpoints' reverse rows do.\<close>

lemma edges_keep_ends:
  assumes inv: "store_inv E rows mrows st" and rep: "represents E rows st G" and g: "grows st st'"
    and sl': "slots_inv (rows (node_slots st')) (rows (node_ids st')) n'"
    and same: "rows (edge_slots st') = rows (edge_slots st)" "rows (edge_ids st') = rows (edge_ids st)"
      "rows (edges st') = rows (edges st)"
    and keep: "\<And>s b. rows (node_ids st) (slot_key s) = Some b \<Longrightarrow> rows (node_ids st') (slot_key s) = Some b"
  shows "read_edge E st' j = Inr (g_edges G j)"
proof -
  obtain n where sl: "slots_inv (rows (node_slots st)) (rows (node_ids st)) n" using store_invD(2) [OF inv] by blast
  obtain k where esl: "slots_inv (rows (edge_slots st)) (rows (edge_ids st)) k" using store_invD(3) [OF inv] by blast
  show ?thesis
  proof (rule edge_frame [OF g esl _ sl sl' _ _ _ representsD(2) [OF rep]])
    show "slots_inv (rows (edge_slots st')) (rows (edge_ids st')) k" using esl by (simp add: same)
    fix s d
    assume js: "rows (edge_slots st) (id_key (edge_u128 j)) = Some (u64_to_le s)"
      and d: "row_at (lz E) (pc_edge E) (rows (edges st)) s = Some d"
    have "read_edge E st j \<noteq> Inr None"
      using js by (auto simp: read_edge_def edge_slot_def read_slot_eq [OF esl] rbind_Inr split: option.splits)
    then obtain x where x: "read_edge E st j = Inr (Some x)" using representsD(2) [OF rep, of j] by auto
    from esl sl x obtain s' d' where "rows (edge_slots st) (id_key (edge_u128 j)) = Some (u64_to_le s')"
      "row_at (lz E) (pc_edge E) (rows (edges st)) s' = Some d'"
      "rows (node_ids st) (slot_key (ed_from d')) = Some (id_key (node_u128 (e_from x)))"
      "rows (node_ids st) (slot_key (ed_to d')) = Some (id_key (node_u128 (e_to x)))" by (rule read_edgeD)
    with js d keep show "rows (node_ids st') (slot_key (ed_from d)) = rows (node_ids st) (slot_key (ed_from d)) \<and>
      rows (node_ids st') (slot_key (ed_to d)) = rows (node_ids st) (slot_key (ed_to d))" by simp
  qed (simp_all add: same)
qed

text \<open>An allocated slot's reverse row stays when a new id is allocated.\<close>

lemma alloc_keeps_reverse:
  assumes "slots_inv fw rv n" "slots_inv fw' rv' n'" "\<And>x. x \<noteq> i \<Longrightarrow> fw' (id_key x) = fw (id_key x)" "fw (id_key i) = None"
    and "rv (slot_key s) = Some b"
  shows "rv' (slot_key s) = Some b"
proof -
  obtain x where x: "b = id_key x" "fw (id_key x) = Some (u64_to_le s)" using slots_inv_rvs [OF assms(1,5)] by blast
  then have "fw' (id_key x) = Some (u64_to_le s)" using assms(3,4) by (metis option.distinct(1))
  then show ?thesis using slots_inv_slot [OF assms(2)] x(1) by blast
qed

lemma no_node_slot:
  assumes inv: "store_inv E rows mrows st" and rep: "represents E rows st G" and "g_nodes G i = None"
  shows "rows (node_slots st) (id_key (node_u128 i)) = None"
proof -
  obtain n where sl: "slots_inv (rows (node_slots st)) (rows (node_ids st)) n" using store_invD(2) [OF inv] by blast
  have "read_node E st i = Inr None" using representsD(1) [OF rep, of i] assms(3) by simp
  then show ?thesis
    by (auto simp: read_node_def node_slot_def read_slot_eq [OF sl] rbind_Inr split: option.splits)
qed

lemma no_edge_slot:
  assumes inv: "store_inv E rows mrows st" and rep: "represents E rows st G" and "g_edges G i = None"
  shows "rows (edge_slots st) (id_key (edge_u128 i)) = None"
proof -
  obtain n where sl: "slots_inv (rows (edge_slots st)) (rows (edge_ids st)) n" using store_invD(3) [OF inv] by blast
  have "read_edge E st i = Inr None" using representsD(2) [OF rep, of i] assms(3) by simp
  then show ?thesis
    by (auto simp: read_edge_def edge_slot_def read_slot_eq [OF sl] rbind_Inr split: option.splits)
qed

text \<open>Allocating a node slot: the invariant holds and every existing read is unchanged.\<close>

lemma alloc_node_effect:
  assumes inv: "store_inv E rows mrows st" and rep: "represents E rows st G" and new: "g_nodes G i = None"
    and al: "alloc_node_slot (eM E) (eB E) (meta st) (node_slots st) (node_ids st) i = Inr (slot, m, f, r)"
    and s1: "s1 = st\<lparr>meta := m, node_slots := f, node_ids := r\<rparr>"
  shows "store_inv E rows mrows s1" "rows (node_slots s1) (id_key (node_u128 i)) = Some (u64_to_le slot)"
    "rows (embedding_ref s1) (slot_key slot) = None" "j \<noteq> i \<Longrightarrow> read_node E s1 j = Inr (g_nodes G j)"
    "read_edge E s1 e = Inr (g_edges G e)"
proof -
  obtain n where sl: "slots_inv (rows (node_slots st)) (rows (node_ids st)) n"
    and cn: "counter_is (mrows (meta st)) ''next_node_slot'' n" using store_invD(2) [OF inv] by blast
  obtain k where esl: "slots_inv (rows (edge_slots st)) (rows (edge_ids st)) k"
    and ck: "counter_is (mrows (meta st)) ''next_edge_slot'' k" using store_invD(3) [OF inv] by blast
  have none: "rows (node_slots st) (id_key (node_u128 i)) = None" using no_node_slot [OF inv rep new] .
  from alloc_correct [OF mtab bt.redb_table_axioms sl cn al [unfolded alloc_node_slot_def]] none obtain n' where
    sl1: "slots_inv (rows f) (rows r) n'" and cn1: "counter_is (mrows m) ''next_node_slot'' n'"
    and own: "rows f (id_key (node_u128 i)) = Some (u64_to_le slot)" and slot: "slot = n"
    and oth: "\<And>x. x \<noteq> node_u128 i \<Longrightarrow> rows f (id_key x) = rows (node_slots st) (id_key x)"
    and mt: "\<And>c. c \<noteq> ''next_node_slot'' \<Longrightarrow> mrows m c = mrows (meta st) c" by blast
  note keep = alloc_keeps_reverse [OF sl sl1 oth none]
  have sl1': "slots_inv (rows (node_slots s1)) (rows (node_ids s1)) n'" using sl1 by (simp add: s1)
  have g1: "grows st s1" by (simp add: grows_def s1)
  show "store_inv E rows mrows s1"
  proof (rule store_invI [OF _ sl1'])
    show "rows (node_ids s1) (slot_key s) \<noteq> None" if "rows (embedding_ref s1) (slot_key s) \<noteq> None" for s
    proof -
      have "rows (embedding_ref st) (slot_key s) \<noteq> None" using that by (simp add: s1)
      then obtain b where "rows (node_ids st) (slot_key s) = Some b" using store_invD(4) [OF inv, of s] by blast
      then show ?thesis using keep by (simp add: s1)
    qed
  qed (use store_invD(1,5-9) [OF inv] cn1 esl ck mt [of "''next_edge_slot''"] in \<open>simp_all add: s1 interning_wf_def counter_is_def\<close>)
  show "rows (node_slots s1) (id_key (node_u128 i)) = Some (u64_to_le slot)" using own by (simp add: s1)
  show "rows (embedding_ref s1) (slot_key slot) = None"
  proof (rule ccontr)
    assume "rows (embedding_ref s1) (slot_key slot) \<noteq> None"
    then have "rows (embedding_ref st) (slot_key slot) \<noteq> None" by (simp add: s1)
    then obtain b where "rows (node_ids st) (slot_key slot) = Some b" using store_invD(4) [OF inv, of slot] by blast
    then show False using slots_inv_rvs [OF sl] slots_inv_slot [OF sl] slot by blast
  qed
  show "read_node E s1 j = Inr (g_nodes G j)" if "j \<noteq> i"
  proof -
    have "node_u128 j \<noteq> node_u128 i" using that by (metis id_collapse(1))
    then show ?thesis by (intro node_frame [OF g1 sl sl1' _ _ representsD(1) [OF rep]]) (simp_all add: s1 oth)
  qed
  show "read_edge E s1 e = Inr (g_edges G e)"
    by (rule edges_keep_ends [OF inv rep g1 sl1']) (simp_all add: s1 keep)
qed

lemma sim_create_node:
  assumes inv: "store_inv E rows mrows st" and rep: "represents E rows st G"
    and run: "apply_create_node E i sc l ps st = (Inr (), st')" and new: "g_nodes G i = None" and ps: "bt_wf ps"
  shows "\<exists>G'. spec_op (stored_vector E) (CreateNode i sc l ps) G = Some G' \<and> store_inv E rows mrows st' \<and> represents E rows st' G'"
proof -
  let ?rec = "\<lparr>n_id = i, n_scope = sc, n_label = l, n_props = ps, n_embedding = None\<rparr>"
  let ?G = "G\<lparr>g_nodes := (g_nodes G)(i \<mapsto> ?rec)\<rparr>"
  from run obtain slot m f r s2 lid s3 sid s4 t where
    al: "alloc_node_slot (eM E) (eB E) (meta st) (node_slots st) (node_ids st) i = Inr (slot, m, f, r)"
    and put: "put_node E ?rec (st\<lparr>meta := m, node_slots := f, node_ids := r\<rparr>) = (Inr (), s2)"
    and d3: "dict_intern (eD E) Label l s2 = (Inr lid, s3)" and d4: "registry_intern (eB E) sc s3 = (Inr sid, s4)"
    and st': "st' = s4\<lparr>label_index := t\<rparr>"
    by (auto simp: apply_create_node_def mbind_Inr mupd_Inr rbind_Inr)
  define s1 where "s1 = st\<lparr>meta := m, node_slots := f, node_ids := r\<rparr>"
  note a = alloc_node_effect [OF inv rep new al s1_def]
  note wf1 = store_invD(1) [OF a(1)]
  obtain n' where sl1: "slots_inv (rows (node_slots s1)) (rows (node_ids s1)) n'" using store_invD(2) [OF a(1)] by blast
  have put1: "put_node E ?rec s1 = (Inr (), s2)" using put by (simp add: s1_def)
  have emb: "read_embedding_by_slot E (vectors s1) (embedding_ref s1) (i_dicts s1) s = Inr (n_embedding ?rec)"
    if "rows (node_slots s1) (id_key (node_u128 (n_id ?rec))) = Some (u64_to_le s)" for s
    using that a(2,3) by (simp add: read_embedding_by_slot_def read_qvec_by_slot_def read_ref_def bt.get_eq)
  have bt: "bt_wf (n_props ?rec)" using ps by simp
  note rd = put_node_reads [OF put1 wf1 bt sl1 emb]
  from put1 wf1 bt sl1 obtain t2 where e: "interning.more s2 = interning.more (s1\<lparr>nodes := t2\<rparr>)" "interning_wf s2" "grows s1 s2"
    by (rule put_node_effect)
  note fs = more_fields [OF e(1)]
  have inv2: "store_inv E rows mrows s2"
    by (rule store_inv_cong [OF a(1) e(2)]) (simp_all add: fs store_invD(4) [OF a(1)])
  have n2: "read_node E s2 j = Inr (((g_nodes G)(i \<mapsto> ?rec)) j)" for j using rd a(4) by (cases "j = i") simp_all
  obtain k where esl: "slots_inv (rows (edge_slots s1)) (rows (edge_ids s1)) k" using store_invD(3) [OF a(1)] by blast
  have e2: "read_edge E s2 j = Inr (g_edges G j)" for j
    by (rule edge_frame [OF e(3) esl _ sl1 _ _ _ _ a(5), where n' = k and k' = n']) (use esl sl1 in \<open>simp_all add: fs\<close>)
  have dm: "dims_agree (i_dicts s2) (rows (vector_dims s2)) (g_dims G)"
    using dims_grow [OF representsD(5) [OF rep]] e(2,3) store_invD(1) [OF inv]
    by (simp add: fs s1_def grows_def interning_wf_def)
  have rep2: "represents E rows s2 ?G"
    using n2 e2 dm representsD(3,4) [OF rep] by (simp add: represents_def)
  have more: "interning.more s4 = interning.more s2" using dict_intern_more [OF d3] registry_intern_more [OF d4] by simp
  have k4: "interning_wf s4" "grows s2 s4"
    using keeps_run [OF keeps_dict_intern d3 e(2)] keeps_run [OF keeps_registry_intern d4] by (auto intro: grows_trans)
  have k': "interning_wf st'" "grows s2 st'" using k4 by (simp_all add: st' interning_wf_def grows_def)
  have "store_inv E rows mrows st'"
    by (rule store_inv_cong [OF inv2 k'(1)]) (simp_all add: st' more_fields [OF more] store_invD(4) [OF inv2])
  moreover have "represents E rows st' ?G"
    by (rule represents_cong [OF inv2 rep2 k'(2,1)]) (simp_all add: st' more_fields [OF more])
  ultimately show ?thesis by simp
qed

lemma check_dim_effect:
  assumes run: "check_or_pin_dim (eB E) mid len t = Inr t'" and agree: "dims_agree d (rows t) dims" and wf: "dicts_wf d"
    and mid: "d_ids (dmap d Model) mid = Some m"
  shows "dims m \<in> {None, Some (word_of_nat len)}" "dims_agree d (rows t') (dims(m \<mapsto> word_of_nat len))"
proof -
  have "dm_wf (dmap d Model)" using wf unfolding dicts_wf_def by blast
  then have names: "d_names (dmap d Model) x = Some k \<longleftrightarrow> d_ids (dmap d Model) k = Some x" for x k by (simp only: dm_wf_def)
  have uniq: "k = mid" if "d_ids (dmap d Model) k = Some m" for k
  proof -
    have "d_names (dmap d Model) m = Some k" "d_names (dmap d Model) m = Some mid" using that mid by (simp_all only: names)
    then show ?thesis by simp
  qed
  have row: "rows t (u32_to_be mid) = map_option u32_to_le (dims m)"
    using agree mid by (simp add: dims_agree_def del: dmap.simps)
  have len: "len < 2 ^ 32" using run by (auto simp: check_or_pin_dim_def split: if_splits)
  have both: "dims m \<in> {None, Some (word_of_nat len)} \<and> rows t' = (rows t)(u32_to_be mid \<mapsto> u32_to_le (word_of_nat len))"
  proof (cases "dims m")
    case None
    then show ?thesis using run len row bt.insert_ok by (simp add: check_or_pin_dim_def bt.get_eq)
  next
    case (Some w)
    then show ?thesis using run len row by (auto simp: check_or_pin_dim_def bt.get_eq split: if_splits)
  qed
  then show "dims m \<in> {None, Some (word_of_nat len)}" by blast
  show "dims_agree d (rows t') (dims(m \<mapsto> word_of_nat len))"
    unfolding dims_agree_def
  proof (intro conjI allI impI)
    fix k
    show "rows t' (u32_to_be k) = (case d_ids (dmap d Model) k of None \<Rightarrow> None
        | Some x \<Rightarrow> map_option u32_to_le ((dims(m \<mapsto> word_of_nat len)) x))"
    proof (cases "k = mid")
      case True
      then show ?thesis using both mid by (simp del: dmap.simps)
    next
      case False
      have "rows t (u32_to_be k) = (case d_ids (dmap d Model) k of None \<Rightarrow> None | Some x \<Rightarrow> map_option u32_to_le (dims x))"
        using agree by (simp only: dims_agree_def)
      then show ?thesis using False both uniq [of k] by (auto simp del: dmap.simps split: option.split)
    qed
  next
    fix x
    assume "(dims(m \<mapsto> word_of_nat len)) x \<noteq> None"
    then show "d_names (dmap d Model) x \<noteq> None"
      using agree mid names [of m mid] by (cases "x = m") (simp_all add: dims_agree_def del: dmap.simps)
  qed
qed

lemma put_vector_frame:
  assumes "put_vector E model scope slot v vecs refs = Inr (vecs', refs')"
  shows "\<exists>b. rows refs' = (rows refs)(slot_key slot \<mapsto> b)"
    and "s \<noteq> slot \<Longrightarrow> rows vecs' (vector_key m c s) = rows vecs (vector_key m c s)"
proof -
  from assms obtain old vecs1 raw r where
    rm: "(case old of Some (om, os) \<Rightarrow> if om \<noteq> model
        then rbind (redb (tremove (eB E) vecs (vector_key om os slot))) (\<lambda>(_, t). Inr t) else Inr vecs
      | None \<Rightarrow> Inr vecs) = Inr vecs1"
    and iv: "tinsert (eB E) vecs1 (vector_key model scope slot) (frame_value (lz E) raw) = Inr vecs'"
    and ir: "tinsert (eB E) refs (slot_key slot) r = Inr refs'"
    by (auto simp: put_vector_def rbind_Inr)
  show "\<exists>b. rows refs' = (rows refs)(slot_key slot \<mapsto> b)" using bt.insert_ok [OF ir] by blast
  assume s: "s \<noteq> slot"
  have "rows vecs1 (vector_key m c s) = rows vecs (vector_key m c s)"
    using rm s by (auto simp: rbind_Inr dest!: bt.remove_ok split: option.splits if_splits prod.splits)
  then show "rows vecs' (vector_key m c s) = rows vecs (vector_key m c s)" using s bt.insert_ok [OF iv] by simp
qed

end

text \<open>The nearest-neighbour index has its own two tables.\<close>

definition only_hnsw :: "(('b, 'd, 'l, 'm, 'o, 'z) store_scheme, 'a) sm \<Rightarrow> bool" where
  "only_hnsw f \<longleftrightarrow> (\<forall>st. \<exists>l h. snd (f st) = st\<lparr>hnsw_links := l, hnsw_meta := h\<rparr>)"

lemma only_hnsw_mbind: "only_hnsw f \<Longrightarrow> (\<And>x. only_hnsw (g x)) \<Longrightarrow> only_hnsw (mbind f g)"
  unfolding only_hnsw_def
proof
  fix st
  assume f: "\<forall>st. \<exists>l h. snd (f st) = st\<lparr>hnsw_links := l, hnsw_meta := h\<rparr>"
    and g: "\<And>x. \<forall>st. \<exists>l h. snd (g x st) = st\<lparr>hnsw_links := l, hnsw_meta := h\<rparr>"
  obtain r s1 where r: "f st = (r, s1)" by fastforce
  with f obtain l h where s1: "s1 = st\<lparr>hnsw_links := l, hnsw_meta := h\<rparr>" by (metis snd_conv)
  show "\<exists>l h. snd (mbind f g st) = st\<lparr>hnsw_links := l, hnsw_meta := h\<rparr>"
  proof (cases r)
    case (Inl e)
    with r s1 show ?thesis by auto
  next
    case (Inr x)
    obtain l' h' where "snd (g x s1) = s1\<lparr>hnsw_links := l', hnsw_meta := h'\<rparr>" using g by blast
    then have "snd (mbind f g st) = st\<lparr>hnsw_links := l', hnsw_meta := h'\<rparr>" using r Inr s1 by simp
    then show ?thesis by blast
  qed
qed

lemma only_hnsw_read: "(\<And>st. snd (f st) = st) \<Longrightarrow> only_hnsw f"
  unfolding only_hnsw_def
proof (intro allI exI)
  fix st
  assume "\<And>st. snd (f st) = st"
  then show "snd (f st) = st\<lparr>hnsw_links := hnsw_links st, hnsw_meta := hnsw_meta st\<rparr>" by simp
qed

lemma only_hnsw_reads: "only_hnsw (mret x)" "only_hnsw (mget p)" "only_hnsw (mread q)"
  by (rule only_hnsw_read; simp add: monad_simps)+

lemma only_hnsw_run: "only_hnsw (run_hnsw f)"
  unfolding only_hnsw_def run_hnsw_def
proof
  fix st
  show "\<exists>l h. snd (mupd (\<lambda>st. rbind (f (hnsw_links st, hnsw_meta st)) (\<lambda>(x, l, m).
      Inr (x, st\<lparr>hnsw_links := l, hnsw_meta := m\<rparr>))) st) = st\<lparr>hnsw_links := l, hnsw_meta := h\<rparr>"
  proof (cases "f (hnsw_links st, hnsw_meta st)")
    case (Inl e)
    then have "snd (mupd (\<lambda>st. rbind (f (hnsw_links st, hnsw_meta st)) (\<lambda>(x, l, m).
      Inr (x, st\<lparr>hnsw_links := l, hnsw_meta := m\<rparr>))) st) = st\<lparr>hnsw_links := hnsw_links st, hnsw_meta := hnsw_meta st\<rparr>"
      by (simp add: mupd_def)
    then show ?thesis by blast
  next
    case (Inr r)
    then show ?thesis by (cases r) (auto simp: mupd_def)
  qed
qed

lemma only_hnsw_case: "only_hnsw f \<Longrightarrow> (\<And>x. only_hnsw (g x)) \<Longrightarrow> only_hnsw (case y of None \<Rightarrow> f | Some x \<Rightarrow> g x)"
  "only_hnsw f \<Longrightarrow> only_hnsw f' \<Longrightarrow> only_hnsw (if b then f else f')"
  "(\<And>x z. only_hnsw (h x z)) \<Longrightarrow> only_hnsw (case p of (x, z) \<Rightarrow> h x z)"
  by (simp_all split: option.split prod.split)

lemmas only_hnsw_intros = only_hnsw_mbind only_hnsw_case only_hnsw_reads only_hnsw_run

lemma only_hnsw_rebuild: "only_hnsw (maybe_rebuild_cluster E m s)"
  unfolding maybe_rebuild_cluster_def by (intro only_hnsw_intros)

lemma only_hnsw_set: "only_hnsw (apply_hnsw_set_embedding E old m c s i v)"
  unfolding apply_hnsw_set_embedding_def by (intro only_hnsw_intros only_hnsw_rebuild)

lemma only_hnswD: "only_hnsw f \<Longrightarrow> f st = (r, st') \<Longrightarrow> \<exists>l h. st' = st\<lparr>hnsw_links := l, hnsw_meta := h\<rparr>"
  unfolding only_hnsw_def by (metis snd_conv)

context engine
begin

lemma represents_dims:
  assumes "represents E rows st G" "dims_agree (i_dicts st) (rows t) D"
  shows "represents E rows (st\<lparr>vector_dims := t\<rparr>) (G\<lparr>g_dims := D\<rparr>)"
proof -
  have "read_node E (st\<lparr>vector_dims := t\<rparr>) i = read_node E st i" for i
    by (simp add: read_node_def read_node_by_slot_row cong: option.case_cong)
  moreover have "read_edge E (st\<lparr>vector_dims := t\<rparr>) i = read_edge E st i" for i
    by (simp add: read_edge_def read_edge_by_slot_row cong: option.case_cong)
  ultimately show ?thesis using assms unfolding represents_def by simp
qed

lemma put_vector_step:
  assumes inv: "store_inv E rows mrows st" and rep: "represents E rows st G"
    and g: "g_nodes G i = Some rec" and slot: "rows (node_slots st) (id_key (node_u128 i)) = Some (u64_to_le slot)"
    and run: "put_vector E mid c slot v (vectors st) (embedding_ref st) = Inr (vs, rs)"
    and mid: "resolve (i_dicts st) Model mid = Inr m"
  shows "store_inv E rows mrows (st\<lparr>vectors := vs, embedding_ref := rs\<rparr>) \<and>
    represents E rows (st\<lparr>vectors := vs, embedding_ref := rs\<rparr>)
      (G\<lparr>g_nodes := (g_nodes G)(i \<mapsto> rec\<lparr>n_embedding := Some (m, stored_vector E v)\<rparr>)\<rparr>)"
proof -
  let ?st = "st\<lparr>vectors := vs, embedding_ref := rs\<rparr>" and ?rec = "rec\<lparr>n_embedding := Some (m, stored_vector E v)\<rparr>"
  obtain n where sl: "slots_inv (rows (node_slots st)) (rows (node_ids st)) n" using store_invD(2) [OF inv] by blast
  have sl': "slots_inv (rows (node_slots ?st)) (rows (node_ids ?st)) n" using sl by simp
  have gr: "grows st ?st" by (simp add: grows_def)
  obtain b where rs: "rows rs = (rows (embedding_ref st))(slot_key slot \<mapsto> b)" using put_vector_frame(1) [OF run] by blast
  have mapped: "rows (node_ids st) (slot_key slot) \<noteq> None" using slots_inv_slot [OF sl slot] by simp
  have inv': "store_inv E rows mrows ?st"
  proof (rule store_inv_cong [OF inv])
    fix s
    assume "rows (embedding_ref ?st) (slot_key s) \<noteq> None"
    then show "rows (node_ids st) (slot_key s) \<noteq> None"
      using mapped store_invD(4) [OF inv, of s] by (cases "s = slot") (simp_all add: rs)
  qed (use store_invD(1) [OF inv] in \<open>simp_all add: interning_wf_def\<close>)
  have cap: "length raw \<le> unat MAX_DECOMPRESSED_LEN" if "ser (pc_qvec E) (quantize (fp E) v) = Inr raw" for raw
    using caps(3) that unfolding below_cap_def by blast
  have "read_qvec_by_slot E vs rs slot = Inr (Some (mid, c, quantize (fp E) v))"
    by (rule put_vector_read [OF lzc serdes(4,3) tab run cap])
  then have emb: "read_embedding_by_slot E vs rs (i_dicts st) slot = Inr (Some (m, stored_vector E v))"
    using mid by (cases "quantize (fp E) v") (simp add: read_embedding_by_slot_def stored_vector_def)
  have own: "read_node E ?st i = Inr (Some ?rec)"
  proof -
    have "read_node E st i = Inr (Some rec)" using representsD(1) [OF rep, of i] g by simp
    from sl this obtain s b disk where "rows (node_slots st) (id_key (node_u128 i)) = Some (u64_to_le s)"
      "rows (nodes st) (slot_key s) = Some b" "decode_row (lz E) (pc_node E) b = Inr disk"
      "node_from_disk_v3 disk (i_dicts st) (i_scopes st) = Inr (rec\<lparr>n_embedding := None\<rparr>)" by (rule read_nodeD)
    with slot emb have "read_node_by_slot E ?st slot = Inr (Some ?rec)" by (simp add: read_node_by_slot_row)
    then show ?thesis using slot by (simp add: read_node_def node_slot_def read_slot_eq [OF sl])
  qed
  have oth: "read_node E ?st j = Inr (g_nodes G j)" if "j \<noteq> i" for j
  proof (rule node_frame [OF gr sl sl' _ _ representsD(1) [OF rep]])
    fix s
    assume s: "rows (node_slots st) (id_key (node_u128 j)) = Some (u64_to_le s)"
    have "node_u128 j \<noteq> node_u128 i" using that by (metis id_collapse(1))
    then have "s \<noteq> slot" using slots_inv_inj [OF sl s] slot by blast
    then show "rows (nodes ?st) (slot_key s) = rows (nodes st) (slot_key s) \<and> same_vector st ?st s"
      using put_vector_frame(2) [OF run] by (simp add: rs)
  qed simp
  have "read_edge E ?st j = Inr (g_edges G j)" for j by (rule edges_kept [OF inv rep gr]) simp_all
  then have "represents E rows ?st (G\<lparr>g_nodes := (g_nodes G)(i \<mapsto> ?rec)\<rparr>)"
    using own oth representsD(3,4) [OF rep] representsD(3) [OF rep g] representsD(5) [OF rep] by (simp add: represents_def)
  with inv' show ?thesis ..
qed

lemma sim_set_embedding:
  assumes inv: "store_inv E rows mrows st" and rep: "represents E rows st G"
    and run: "apply_set_embedding E i m v st = (Inr (), st')"
  shows "\<exists>G'. spec_op (stored_vector E) (SetEmbedding i m v) G = Some G' \<and> store_inv E rows mrows st' \<and> represents E rows st' G'"
proof -
  have ok: "v \<noteq> []" "\<not> (\<exists>c \<in> set v. \<not> f32_is_finite c)"
    using run by (auto simp: apply_set_embedding_def monad_simps split: if_splits)
  from run ok obtain rec mid s1 td slot c s3 old vs rs where rec: "read_node E st i = Inr (Some rec)"
    and d1: "dict_intern (eD E) Model m st = (Inr mid, s1)"
    and dim: "check_or_pin_dim (eB E) mid (length v) (vector_dims s1) = Inr td"
    and slot: "node_slot (eB E) (node_slots s1) i = Inr (Some slot)"
    and d3: "registry_intern (eB E) (n_scope rec) (s1\<lparr>vector_dims := td\<rparr>) = (Inr c, s3)"
    and put: "put_vector E mid c slot v (vectors s3) (embedding_ref s3) = Inr (vs, rs)"
    and hn: "apply_hnsw_set_embedding E old mid c slot i v (s3\<lparr>vectors := vs, embedding_ref := rs\<rparr>) = (Inr (), st')"
    by (auto simp: apply_set_embedding_def found_node_def found_slot_def mbind_Inr monad_simps mupd_Inr rbind_Inr)
  let ?D = "(g_dims G)(m \<mapsto> word_of_nat (length v))" and ?s2 = "s1\<lparr>vector_dims := td\<rparr>"
  have g: "g_nodes G i = Some rec" using rec representsD(1) [OF rep, of i] by simp
  note wf = store_invD(1) [OF inv] and f1 = more_fields [OF dict_intern_more [OF d1]]
  note k1 = keeps_run [OF keeps_dict_intern d1 wf]
  have w1: "interning_wf s1" "grows st s1" using k1 by blast+
  have inv1: "store_inv E rows mrows s1"
    by (rule store_inv_cong [OF inv w1(1)]) (simp_all add: f1 store_invD(4) [OF inv])
  have rep1: "represents E rows s1 G" by (rule represents_cong [OF inv rep w1(2,1)]) (simp_all add: f1)
  have id: "d_ids (dmap (i_dicts s1) Model) mid = Some m" by (rule dict_intern_id [OF d1 wf])
  have dw: "dicts_wf (i_dicts s1)" using w1(1) by (simp add: interning_wf_def)
  note cd = check_dim_effect [OF dim representsD(5) [OF rep1] dw id]
  have inv2: "store_inv E rows mrows ?s2"
    by (rule store_inv_cong [OF inv1]) (use w1(1) in \<open>simp_all add: interning_wf_def store_invD(4) [OF inv1]\<close>)
  have rep2: "represents E rows ?s2 (G\<lparr>g_dims := ?D\<rparr>)" by (rule represents_dims [OF rep1 cd(2)])
  note k3 = keeps_run [OF keeps_registry_intern d3 store_invD(1) [OF inv2]] and f3 = more_fields [OF registry_intern_more [OF d3]]
  have w3: "interning_wf s3" "grows ?s2 s3" using k3 by blast+
  have inv3: "store_inv E rows mrows s3"
    by (rule store_inv_cong [OF inv2 w3(1)]) (simp_all add: f3 store_invD(4) [OF inv1])
  have rep3: "represents E rows s3 (G\<lparr>g_dims := ?D\<rparr>)" by (rule represents_cong [OF inv2 rep2 w3(2,1)]) (simp_all add: f3)
  have id3: "resolve (i_dicts s3) Model mid = Inr m"
    using resolve_ext [of "i_dicts ?s2" "i_dicts s3"] w3(2) id by (simp add: grows_def del: dmap.simps)
  obtain n where sl: "slots_inv (rows (node_slots s3)) (rows (node_ids s3)) n" using store_invD(2) [OF inv3] by blast
  have "rows (node_slots s3) (id_key (node_u128 i)) = Some (u64_to_le slot)"
  proof -
    have "node_slot (eB E) (node_slots s3) i = Inr (Some slot)" using slot by (simp add: f3)
    then show ?thesis using slots_inv_fwd [OF sl] by (fastforce simp: node_slot_def read_slot_eq [OF sl])
  qed
  from put_vector_step [OF inv3 rep3 _ this put id3] g have s4: "store_inv E rows mrows (s3\<lparr>vectors := vs, embedding_ref := rs\<rparr>)"
    "represents E rows (s3\<lparr>vectors := vs, embedding_ref := rs\<rparr>)
      (G\<lparr>g_dims := ?D, g_nodes := (g_nodes G)(i \<mapsto> rec\<lparr>n_embedding := Some (m, stored_vector E v)\<rparr>)\<rparr>)" by simp_all
  obtain l h where st': "st' = s3\<lparr>vectors := vs, embedding_ref := rs, hnsw_links := l, hnsw_meta := h\<rparr>"
    using only_hnswD [OF only_hnsw_set hn] by auto
  have "store_inv E rows mrows st'"
    by (rule store_inv_cong [OF s4(1)]) (use w3(1) store_invD(4) [OF s4(1)] in \<open>simp_all add: st' interning_wf_def\<close>)
  moreover have "represents E rows st' (G\<lparr>g_dims := ?D, g_nodes := (g_nodes G)(i \<mapsto> rec\<lparr>n_embedding := Some (m, stored_vector E v)\<rparr>)\<rparr>)"
    by (rule represents_cong [OF s4]) (use w3(1) in \<open>simp_all add: st' interning_wf_def grows_def\<close>)
  moreover have "G\<lparr>g_dims := a, g_nodes := b\<rparr> = G\<lparr>g_nodes := b, g_dims := a\<rparr>" for a b by (cases G) simp
  ultimately show ?thesis using g ok cd(1) by auto
qed

section \<open>Edges\<close>

lemma put_edge_effect:
  assumes run: "put_edge E rec st = (Inr (), st')" and wf: "interning_wf st" and ps: "bt_wf (e_props rec)"
    and esl: "slots_inv (rows (edge_slots st)) rv k" and sl: "slots_inv (rows (node_slots st)) (rows (node_ids st)) n"
  obtains slot t b d where "rows (edge_slots st) (id_key (edge_u128 (e_id rec))) = Some (u64_to_le slot)"
    "interning.more st' = interning.more (st\<lparr>edges := t\<rparr>)" "rows t = (rows (edges st))(slot_key slot \<mapsto> b)"
    "decode_row (lz E) (pc_edge E) b = Inr d"
    "edge_from_disk_v4 (eB E) d (i_dicts st') (i_scopes st') (node_ids st) = Inr rec"
    "interning_wf st'" "grows st st'"
    "rows (node_slots st) (id_key (node_u128 (e_from rec))) = Some (u64_to_le (ed_from d))"
    "rows (node_slots st) (id_key (node_u128 (e_to rec))) = Some (u64_to_le (ed_to d))"
    "d_ids (dmap (i_dicts st') EdgeType) (ed_ty d) = Some (e_ty rec)" "by_id (i_scopes st') (ed_scope d) = Some (e_scope rec)"
    "ed_valid_from d = e_valid_from rec" "ed_valid_to d = e_valid_to rec"
proof -
  from run obtain slot d st1 raw tb where slot: "edge_slot (eB E) (edge_slots st) (e_id rec) = Inr (Some slot)"
    and disk: "edge_to_disk_v4 (eB E) (eD E) (node_slots st) rec st = (Inr d, st1)"
    and raw: "ser (pc_edge E) d = Inr raw"
    and ins: "tinsert (eB E) (edges st1) (slot_key slot) (frame_value (lz E) raw) = Inr tb"
    and st': "st' = st1\<lparr>edges := tb\<rparr>"
    by (auto simp: put_edge_def mbind_Inr monad_simps mupd_Inr rbind_Inr)
  have more: "interning.more st1 = interning.more st" by (rule leaves_moreD [OF leaves_more_encoders(2) disk])
  note kp = keeps_run [OF keeps_encoders(2) disk wf]
  have dec: "edge_from_disk_v4 (eB E) d (i_dicts st1) (i_scopes st1) (node_ids st) = Inr rec"
    using edge_roundtrip [OF disk wf ps tab sl grows_refl] kp by blast
  have wf': "interning_wf st'" "grows st st'" using kp by (simp_all add: st' interning_wf_def grows_def)
  have m': "interning.more st' = interning.more (st\<lparr>edges := tb\<rparr>)"
    using more by (cases st; cases st1; simp add: st')
  have sr: "rows (edge_slots st) (id_key (edge_u128 (e_id rec))) = Some (u64_to_le slot)"
    using slot slots_inv_fwd [OF esl] by (fastforce simp: edge_slot_def read_slot_eq [OF esl])
  have rt: "rows tb = (rows (edges st))(slot_key slot \<mapsto> frame_value (lz E) raw)"
    using bt.insert_ok [OF ins] more_fields(2) [OF more] by simp
  have ep: "rows (node_slots st) (id_key (node_u128 j)) = Some (u64_to_le s)"
    if "endpoint_slot (eB E) (node_slots st) e j = Inr s" for e j s
    using that slots_inv_fwd [OF sl] by (fastforce simp: endpoint_slot_def node_slot_def read_slot_eq [OF sl])
  have ends: "rows (node_slots st) (id_key (node_u128 (e_from rec))) = Some (u64_to_le (ed_from d))"
    "rows (node_slots st) (id_key (node_u128 (e_to rec))) = Some (u64_to_le (ed_to d))"
    "ed_valid_from d = e_valid_from rec" "ed_valid_to d = e_valid_to rec"
    using disk by (auto simp: edge_to_disk_v4_def mbind_Inr monad_simps intro: ep)
  have ids: "resolve (i_dicts st1) EdgeType (ed_ty d) = Inr (e_ty rec)" "scope_resolve (i_scopes st1) (ed_scope d) = Inr (e_scope rec)"
    using dec by (auto simp: edge_from_disk_v4_def rbind_Inr)
  have ids': "d_ids (dmap (i_dicts st') EdgeType) (ed_ty d) = Some (e_ty rec)" "by_id (i_scopes st') (ed_scope d) = Some (e_scope rec)"
    using ids by (auto simp: st' resolve_def scope_resolve_def simp del: dmap.simps split: option.splits)
  show thesis
    by (rule that [OF sr m' rt unframe_row [OF raw caps(2) serdes(2)] _ wf' ends(1,2) ids' ends(3,4)]) (simp add: dec st')
qed

lemma alloc_reverse_iff:
  assumes "slots_inv fw rv n" "slots_inv fw' rv' n'" "\<And>x. x \<noteq> i \<Longrightarrow> fw' (id_key x) = fw (id_key x)" "fw (id_key i) = None"
    and own: "fw' (id_key i) = Some (u64_to_le slot)"
  shows "rv' (slot_key s) \<noteq> None \<longleftrightarrow> s = slot \<or> rv (slot_key s) \<noteq> None"
proof
  assume "rv' (slot_key s) \<noteq> None"
  then obtain x where x: "fw' (id_key x) = Some (u64_to_le s)" using slots_inv_rvs [OF assms(2)] by blast
  show "s = slot \<or> rv (slot_key s) \<noteq> None"
  proof (cases "x = i")
    case False
    then show ?thesis using slots_inv_slot [OF assms(1), of x s] assms(3) x by simp
  qed (use x own in simp)
next
  assume "s = slot \<or> rv (slot_key s) \<noteq> None"
  then show "rv' (slot_key s) \<noteq> None"
    using slots_inv_slot [OF assms(2) own] alloc_keeps_reverse [OF assms(1,2,3,4), of s] by auto
qed

end

lemma wf_name_inj: "dicts_wf d \<Longrightarrow> d_ids (dmap d k) i = Some x \<Longrightarrow> d_ids (dmap d k) j = Some x \<Longrightarrow> i = j"
  unfolding dicts_wf_def dm_wf_def by (metis option.inject)

lemma wf_scope_inj: "registry_wf r \<Longrightarrow> by_id r i = Some x \<Longrightarrow> by_id r j = Some x \<Longrightarrow> i = j"
  unfolding registry_wf_def by (metis option.inject)

context engine
begin

text \<open>Node reads survive every step that leaves the node and vector tables alone.\<close>

lemma nodes_kept:
  fixes st st' :: "('b, 'd, 'l, 'm, 'o, 'z) store_scheme"
  assumes inv: "store_inv E rows mrows st" and rep: "represents E rows st G" and g: "grows st st'"
    and same: "rows (node_slots st') = rows (node_slots st)" "rows (node_ids st') = rows (node_ids st)"
      "rows (nodes st') = rows (nodes st)" "rows (vectors st') = rows (vectors st)"
      "rows (embedding_ref st') = rows (embedding_ref st)"
  shows "read_node E st' i = Inr (g_nodes G i)"
proof -
  obtain n where sl: "slots_inv (rows (node_slots st)) (rows (node_ids st)) n" using store_invD(2) [OF inv] by blast
  show ?thesis by (rule node_frame [OF g sl _ _ _ representsD(1) [OF rep], where n' = n]) (simp_all add: same sl)
qed

text \<open>
  The common end of creating and closing an edge: one edge row is written at its slot and the two
  adjacency tables move with the index.
\<close>

lemma edge_row_step:
  fixes st st' :: "('b, 'd, 'l, 'm, 'o, 'z) store_scheme"
  assumes inv: "store_inv E rows mrows st" and rep: "represents E rows st G" and g: "grows st st'" and wf: "interning_wf st'"
    and same: "rows (node_slots st') = rows (node_slots st)" "rows (node_ids st') = rows (node_ids st)"
      "rows (nodes st') = rows (nodes st)" "rows (vectors st') = rows (vectors st)"
      "rows (embedding_ref st') = rows (embedding_ref st)" "rows (vector_dims st') = rows (vector_dims st)"
    and nc: "mrows (meta st') ''next_node_slot'' = mrows (meta st) ''next_node_slot''"
    and esl': "slots_inv (rows (edge_slots st')) (rows (edge_ids st')) k'" and ck': "counter_is (mrows (meta st')) ''next_edge_slot'' k'"
    and own: "rows (edge_slots st') (id_key (edge_u128 (e_id x))) = Some (u64_to_le slot)"
    and oth: "\<And>j. j \<noteq> edge_u128 (e_id x) \<Longrightarrow> rows (edge_slots st') (id_key j) = rows (edge_slots st) (id_key j)"
    and ids: "\<And>s. rows (edge_ids st') (slot_key s) \<noteq> None \<longleftrightarrow> s = slot \<or> rows (edge_ids st) (slot_key s) \<noteq> None"
    and row: "rows (edges st') = (rows (edges st))(slot_key slot \<mapsto> b)" "decode_row (lz E) (pc_edge E) b = Inr d"
      "edge_from_disk_v4 (eB E) d (i_dicts st') (i_scopes st') (node_ids st') = Inr x"
    and adj: "adj_wf (lz E) (rows (out_adj st'))" "adj_wf (lz E) (rows (in_adj st'))"
      "\<And>s ty. adj_ms (chunk_at (lz E) (rows (out_adj st'))) s ty =
         index_of Outgoing ((row_at (lz E) (pc_edge E) (rows (edges st)))(slot \<mapsto> d)) s ty"
      "\<And>s ty. adj_ms (chunk_at (lz E) (rows (in_adj st'))) s ty =
         index_of Incoming ((row_at (lz E) (pc_edge E) (rows (edges st)))(slot \<mapsto> d)) s ty"
  shows "store_inv E rows mrows st' \<and> represents E rows st' (G\<lparr>g_edges := (g_edges G)(e_id x \<mapsto> x)\<rparr>)"
proof
  obtain n where sl: "slots_inv (rows (node_slots st)) (rows (node_ids st)) n"
    and cn: "counter_is (mrows (meta st)) ''next_node_slot'' n" using store_invD(2) [OF inv] by blast
  obtain k where esl: "slots_inv (rows (edge_slots st)) (rows (edge_ids st)) k" using store_invD(3) [OF inv] by blast
  have eds: "row_at (lz E) (pc_edge E) (rows (edges st')) = (row_at (lz E) (pc_edge E) (rows (edges st)))(slot \<mapsto> d)"
    by (rule ext) (simp add: row)
  have sl': "slots_inv (rows (node_slots st')) (rows (node_ids st')) n" using sl by (simp add: same)
  have cn': "counter_is (mrows (meta st')) ''next_node_slot'' n" using cn by (simp add: counter_is_def nc)
  show "store_inv E rows mrows st'"
  proof (rule store_invI [where rows = rows and mrows = mrows and E = E and st = st', OF wf sl' cn' esl' ck' _ _ adj(1,2)])
    show "rows (node_ids st') (slot_key s) \<noteq> None" if "rows (embedding_ref st') (slot_key s) \<noteq> None" for s
      using that unfolding same by (rule store_invD(4) [OF inv])
    show "row_at (lz E) (pc_edge E) (rows (edges st')) s \<noteq> None \<longleftrightarrow> rows (edge_ids st') (slot_key s) \<noteq> None" for s
      using store_invD(5) [OF inv, of s] ids [of s] by (simp add: eds)
  qed (simp_all add: eds adj)
  have "read_edge E st' j = Inr (((g_edges G)(e_id x \<mapsto> x)) j)" for j
  proof (cases "j = e_id x")
    case True
    have "read_edge_by_slot E st' slot = Inr (Some x)" by (simp add: read_edge_by_slot_row row)
    then show ?thesis using True own by (simp add: read_edge_def edge_slot_def read_slot_eq [OF esl'])
  next
    case False
    then have ne: "edge_u128 j \<noteq> edge_u128 (e_id x)" by (metis id_collapse(2))
    have "read_edge E st' j = Inr (g_edges G j)"
    proof (rule edge_frame [OF g esl esl' sl sl' _ _ _ representsD(2) [OF rep]])
      fix s
      assume "rows (edge_slots st) (id_key (edge_u128 j)) = Some (u64_to_le s)"
      then have "rows (edge_slots st') (id_key (edge_u128 j)) = Some (u64_to_le s)" using oth [OF ne] by simp
      then have "s \<noteq> slot" using slots_inv_inj [OF esl' _ own] ne by blast
      then show "rows (edges st') (slot_key s) = rows (edges st) (slot_key s)" by (simp add: row)
    qed (simp_all add: oth [OF ne] same)
    then show ?thesis using False by simp
  qed
  moreover have "read_node E st' j = Inr (g_nodes G j)" for j by (rule nodes_kept [OF inv rep g same(1-5)])
  moreover have "dims_agree (i_dicts st') (rows (vector_dims st')) (g_dims G)"
    using dims_grow [OF representsD(5) [OF rep]] wf g store_invD(1) [OF inv] by (simp add: same grows_def interning_wf_def)
  ultimately show "represents E rows st' (G\<lparr>g_edges := (g_edges G)(e_id x \<mapsto> x)\<rparr>)"
    using representsD(3,4) [OF rep] by (simp add: represents_def)
qed

lemma insert_adjacency_effect:
  assumes run: "insert_adjacency E f t ty s c vf st = (Inr (), st')"
    and wf: "adj_wf (lz E) (rows (out_adj st))" "adj_wf (lz E) (rows (in_adj st))"
    and room: "rows (out_adj st) (out_adj_key f ty (- 1)) = None" "rows (in_adj st) (out_adj_key t ty (- 1)) = None"
    and ix: "\<And>n ty. adj_ms (chunk_at (lz E) (rows (out_adj st))) n ty = index_of Outgoing ers n ty"
      "\<And>n ty. adj_ms (chunk_at (lz E) (rows (in_adj st))) n ty = index_of Incoming ers n ty"
    and new: "ers s = None" and d: "ed_from d = f" "ed_to d = t" "ed_ty d = ty" "ed_scope d = c" "ed_valid_from d = vf" "ed_valid_to d = None"
  shows "\<exists>ot it. st' = st\<lparr>out_adj := ot, in_adj := it\<rparr> \<and> adj_wf (lz E) (rows ot) \<and> adj_wf (lz E) (rows it) \<and>
    (\<forall>n ty. adj_ms (chunk_at (lz E) (rows ot)) n ty = index_of Outgoing (ers(s \<mapsto> d)) n ty) \<and>
    (\<forall>n ty. adj_ms (chunk_at (lz E) (rows it)) n ty = index_of Incoming (ers(s \<mapsto> d)) n ty)"
proof -
  have en: "index_entry Outgoing s d = \<lparr>a_target = t, a_edge = s, a_scope = c, a_valid_from = vf, a_valid_to = None\<rparr>"
    "index_entry Incoming s d = \<lparr>a_target = f, a_edge = s, a_scope = c, a_valid_from = vf, a_valid_to = None\<rparr>"
    by (simp_all add: index_entry_def d)
  from run obtain ot it where o: "adj_insert (lz E) (eB E) f ty (index_entry Outgoing s d) (out_adj st) = Inr ot"
    and i: "adj_insert (lz E) (eB E) t ty (index_entry Incoming s d) (in_adj st) = Inr it"
    and st': "st' = st\<lparr>out_adj := ot, in_adj := it\<rparr>"
    by (auto simp: insert_adjacency_def en mbind_Inr mupd_Inr rbind_Inr)
  note O = ch.insert_entries [OF wf(1) o room(1)] and I = ch.insert_entries [OF wf(2) i room(2)]
  have "adj_ms (chunk_at (lz E) (rows ot)) n ty' = index_of Outgoing (ers(s \<mapsto> d)) n ty'" for n ty'
    using O ix(1) by (cases "(n, ty') = (f, ty)") (auto simp: index_insert [where ers = ers and s = s, OF new] d)
  moreover have "adj_ms (chunk_at (lz E) (rows it)) n ty' = index_of Incoming (ers(s \<mapsto> d)) n ty'" for n ty'
    using I ix(2) by (cases "(n, ty') = (t, ty)") (auto simp: index_insert [where ers = ers and s = s, OF new] d)
  ultimately show ?thesis using O I st' by blast
qed

lemma alloc_edge_effect:
  assumes inv: "store_inv E rows mrows st" and rep: "represents E rows st G" and new: "g_edges G i = None"
    and al: "alloc (eM E) (eB E) (meta st) (edge_slots st) (edge_ids st) ''next_edge_slot'' (edge_u128 i) = Inr (s, m, fw, rv)"
  shows "\<exists>k'. slots_inv (rows fw) (rows rv) k' \<and> counter_is (mrows m) ''next_edge_slot'' k' \<and>
    rows fw (id_key (edge_u128 i)) = Some (u64_to_le s) \<and>
    (\<forall>y. y \<noteq> edge_u128 i \<longrightarrow> rows fw (id_key y) = rows (edge_slots st) (id_key y)) \<and>
    (\<forall>c. c \<noteq> ''next_edge_slot'' \<longrightarrow> mrows m c = mrows (meta st) c) \<and>
    row_at (lz E) (pc_edge E) (rows (edges st)) s = None \<and>
    (\<forall>y. rows rv (slot_key y) \<noteq> None \<longleftrightarrow> y = s \<or> rows (edge_ids st) (slot_key y) \<noteq> None)"
proof -
  obtain k where esl: "slots_inv (rows (edge_slots st)) (rows (edge_ids st)) k"
    and ck: "counter_is (mrows (meta st)) ''next_edge_slot'' k" using store_invD(3) [OF inv] by blast
  have none: "rows (edge_slots st) (id_key (edge_u128 i)) = None" using no_edge_slot [OF inv rep new] .
  from alloc_correct [OF mtab bt.redb_table_axioms esl ck al] none obtain k' where
    a: "slots_inv (rows fw) (rows rv) k'" "counter_is (mrows m) ''next_edge_slot'' k'"
      "rows fw (id_key (edge_u128 i)) = Some (u64_to_le s)" "s = k"
    and oth: "\<And>y. y \<noteq> edge_u128 i \<Longrightarrow> rows fw (id_key y) = rows (edge_slots st) (id_key y)"
    and mt: "\<And>c. c \<noteq> ''next_edge_slot'' \<Longrightarrow> mrows m c = mrows (meta st) c" by blast
  have "row_at (lz E) (pc_edge E) (rows (edges st)) s = None"
    using store_invD(5) [OF inv, of s] slots_inv_rvs [OF esl, of s] slots_inv_slot [OF esl] a(4) by blast
  then show ?thesis using a(1-3) oth mt alloc_reverse_iff [OF esl a(1) oth none a(3)] by blast
qed

lemma sim_create_edge:
  assumes inv: "store_inv E rows mrows st" and rep: "represents E rows st G"
    and run: "apply_create_edge E i sc ty f t ps vf ra st = (Inr (), st')"
    and ok: "op_ok rows st G (CreateEdge i sc ty f t ps vf ra)"
  shows "\<exists>G'. spec_op (stored_vector E) (CreateEdge i sc ty f t ps vf ra) G = Some G' \<and>
    store_inv E rows mrows st' \<and> represents E rows st' G'"
proof -
  have new: "g_edges G i = None" and ps: "bt_wf ps" using ok by auto
  have room: "rows (out_adj st) (out_adj_key s ty (- 1)) = None" "rows (in_adj st) (out_adj_key s ty (- 1)) = None" for s ty
    using ok by simp_all
  from run obtain a b s m fw rv fs ts ety s2 cid s3 w s4 where
    ab: "read_node E st f = Inr (Some a)" "read_node E st t = Inr (Some b)" "\<not> cross_scope (n_scope a) (n_scope b)"
    and al: "alloc (eM E) (eB E) (meta st) (edge_slots st) (edge_ids st) ''next_edge_slot'' (edge_u128 i) = Inr (s, m, fw, rv)"
    and fsl: "node_slot (eB E) (node_slots st) f = Inr (Some fs)" and tsl: "node_slot (eB E) (node_slots st) t = Inr (Some ts)"
    and d2: "dict_intern (eD E) EdgeType ty (st\<lparr>meta := m, edge_slots := fw, edge_ids := rv\<rparr>) = (Inr ety, s2)"
    and d3: "registry_intern (eB E) sc s2 = (Inr cid, s3)" and vf: "vf = Some w"
    and put: "put_edge E \<lparr>e_id = i, e_scope = sc, e_ty = ty, e_from = f, e_to = t, e_props = ps, e_valid_from = w,
        e_valid_to = None, e_recorded_at = unwrap_or w ra, e_superseded_at = None\<rparr> s3 = (Inr (), s4)"
    and ins: "insert_adjacency E fs ts ety s cid w s4 = (Inr (), st')"
    by (auto simp: apply_create_edge_def found_node_def found_slot_def expect_def alloc_edge_slot_def mbind_Inr monad_simps
        mupd_Inr rbind_Inr split: if_splits)
  define x where "x = \<lparr>e_id = i, e_scope = sc, e_ty = ty, e_from = f, e_to = t, e_props = ps, e_valid_from = w,
        e_valid_to = None, e_recorded_at = unwrap_or w ra, e_superseded_at = None\<rparr>"
  define s1 where "s1 = st\<lparr>meta := m, edge_slots := fw, edge_ids := rv\<rparr>"
  obtain n where sl: "slots_inv (rows (node_slots st)) (rows (node_ids st)) n" using store_invD(2) [OF inv] by blast
  from alloc_edge_effect [OF inv rep new al] obtain k' where
    esl1: "slots_inv (rows fw) (rows rv) k'" and ck1: "counter_is (mrows m) ''next_edge_slot'' k'"
    and own: "rows fw (id_key (edge_u128 i)) = Some (u64_to_le s)"
    and oth: "\<And>y. y \<noteq> edge_u128 i \<Longrightarrow> rows fw (id_key y) = rows (edge_slots st) (id_key y)"
    and mt: "\<And>c. c \<noteq> ''next_edge_slot'' \<Longrightarrow> mrows m c = mrows (meta st) c"
    and fresh: "row_at (lz E) (pc_edge E) (rows (edges st)) s = None"
    and rev: "\<And>y. rows rv (slot_key y) \<noteq> None \<longleftrightarrow> y = s \<or> rows (edge_ids st) (slot_key y) \<noteq> None"
    by blast
  have wf1: "interning_wf s1" using store_invD(1) [OF inv] by (simp add: s1_def interning_wf_def)
  note d2 = d2 [folded s1_def] and put = put [folded x_def]
  note k2 = keeps_run [OF keeps_dict_intern d2 wf1] and k3 = keeps_run [OF keeps_registry_intern d3]
  have "grows st s1" by (simp add: s1_def grows_def)
  then have w3: "interning_wf s3" "grows st s3" "grows s2 s3" using k2 k3 by (blast intro: grows_trans)+
  have more: "interning.more s3 = interning.more s1" using dict_intern_more [OF d2] registry_intern_more [OF d3] by simp
  note f3 = more_fields [OF more]
  have px: "bt_wf (e_props x)" using ps by (simp add: x_def)
  have esl3: "slots_inv (rows (edge_slots s3)) (rows (edge_ids s3)) k'" using esl1 by (simp add: f3 s1_def)
  have sl3: "slots_inv (rows (node_slots s3)) (rows (node_ids s3)) n" using sl by (simp add: f3 s1_def)
  from put w3(1) px esl3 sl3 obtain slot t4 b4 d where e4: "rows (edge_slots s3) (id_key (edge_u128 (e_id x))) = Some (u64_to_le slot)"
    "interning.more s4 = interning.more (s3\<lparr>edges := t4\<rparr>)" "rows t4 = (rows (edges s3))(slot_key slot \<mapsto> b4)"
    "decode_row (lz E) (pc_edge E) b4 = Inr d"
    "edge_from_disk_v4 (eB E) d (i_dicts s4) (i_scopes s4) (node_ids s3) = Inr x"
    "interning_wf s4" "grows s3 s4"
    "rows (node_slots s3) (id_key (node_u128 (e_from x))) = Some (u64_to_le (ed_from d))"
    "rows (node_slots s3) (id_key (node_u128 (e_to x))) = Some (u64_to_le (ed_to d))"
    "d_ids (dmap (i_dicts s4) EdgeType) (ed_ty d) = Some (e_ty x)" "by_id (i_scopes s4) (ed_scope d) = Some (e_scope x)"
    "ed_valid_from d = e_valid_from x" "ed_valid_to d = e_valid_to x" by (rule put_edge_effect)
  note f4 = more_fields [OF e4(2)]
  have slot: "slot = s" using e4(1) own by (simp add: x_def f3 s1_def)
  have "ed_ty d = ety"
    using wf_name_inj [OF _ e4(10)] e4(6,7) dict_intern_id [OF d2 wf1] w3(3)
    by (simp add: x_def interning_wf_def grows_def dicts_ext_def del: dmap.simps)
  moreover have "ed_scope d = cid"
    using wf_scope_inj [OF _ e4(11)] e4(6,7) registry_intern_id [OF d3] k2
    by (simp add: x_def interning_wf_def grows_def registry_ext_def)
  moreover have "ed_from d = fs" "ed_to d = ts"
    using e4(8,9) fsl tsl by (auto simp: x_def f3 s1_def node_slot_def read_slot_eq [OF sl])
  moreover have "ed_valid_from d = w" "ed_valid_to d = None" using e4(12,13) by (simp_all add: x_def)
  ultimately have d: "ed_from d = fs" "ed_to d = ts" "ed_ty d = ety" "ed_scope d = cid" "ed_valid_from d = w" "ed_valid_to d = None"
    by simp_all
  obtain ot it where st': "st' = s4\<lparr>out_adj := ot, in_adj := it\<rparr>" and aw: "adj_wf (lz E) (rows ot)" "adj_wf (lz E) (rows it)"
    and ix: "\<And>n ty. adj_ms (chunk_at (lz E) (rows ot)) n ty =
        index_of Outgoing ((row_at (lz E) (pc_edge E) (rows (edges st)))(s \<mapsto> d)) n ty"
      "\<And>n ty. adj_ms (chunk_at (lz E) (rows it)) n ty =
        index_of Incoming ((row_at (lz E) (pc_edge E) (rows (edges st)))(s \<mapsto> d)) n ty"
    using insert_adjacency_effect [where ers = "row_at (lz E) (pc_edge E) (rows (edges st))" and d = d, OF ins _ _ _ _ _ _ fresh d]
      store_invD(6-9) [OF inv] room
    by (auto simp: f4 f3 s1_def)
  have "store_inv E rows mrows st' \<and> represents E rows st' (G\<lparr>g_edges := (g_edges G)(e_id x \<mapsto> x)\<rparr>)"
  proof (rule edge_row_step [where k' = k' and slot = s and b = b4 and d = d, OF inv rep])
    show "grows st st'" using grows_trans [OF w3(2) e4(7)] by (simp add: st' grows_def)
    show "interning_wf st'" using e4(6) by (simp add: st' interning_wf_def)
    show "rows (edge_ids st') (slot_key y) \<noteq> None \<longleftrightarrow> y = s \<or> rows (edge_ids st) (slot_key y) \<noteq> None" for y
      using rev [of y] by (simp add: st' f4 f3 s1_def)
  qed (use esl1 ck1 own oth mt [of "''next_node_slot''"] e4(3,4,5) aw ix slot in \<open>simp_all add: st' f4 f3 s1_def x_def\<close>)
  moreover have "g_nodes G f = Some a" "g_nodes G t = Some b" using ab representsD(1) [OF rep] by simp_all
  ultimately show ?thesis using ab(3) by (simp add: x_def vf)
qed

lemma close_side:
  assumes run: "adj_close (lz E) (eB E) (anchor sd d0) (ed_ty d0) s w t = Inr (True, t')" and wf: "adj_wf (lz E) (rows t)"
    and ix: "\<And>n ty. adj_ms (chunk_at (lz E) (rows t)) n ty = index_of sd ers n ty"
    and d0: "ers s = Some d0" and d1: "ed_from d1 = ed_from d0" "ed_to d1 = ed_to d0" "ed_ty d1 = ed_ty d0" "ed_scope d1 = ed_scope d0"
      "ed_valid_from d1 = ed_valid_from d0" "ed_valid_to d1 = Some w"
  shows "adj_wf (lz E) (rows t') \<and> (\<forall>n ty. adj_ms (chunk_at (lz E) (rows t')) n ty = index_of sd (ers(s \<mapsto> d1)) n ty)"
proof -
  note c = ch.close_ok [OF wf run]
  have an: "anchor sd d1 = anchor sd d0" "opposite sd d1 = opposite sd d0" using d1 by (cases sd; simp)+
  from c(4) obtain e where e: "e \<in># index_of sd ers (anchor sd d0) (ed_ty d0)" "a_edge e = s"
    "adj_ms (chunk_at (lz E) (rows t')) (anchor sd d0) (ed_ty d0) =
      add_mset (e\<lparr>a_valid_to := Some w\<rparr>) (index_of sd ers (anchor sd d0) (ed_ty d0) - {#e#})" by (auto simp: ix)
  have eq: "e = index_entry sd s d0" by (rule index_edge_in [OF e(1,2) d0])
  then have upd: "e\<lparr>a_valid_to := Some w\<rparr> = index_entry sd s d1" by (simp add: index_entry_def an d1)
  have "adj_ms (chunk_at (lz E) (rows t')) n ty = index_of sd (ers(s \<mapsto> d1)) n ty" for n ty
  proof (cases "(n, ty) = (anchor sd d0, ed_ty d0)")
    case True
    then show ?thesis using e(3) upd eq by (simp add: index_update [where ers = ers and s = s, OF d0 an(1) d1(3)])
  next
    case False
    then show ?thesis using c(5) [OF False] ix by (auto simp: index_update [where ers = ers and s = s, OF d0 an(1) d1(3)])
  qed
  then show ?thesis using c(1) by blast
qed

lemma close_adjacency_effect:
  assumes run: "close_adjacency E (ed_from d0) (ed_to d0) (ed_ty d0) s w st = (Inr (), st')"
    and wf: "adj_wf (lz E) (rows (out_adj st))" "adj_wf (lz E) (rows (in_adj st))"
    and ix: "\<And>n ty. adj_ms (chunk_at (lz E) (rows (out_adj st))) n ty = index_of Outgoing ers n ty"
      "\<And>n ty. adj_ms (chunk_at (lz E) (rows (in_adj st))) n ty = index_of Incoming ers n ty"
    and d0: "ers s = Some d0" and d1: "ed_from d1 = ed_from d0" "ed_to d1 = ed_to d0" "ed_ty d1 = ed_ty d0" "ed_scope d1 = ed_scope d0"
      "ed_valid_from d1 = ed_valid_from d0" "ed_valid_to d1 = Some w"
  shows "\<exists>ot it. st' = st\<lparr>out_adj := ot, in_adj := it\<rparr> \<and> adj_wf (lz E) (rows ot) \<and> adj_wf (lz E) (rows it) \<and>
    (\<forall>n ty. adj_ms (chunk_at (lz E) (rows ot)) n ty = index_of Outgoing (ers(s \<mapsto> d1)) n ty) \<and>
    (\<forall>n ty. adj_ms (chunk_at (lz E) (rows it)) n ty = index_of Incoming (ers(s \<mapsto> d1)) n ty)"
proof -
  from run obtain ot it where o: "adj_close (lz E) (eB E) (anchor Outgoing d0) (ed_ty d0) s w (out_adj st) = Inr (True, ot)"
    and i: "adj_close (lz E) (eB E) (anchor Incoming d0) (ed_ty d0) s w (in_adj st) = Inr (True, it)"
    and st': "st' = st\<lparr>out_adj := ot, in_adj := it\<rparr>"
    by (auto simp: close_adjacency_def mbind_Inr mupd_Inr rbind_Inr monad_simps split: if_splits)
  show ?thesis
    using close_side [where ers = ers, OF o wf(1) ix(1) d0 d1] close_side [where ers = ers, OF i wf(2) ix(2) d0 d1] st' by blast
qed

lemma sim_close_edge:
  assumes inv: "store_inv E rows mrows st" and rep: "represents E rows st G"
    and run: "apply_close_edge E i vt sa st = (Inr (), st')"
  shows "\<exists>G'. spec_op (stored_vector E) (CloseEdge i vt sa) G = Some G' \<and> store_inv E rows mrows st' \<and> represents E rows st' G'"
proof -
  from run obtain rec w s1 s fs ts ety s2 where rec: "read_edge E st i = Inr (Some rec)" and op: "e_valid_to rec = None"
    and vt: "vt = Some w"
    and put: "put_edge E (rec\<lparr>e_valid_to := Some w, e_superseded_at := Some (unwrap_or w sa)\<rparr>) st = (Inr (), s1)"
    and es: "edge_slot (eB E) (edge_slots s1) i = Inr (Some s)"
    and fsl: "node_slot (eB E) (node_slots s1) (e_from rec) = Inr (Some fs)"
    and tsl: "node_slot (eB E) (node_slots s1) (e_to rec) = Inr (Some ts)"
    and d2: "dict_intern (eD E) EdgeType (e_ty rec) s1 = (Inr ety, s2)"
    and cl: "close_adjacency E fs ts ety s w s2 = (Inr (), st')"
    by (auto simp: apply_close_edge_def Let_def found_slot_def expect_def mbind_Inr monad_simps rbind_Inr split: if_splits)
  define x where "x = rec\<lparr>e_valid_to := Some w, e_superseded_at := Some (unwrap_or w sa)\<rparr>"
  note put = put [folded x_def] and wf = store_invD(1) [OF inv]
  obtain n where sl: "slots_inv (rows (node_slots st)) (rows (node_ids st)) n" using store_invD(2) [OF inv] by blast
  obtain k where esl: "slots_inv (rows (edge_slots st)) (rows (edge_ids st)) k"
    and ck: "counter_is (mrows (meta st)) ''next_edge_slot'' k" using store_invD(3) [OF inv] by blast
  have g: "g_edges G i = Some rec" using rec representsD(2) [OF rep, of i] by simp
  have id: "e_id x = i" using representsD(4) [OF rep g] by (simp add: x_def)
  from esl sl rec obtain s0 d0 where d0: "rows (edge_slots st) (id_key (edge_u128 i)) = Some (u64_to_le s0)"
    "row_at (lz E) (pc_edge E) (rows (edges st)) s0 = Some d0"
    "edge_from_disk_v4 (eB E) d0 (i_dicts st) (i_scopes st) (node_ids st) = Inr rec"
    "rows (node_ids st) (slot_key (ed_from d0)) = Some (id_key (node_u128 (e_from rec)))"
    "rows (node_ids st) (slot_key (ed_to d0)) = Some (id_key (node_u128 (e_to rec)))" "bt_wf (e_props rec)" by (rule read_edgeD)
  have px: "bt_wf (e_props x)" using d0(6) by (simp add: x_def)
  from put wf px esl sl obtain slot t b d where e: "rows (edge_slots st) (id_key (edge_u128 (e_id x))) = Some (u64_to_le slot)"
    "interning.more s1 = interning.more (st\<lparr>edges := t\<rparr>)" "rows t = (rows (edges st))(slot_key slot \<mapsto> b)"
    "decode_row (lz E) (pc_edge E) b = Inr d"
    "edge_from_disk_v4 (eB E) d (i_dicts s1) (i_scopes s1) (node_ids st) = Inr x"
    "interning_wf s1" "grows st s1"
    "rows (node_slots st) (id_key (node_u128 (e_from x))) = Some (u64_to_le (ed_from d))"
    "rows (node_slots st) (id_key (node_u128 (e_to x))) = Some (u64_to_le (ed_to d))"
    "d_ids (dmap (i_dicts s1) EdgeType) (ed_ty d) = Some (e_ty x)" "by_id (i_scopes s1) (ed_scope d) = Some (e_scope x)"
    "ed_valid_from d = e_valid_from x" "ed_valid_to d = e_valid_to x" by (rule put_edge_effect)
  note f1 = more_fields [OF e(2)] and k2 = keeps_run [OF keeps_dict_intern d2 e(6)]
    and f2 = more_fields [OF dict_intern_more [OF d2]]
  have slot: "slot = s0" using e(1) d0(1) id by simp
  have "s = s0" using es d0(1) by (simp add: edge_slot_def f1 read_slot_eq [OF esl])
  have ends: "ed_from d = ed_from d0" "ed_to d = ed_to d0"
    using e(8,9) slots_inv_rvs [OF sl d0(4)] slots_inv_rvs [OF sl d0(5)] by (auto simp: x_def)
  have "d_ids (dmap (i_dicts st) EdgeType) (ed_ty d0) = Some (e_ty rec)" "by_id (i_scopes st) (ed_scope d0) = Some (e_scope rec)"
    "ed_valid_from d0 = e_valid_from rec"
    using d0(3) by (auto simp: edge_from_disk_v4_def rbind_Inr resolve_def scope_resolve_def simp del: dmap.simps split: option.splits)
  then have same: "ed_ty d = ed_ty d0" "ed_scope d = ed_scope d0" "ed_valid_from d = ed_valid_from d0" "ed_valid_to d = Some w"
    using wf_name_inj [OF _ e(10), of "ed_ty d0"] wf_scope_inj [OF _ e(11), of "ed_scope d0"] e(6,7,12,13)
    by (simp_all add: x_def interning_wf_def grows_def dicts_ext_def registry_ext_def del: dmap.simps)
  have ety: "ety = ed_ty d0"
    using wf_name_inj [of "i_dicts s2" EdgeType ety "e_ty rec" "ed_ty d"] dict_intern_id [OF d2 e(6)] k2 e(10) same(1)
    by (simp add: x_def interning_wf_def grows_def dicts_ext_def del: dmap.simps)
  have "fs = ed_from d0" "ts = ed_to d0"
    using fsl tsl e(8,9) ends by (simp_all add: node_slot_def f1 read_slot_eq [OF sl] x_def)
  note cl = cl [unfolded this ety \<open>s = s0\<close>]
  obtain ot it where st': "st' = s2\<lparr>out_adj := ot, in_adj := it\<rparr>" and aw: "adj_wf (lz E) (rows ot)" "adj_wf (lz E) (rows it)"
    and ix: "\<And>n ty. adj_ms (chunk_at (lz E) (rows ot)) n ty =
        index_of Outgoing ((row_at (lz E) (pc_edge E) (rows (edges st)))(s0 \<mapsto> d)) n ty"
      "\<And>n ty. adj_ms (chunk_at (lz E) (rows it)) n ty =
        index_of Incoming ((row_at (lz E) (pc_edge E) (rows (edges st)))(s0 \<mapsto> d)) n ty"
    using close_adjacency_effect [where ers = "row_at (lz E) (pc_edge E) (rows (edges st))" and ?d1.0 = d,
        OF cl _ _ _ _ d0(2) ends same] store_invD(6-9) [OF inv]
    by (auto simp: f2 f1)
  have "store_inv E rows mrows st' \<and> represents E rows st' (G\<lparr>g_edges := (g_edges G)(e_id x \<mapsto> x)\<rparr>)"
  proof (rule edge_row_step [where k' = k and slot = s0 and b = b and d = d, OF inv rep])
    have "grows s1 s2" using k2 by blast
    from grows_trans [OF e(7) this] show "grows st st'" by (simp add: st' grows_def)
    show "interning_wf st'" using k2 by (simp add: st' interning_wf_def)
    show "rows (edge_ids st') (slot_key y) \<noteq> None \<longleftrightarrow> y = s0 \<or> rows (edge_ids st) (slot_key y) \<noteq> None" for y
      using slots_inv_slot [OF esl d0(1)] by (auto simp: st' f2 f1)
    have ext: "dicts_ext (i_dicts s1) (i_dicts s2)" "registry_ext (i_scopes s1) (i_scopes s2)" "grows s1 s2" using k2 by (simp_all add: grows_def)
    show "edge_from_disk_v4 (eB E) d (i_dicts st') (i_scopes st') (node_ids st') = Inr x"
      using edge_from_disk_frame [OF ext(3) sl sl _ _ e(5)] by (simp add: st' f2 f1)
  qed (use esl ck d0(1) id e(3,4) aw ix slot in \<open>simp_all add: st' f2 f1\<close>)
  then show ?thesis using g op id by (simp add: x_def vt)
qed

end

end
