(* ===== verification/Removal.thy ===== *)
theory Removal
  imports Simulation
begin

text \<open>
  Removing a node: the cascade over its incident edges drops their rows, their slot mappings and
  the counterpart adjacency entries, whatever mixture of outgoing edges, incoming edges and
  self-loops the node has. The cascade is followed by a loop invariant over the set \<open>R\<close> of edge
  slots removed so far.
\<close>

definition minus_rows :: "edge_rows \<Rightarrow> u64 set \<Rightarrow> edge_rows" where
  "minus_rows ers R = (\<lambda>s. if s \<in> R then None else ers s)"

lemma minus_rows_insert: "minus_rows ers (insert y R) = (minus_rows ers R)(y := None)"
  by (auto simp: minus_rows_def)

lemma minus_rows_empty [simp]: "minus_rows ers {} = ers"
  by (simp add: minus_rows_def)

text \<open>Removing an edge leaves the index alone wherever the edge is not anchored.\<close>

lemma index_remove_other:
  assumes "\<And>d. ers y = Some d \<Longrightarrow> (anchor sd d, ed_ty d) \<noteq> (n, ty)"
  shows "index_of sd (ers(y := None)) n ty = index_of sd ers n ty"
proof -
  have "a_edge e \<noteq> y" if e: "e \<in># index_of sd ers n ty" for e
  proof
    assume "a_edge e = y"
    with e obtain d where "ers y = Some d" "anchor sd d = n" "ed_ty d = ty" by (auto simp: index_mem)
    with assms show False by blast
  qed
  then have "{# e \<in># index_of sd ers n ty. a_edge e \<noteq> y #} = index_of sd ers n ty" by (simp add: filter_mset_eq_conv)
  then show ?thesis by (simp add: index_remove)
qed

section \<open>Slot mappings\<close>

lemma remove_reverse:
  assumes inv: "slots_inv fw rv n" "slots_inv (fw(id_key i := None)) rv' n" and i: "fw (id_key i) = Some (u64_to_le s)"
  shows "rv' (slot_key z) = (if z = s then None else rv (slot_key z))"
proof (cases "rv' (slot_key z)")
  case (Some b)
  then obtain x where x: "b = id_key x" "(fw(id_key i := None)) (id_key x) = Some (u64_to_le z)" using slots_inv_rvs [OF inv(2)] by blast
  then have "x \<noteq> i" "fw (id_key x) = Some (u64_to_le z)" by (auto split: if_splits)
  then have "z \<noteq> s" "rv (slot_key z) = Some b" using slots_inv_slot [OF inv(1)] slots_inv_inj [OF inv(1), of x s i] i x(1) by auto
  then show ?thesis using Some by simp
next
  case None
  show ?thesis
  proof (cases "z = s")
    case False
    have "rv (slot_key z) = None"
    proof (rule ccontr)
      assume "rv (slot_key z) \<noteq> None"
      then obtain x where x: "fw (id_key x) = Some (u64_to_le z)" using slots_inv_rvs [OF inv(1)] by blast
      then have "x \<noteq> i" using i False by auto
      then have "(fw(id_key i := None)) (id_key x) = Some (u64_to_le z)" using x by simp
      then show False using slots_inv_slot [OF inv(2)] None by simp
    qed
    then show ?thesis using None False by simp
  qed (use None in simp)
qed

text \<open>The forward rows once the slots in \<open>R\<close> are gone.\<close>

definition drop_slots :: "(bytes \<rightharpoonup> bytes) \<Rightarrow> u64 set \<Rightarrow> u128 \<Rightarrow> bytes option" where
  "drop_slots fw R j = (case fw (id_key j) of None \<Rightarrow> None | Some b \<Rightarrow> if u64_from_le b \<in> R then None else Some b)"

lemma drop_slots_Some: "drop_slots fw R j = Some b \<longleftrightarrow> fw (id_key j) = Some b \<and> u64_from_le b \<notin> R"
  by (auto simp: drop_slots_def split: option.splits)

lemma drop_slots_reverse:
  assumes inv: "slots_inv fw rv n" "slots_inv fw' rv' n" and fw': "\<And>j. fw' (id_key j) = drop_slots fw R j"
  shows "rv' (slot_key z) = (if z \<in> R then None else rv (slot_key z))"
proof (cases "rv' (slot_key z)")
  case (Some b)
  then obtain x where x: "b = id_key x" "fw' (id_key x) = Some (u64_to_le z)" using slots_inv_rvs [OF inv(2)] by blast
  then have "fw (id_key x) = Some (u64_to_le z)" "z \<notin> R" by (simp_all add: fw' drop_slots_Some)
  then show ?thesis using slots_inv_slot [OF inv(1)] x(1) Some by auto
next
  case None
  have "z \<in> R" if "rv (slot_key z) \<noteq> None"
  proof (rule ccontr)
    assume "z \<notin> R"
    from that obtain x where "fw (id_key x) = Some (u64_to_le z)" using slots_inv_rvs [OF inv(1)] by blast
    with \<open>z \<notin> R\<close> have "fw' (id_key x) = Some (u64_to_le z)" by (simp add: fw' drop_slots_Some)
    then show False using slots_inv_slot [OF inv(2)] None by simp
  qed
  then show ?thesis using None by (cases "rv (slot_key z)") auto
qed

lemma drop_slots_insert:
  assumes inv: "slots_inv fw rv n" and e: "fw (id_key e) = Some (u64_to_le y)" "y \<notin> R"
  shows "drop_slots fw (insert y R) j = (if j = e then None else drop_slots fw R j)"
proof (cases "fw (id_key j)")
  case (Some b)
  then obtain z where z: "b = u64_to_le z" using slots_inv_fwd [OF inv] by blast
  have "z = y \<longleftrightarrow> j = e" using slots_inv_inj [OF inv, of j y e] Some z e(1) by auto
  then show ?thesis using Some z by (auto simp: drop_slots_def)
qed (use e in \<open>auto simp: drop_slots_def\<close>)

section \<open>The cascade\<close>

fun flip :: "side \<Rightarrow> side" where
  "flip Outgoing = Incoming"
| "flip Incoming = Outgoing"

fun adj_of :: "side \<Rightarrow> ('b, 'd, 'l, 'm, 'o, 'z) store_scheme \<Rightarrow> 'b" where
  "adj_of Outgoing st = out_adj st"
| "adj_of Incoming st = in_adj st"

text \<open>The state after the edges in \<open>R\<close> were cascaded over, walking the entries anchored on side \<open>sd\<close>.\<close>

definition cascade_inv :: "('b, 'd, 'l, 'm, 'o) env \<Rightarrow> ('b \<Rightarrow> bytes \<rightharpoonup> bytes) \<Rightarrow> ('b, 'd, 'l, 'm, 'o, 'z) store_scheme \<Rightarrow> u64
    \<Rightarrow> side \<Rightarrow> 'b \<Rightarrow> u64 \<Rightarrow> u64 set \<Rightarrow> ('b, 'd, 'l, 'm, 'o, 'z) store_scheme \<Rightarrow> bool" where
  "cascade_inv E rows st0 n sd T k R s \<longleftrightarrow>
     (\<exists>e es ei oa ia. s = st0\<lparr>edges := e, edge_slots := es, edge_ids := ei, out_adj := oa, in_adj := ia\<rparr>) \<and>
     slots_inv (rows (edge_slots s)) (rows (edge_ids s)) k \<and>
     (\<forall>j. rows (edge_slots s) (id_key j) = drop_slots (rows (edge_slots st0)) R j) \<and>
     (\<forall>y. rows (edges s) (slot_key y) = (if y \<in> R then None else rows (edges st0) (slot_key y))) \<and>
     adj_of sd s = T \<and> adj_wf (lz E) (rows (adj_of (flip sd) s)) \<and>
     (\<forall>t ty. adj_ms (chunk_at (lz E) (rows (adj_of (flip sd) s))) t ty =
        (if t = n then {#} else index_of (flip sd) (minus_rows (row_at (lz E) (pc_edge E) (rows (edges st0))) R) t ty))"

lemma flip_simps [simp]: "anchor (flip sd) d = opposite sd d" "opposite (flip sd) d = anchor sd d" "flip (flip sd) = sd"
  by (cases sd; simp)+

context engine
begin

lemma counterpart_step:
  assumes inv: "cascade_inv E rows st0 n sd T k R s"
    and d: "row_at (lz E) (pc_edge E) (rows (edges st0)) y = Some d" "anchor sd d = n"
    and run: "(if opposite sd d \<noteq> n then drop_counterpart E (sd = Outgoing) (opposite sd d) (ed_ty d) y else mret ()) s = (Inr (), s1)"
  shows "\<exists>t'. s1 = (case sd of Outgoing \<Rightarrow> s\<lparr>in_adj := t'\<rparr> | Incoming \<Rightarrow> s\<lparr>out_adj := t'\<rparr>) \<and> adj_wf (lz E) (rows t') \<and>
    (\<forall>t ty. adj_ms (chunk_at (lz E) (rows t')) t ty =
        (if t = n then {#} else index_of (flip sd) (minus_rows (row_at (lz E) (pc_edge E) (rows (edges st0))) (insert y R)) t ty))"
proof -
  let ?ers = "minus_rows (row_at (lz E) (pc_edge E) (rows (edges st0))) R"
  have wf: "adj_wf (lz E) (rows (adj_of (flip sd) s))"
    and ms: "\<And>t ty. adj_ms (chunk_at (lz E) (rows (adj_of (flip sd) s))) t ty = (if t = n then {#} else index_of (flip sd) ?ers t ty)"
    using inv by (simp_all add: cascade_inv_def)
  have only: "?ers y = Some d' \<Longrightarrow> d' = d" for d' using d(1) by (auto simp: minus_rows_def split: if_splits)
  have other: "index_of (flip sd) (?ers(y := None)) t ty = index_of (flip sd) ?ers t ty"
    if "(t, ty) \<noteq> (opposite sd d, ed_ty d)" for t ty
    by (rule index_remove_other) (use only that in auto)
  show ?thesis
  proof (cases "opposite sd d = n")
    case True
    then have "s1 = s" using run by (simp add: monad_simps)
    moreover have "s = (case sd of Outgoing \<Rightarrow> s\<lparr>in_adj := in_adj s\<rparr> | Incoming \<Rightarrow> s\<lparr>out_adj := out_adj s\<rparr>)" by (cases sd) simp_all
    moreover have "adj_ms (chunk_at (lz E) (rows (adj_of (flip sd) s))) t ty =
        (if t = n then {#} else index_of (flip sd) (?ers(y := None)) t ty)" for t ty
      using other True ms by simp
    ultimately show ?thesis using wf by (intro exI [of _ "adj_of (flip sd) s"]) (cases sd; simp add: minus_rows_insert)
  next
    case False
    with run obtain b t' where rm: "adj_remove_edge (lz E) (eB E) (opposite sd d) (ed_ty d) y (adj_of (flip sd) s) = Inr (b, t')"
      and s1: "s1 = (case sd of Outgoing \<Rightarrow> s\<lparr>in_adj := t'\<rparr> | Incoming \<Rightarrow> s\<lparr>out_adj := t'\<rparr>)"
      by (cases sd) (auto simp: drop_counterpart_def mupd_Inr rbind_Inr)
    have un: "size {# e \<in># adj_ms (chunk_at (lz E) (rows (adj_of (flip sd) s))) (opposite sd d) (ed_ty d). a_edge e = y #} \<le> 1"
      using False index_unique by (simp add: ms)
    note c = ch.remove_edge_ok [OF wf rm un]
    have "adj_ms (chunk_at (lz E) (rows t')) t ty = (if t = n then {#} else index_of (flip sd) (?ers(y := None)) t ty)" for t ty
    proof (cases "(t, ty) = (opposite sd d, ed_ty d)")
      case True
      then show ?thesis using c(3) False by (simp add: ms index_remove)
    next
      case ne: False
      then show ?thesis using c(4) [OF ne] other [OF ne] by (simp add: ms)
    qed
    then show ?thesis using s1 c(1) by (auto simp: minus_rows_insert)
  qed
qed

lemma remove_edge_row_step:
  assumes run: "remove_edge_row E y s = (Inr (), s')" and y: "y \<notin> R"
    and sl0: "slots_inv (rows (edge_slots st0)) (rows (edge_ids st0)) k" and mapped: "rows (edge_ids st0) (slot_key y) \<noteq> None"
    and sl: "slots_inv (rows (edge_slots s)) (rows (edge_ids s)) k"
    and fw: "\<And>j. rows (edge_slots s) (id_key j) = drop_slots (rows (edge_slots st0)) R j"
    and er: "\<And>z. rows (edges s) (slot_key z) = (if z \<in> R then None else rows (edges st0) (slot_key z))"
  shows "\<exists>e f r. s' = s\<lparr>edges := e, edge_slots := f, edge_ids := r\<rparr> \<and> slots_inv (rows f) (rows r) k \<and>
    (\<forall>j. rows f (id_key j) = drop_slots (rows (edge_slots st0)) (insert y R) j) \<and>
    (\<forall>z. rows e (slot_key z) = (if z \<in> insert y R then None else rows (edges st0) (slot_key z)))"
proof -
  have "rows (edge_ids s) (slot_key y) = rows (edge_ids st0) (slot_key y)"
    using drop_slots_reverse [OF sl0 sl fw] y by simp
  with mapped obtain b where b: "rows (edge_ids s) (slot_key y) = Some b" by auto
  then obtain x where x: "b = id_key x" "rows (edge_slots s) (id_key x) = Some (u64_to_le y)" using slots_inv_rvs [OF sl] by blast
  from run obtain old e r where rm: "tremove (eB E) (edges s) (slot_key y) = Inr (old, e)"
    and m: "remove_mapping (eB E) (edge_slots s) (edge_ids s) x = Inr r"
    and s': "s' = s\<lparr>edges := e, edge_slots := fst r, edge_ids := snd r\<rparr>"
    using b x(1) by (auto simp: remove_edge_row_def remove_edge_mapping_def edge_ulid_def read_id_eq [OF sl] mbind_Inr monad_simps
        mupd_Inr rbind_Inr)
  have m': "remove_mapping (eB E) (edge_slots s) (edge_ids s) x = Inr (fst r, snd r)" using m by simp
  note c = remove_mapping_correct [OF bt.redb_table_axioms sl m']
  have "rows (edge_slots st0) (id_key x) = Some (u64_to_le y)" using x(2) by (simp add: fw drop_slots_Some)
  then have "rows (fst r) (id_key j) = drop_slots (rows (edge_slots st0)) (insert y R) j" for j
    using c drop_slots_insert [OF sl0 _ y] by (simp add: fw)
  moreover have "rows e (slot_key z) = (if z \<in> insert y R then None else rows (edges st0) (slot_key z))" for z
    using bt.remove_ok [OF rm] er by simp
  ultimately show ?thesis using s' c by blast
qed

lemma cascade_step:
  assumes inv: "cascade_inv E rows st0 n sd T k R s"
    and d: "row_at (lz E) (pc_edge E) (rows (edges st0)) y = Some d" "anchor sd d = n"
    and sl0: "slots_inv (rows (edge_slots st0)) (rows (edge_ids st0)) k" and mapped: "rows (edge_ids st0) (slot_key y) \<noteq> None"
    and r1: "(if opposite sd d \<noteq> n then drop_counterpart E (sd = Outgoing) (opposite sd d) (ed_ty d) y else mret ()) s = (Inr (), s1)"
    and r2: "(if y \<in> R then mret () else remove_edge_row E y) s1 = (Inr (), s2)"
  shows "cascade_inv E rows st0 n sd T k (insert y R) s2"
proof -
  from counterpart_step [OF inv d r1] obtain t' where
    s1: "s1 = (case sd of Outgoing \<Rightarrow> s\<lparr>in_adj := t'\<rparr> | Incoming \<Rightarrow> s\<lparr>out_adj := t'\<rparr>)" and t': "adj_wf (lz E) (rows t')"
      "\<And>t ty. adj_ms (chunk_at (lz E) (rows t')) t ty =
        (if t = n then {#} else index_of (flip sd) (minus_rows (row_at (lz E) (pc_edge E) (rows (edges st0))) (insert y R)) t ty)"
    by blast
  have f1: "edge_slots s1 = edge_slots s" "edge_ids s1 = edge_ids s" "edges s1 = edges s" "adj_of sd s1 = adj_of sd s"
    "adj_of (flip sd) s1 = t'" by (cases sd; simp add: s1)+
  have i: "slots_inv (rows (edge_slots s)) (rows (edge_ids s)) k" "adj_of sd s = T"
    "\<And>j. rows (edge_slots s) (id_key j) = drop_slots (rows (edge_slots st0)) R j"
    "\<And>z. rows (edges s) (slot_key z) = (if z \<in> R then None else rows (edges st0) (slot_key z))"
    using inv by (simp_all add: cascade_inv_def)
  from inv obtain e0 es0 ei0 oa0 ia0 where s0: "s = st0\<lparr>edges := e0, edge_slots := es0, edge_ids := ei0, out_adj := oa0, in_adj := ia0\<rparr>"
    by (auto simp: cascade_inv_def)
  have "s1 = st0\<lparr>edges := e0, edge_slots := es0, edge_ids := ei0, out_adj := (if sd = Outgoing then oa0 else t'),
    in_adj := (if sd = Outgoing then t' else ia0)\<rparr>"
    by (cases sd) (simp_all add: s1 s0)
  then have sh: "\<exists>e es ei oa ia. s1 = st0\<lparr>edges := e, edge_slots := es, edge_ids := ei, out_adj := oa, in_adj := ia\<rparr>" by blast
  show ?thesis
  proof (cases "y \<in> R")
    case True
    then have "s2 = s1" "insert y R = R" using r2 by (auto simp: monad_simps)
    then show ?thesis unfolding cascade_inv_def using sh i t' by (simp add: f1)
  next
    case False
    with r2 have run: "remove_edge_row E y s1 = (Inr (), s2)" by simp
    have pre: "slots_inv (rows (edge_slots s1)) (rows (edge_ids s1)) k"
      "\<And>j. rows (edge_slots s1) (id_key j) = drop_slots (rows (edge_slots st0)) R j"
      "\<And>z. rows (edges s1) (slot_key z) = (if z \<in> R then None else rows (edges st0) (slot_key z))"
      using i by (simp_all add: f1)
    from remove_edge_row_step [OF run False sl0 mapped pre] obtain e f r where
      s2: "s2 = s1\<lparr>edges := e, edge_slots := f, edge_ids := r\<rparr>" and q: "slots_inv (rows f) (rows r) k"
        "\<forall>j. rows f (id_key j) = drop_slots (rows (edge_slots st0)) (insert y R) j"
        "\<forall>z. rows e (slot_key z) = (if z \<in> insert y R then None else rows (edges st0) (slot_key z))" by blast
    from sh obtain e1 es1 ei1 oa1 ia1 where
      "s1 = st0\<lparr>edges := e1, edge_slots := es1, edge_ids := ei1, out_adj := oa1, in_adj := ia1\<rparr>" by blast
    then have "s2 = st0\<lparr>edges := e, edge_slots := f, edge_ids := r, out_adj := oa1, in_adj := ia1\<rparr>" by (simp add: s2)
    then have sh2: "\<exists>e es ei oa ia. s2 = st0\<lparr>edges := e, edge_slots := es, edge_ids := ei, out_adj := oa, in_adj := ia\<rparr>" by blast
    have f2: "adj_of sd s2 = T" "adj_of (flip sd) s2 = t'" using f1(4,5) i(2) by (cases sd; simp add: s2)+
    have f3: "edges s2 = e" "edge_slots s2 = f" "edge_ids s2 = r" by (simp_all add: s2)
    show ?thesis unfolding cascade_inv_def f2 f3 using sh2 q t' by blast
  qed
qed

text \<open>Entries that the index of side \<open>sd\<close> has under the removed node.\<close>

abbreviation incident :: "edge_rows \<Rightarrow> side \<Rightarrow> u64 \<Rightarrow> u32 \<times> adj_entry \<Rightarrow> bool" where
  "incident ers sd n p \<equiv> (\<exists>d. ers (a_edge (snd p)) = Some d \<and> anchor sd d = n \<and> ed_ty d = fst p \<and>
     snd p = index_entry sd (a_edge (snd p)) d)"

lemma cascade_loop:
  assumes "cascade E (sd = Outgoing) n es seen s = (Inr seen', s')" "cascade_inv E rows st0 n sd T k seen s"
    and "slots_inv (rows (edge_slots st0)) (rows (edge_ids st0)) k"
    and "\<And>y. row_at (lz E) (pc_edge E) (rows (edges st0)) y \<noteq> None \<Longrightarrow> rows (edge_ids st0) (slot_key y) \<noteq> None"
    and "\<forall>p \<in> set es. incident (row_at (lz E) (pc_edge E) (rows (edges st0))) sd n p"
  shows "seen' = seen \<union> (\<lambda>p. a_edge (snd p)) ` set es \<and> cascade_inv E rows st0 n sd T k seen' s'"
  using assms
proof (induction es arbitrary: seen s)
  case Nil
  then show ?case by (simp add: monad_simps)
next
  case (Cons p es)
  obtain ty e where p: "p = (ty, e)" by fastforce
  from Cons.prems(5) p obtain d where d: "row_at (lz E) (pc_edge E) (rows (edges st0)) (a_edge e) = Some d" "anchor sd d = n"
    "ed_ty d = ty" "e = index_entry sd (a_edge e) d" by auto
  have tg: "a_target e = opposite sd d" using d(4) by (metis a_edge_index_entry(2))
  from Cons.prems(1) obtain u s1 w s2 where
    r1: "(if opposite sd d \<noteq> n then drop_counterpart E (sd = Outgoing) (opposite sd d) (ed_ty d) (a_edge e) else mret ()) s = (Inr u, s1)"
    and r2: "(if a_edge e \<in> seen then mret () else remove_edge_row E (a_edge e)) s1 = (Inr w, s2)"
    and r3: "cascade E (sd = Outgoing) n es (insert (a_edge e) seen) s2 = (Inr seen', s')"
    unfolding p cascade.simps mbind_Inr tg d(3) [symmetric] by blast
  note r1 = r1 [unfolded unit_eq [of u]] and r2 = r2 [unfolded unit_eq [of w]]
  have mp: "rows (edge_ids st0) (slot_key (a_edge e)) \<noteq> None" using Cons.prems(4) d(1) by simp
  from Cons.IH [OF r3 cascade_step [OF Cons.prems(2) d(1,2) Cons.prems(3) mp r1 r2] Cons.prems(3,4)] Cons.prems(5)
  show ?case by (auto simp: p)
qed

lemma cascade_invD:
  assumes "cascade_inv E rows st0 n sd T k R s"
  shows "\<exists>e es ei oa ia. s = st0\<lparr>edges := e, edge_slots := es, edge_ids := ei, out_adj := oa, in_adj := ia\<rparr>"
    "slots_inv (rows (edge_slots s)) (rows (edge_ids s)) k"
    "rows (edge_slots s) (id_key j) = drop_slots (rows (edge_slots st0)) R j"
    "rows (edges s) (slot_key y) = (if y \<in> R then None else rows (edges st0) (slot_key y))"
    "adj_of sd s = T" "adj_wf (lz E) (rows (adj_of (flip sd) s))"
    "adj_ms (chunk_at (lz E) (rows (adj_of (flip sd) s))) t ty =
        (if t = n then {#} else index_of (flip sd) (minus_rows (row_at (lz E) (pc_edge E) (rows (edges st0))) R) t ty)"
  using assms unfolding cascade_inv_def by blast+

text \<open>The slots of the edges that start or end at \<open>n\<close>.\<close>

definition touching :: "edge_rows \<Rightarrow> u64 \<Rightarrow> u64 set" where
  "touching ers n = {y. \<exists>d. ers y = Some d \<and> (ed_from d = n \<or> ed_to d = n)}"

lemma index_minus:
  assumes "\<And>y d. ers y = Some d \<Longrightarrow> anchor sd d = t \<Longrightarrow> y \<in> R \<longleftrightarrow> y \<in> R'"
  shows "index_of sd (minus_rows ers R) t ty = index_of sd (minus_rows ers R') t ty"
  by (rule index_cong) (use assms in \<open>auto simp: minus_rows_def\<close>)

lemma index_touching: "index_of sd (minus_rows ers (touching ers n)) n ty = {#}"
proof (rule ccontr)
  assume "index_of sd (minus_rows ers (touching ers n)) n ty \<noteq> {#}"
  then obtain e where "e \<in># index_of sd (minus_rows ers (touching ers n)) n ty" by blast
  then show False by (cases sd) (auto simp: index_mem minus_rows_def touching_def split: if_splits)
qed

lemma incident_slots:
  assumes "\<And>p. p \<in> set es \<longleftrightarrow> incident ers sd n p"
  shows "(\<lambda>p. a_edge (snd p)) ` set es = {y. \<exists>d. ers y = Some d \<and> anchor sd d = n}"
proof
  show "(\<lambda>p. a_edge (snd p)) ` set es \<subseteq> {y. \<exists>d. ers y = Some d \<and> anchor sd d = n}" using assms by auto
  show "{y. \<exists>d. ers y = Some d \<and> anchor sd d = n} \<subseteq> (\<lambda>p. a_edge (snd p)) ` set es"
  proof safe
    fix y d
    assume "ers y = Some d" "n = anchor sd d"
    then have "(ed_ty d, index_entry sd y d) \<in> set es" using assms by simp
    then show "y \<in> (\<lambda>p. a_edge (snd p)) ` set es" by (force intro: rev_image_eqI)
  qed
qed

lemma drop_slots_empty: "drop_slots fw {} j = fw (id_key j)"
  by (simp add: drop_slots_def split: option.split)

lemma cascades:
  fixes s0 :: "('b, 'd, 'l, 'm, 'o, 'z) store_scheme"
  defines "ers \<equiv> row_at (lz E) (pc_edge E) (rows (edges s0))"
  assumes c1: "cascade E True n outs {} s0 = (Inr seen, s1)" and c2: "cascade E False n ins seen s1 = (Inr seen', s2)"
    and sl: "slots_inv (rows (edge_slots s0)) (rows (edge_ids s0)) k"
    and mapped: "\<And>y. ers y \<noteq> None \<Longrightarrow> rows (edge_ids s0) (slot_key y) \<noteq> None"
    and outs: "\<And>p. p \<in> set outs \<longleftrightarrow> incident ers Outgoing n p" and ins: "\<And>p. p \<in> set ins \<longleftrightarrow> incident ers Incoming n p"
    and wf: "adj_wf (lz E) (rows (out_adj s0))" "adj_wf (lz E) (rows (in_adj s0))"
    and om: "\<And>t ty. adj_ms (chunk_at (lz E) (rows (out_adj s0))) t ty = (if t = n then {#} else index_of Outgoing ers t ty)"
    and im: "\<And>t ty. adj_ms (chunk_at (lz E) (rows (in_adj s0))) t ty = (if t = n then {#} else index_of Incoming ers t ty)"
  shows "cascade_inv E rows s0 n Incoming (in_adj s1) k (touching ers n) s2"
    and "adj_wf (lz E) (rows (in_adj s1))"
    and "adj_ms (chunk_at (lz E) (rows (in_adj s1))) t ty = index_of Incoming (minus_rows ers (touching ers n)) t ty"
proof -
  have c1': "cascade E (Outgoing = Outgoing) n outs {} s0 = (Inr seen, s1)" and c2': "cascade E (Incoming = Outgoing) n ins seen s1 = (Inr seen', s2)"
    using c1 c2 by simp_all
  have "s0 = s0\<lparr>edges := edges s0, edge_slots := edge_slots s0, edge_ids := edge_ids s0, out_adj := out_adj s0, in_adj := in_adj s0\<rparr>"
    by simp
  then have sh: "\<exists>e es ei oa ia. s0 = s0\<lparr>edges := e, edge_slots := es, edge_ids := ei, out_adj := oa, in_adj := ia\<rparr>" by blast
  have "cascade_inv E rows s0 n Outgoing (out_adj s0) k {} s0"
    unfolding cascade_inv_def using sh sl wf(2) im by (simp add: drop_slots_empty ers_def)
  from cascade_loop [OF c1' this sl mapped [unfolded ers_def]] outs incident_slots [OF outs]
  have seen: "seen = {y. \<exists>d. ers y = Some d \<and> ed_from d = n}" and inv1: "cascade_inv E rows s0 n Outgoing (out_adj s0) k seen s1"
    by (auto simp: ers_def)
  note i1 = cascade_invD [OF inv1, folded ers_def, simplified]
  have "index_of Outgoing ers t ty = index_of Outgoing (minus_rows ers seen) t ty" if "t \<noteq> n" for t ty
    using index_minus [of ers Outgoing t "{}" seen ty] that by (auto simp: seen)
  then have "cascade_inv E rows s0 n Incoming (in_adj s1) k seen s1"
    unfolding cascade_inv_def using i1 om wf(1) by (simp add: ers_def)
  from cascade_loop [OF c2' this sl mapped [unfolded ers_def]] ins incident_slots [OF ins]
  have "seen' = touching ers n" "cascade_inv E rows s0 n Incoming (in_adj s1) k seen' s2"
    by (auto simp: ers_def seen touching_def)
  then show "cascade_inv E rows s0 n Incoming (in_adj s1) k (touching ers n) s2" by simp
  show "adj_wf (lz E) (rows (in_adj s1))" by (rule i1(6))
  show "adj_ms (chunk_at (lz E) (rows (in_adj s1))) t ty = index_of Incoming (minus_rows ers (touching ers n)) t ty"
  proof (cases "t = n")
    case False
    then show ?thesis using i1(7) index_minus [of ers Incoming t seen "touching ers n" ty] by (auto simp: seen touching_def)
  qed (use i1(7) index_touching in simp)
qed

section \<open>Removing a node\<close>

lemma remove_node_vector_effect:
  fixes s s' :: "('b, 'd, 'l, 'm, 'o, 'z) store_scheme"
  assumes "remove_node_vector E n s = (Inr (), s')"
  shows "\<exists>vs rs l h. s' = s\<lparr>vectors := vs, embedding_ref := rs, hnsw_links := l, hnsw_meta := h\<rparr> \<and>
    (\<forall>z m c. z \<noteq> n \<longrightarrow> rows vs (vector_key m c z) = rows (vectors s) (vector_key m c z)) \<and>
    (\<forall>z. rows rs (slot_key z) = (if z = n then None else rows (embedding_ref s) (slot_key z)))"
proof -
  define f :: "_ \<Rightarrow> (('b, 'd, 'l, 'm, 'o, 'z) store_scheme, unit) sm" where "f = (\<lambda>old_ref. case old_ref of
       Some (model, scope) \<Rightarrow>
         mbind (run_hnsw (tombstone E model scope n)) (\<lambda>newly.
         if newly then maybe_rebuild_cluster E model scope else mret ())
     | None \<Rightarrow> mret ())"
  have hn: "only_hnsw (f r)" for r
    unfolding f_def by (auto split: option.splits intro!: only_hnsw_intros only_hnsw_rebuild)
  from assms obtain r vs rs where r: "read_ref E (embedding_ref s) n = Inr r"
    and rm: "remove_vector E n (vectors s) (embedding_ref s) = Inr (vs, rs)"
    and run: "f r (s\<lparr>vectors := vs, embedding_ref := rs\<rparr>) = (Inr (), s')"
    unfolding remove_node_vector_def f_def [symmetric] by (auto simp: mbind_Inr monad_simps mupd_Inr rbind_Inr)
  from only_hnswD [OF hn run] have "\<exists>l h. s' = s\<lparr>vectors := vs, embedding_ref := rs, hnsw_links := l, hnsw_meta := h\<rparr>" by simp
  moreover have "(\<forall>z m c. z \<noteq> n \<longrightarrow> rows vs (vector_key m c z) = rows (vectors s) (vector_key m c z)) \<and>
    (\<forall>z. rows rs (slot_key z) = (if z = n then None else rows (embedding_ref s) (slot_key z)))"
  proof (cases r)
    case None
    with r have "rows (embedding_ref s) (slot_key n) = None"
      by (auto simp: read_ref_def bt.get_eq rbind_Inr split: option.splits)
    then show ?thesis using rm r None by (auto simp: remove_vector_def)
  next
    case (Some mc)
    then show ?thesis using rm r by (cases mc) (auto simp: remove_vector_def rbind_Inr dest!: bt.remove_ok)
  qed
  ultimately show ?thesis by blast
qed

lemma remove_node_row_effect:
  assumes "remove_node_row E i n s = (Inr (), s')"
  shows "\<exists>t l. s' = s\<lparr>nodes := t, label_index := l\<rparr> \<and> rows t = (rows (nodes s))(slot_key n := None)"
proof -
  from assms obtain old t l where "tremove (eB E) (nodes s) (slot_key n) = Inr (old, t)" "s' = s\<lparr>nodes := t, label_index := l\<rparr>"
    by (auto simp: remove_node_row_def mbind_Inr monad_simps mupd_Inr rbind_Inr split: option.splits)
  then show ?thesis using bt.remove_ok by blast
qed

text \<open>The state in which the cascades start.\<close>

lemma remove_node_prefix:
  fixes st st' :: "('b, 'd, 'l, 'm, 'o, 'z) store_scheme"
  assumes inv: "store_inv E rows mrows st" and run: "apply_remove_node E i st = (Inr (), st')"
    and sl: "slots_inv (rows (node_slots st)) (rows (node_ids st)) k"
  obtains n t l vs rs li h ot it f r s0 outs ins seen s1 seen' where
    "rows (node_slots st) (id_key (node_u128 i)) = Some (u64_to_le n)"
    "s0 = st\<lparr>nodes := t, label_index := l, vectors := vs, embedding_ref := rs, hnsw_links := li, hnsw_meta := h, out_adj := ot,
       in_adj := it, node_slots := f, node_ids := r\<rparr>"
    "rows t = (rows (nodes st))(slot_key n := None)"
    "\<forall>z m c. z \<noteq> n \<longrightarrow> rows vs (vector_key m c z) = rows (vectors st) (vector_key m c z)"
    "\<forall>z. rows rs (slot_key z) = (if z = n then None else rows (embedding_ref st) (slot_key z))"
    "adj_remove_all (lz E) (eB E) n (out_adj st) = Inr (outs, ot)" "adj_remove_all (lz E) (eB E) n (in_adj st) = Inr (ins, it)"
    "slots_inv (rows f) (rows r) k" "rows f = (rows (node_slots st))(id_key (node_u128 i) := None)"
    "cascade E True n outs {} s0 = (Inr seen, s1)" "cascade E False n ins seen s1 = (Inr seen', st')"
proof -
  from run obtain n sa sb outs ot ins it f r seen s1 seen' where n: "node_slot (eB E) (node_slots st) i = Inr (Some n)"
    and row: "remove_node_row E i n st = (Inr (), sa)" and vec: "remove_node_vector E n sa = (Inr (), sb)"
    and o: "adj_remove_all (lz E) (eB E) n (out_adj sb) = Inr (outs, ot)"
    and it: "adj_remove_all (lz E) (eB E) n (in_adj sb) = Inr (ins, it)"
    and m: "remove_node_mapping (eB E) (node_slots sb) (node_ids sb) i = Inr (f, r)"
    and c: "cascade E True n outs {} (sb\<lparr>out_adj := ot, in_adj := it, node_slots := f, node_ids := r\<rparr>) = (Inr seen, s1)"
      "cascade E False n ins seen s1 = (Inr seen', st')"
    by (auto simp: apply_remove_node_def found_slot_def mbind_Inr monad_simps mupd_Inr rbind_Inr split: option.splits)
  from remove_node_row_effect [OF row] obtain t l where sa: "sa = st\<lparr>nodes := t, label_index := l\<rparr>"
    and t: "rows t = (rows (nodes st))(slot_key n := None)" by blast
  from remove_node_vector_effect [OF vec] obtain vs rs li h where
    sb: "sb = sa\<lparr>vectors := vs, embedding_ref := rs, hnsw_links := li, hnsw_meta := h\<rparr>"
    and v: "\<forall>z m c. z \<noteq> n \<longrightarrow> rows vs (vector_key m c z) = rows (vectors st) (vector_key m c z)"
      "\<forall>z. rows rs (slot_key z) = (if z = n then None else rows (embedding_ref st) (slot_key z))"
    by (auto simp: sa)
  note s = sb [unfolded sa]
  have fw: "rows (node_slots st) (id_key (node_u128 i)) = Some (u64_to_le n)"
    using n slots_inv_fwd [OF sl] by (fastforce simp: node_slot_def read_slot_eq [OF sl])
  have "remove_mapping (eB E) (node_slots st) (node_ids st) (node_u128 i) = Inr (f, r)"
    using m by (simp add: remove_node_mapping_def s)
  note mp = remove_mapping_correct [OF bt.redb_table_axioms sl this]
  show thesis by (rule that [OF fw refl t v _ _ conjunct1 [OF mp] conjunct2 [OF mp] _ c(2)]) (use o it c(1) in \<open>simp_all add: s\<close>)
qed

lemma row_at_minus:
  assumes "\<And>y. rs' (slot_key y) = (if y \<in> R then None else rs (slot_key y))"
  shows "row_at L S rs' = minus_rows (row_at L S rs) R"
  by (simp add: row_at_def minus_rows_def assms fun_eq_iff)

text \<open>An edge row's slots name the removed node exactly when the edge's ids do.\<close>

lemma touching_ids:
  assumes sl: "slots_inv (rows (node_slots st)) (rows (node_ids st)) k"
    and n: "rows (node_slots st) (id_key (node_u128 i)) = Some (u64_to_le n)"
    and t: "rows (node_ids st) (slot_key z) = Some (id_key (node_u128 v))"
  shows "z = n \<longleftrightarrow> v = i"
proof
  assume "z = n"
  then have "node_u128 v = node_u128 i" using slots_inv_slot [OF sl n] t by simp
  then show "v = i" by (metis id_collapse(1))
next
  assume "v = i"
  then show "z = n" using slots_inv_rvs [OF sl t] n by auto
qed

lemma remove_edges:
  fixes st st' :: "('b, 'd, 'l, 'm, 'o, 'z) store_scheme"
  assumes inv: "store_inv E rows mrows st" and rep: "represents E rows st G" and g: "grows st st'"
    and n: "rows (node_slots st) (id_key (node_u128 i)) = Some (u64_to_le n)"
    and esl: "slots_inv (rows (edge_slots st)) (rows (edge_ids st)) k" "slots_inv (rows (edge_slots st')) (rows (edge_ids st')) k"
    and sl: "slots_inv (rows (node_slots st)) (rows (node_ids st)) m" "slots_inv (rows (node_slots st')) (rows (node_ids st')) m"
    and rv: "\<And>z. rows (node_ids st') (slot_key z) = (if z = n then None else rows (node_ids st) (slot_key z))"
    and fw: "\<And>j. rows (edge_slots st') (id_key j) =
      drop_slots (rows (edge_slots st)) (touching (row_at (lz E) (pc_edge E) (rows (edges st))) n) j"
    and er: "\<And>y. rows (edges st') (slot_key y) =
      (if y \<in> touching (row_at (lz E) (pc_edge E) (rows (edges st))) n then None else rows (edges st) (slot_key y))"
  shows "read_edge E st' j = Inr (case g_edges G j of None \<Rightarrow> None | Some x \<Rightarrow> if e_from x = i \<or> e_to x = i then None else Some x)"
proof (cases "g_edges G j")
  case None
  then have "rows (edge_slots st) (id_key (edge_u128 j)) = None"
    using representsD(2) [OF rep, of j]
    by (auto simp: read_edge_def edge_slot_def read_slot_eq [OF esl(1)] rbind_Inr split: option.splits)
  then show ?thesis using None by (simp add: read_edge_def edge_slot_def read_slot_eq [OF esl(2)] fw drop_slots_def)
next
  case (Some x)
  with representsD(2) [OF rep, of j] have rx: "read_edge E st j = Inr (Some x)" by simp
  from esl(1) sl(1) rx obtain s d where d: "rows (edge_slots st) (id_key (edge_u128 j)) = Some (u64_to_le s)"
    "row_at (lz E) (pc_edge E) (rows (edges st)) s = Some d"
    "rows (node_ids st) (slot_key (ed_from d)) = Some (id_key (node_u128 (e_from x)))"
    "rows (node_ids st) (slot_key (ed_to d)) = Some (id_key (node_u128 (e_to x)))" by (rule read_edgeD)
  have in_R: "s \<in> touching (row_at (lz E) (pc_edge E) (rows (edges st))) n \<longleftrightarrow> e_from x = i \<or> e_to x = i"
    using d(2) touching_ids [OF sl(1) n d(3)] touching_ids [OF sl(1) n d(4)] by (simp add: touching_def)
  show ?thesis
  proof (cases "e_from x = i \<or> e_to x = i")
    case True
    then have "rows (edge_slots st') (id_key (edge_u128 j)) = None" using d(1) in_R by (simp add: fw drop_slots_def)
    then show ?thesis using Some True by (simp add: read_edge_def edge_slot_def read_slot_eq [OF esl(2)])
  next
    case False
    have "read_edge E st' j = Inr (Some x)"
    proof (rule edge_frame [OF g esl sl _ _ _ rx])
      show "rows (edge_slots st') (id_key (edge_u128 j)) = rows (edge_slots st) (id_key (edge_u128 j))"
        using d(1) in_R False by (simp add: fw drop_slots_def)
      show "rows (edges st') (slot_key s') = rows (edges st) (slot_key s')"
        if "rows (edge_slots st) (id_key (edge_u128 j)) = Some (u64_to_le s')" for s'
        using that d(1) in_R False by (simp add: er)
      show "rows (node_ids st') (slot_key (ed_from d')) = rows (node_ids st) (slot_key (ed_from d')) \<and>
          rows (node_ids st') (slot_key (ed_to d')) = rows (node_ids st) (slot_key (ed_to d'))"
        if "rows (edge_slots st) (id_key (edge_u128 j)) = Some (u64_to_le s')"
          "row_at (lz E) (pc_edge E) (rows (edges st)) s' = Some d'" for s' d'
        using that d False touching_ids [OF sl(1) n d(3)] touching_ids [OF sl(1) n d(4)] by (simp add: rv)
    qed
    then show ?thesis using Some False by simp
  qed
qed

lemma remove_nodes:
  fixes st st' :: "('b, 'd, 'l, 'm, 'o, 'z) store_scheme"
  assumes rep: "represents E rows st G" and g: "grows st st'"
    and n: "rows (node_slots st) (id_key (node_u128 i)) = Some (u64_to_le n)"
    and sl: "slots_inv (rows (node_slots st)) (rows (node_ids st)) m" "slots_inv (rows (node_slots st')) (rows (node_ids st')) m"
    and fw: "rows (node_slots st') = (rows (node_slots st))(id_key (node_u128 i) := None)"
    and same: "\<And>z. z \<noteq> n \<Longrightarrow> rows (nodes st') (slot_key z) = rows (nodes st) (slot_key z) \<and> same_vector st st' z"
  shows "read_node E st' j = Inr (((g_nodes G)(i := None)) j)"
proof (cases "j = i")
  case True
  then show ?thesis by (simp add: read_node_def node_slot_def read_slot_eq [OF sl(2)] fw)
next
  case False
  then have ne: "node_u128 j \<noteq> node_u128 i" by (metis id_collapse(1))
  have "read_node E st' j = Inr (g_nodes G j)"
  proof (rule node_frame [OF g sl _ _ representsD(1) [OF rep]])
    show "rows (node_slots st') (id_key (node_u128 j)) = rows (node_slots st) (id_key (node_u128 j))" using ne by (simp add: fw)
    show "rows (nodes st') (slot_key s) = rows (nodes st) (slot_key s) \<and> same_vector st st' s"
      if "rows (node_slots st) (id_key (node_u128 j)) = Some (u64_to_le s)" for s
    proof -
      have "s \<noteq> n" using slots_inv_inj [OF sl(1) that] n ne by blast
      then show ?thesis by (rule same)
    qed
  qed
  then show ?thesis using False by simp
qed

lemma index_set:
  assumes "mset es = (\<Sum>ty \<in> UNIV. image_mset (Pair ty) (index_of sd ers n ty))"
  shows "p \<in> set es \<longleftrightarrow> incident ers sd n p"
proof -
  have "p \<in> set es \<longleftrightarrow> (\<exists>ty. p \<in># image_mset (Pair ty) (index_of sd ers n ty))"
    using arg_cong [OF assms, of "\<lambda>m. p \<in># m"] by (simp add: set_mset_sum)
  then show ?thesis by (cases p) (auto simp: index_mem image_iff)
qed

lemma sim_remove_node:
  fixes st st' :: "('b, 'd, 'l, 'm, 'o, 'z) store_scheme"
  assumes inv: "store_inv E rows mrows st" and rep: "represents E rows st G" and run: "apply_remove_node E i st = (Inr (), st')"
  shows "\<exists>G'. spec_op (stored_vector E) (RemoveNode i) G = Some G' \<and> store_inv E rows mrows st' \<and> represents E rows st' G'"
proof -
  let ?ers = "row_at (lz E) (pc_edge E) (rows (edges st))"
  obtain m where sl: "slots_inv (rows (node_slots st)) (rows (node_ids st)) m" and cm: "counter_is (mrows (meta st)) ''next_node_slot'' m"
    using store_invD(2) [OF inv] by blast
  obtain k where esl: "slots_inv (rows (edge_slots st)) (rows (edge_ids st)) k"
    and ck: "counter_is (mrows (meta st)) ''next_edge_slot'' k" using store_invD(3) [OF inv] by blast
  note gr = keeps_run [OF keeps_remove_node run store_invD(1) [OF inv]]
  from inv run sl obtain n t l vs rs li h ot it f r s0 outs ins seen s1 seen' where n: "rows (node_slots st) (id_key (node_u128 i)) = Some (u64_to_le n)"
    and s0: "s0 = st\<lparr>nodes := t, label_index := l, vectors := vs, embedding_ref := rs, hnsw_links := li, hnsw_meta := h, out_adj := ot,
       in_adj := it, node_slots := f, node_ids := r\<rparr>"
    and t: "rows t = (rows (nodes st))(slot_key n := None)"
    and vs: "\<forall>z m c. z \<noteq> n \<longrightarrow> rows vs (vector_key m c z) = rows (vectors st) (vector_key m c z)"
    and rs: "\<forall>z. rows rs (slot_key z) = (if z = n then None else rows (embedding_ref st) (slot_key z))"
    and ot: "adj_remove_all (lz E) (eB E) n (out_adj st) = Inr (outs, ot)"
    and it: "adj_remove_all (lz E) (eB E) n (in_adj st) = Inr (ins, it)"
    and nsl: "slots_inv (rows f) (rows r) m" "rows f = (rows (node_slots st))(id_key (node_u128 i) := None)"
    and c: "cascade E True n outs {} s0 = (Inr seen, s1)" "cascade E False n ins seen s1 = (Inr seen', st')"
    by (rule remove_node_prefix)
  note ro = ch.remove_all_ok [OF store_invD(6) [OF inv] ot] and ri = ch.remove_all_ok [OF store_invD(7) [OF inv] it]
  have cs: "cascade_inv E rows s0 n Incoming (in_adj s1) k (touching ?ers n) st'"
    "adj_wf (lz E) (rows (in_adj s1))"
    "\<And>t ty. adj_ms (chunk_at (lz E) (rows (in_adj s1))) t ty = index_of Incoming (minus_rows ?ers (touching ?ers n)) t ty"
    using cascades [OF c, of k] esl store_invD(5) [OF inv] index_set [OF ro(2) [unfolded store_invD(8) [OF inv]]]
      index_set [OF ri(2) [unfolded store_invD(9) [OF inv]]] ro ri store_invD(8,9) [OF inv]
    by (simp_all add: s0)
  note ci = cascade_invD [OF cs(1)]
  from ci(1) obtain e es ei oa ia where st': "st' = s0\<lparr>edges := e, edge_slots := es, edge_ids := ei, out_adj := oa, in_adj := ia\<rparr>" by blast
  have f: "meta st' = meta st" "node_slots st' = f" "node_ids st' = r" "nodes st' = t" "vectors st' = vs" "embedding_ref st' = rs"
    "vector_dims st' = vector_dims st" by (simp_all add: st' s0)
  have fe: "edges s0 = edges st" "edge_slots s0 = edge_slots st" by (simp_all add: s0)
  have rv: "rows r (slot_key z) = (if z = n then None else rows (node_ids st) (slot_key z))" for z
    using remove_reverse [OF sl _ n] nsl by simp
  have rev': "rows (edge_ids st') (slot_key z) = (if z \<in> touching ?ers n then None else rows (edge_ids st) (slot_key z))" for z
    by (rule drop_slots_reverse [OF esl ci(2)]) (simp add: ci(3) fe)
  have rows': "row_at (lz E) (pc_edge E) (rows (edges st')) = minus_rows ?ers (touching ?ers n)"
    by (rule row_at_minus) (simp add: ci(4) fe)
  have "store_inv E rows mrows st'"
  proof (rule store_invI)
    show "interning_wf st'" using gr by blast
    show "slots_inv (rows (node_slots st')) (rows (node_ids st')) m" "counter_is (mrows (meta st')) ''next_node_slot'' m"
      "counter_is (mrows (meta st')) ''next_edge_slot'' k" using nsl(1) cm ck by (simp_all add: f)
    show "slots_inv (rows (edge_slots st')) (rows (edge_ids st')) k" by (rule ci(2))
    show "rows (embedding_ref st') (slot_key s) \<noteq> None \<Longrightarrow> rows (node_ids st') (slot_key s) \<noteq> None" for s
      using store_invD(4) [OF inv, of s] rs by (simp add: f rv split: if_splits)
    show "row_at (lz E) (pc_edge E) (rows (edges st')) s \<noteq> None \<longleftrightarrow> rows (edge_ids st') (slot_key s) \<noteq> None" for s
      using store_invD(5) [OF inv, of s] unfolding rows' rev' minus_rows_def by simp
    show "adj_wf (lz E) (rows (out_adj st'))" "adj_wf (lz E) (rows (in_adj st'))" using ci(5,6) cs(2) by simp_all
    show "adj_ms (chunk_at (lz E) (rows (out_adj st'))) s ty = index_of Outgoing (row_at (lz E) (pc_edge E) (rows (edges st'))) s ty" for s ty
      using ci(7) [of s ty] index_touching by (simp add: rows' fe)
    show "adj_ms (chunk_at (lz E) (rows (in_adj st'))) s ty = index_of Incoming (row_at (lz E) (pc_edge E) (rows (edges st'))) s ty" for s ty
      using ci(5) cs(3) by (simp add: rows')
  qed
  moreover have "represents E rows st' (G\<lparr>g_nodes := (g_nodes G)(i := None), g_edges := (\<lambda>e. case g_edges G e of
      None \<Rightarrow> None | Some x \<Rightarrow> if e_from x = i \<or> e_to x = i then None else Some x)\<rparr>)"
  proof -
    have nn: "slots_inv (rows (node_slots st')) (rows (node_ids st')) m" using nsl(1) by (simp add: f)
    have "read_edge E st' j = Inr (case g_edges G j of None \<Rightarrow> None | Some x \<Rightarrow> if e_from x = i \<or> e_to x = i then None else Some x)" for j
      by (rule remove_edges [OF inv rep _ n esl ci(2) sl nn]) (use gr rv ci(3,4) in \<open>simp_all add: f fe\<close>)
    moreover have "read_node E st' j = Inr (((g_nodes G)(i := None)) j)" for j
      by (rule remove_nodes [OF rep _ n sl nn]) (use gr nsl(2) t vs rs in \<open>simp_all add: f\<close>)
    moreover have "dims_agree (i_dicts st') (rows (vector_dims st')) (g_dims G)"
      using dims_grow [OF representsD(5) [OF rep]] gr store_invD(1) [OF inv] by (simp add: f grows_def interning_wf_def)
    ultimately show ?thesis using representsD(3,4) [OF rep] by (auto simp: represents_def split: option.splits if_splits)
  qed
  moreover have "g_nodes G i \<noteq> None" using no_node_slot [OF inv rep, of i] n by force
  ultimately show ?thesis by auto
qed

end

end
