(* ===== verification/Batch.thy ===== *)
theory Batch
  imports Write Instance
begin

text \<open>
  Batches and groups of batches (\<^verbatim>\<open>crates/topodb/src/storage.rs\<close>: \<^verbatim>\<open>apply_ops_in_txn\<close>,
  \<^verbatim>\<open>apply_batches\<close>, \<^verbatim>\<open>apply_batch\<close>). A batch is resolved, rewritten and applied operation by
  operation with its indexes maintained around each one, then appended to the log. A group of
  batches shares one transaction: either it commits as a whole, or its tables are dropped and the
  names it interned are reverted from the in-memory mirrors. Opening a table and reading it fail
  alike, so the failure of \<^verbatim>\<open>open_table\<close> is that of the first call on the table.
\<close>

section \<open>Index maintenance around one operation\<close>

type_synonym fts_edit = "u32 \<times> u64 \<times> string option \<times> string option"

text \<open>Identity, scope, slot and text of the node an operation touches, before it runs.\<close>

definition pre_edit :: "('b, 'd, 'l, 'm, 'o) env \<Rightarrow> op \<Rightarrow> ('b, 'd, 'l, 'm, 'o, 'z) store_scheme
    \<Rightarrow> (node_id \<times> scope \<times> u64 option \<times> string option) option result" where
  "pre_edit E x st =
     (let existing = (\<lambda>i. rbind (read_node E st i) (\<lambda>r. case r of
            Some rec \<Rightarrow> rbind (node_slot (eB E) (node_slots st) i) (\<lambda>slot.
              Inr (Some (i, n_scope rec, slot, doc_text (spec E) rec)))
          | None \<Rightarrow> Inr None))
      in case x of
           CreateNode i sc _ _ \<Rightarrow> Inr (Some (i, sc, None, None))
         | SetNodeProps i _ \<Rightarrow> existing i
         | RemoveNode i \<Rightarrow> existing i
         | _ \<Rightarrow> Inr None)"

definition old_index_node :: "('b, 'd, 'l, 'm, 'o) env \<Rightarrow> op \<Rightarrow> ('b, 'd, 'l, 'm, 'o, 'z) store_scheme
    \<Rightarrow> node_record option result" where
  "old_index_node E x st =
     (case x of SetNodeProps i _ \<Rightarrow> read_node E st i | RemoveNode i \<Rightarrow> read_node E st i | _ \<Rightarrow> Inr None)"

definition unindex_old :: "('b, 'd, 'l, 'm, 'o) env \<Rightarrow> node_record option \<Rightarrow> (('b, 'd, 'l, 'm, 'o, 'z) store_scheme, unit) sm" where
  "unindex_old E old =
     (case old of
        None \<Rightarrow> mret ()
      | Some node \<Rightarrow> mupd (\<lambda>st. rbind (node_slot (eB E) (node_slots st) (n_id node)) (\<lambda>s. case s of
            None \<Rightarrow> Inr ((), st)
          | Some slot \<Rightarrow> rbind (unindex_node (uni E) (eB E) (spec E) (i_dicts st) node slot (prop_table st)) (\<lambda>t.
              Inr ((), st\<lparr>prop_table := t\<rparr>)))))"

definition reindex :: "('b, 'd, 'l, 'm, 'o) env \<Rightarrow> node_id \<Rightarrow> ('b, 'd, 'l, 'm, 'o, 'z) store_scheme \<Rightarrow> 'b result" where
  "reindex E i st =
     rbind (read_node E st i) (\<lambda>r. case r of
        None \<Rightarrow> Inr (prop_table st)
      | Some node \<Rightarrow> rbind (node_slot (eB E) (node_slots st) i) (\<lambda>s. case s of
          None \<Rightarrow> Inr (prop_table st)
        | Some slot \<Rightarrow> index_node (uni E) (eB E) (spec E) (i_dicts st) node slot (prop_table st)))"

definition index_new :: "('b, 'd, 'l, 'm, 'o) env \<Rightarrow> op \<Rightarrow> (('b, 'd, 'l, 'm, 'o, 'z) store_scheme, unit) sm" where
  "index_new E x =
     (let upd = (\<lambda>i. mupd (\<lambda>st. rbind (reindex E i st) (\<lambda>t. Inr ((), st\<lparr>prop_table := t\<rparr>))))
      in case x of CreateNode i _ _ _ \<Rightarrow> upd i | SetNodeProps i _ \<Rightarrow> upd i | _ \<Rightarrow> mret ())"

definition new_text :: "('b, 'd, 'l, 'm, 'o) env \<Rightarrow> op \<Rightarrow> node_id \<Rightarrow> ('b, 'd, 'l, 'm, 'o, 'z) store_scheme \<Rightarrow> string option result" where
  "new_text E x i st =
     (case x of
        RemoveNode _ \<Rightarrow> Inr None
      | _ \<Rightarrow> rbind (read_node E st i) (\<lambda>r. Inr (Option.bind r (doc_text (spec E)))))"

text \<open>The log replay runs the same code with an error of its own for a slot that is missing.\<close>

definition collect_edit :: "('b, 'd, 'l, 'm, 'o) env \<Rightarrow> topo_error \<Rightarrow> op \<Rightarrow> (node_id \<times> scope \<times> u64 option \<times> string option) option
    \<Rightarrow> (('b, 'd, 'l, 'm, 'o, 'z) store_scheme, fts_edit list) sm" where
  "collect_edit E missing x pre =
     (case pre of
        None \<Rightarrow> mret []
      | Some (i, sc, pre_slot, old_text) \<Rightarrow>
          mbind (mread (new_text E x i)) (\<lambda>new_text.
          mbind (case pre_slot of
                   Some s \<Rightarrow> mret s
                 | None \<Rightarrow> found_slot E missing i) (\<lambda>slot.
          mbind (registry_intern (eB E) sc) (\<lambda>scope_id.
          mret [(scope_id, slot, old_text, new_text)]))))"

definition apply_one :: "('b, 'd, 'l, 'm, 'o) env \<Rightarrow> op \<Rightarrow> (('b, 'd, 'l, 'm, 'o, 'z) store_scheme, fts_edit list) sm" where
  "apply_one E x =
     mbind (mread (pre_edit E x)) (\<lambda>pre.
     mbind (mread (old_index_node E x)) (\<lambda>old.
     mbind (unindex_old E old) (\<lambda>_.
     mbind (apply_op E x) (\<lambda>_.
     mbind (index_new E x) (\<lambda>_.
     collect_edit E (Encoding ''fts edit: node slot missing after CreateNode'') x pre)))))"

fun apply_all :: "('b, 'd, 'l, 'm, 'o) env \<Rightarrow> op list \<Rightarrow> fts_edit list \<Rightarrow> (('b, 'd, 'l, 'm, 'o, 'z) store_scheme, fts_edit list) sm" where
  "apply_all E [] edits = mret edits"
| "apply_all E (x # xs) edits = mbind (apply_one E x) (\<lambda>new. apply_all E xs (edits @ new))"

definition analyzer_of :: "('b, 'd, 'l, 'm, 'o) env \<Rightarrow> analyzer" where
  "analyzer_of E = \<lparr>an_unicode = uni E, stem = stemmer E\<rparr>"

definition apply_fts_edit :: "('b, 'd, 'l, 'm, 'o) env \<Rightarrow> fts_edit \<Rightarrow> (('b, 'd, 'l, 'm, 'o, 'z) store_scheme, unit) sm" where
  "apply_fts_edit E = (\<lambda>(scope_id, slot, old_text, new_text).
     mupd (\<lambda>st. rbind (fts_update (lz E) (eB E) (analyzer_of E) (pc_fts E) scope_id slot old_text new_text (postings st, fts_docs st, fts_stats st)) (\<lambda>(p, d, s).
       Inr ((), st\<lparr>postings := p, fts_docs := d, fts_stats := s\<rparr>))))"

section \<open>Batches\<close>

record applied_batch =
  first_seq :: u64
  last_seq :: u64
  resolved :: "op list"
  remap :: node_remap

definition append_rewritten :: "('b, 'd, 'l, 'm, 'o) env \<Rightarrow> op list \<Rightarrow> 'o \<Rightarrow> 'm \<Rightarrow> ((u64 \<times> u64) \<times> 'o) result" where
  "append_rewritten E xs ops mt =
     rbind (next_seq (eO E) (eM E) ops mt) (\<lambda>nxt.
     if xs = [] then Inr ((nxt, nxt - 1), ops)
     else rbind (append_rows (eO E) (pc_op E) nxt xs ops) (\<lambda>t.
          Inr ((nxt, nxt + word_of_nat (length xs) - 1), t)))"

definition append_log :: "('b, 'd, 'l, 'm, 'o) env \<Rightarrow> op list \<Rightarrow> (('b, 'd, 'l, 'm, 'o, 'z) store_scheme, u64 \<times> u64) sm" where
  "append_log E xs =
     mupd (\<lambda>st. rbind (append_rewritten E xs (ops_table st) (meta st)) (\<lambda>(r, t). Inr (r, st\<lparr>ops_table := t\<rparr>)))"

definition apply_ops_in_txn :: "('b, 'd, 'l, 'm, 'o) env \<Rightarrow> i64 \<Rightarrow> op list
    \<Rightarrow> (('b, 'd, 'l, 'm, 'o, 'z) store_scheme, applied_batch) sm" where
  "apply_ops_in_txn E now_ms ops =
     (if ops = [] then mfail (Rejected ''empty op batch'')
      else
        mbind (mread (\<lambda>st. rewrite_upserts E st (map (resolve_op now_ms) ops))) (\<lambda>rs.
        mbind (apply_all E (rewritten rs) []) (\<lambda>edits.
        mbind (mfold (apply_fts_edit E) edits) (\<lambda>_.
        mbind (append_log E (rewritten rs)) (\<lambda>(fst_seq, lst_seq).
        mret \<lparr>first_seq = fst_seq, last_seq = lst_seq, resolved = rewritten rs, remap = upsert_remap rs\<rparr>)))))"

section \<open>Groups\<close>

fun run_groups :: "('b, 'd, 'l, 'm, 'o) env \<Rightarrow> i64 \<Rightarrow> nat \<Rightarrow> op list list \<Rightarrow> applied_batch list
    \<Rightarrow> ('b, 'd, 'l, 'm, 'o, 'z) store_scheme \<Rightarrow> ((nat \<times> topo_error) + applied_batch list) \<times> ('b, 'd, 'l, 'm, 'o, 'z) store_scheme" where
  "run_groups E now_ms idx [] applied st = (Inr applied, st)"
| "run_groups E now_ms idx (ops # gs) applied st =
     (case apply_ops_in_txn E now_ms ops st of
        (Inr batch, st') \<Rightarrow> run_groups E now_ms (idx + 1) gs (applied @ [batch]) st'
      | (Inl e, st') \<Rightarrow> (Inl (idx, e), st'))"

text \<open>Dropping the transaction: the committed tables, and the mirrors with the journal reverted.\<close>

definition rollback :: "('b, 'd, 'l, 'm, 'o, 'z) store_scheme \<Rightarrow> ('b, 'd, 'l, 'm, 'o, 'z) store_scheme
    \<Rightarrow> ('b, 'd, 'l, 'm, 'o, 'z) store_scheme" where
  "rollback committed st =
     committed\<lparr>i_dicts := dicts_revert (i_journal st) (i_dicts st), i_scopes := scopes_revert (i_journal st) (i_scopes st)\<rparr>"

definition aborted_later :: topo_error where
  "aborted_later = Rejected ''optimistic group commit aborted by a later batch's failure in the same group''"

definition aborted_earlier :: topo_error where
  "aborted_earlier = Rejected ''optimistic group commit aborted by an earlier batch's failure in the same group''"

definition commit_failed :: topo_error where
  "commit_failed = Rejected ''optimistic group commit failed at tx.commit()''"

definition group_errors :: "nat \<Rightarrow> nat \<Rightarrow> topo_error \<Rightarrow> applied_batch result list" where
  "group_errors n idx e = replicate idx (Inl aborted_later) @ [Inl e] @ replicate (n - (idx + 1)) (Inl aborted_earlier)"

text \<open>The journal is a local of the call: it starts empty and is dropped on return.\<close>

definition apply_batches :: "('b, 'd, 'l, 'm, 'o) env \<Rightarrow> tx \<Rightarrow> op list list \<Rightarrow> i64
    \<Rightarrow> ('b, 'd, 'l, 'm, 'o, 'z) store_scheme \<Rightarrow> applied_batch result list \<times> ('b, 'd, 'l, 'm, 'o, 'z) store_scheme" where
  "apply_batches E tx groups now_ms st =
     (if groups = [] then ([], st)
      else
        case (case redb (tx_begin tx) of
                Inl e \<Rightarrow> (Inl (0, e), st\<lparr>i_journal := journal_default\<rparr>)
              | Inr _ \<Rightarrow> run_groups E now_ms 0 groups [] (st\<lparr>i_journal := journal_default\<rparr>)) of
          (Inl (idx, e), st') \<Rightarrow> (group_errors (length groups) idx e, rollback st st')
        | (Inr applied, st') \<Rightarrow>
            (case redb (tx_commit tx) of
               Inr _ \<Rightarrow> (map Inr applied, st'\<lparr>i_journal := i_journal st\<rparr>)
             | Inl e \<Rightarrow> (replicate (length groups - 1) (Inl commit_failed) @ [Inl e], rollback st st')))"

definition apply_batch :: "('b, 'd, 'l, 'm, 'o) env \<Rightarrow> tx \<Rightarrow> op list \<Rightarrow> i64
    \<Rightarrow> ('b, 'd, 'l, 'm, 'o, 'z) store_scheme \<Rightarrow> applied_batch result \<times> ('b, 'd, 'l, 'm, 'o, 'z) store_scheme" where
  "apply_batch E tx ops now_ms st =
     (case apply_batches E tx [ops] now_ms st of (rs, st') \<Rightarrow> (last rs, st'))"

section \<open>A failed group leaves no trace\<close>

lemma keeps_unindex_old [simp, intro]: "keeps (unindex_old E old)"
  unfolding unindex_old_def by (intro keeps_option keeps_reads keeps_mupd) (auto simp: rbind_Inr split: option.splits)

lemma keeps_index_new [simp, intro]: "keeps (index_new E x)"
proof -
  have "keeps (mupd (\<lambda>st. rbind (reindex E i st) (\<lambda>t. Inr ((), st\<lparr>prop_table := t\<rparr>))))" for i
    by (rule keeps_mupd) (auto simp: rbind_Inr)
  then show ?thesis by (cases x) (simp_all add: index_new_def)
qed

lemma keeps_collect_edit [simp, intro]: "keeps (collect_edit E missing x pre)"
  unfolding collect_edit_def
  by (intro keeps_option keeps_pair keeps_mbind keeps_reads keeps_found keeps_registry_intern)

lemma keeps_apply_one [simp, intro]: "keeps (apply_one E x)"
  unfolding apply_one_def by (intro keeps_mbind keeps_reads keeps_unindex_old keeps_index_new keeps_collect_edit keeps_apply_op)

lemma keeps_apply_all [simp, intro]: "keeps (apply_all E xs edits)"
  by (induction E xs edits rule: apply_all.induct) auto

lemma keeps_fts_edit [simp, intro]: "keeps (apply_fts_edit E ed)"
  unfolding apply_fts_edit_def by (intro keeps_pair keeps_mupd) (auto simp: rbind_Inr)

lemma keeps_append_log [simp, intro]: "keeps (append_log E xs)"
  unfolding append_log_def by (rule keeps_mupd) (auto simp: rbind_Inr)

lemma keeps_apply_ops [simp, intro]: "keeps (apply_ops_in_txn E now ops)"
  unfolding apply_ops_in_txn_def
  by (intro keeps_if keeps_mbind keeps_pair keeps_reads keeps_apply_all keeps_mfold keeps_fts_edit keeps_append_log)

lemma run_groups_keeps:
  assumes "run_groups E now idx gs app st = (r, st')" "interning_wf st" "\<nexists>i e. r = Inl (i, Storage e)"
  shows "interning_wf st' \<and> reverted st' = reverted st"
  using assms
proof (induction E now idx gs app st rule: run_groups.induct)
  case (2 E now idx ops gs app st)
  obtain r1 st1 where one: "apply_ops_in_txn E now ops st = (r1, st1)" by fastforce
  show ?case
  proof (cases r1)
    case (Inl e)
    with one 2 have "r = Inl (idx, e)" "st' = st1" by auto
    with Inl 2(3,4) one keepsD [OF keeps_apply_ops one] show ?thesis by blast
  next
    case (Inr b)
    with one 2 keeps_run [OF keeps_apply_ops one [unfolded Inr]] show ?thesis by auto
  qed
qed auto

lemma run_groups_index:
  assumes "run_groups E now idx gs app st = (Inl (i, e), st')"
  shows "idx \<le> i \<and> i < idx + length gs"
  using assms
  by (induction E now idx gs app st rule: run_groups.induct) (fastforce split: prod.splits sum.splits)+

lemma run_groups_length:
  assumes "run_groups E now idx gs app st = (Inr bs, st')"
  shows "length bs = length app + length gs"
  using assms
  by (induction E now idx gs app st rule: run_groups.induct) (fastforce split: prod.splits sum.splits)+

lemma reverted_default: "reverted (st\<lparr>i_journal := journal_default\<rparr>) = (i_dicts st, i_scopes st)"
  by (simp add: reverted_def dicts_revert_def scopes_revert_def journal_default_def)

lemma rollback_exact:
  "reverted st' = (i_dicts st, i_scopes st) \<Longrightarrow> rollback st st' = st"
  by (simp add: rollback_def reverted_def)

text \<open>
  The outcomes of a group: all batches applied and committed, or as many errors as batches.
\<close>

lemma apply_batches_cases:
  assumes run: "apply_batches E tx groups now st = (rs, st')" and ne: "groups \<noteq> []"
  obtains (no_tx) e where "tx_begin tx = Inl e" "rs = group_errors (length groups) 0 (Storage e)" "st' = st"
  | (abort) idx e st1 where "run_groups E now 0 groups [] (st\<lparr>i_journal := journal_default\<rparr>) = (Inl (idx, e), st1)"
      "rs = group_errors (length groups) idx e" "st' = rollback st st1" "tx_begin tx = Inr ()"
  | (no_commit) bs st1 e where "run_groups E now 0 groups [] (st\<lparr>i_journal := journal_default\<rparr>) = (Inr bs, st1)"
      "tx_commit tx = Inl e" "rs = replicate (length groups - 1) (Inl commit_failed) @ [Inl (Storage e)]"
      "st' = rollback st st1"
  | (committed) bs st1 where "run_groups E now 0 groups [] (st\<lparr>i_journal := journal_default\<rparr>) = (Inr bs, st1)"
      "tx_commit tx = Inr ()" "tx_begin tx = Inr ()" "rs = map Inr bs" "st' = st1\<lparr>i_journal := i_journal st\<rparr>"
proof (cases "tx_begin tx")
  case (Inl e)
  have "rollback st (st\<lparr>i_journal := journal_default\<rparr>) = st"
    by (rule rollback_exact) (rule reverted_default)
  with Inl run ne no_tx show thesis by (simp add: apply_batches_def)
next
  case (Inr u)
  obtain r1 st1 where g: "run_groups E now 0 groups [] (st\<lparr>i_journal := journal_default\<rparr>) = (r1, st1)" by fastforce
  with Inr run ne abort no_commit committed show thesis
    by (cases r1; cases "tx_commit tx") (auto simp: apply_batches_def split: prod.splits)
qed

lemma rollback_tables: "rollback st st1 = st\<lparr>i_dicts := i_dicts (rollback st st1), i_scopes := i_scopes (rollback st st1)\<rparr>"
  by (simp add: rollback_def)

text \<open>C33. A group of batches is atomic: it yields one result per batch, and either all are successes or
  all are errors. In the second case every table is as before, and unless an operation failed on
  an I/O error the whole database state, in-memory mirrors and their counters included, is
  exactly the state before the call.\<close>

theorem apply_batches_atomic:
  assumes "interning_wf st" and "apply_batches E tx groups now st = (rs, st')"
  shows "length rs = length groups \<and>
    ((\<exists>bs. rs = map Inr bs) \<or>
     (\<forall>r \<in> set rs. \<exists>e. r = Inl e) \<and>
     st' = st\<lparr>i_dicts := i_dicts st', i_scopes := i_scopes st'\<rparr> \<and>
     ((\<forall>e. Inl (Storage e) \<notin> set rs) \<longrightarrow> st' = st))"
proof (cases "groups = []")
  case True
  with assms(2) show ?thesis by (simp add: apply_batches_def)
next
  case False
  have wf: "interning_wf (st\<lparr>i_journal := journal_default\<rparr>)" using assms(1) by (simp add: interning_wf_def)
  from assms(2) False show ?thesis
  proof (cases rule: apply_batches_cases)
    case (no_tx e)
    then show ?thesis using False by (auto simp: group_errors_def)
  next
    case (abort idx e st1)
    have "idx < length groups" using run_groups_index [OF abort(1)] by simp
    moreover have "st' = st" if "\<forall>e'. e \<noteq> Storage e'"
      using run_groups_keeps [OF abort(1) wf] that abort(3) rollback_exact [of st1 st] by (simp add: reverted_default)
    ultimately show ?thesis using abort rollback_tables [of st st1] by (auto simp: group_errors_def)
  next
    case (no_commit bs st1 e)
    then show ?thesis using False rollback_tables [of st st1] by auto
  next
    case (committed bs st1)
    then show ?thesis using run_groups_length [OF committed(1)] by auto
  qed
qed

lemma reject_missing:
  "apply_batches tree_env tx_ok [[RemoveNode (NodeId 5)]] 0 empty_store =
     ([Inl (Rejected ''RemoveNode: node not found'')], empty_store)"
proof -
  have "rollback empty_store (empty_store\<lparr>i_journal := journal_default\<rparr>) = empty_store"
    by (rule rollback_exact) (rule reverted_default)
  then show ?thesis
    by (simp add: apply_batches_def tx_ok_def apply_ops_in_txn_def rewrite_upserts_def remap_op_node_ids_def
        mbind_def monad_simps apply_one_def pre_edit_def old_index_node_def unindex_old_def
        read_node_def node_slot_def read_slot_def apply_remove_node_def found_slot_def group_errors_def)
qed

theorem apply_batches_atomic_witness:
  "\<exists>rs st'. apply_batches tree_env tx_ok [[RemoveNode (NodeId 5)]] 0 empty_store = (rs, st') \<and>
     rs = [Inl (Rejected ''RemoveNode: node not found'')] \<and> st' = empty_store"
  using apply_batches_atomic [OF empty_store_wf reject_missing] reject_missing by auto

text \<open>C34. A commit that fails after every batch was applied is rolled back exactly: the database state is
  the one before the call and the last result carries the storage error.\<close>

theorem commit_failure_rolls_back:
  assumes "interning_wf st" and "apply_batches E tx groups now st = (rs, st')" and "groups \<noteq> []"
    and "tx_begin tx = Inr ()" and "tx_commit tx = Inl e"
    and "run_groups E now 0 groups [] (st\<lparr>i_journal := journal_default\<rparr>) = (Inr bs, st1)"
  shows "st' = st \<and> last rs = Inl (Storage e)"
proof -
  have wf: "interning_wf (st\<lparr>i_journal := journal_default\<rparr>)" using assms(1) by (simp add: interning_wf_def)
  have "rs = replicate (length groups - 1) (Inl commit_failed) @ [Inl (Storage e)]" "st' = rollback st st1"
    using assms(2-6) by (simp_all add: apply_batches_def)
  then show ?thesis using run_groups_keeps [OF assms(6) wf] by (simp add: rollback_exact reverted_default)
qed

lemmas run_store = mbind_def monad_simps mupd_def alloc_node_slot_def alloc_def read_slot_def read_counter_slot_def
  put_node_def node_slot_def node_to_disk_v3_def run_interning tree_env_def empty_store_def rbt_ops_def fixed_node_def
  frame_value_def unframe_value_def CODEC_RAW_def pc_err_def read_node_def read_node_by_slot_def node_from_disk_v3_def
  read_embedding_by_slot_def read_qvec_by_slot_def read_ref_def resolve_def scope_resolve_def found_slot_def at_def

lemma tree_create:
  "\<not> isl (fst (apply_ops_in_txn tree_env 0 [CreateNode (NodeId 7) Shared ''Memory'' []] empty_store))"
  by (simp add: apply_ops_in_txn_def rewrite_upserts_def remap_op_node_ids_def apply_one_def pre_edit_def old_index_node_def
      unindex_old_def apply_create_node_def index_new_def reindex_def index_node_def collect_edit_def new_text_def doc_text_def
      apply_fts_edit_def append_log_def append_rewritten_def next_seq_def read_oldest_seq_def append_rows_def append_one_def
      fixed_ops_def run_store)

definition full_disk :: tx where
  "full_disk = \<lparr>tx_begin = Inr (), tx_commit = Inl (RedbFailure ''disk full'')\<rparr>"

theorem commit_failure_rolls_back_witness:
  "\<exists>rs st'. apply_batches tree_env full_disk [[CreateNode (NodeId 7) Shared ''Memory'' []]] 0 empty_store = (rs, st') \<and>
     st' = empty_store \<and> last rs = Inl (Storage (RedbFailure ''disk full''))"
proof -
  let ?gs = "[[CreateNode (NodeId 7) Shared ''Memory'' []]]"
  obtain rs st' where run: "apply_batches tree_env full_disk ?gs 0 empty_store = (rs, st')" by fastforce
  have j: "empty_store\<lparr>i_journal := journal_default\<rparr> = empty_store" by (simp add: empty_store_def)
  have "\<not> isl (fst (run_groups tree_env 0 0 ?gs [] empty_store))"
    using tree_create by (auto split: prod.split sum.split)
  then obtain bs st1 where g: "run_groups tree_env 0 0 ?gs [] (empty_store\<lparr>i_journal := journal_default\<rparr>) = (Inr bs, st1)"
    unfolding j by (metis isl_def prod.collapse sum.collapse(2))
  from commit_failure_rolls_back [OF empty_store_wf run _ _ _ g] run show ?thesis by (simp add: full_disk_def)
qed

end
