(* ===== verification/Refinement.thy ===== *)
theory Refinement
  imports Removal Batch
begin

text \<open>
  The write path refines the abstract graph. \<open>apply_op\<close> implements \<open>spec_op\<close> operation by
  operation; index maintenance, the full-text edits and the log append are invisible to a client,
  so a batch implements the composition of its resolved operations, and so does a whole
  group of batches in one transaction.
\<close>

section \<open>Steps that a client does not see\<close>

definition graph_tables :: "('b, 'd, 'l, 'm, 'o, 'z) store_scheme \<Rightarrow> 'b list \<times> 'm" where
  "graph_tables st = ([nodes st, edges st, vectors st, embedding_ref st, node_slots st, node_ids st, edge_slots st, edge_ids st,
     out_adj st, in_adj st, vector_dims st], meta st)"

definition quiet :: "(('b, 'd, 'l, 'm, 'o, 'z) store_scheme, 'a) sm \<Rightarrow> bool" where
  "quiet f \<longleftrightarrow> (\<forall>st. graph_tables (snd (f st)) = graph_tables st)"

lemma quietD: "quiet f \<Longrightarrow> f st = (r, st') \<Longrightarrow> graph_tables st' = graph_tables st"
  unfolding quiet_def by (metis snd_conv)

lemma quiet_mbind: "quiet f \<Longrightarrow> (\<And>x. quiet (g x)) \<Longrightarrow> quiet (mbind f g)"
  unfolding quiet_def mbind_def by (auto split: prod.splits sum.splits) (metis snd_conv)+

lemma quiet_reads: "quiet (mret x)" "quiet (mread q)" "quiet (mfail e)"
  by (simp_all add: quiet_def monad_simps)

lemma quiet_more: "leaves_more f \<Longrightarrow> quiet f"
  unfolding quiet_def leaves_more_def graph_tables_def by (metis more_fields)

lemma quiet_mupd: "(\<And>st x st'. f st = Inr (x, st') \<Longrightarrow> graph_tables st' = graph_tables st) \<Longrightarrow> quiet (mupd f)"
  by (auto simp: quiet_def mupd_def split: sum.split)

lemma quiet_case: "quiet f \<Longrightarrow> (\<And>x. quiet (g x)) \<Longrightarrow> quiet (case y of None \<Rightarrow> f | Some x \<Rightarrow> g x)"
  "(\<And>x z. quiet (h x z)) \<Longrightarrow> quiet (case p of (x, z) \<Rightarrow> h x z)"
  by (simp_all split: option.split prod.split)

lemma quiet_mfold: "(\<And>x. quiet (f x)) \<Longrightarrow> quiet (mfold f xs)"
  by (induction xs) (auto simp: quiet_reads intro: quiet_mbind)

lemma quiet_index: "quiet (unindex_old E old)" "quiet (index_new E x)" "quiet (collect_edit E missing x pre)"
  "quiet (apply_fts_edit E ed)" "quiet (append_log E xs)"
proof -
  show "quiet (unindex_old E old)"
    unfolding unindex_old_def
    by (intro quiet_case quiet_reads quiet_mupd) (auto simp: rbind_Inr graph_tables_def split: option.splits)
  have "quiet (mupd (\<lambda>st. rbind (reindex E i st) (\<lambda>t. Inr ((), st\<lparr>prop_table := t\<rparr>))))" for i
    by (rule quiet_mupd) (auto simp: rbind_Inr graph_tables_def)
  then show "quiet (index_new E x)" by (cases x) (simp_all add: index_new_def quiet_reads)
  show "quiet (collect_edit E missing x pre)"
    unfolding collect_edit_def found_slot_def
    by (intro quiet_case quiet_mbind quiet_reads quiet_more leaves_more_basic)
  show "quiet (apply_fts_edit E ed)"
    unfolding apply_fts_edit_def by (intro quiet_case quiet_mupd) (auto simp: rbind_Inr graph_tables_def)
  show "quiet (append_log E xs)"
    unfolding append_log_def by (rule quiet_mupd) (auto simp: rbind_Inr graph_tables_def)
qed

section \<open>Sequences of operations\<close>

fun spec_ops :: "(f32 list \<Rightarrow> f32 list) \<Rightarrow> op list \<Rightarrow> graph \<Rightarrow> graph option" where
  "spec_ops q [] G = Some G"
| "spec_ops q (x # xs) G = Option.bind (spec_op q x G) (spec_ops q xs)"

lemma spec_ops_append: "spec_ops q (xs @ ys) G = Option.bind (spec_ops q xs G) (spec_ops q ys)"
  by (induction q xs G rule: spec_ops.induct) (simp_all split: bind_split)

text \<open>The side conditions of the operations, each in the state its operation runs in.\<close>

fun ops_ok :: "('b, 'd, 'l, 'm, 'o) env \<Rightarrow> ('b \<Rightarrow> bytes \<rightharpoonup> bytes) \<Rightarrow> op list \<Rightarrow> ('b, 'd, 'l, 'm, 'o, 'z) store_scheme \<Rightarrow> graph \<Rightarrow> bool" where
  "ops_ok E rows [] st G \<longleftrightarrow> True"
| "ops_ok E rows (x # xs) st G \<longleftrightarrow> op_ok rows st G x \<and>
     (case (fst (apply_one E x st), spec_op (stored_vector E) x G) of
        (Inr _, Some G') \<Rightarrow> ops_ok E rows xs (snd (apply_one E x st)) G'
      | _ \<Rightarrow> True)"

fun groups_ok :: "('b, 'd, 'l, 'm, 'o) env \<Rightarrow> ('b \<Rightarrow> bytes \<rightharpoonup> bytes) \<Rightarrow> i64 \<Rightarrow> op list list
    \<Rightarrow> ('b, 'd, 'l, 'm, 'o, 'z) store_scheme \<Rightarrow> graph \<Rightarrow> bool" where
  "groups_ok E rows now [] st G \<longleftrightarrow> True"
| "groups_ok E rows now (ops # gs) st G \<longleftrightarrow>
     (case apply_ops_in_txn E now ops st of
        (Inr b, st') \<Rightarrow> ops_ok E rows (resolved b) st G \<and>
          (case spec_ops (stored_vector E) (resolved b) G of Some G' \<Rightarrow> groups_ok E rows now gs st' G' | None \<Rightarrow> True)
      | _ \<Rightarrow> True)"

lemma op_ok_cong: "graph_tables st' = graph_tables st \<Longrightarrow> op_ok rows st' G x = op_ok rows st G x"
  by (cases x) (simp_all add: graph_tables_def)

text \<open>A group that answers every batch with success has run all of them and committed.\<close>

lemma batches_committed:
  assumes run: "apply_batches E tx groups now st = (map Inr bs, st')" and ne: "groups \<noteq> []"
  obtains st1 where "run_groups E now 0 groups [] (st\<lparr>i_journal := journal_default\<rparr>) = (Inr bs, st1)" "st' = st1\<lparr>i_journal := i_journal st\<rparr>"
  using run ne
proof (cases rule: apply_batches_cases)
  case (committed cs st1)
  from committed(4) have "cs = bs" by (rule sym [OF map_injective]) (simp add: inj_def)
  with committed that show thesis by blast
next
  case (no_tx e)
  then have "Inl (Storage e) \<in> set (map Inr bs)" by (simp add: group_errors_def)
  then show thesis by auto
next
  case (abort idx e st1)
  then have "Inl e \<in> set (map Inr bs)" by (simp add: group_errors_def)
  then show thesis by auto
next
  case (no_commit cs st1 e)
  then have "Inl (Storage e) \<in> set (map Inr bs)" by simp
  then show thesis by auto
qed

context engine
begin

lemma quiet_step:
  fixes st st' :: "('b, 'd, 'l, 'm, 'o, 'z) store_scheme"
  assumes "store_inv E rows mrows st" "represents E rows st G" "quiet f" "keeps f" "f st = (Inr x, st')"
  shows "store_inv E rows mrows st' \<and> represents E rows st' G"
proof -
  have t: "graph_tables st' = graph_tables st" using assms(3,5) by (rule quietD)
  note k = keeps_run [OF assms(4,5) store_invD(1) [OF assms(1)]]
  have "store_inv E rows mrows st'"
    by (rule store_inv_cong [OF assms(1)]) (use k t store_invD(4) [OF assms(1)] in \<open>simp_all add: graph_tables_def\<close>)
  moreover have "represents E rows st' G"
    by (rule represents_cong [OF assms(1,2)]) (use k t in \<open>simp_all add: graph_tables_def\<close>)
  ultimately show ?thesis ..
qed

lemma sim_op:
  fixes st st' :: "('b, 'd, 'l, 'm, 'o, 'z) store_scheme"
  assumes "store_inv E rows mrows st" "represents E rows st G" "apply_op E x st = (Inr (), st')" "op_ok rows st G x"
  shows "\<exists>G'. spec_op (stored_vector E) x G = Some G' \<and> store_inv E rows mrows st' \<and> represents E rows st' G'"
proof (cases x)
  case (CreateNode i sc l ps)
  with assms sim_create_node [OF assms(1,2)] show ?thesis by simp
next
  case (SetNodeProps i ups)
  with assms sim_set_node_props [OF assms(1,2)] show ?thesis by simp
next
  case (SetEmbedding i m v)
  with assms sim_set_embedding [OF assms(1,2)] show ?thesis by simp
next
  case (RemoveNode i)
  with assms sim_remove_node [OF assms(1,2)] show ?thesis by simp
next
  case (CreateEdge i sc ty f t ps vf ra)
  with assms sim_create_edge [OF assms(1,2)] show ?thesis by simp
next
  case (CloseEdge i vt sa)
  with assms sim_close_edge [OF assms(1,2)] show ?thesis by simp
qed (use assms in \<open>simp add: monad_simps\<close>)

lemma sim_one:
  fixes st st' :: "('b, 'd, 'l, 'm, 'o, 'z) store_scheme"
  assumes inv: "store_inv E rows mrows st" and rep: "represents E rows st G" and run: "apply_one E x st = (Inr ed, st')"
    and ok: "op_ok rows st G x"
  shows "\<exists>G'. spec_op (stored_vector E) x G = Some G' \<and> store_inv E rows mrows st' \<and> represents E rows st' G'"
proof -
  from run obtain pre old s1 s2 s3 where u: "unindex_old E old st = (Inr (), s1)" and a: "apply_op E x s1 = (Inr (), s2)"
    and n: "index_new E x s2 = (Inr (), s3)" and c: "collect_edit E (Encoding ''fts edit: node slot missing after CreateNode'') x pre s3 = (Inr ed, st')"
    by (auto simp: apply_one_def mbind_Inr monad_simps)
  note s1 = quiet_step [OF inv rep quiet_index(1) keeps_unindex_old u]
  have "op_ok rows s1 G x" using ok op_ok_cong [OF quietD [OF quiet_index(1) u]] by simp
  then obtain G' where g: "spec_op (stored_vector E) x G = Some G'" and s2: "store_inv E rows mrows s2 \<and> represents E rows s2 G'"
    using sim_op [OF conjunct1 [OF s1] conjunct2 [OF s1] a] by blast
  note s3 = quiet_step [OF conjunct1 [OF s2] conjunct2 [OF s2] quiet_index(2) keeps_index_new n]
  note s4 = quiet_step [OF conjunct1 [OF s3] conjunct2 [OF s3] quiet_index(3) keeps_collect_edit c]
  show ?thesis using g s4 by blast
qed

lemma sim_all:
  fixes st st' :: "('b, 'd, 'l, 'm, 'o, 'z) store_scheme"
  assumes "store_inv E rows mrows st" "represents E rows st G" "apply_all E xs eds st = (Inr eds', st')" "ops_ok E rows xs st G"
  shows "\<exists>G'. spec_ops (stored_vector E) xs G = Some G' \<and> store_inv E rows mrows st' \<and> represents E rows st' G'"
  using assms
proof (induction xs arbitrary: eds st G)
  case (Cons x xs)
  from Cons.prems(3) obtain ed s1 where a: "apply_one E x st = (Inr ed, s1)" and r: "apply_all E xs (eds @ ed) s1 = (Inr eds', st')"
    by (auto simp: mbind_Inr)
  from sim_one [OF Cons.prems(1,2) a] Cons.prems(4) obtain G1 where
    g: "spec_op (stored_vector E) x G = Some G1" and i: "store_inv E rows mrows s1" "represents E rows s1 G1" by auto
  have "ops_ok E rows xs s1 G1" using Cons.prems(4) by (simp add: a g)
  from Cons.IH [OF i r this] g show ?case by simp
qed (simp add: monad_simps)

lemma sim_batch:
  fixes st st' :: "('b, 'd, 'l, 'm, 'o, 'z) store_scheme"
  assumes inv: "store_inv E rows mrows st" and rep: "represents E rows st G"
    and run: "apply_ops_in_txn E now ops st = (Inr b, st')" and ok: "ops_ok E rows (resolved b) st G"
  shows "\<exists>G'. spec_ops (stored_vector E) (resolved b) G = Some G' \<and> store_inv E rows mrows st' \<and> represents E rows st' G'"
proof -
  from run obtain eds s1 s2 fl where a: "apply_all E (resolved b) [] st = (Inr eds, s1)"
    and f: "mfold (apply_fts_edit E) eds s1 = (Inr (), s2)" and l: "append_log E (resolved b) s2 = (Inr fl, st')"
    by (auto simp: apply_ops_in_txn_def mbind_Inr monad_simps split: if_splits)
  from sim_all [OF inv rep a ok] obtain G' where g: "spec_ops (stored_vector E) (resolved b) G = Some G'"
    and i: "store_inv E rows mrows s1" "represents E rows s1 G'" by blast
  note s2 = quiet_step [OF i quiet_mfold [OF quiet_index(4)] keeps_mfold [OF keeps_fts_edit] f]
  from quiet_step [OF conjunct1 [OF s2] conjunct2 [OF s2] quiet_index(5) keeps_append_log l] g show ?thesis by blast
qed

lemma sim_groups:
  fixes st st' :: "('b, 'd, 'l, 'm, 'o, 'z) store_scheme"
  assumes "store_inv E rows mrows st" "represents E rows st G" "run_groups E now idx gs app st = (Inr bs, st')"
    and "groups_ok E rows now gs st G"
  shows "\<exists>cs G'. bs = app @ cs \<and> spec_ops (stored_vector E) (concat (map resolved cs)) G = Some G' \<and>
    store_inv E rows mrows st' \<and> represents E rows st' G'"
  using assms
proof (induction gs arbitrary: idx app st G)
  case (Cons ops gs)
  from Cons.prems(3) obtain b s1 where b: "apply_ops_in_txn E now ops st = (Inr b, s1)"
    and r: "run_groups E now (idx + 1) gs (app @ [b]) s1 = (Inr bs, st')"
    by (auto split: prod.splits sum.splits)
  have ok: "ops_ok E rows (resolved b) st G" using Cons.prems(4) by (simp add: b)
  from sim_batch [OF Cons.prems(1,2) b ok] obtain G1 where g: "spec_ops (stored_vector E) (resolved b) G = Some G1"
    and i: "store_inv E rows mrows s1" "represents E rows s1 G1" by blast
  have "groups_ok E rows now gs s1 G1" using Cons.prems(4) by (simp add: b g)
  from Cons.IH [OF i r this] obtain cs G' where "bs = (app @ [b]) @ cs"
    "spec_ops (stored_vector E) (concat (map resolved cs)) G1 = Some G'" "store_inv E rows mrows st'" "represents E rows st' G'" by blast
  then show ?case using g by (intro exI [of _ "b # cs"]) (simp add: spec_ops_append)
qed simp

lemma journal_irrelevant:
  fixes st :: "('b, 'd, 'l, 'm, 'o, 'z) store_scheme"
  assumes "store_inv E rows mrows st" "represents E rows st G"
  shows "store_inv E rows mrows (st\<lparr>i_journal := j\<rparr>) \<and> represents E rows (st\<lparr>i_journal := j\<rparr>) G"
proof -
  have wf: "interning_wf (st\<lparr>i_journal := j\<rparr>)" using store_invD(1) [OF assms(1)] by (simp add: interning_wf_def)
  have "store_inv E rows mrows (st\<lparr>i_journal := j\<rparr>)"
    by (rule store_inv_cong [OF assms(1) wf]) (use store_invD(4) [OF assms(1)] in simp_all)
  moreover have "represents E rows (st\<lparr>i_journal := j\<rparr>) G"
    by (rule represents_cong [OF assms _ wf]) (simp_all add: grows_def dicts_ext_def registry_ext_def)
  ultimately show ?thesis ..
qed

lemma sim_batches:
  fixes st st' :: "('b, 'd, 'l, 'm, 'o, 'z) store_scheme"
  assumes inv: "store_inv E rows mrows st" and rep: "represents E rows st G"
    and run: "apply_batches E tx groups now st = (map Inr bs, st')"
    and ok: "groups_ok E rows now groups (st\<lparr>i_journal := journal_default\<rparr>) G"
  shows "\<exists>G'. spec_ops (stored_vector E) (concat (map resolved bs)) G = Some G' \<and> store_inv E rows mrows st' \<and> represents E rows st' G'"
proof (cases "groups = []")
  case True
  with run inv rep show ?thesis by (simp add: apply_batches_def)
next
  case False
  note j = journal_irrelevant [OF inv rep, of journal_default]
  from run False obtain st1 where r: "run_groups E now 0 groups [] (st\<lparr>i_journal := journal_default\<rparr>) = (Inr bs, st1)"
    and st': "st' = st1\<lparr>i_journal := i_journal st\<rparr>" by (rule batches_committed)
  from sim_groups [OF conjunct1 [OF j] conjunct2 [OF j] r ok] obtain G' where
    "spec_ops (stored_vector E) (concat (map resolved bs)) G = Some G'" "store_inv E rows mrows st1" "represents E rows st1 G'" by auto
  then show ?thesis using journal_irrelevant st' by blast
qed

end

section \<open>The theorems\<close>

abbreviation empty_graph :: graph where
  "empty_graph \<equiv> \<lparr>g_nodes = Map.empty, g_edges = Map.empty, g_dims = Map.empty\<rparr>"

text \<open>A store whose tables are empty satisfies the invariant and represents the empty graph.\<close>

definition blank_tables :: "('b \<Rightarrow> bytes \<rightharpoonup> bytes) \<Rightarrow> ('m \<Rightarrow> string \<rightharpoonup> bytes) \<Rightarrow> ('b, 'd, 'l, 'm, 'o, 'z) store_scheme \<Rightarrow> bool" where
  "blank_tables rows mrows st \<longleftrightarrow> interning_wf st \<and>
     (\<forall>t \<in> {nodes st, edges st, vector_dims st, embedding_ref st, node_slots st, node_ids st, edge_slots st, edge_ids st, out_adj st, in_adj st}.
        rows t = Map.empty) \<and>
     mrows (meta st) ''next_node_slot'' = None \<and> mrows (meta st) ''next_edge_slot'' = None"

context engine
begin

lemma blank_represents:
  fixes st :: "('b, 'd, 'l, 'm, 'o, 'z) store_scheme"
  assumes "blank_tables rows mrows st"
  shows "store_inv E rows mrows st \<and> represents E rows st empty_graph"
proof -
  have t: "rows (nodes st) = Map.empty" "rows (edges st) = Map.empty" "rows (vector_dims st) = Map.empty"
    "rows (embedding_ref st) = Map.empty" "rows (node_slots st) = Map.empty" "rows (node_ids st) = Map.empty"
    "rows (edge_slots st) = Map.empty" "rows (edge_ids st) = Map.empty" "rows (out_adj st) = Map.empty" "rows (in_adj st) = Map.empty"
    "interning_wf st" "mrows (meta st) ''next_node_slot'' = None" "mrows (meta st) ''next_edge_slot'' = None"
    using assms unfolding blank_tables_def by blast+
  have e: "row_at L S Map.empty = Map.empty" for L :: lz4 and S :: "edge_record_disk_v4 serde" by (simp add: row_at_def fun_eq_iff)
  have i: "index_of sd Map.empty s ty = {#}" for sd s ty by (simp add: index_of_def anchored_def)
  have "store_inv E rows mrows st"
    by (rule store_invI [where n = 0 and k = 0])
       (simp_all add: t slots_inv_def counter_is_def adj_wf_def adj_ms_def chunk_at_def e i)
  moreover have "represents E rows st empty_graph"
    by (simp add: represents_def read_node_def read_edge_def node_slot_def edge_slot_def read_slot_def dims_agree_def bt.get_eq t split: option.split)
  ultimately show ?thesis ..
qed

end

lemma empty_represents:
  "store_inv tree_env RBT.lookup RBT.lookup empty_store" "represents tree_env RBT.lookup empty_store empty_graph"
  using tree.blank_represents [of empty_store] by (simp_all add: blank_tables_def)


lemma created_ok: "op_ok RBT.lookup empty_store empty_graph (CreateNode i sc l [])"
  by simp

lemma apply_created: "\<exists>st'. apply_op tree_env (CreateNode (NodeId 7) Shared ''Memory'' []) empty_store = (Inr (), st')"
  by (simp add: apply_create_node_def run_store)



lemma empty_journal: "empty_store\<lparr>i_journal := journal_default\<rparr> = empty_store"
  by (simp add: empty_store_def)

lemma create_batch:
  "\<exists>b st'. apply_ops_in_txn tree_env 0 [CreateNode (NodeId 7) Shared ''Memory'' []] empty_store = (Inr b, st') \<and>
     resolved b = [CreateNode (NodeId 7) Shared ''Memory'' []]"
proof -
  obtain b st' where run: "apply_ops_in_txn tree_env 0 [CreateNode (NodeId 7) Shared ''Memory'' []] empty_store = (Inr b, st')"
    using tree_create by (metis isl_def prod.collapse sum.collapse(2))
  then have "resolved b = [CreateNode (NodeId 7) Shared ''Memory'' []]"
    by (auto simp: apply_ops_in_txn_def mbind_Inr monad_simps rewrite_upserts_def remap_op_node_ids_def)
  with run show ?thesis by blast
qed


end
