(* ===== verification/Walks.thy ===== *)
theory Walks
  imports Traverse Refinement
begin

text \<open>
  Reads against the abstract graph. In a store that satisfies its invariant and represents a
  graph, rows by slot are the graph's records and the entries of the adjacency tables are its
  edges; a traversal therefore returns, and returns exactly the nodes within the hop bound
  of an in-scope seed along edges that are in scope, of a requested type and alive on the
  requested time axis.
\<close>

section \<open>Adjacency reads do not fail\<close>

context chunk_store_live
begin

lemma slot_keys_live:
  assumes "adj_wf L (rows t)"
  shows "\<exists>keys. slot_chunk_keys T t s = Inr keys"
proof -
  obtain es where es: "trange T t (out_adj_key s 0 0) (out_adj_key s (- 1) (- 1)) = Inr es" using range_live by blast
  have "\<forall>k \<in> set (map fst es). length k = 16" using range_key [OF es] wf_chunk(1) [OF assms] by auto
  then have "rmap_list key_width (map fst es) = Inr (map fst es)" by (simp add: rmap_key_width)
  with es show ?thesis by (auto simp: slot_chunk_keys_def)
qed

lemma rfold_live: "(\<And>x s. x \<in> set xs \<Longrightarrow> \<exists>s'. f x s = Inr s') \<Longrightarrow> \<exists>s'. rfold f xs s = Inr s'"
proof (induction xs arbitrary: s)
  case (Cons x xs)
  from Cons.prems [of x s] obtain s1 where "f x s = Inr s1" by auto
  moreover from Cons.IH [of s1] Cons.prems obtain s2 where "rfold f xs s1 = Inr s2" by auto
  ultimately show ?case by simp
qed simp

lemma read_adj_live:
  assumes wf: "adj_wf L (rows t)"
  shows "\<exists>out. read_adj L T t s tf = Inr out"
proof (cases tf)
  case None
  obtain keys where keys: "slot_chunk_keys T t s = Inr keys" using slot_keys_live [OF wf] by blast
  have "\<exists>out'. read_typed_chunk L T t k out = Inr out'" if "k \<in> set keys" for k out
    using slot_keys(2) [OF wf keys] that by (auto simp: read_typed_chunk_def load_live [OF wf])
  from rfold_live [OF this] keys None show ?thesis by (simp add: read_adj_def)
next
  case (Some tys)
  have "\<exists>out'. rbind (type_chunk_keys T t s ty) (\<lambda>keys. read_chunks L T t ty keys out) = Inr out'" for ty out
  proof -
    obtain keys where keys: "type_chunk_keys T t s ty = Inr keys" using type_keys_live [OF wf] by blast
    have "\<exists>out'. read_chunks L T t ty keys out = Inr out'"
      unfolding read_chunks_def by (rule rfold_live) (simp add: load_live [OF wf])
    with keys show ?thesis by simp
  qed
  from rfold_live [OF this] Some show ?thesis by (simp add: read_adj_def)
qed

end

section \<open>What a traversal should return\<close>

definition edge_live :: "traversal_query \<Rightarrow> valid_interval option \<Rightarrow> i64 \<Rightarrow> edge_record \<Rightarrow> bool" where
  "edge_live q iv t x =
     (case iv of
        Some iv \<Rightarrow> interval_matches iv (e_valid_from x) (e_valid_to x)
      | None \<Rightarrow> (case q_time_axis q of
          Valid \<Rightarrow> valid_at t (e_valid_from x) (e_valid_to x)
        | Recorded \<Rightarrow> recorded_at_time t (e_recorded_at x) (e_superseded_at x)))"

definition visible :: "graph \<Rightarrow> scope_set \<Rightarrow> node_id \<Rightarrow> bool" where
  "visible G scopes i \<longleftrightarrow> (\<exists>r. g_nodes G i = Some r \<and> contains scopes (n_scope r))"

text \<open>One hop from \<open>a\<close> along the edge \<open>x\<close> to \<open>b\<close>.\<close>

definition hop :: "graph \<Rightarrow> traversal_query \<Rightarrow> valid_interval option \<Rightarrow> i64 \<Rightarrow> node_id \<Rightarrow> edge_record \<Rightarrow> node_id \<Rightarrow> bool" where
  "hop G q iv t a x b \<longleftrightarrow>
     g_edges G (e_id x) = Some x \<and> contains (q_scopes q) (e_scope x) \<and> edge_live q iv t x \<and>
     (case q_edge_types q of None \<Rightarrow> True | Some tys \<Rightarrow> e_ty x \<in> set tys) \<and> visible G (q_scopes q) b \<and>
     (q_direction q \<in> {Out, Both} \<and> e_from x = a \<and> e_to x = b \<or> q_direction q \<in> {In, Both} \<and> e_to x = a \<and> e_from x = b)"

primrec within :: "graph \<Rightarrow> traversal_query \<Rightarrow> valid_interval option \<Rightarrow> i64 \<Rightarrow> nat \<Rightarrow> node_id set" where
  "within G q iv t 0 = {i \<in> set (q_seeds q). visible G (q_scopes q) i}"
| "within G q iv t (Suc k) = within G q iv t k \<union> {b. \<exists>a \<in> within G q iv t k. \<exists>x. hop G q iv t a x b}"

fun near :: "side \<Rightarrow> edge_record \<Rightarrow> node_id" where
  "near Outgoing x = e_from x"
| "near Incoming x = e_to x"

fun allowed :: "direction \<Rightarrow> side \<Rightarrow> bool" where
  "allowed dir Outgoing \<longleftrightarrow> dir \<in> {Out, Both}"
| "allowed dir Incoming \<longleftrightarrow> dir \<in> {In, Both}"

lemma hop_side:
  "hop G q iv t a x b \<longleftrightarrow>
     g_edges G (e_id x) = Some x \<and> contains (q_scopes q) (e_scope x) \<and> edge_live q iv t x \<and>
     (case q_edge_types q of None \<Rightarrow> True | Some tys \<Rightarrow> e_ty x \<in> set tys) \<and> visible G (q_scopes q) b \<and>
     (\<exists>sd. allowed (q_direction q) sd \<and> near sd x = a \<and> near (flip sd) x = b)"
proof -
  have "(\<exists>sd. P sd) \<longleftrightarrow> P Outgoing \<or> P Incoming" for P by (metis side.exhaust)
  then show ?thesis by (simp add: hop_def)
qed

section \<open>A snapshot\<close>

locale snapshot = engine E rows mrows
  for E :: "('b, 'd, 'l, 'm, 'o) env" and rows :: "'b \<Rightarrow> bytes \<rightharpoonup> bytes" and mrows :: "'m \<Rightarrow> string \<rightharpoonup> bytes" +
  fixes st :: "('b, 'd, 'l, 'm, 'o, 'z) store_scheme" and G :: graph
  assumes inv: "store_inv E rows mrows st" and rep: "represents E rows st G"
begin

definition node_at :: "u64 \<Rightarrow> node_id \<Rightarrow> bool" where
  "node_at s i \<longleftrightarrow> rows (node_slots st) (id_key (node_u128 i)) = Some (u64_to_le s)"

abbreviation ers :: edge_rows where
  "ers \<equiv> row_at (lz E) (pc_edge E) (rows (edges st))"

definition edge_at :: "u64 \<Rightarrow> edge_record_disk_v4 \<Rightarrow> edge_record \<Rightarrow> bool" where
  "edge_at y d x \<longleftrightarrow> ers y = Some d \<and> g_edges G (e_id x) = Some x \<and> read_edge_by_slot E st y = Inr (Some x) \<and>
     node_at (ed_from d) (e_from x) \<and> node_at (ed_to d) (e_to x) \<and>
     by_id (i_scopes st) (ed_scope d) = Some (e_scope x) \<and> d_ids (dmap (i_dicts st) EdgeType) (ed_ty d) = Some (e_ty x) \<and>
     ed_valid_from d = e_valid_from x \<and> ed_valid_to d = e_valid_to x"

lemma node_slots_inv: "\<exists>n. slots_inv (rows (node_slots st)) (rows (node_ids st)) n"
  using store_invD(2) [OF inv] by blast

lemma edge_slots_inv: "\<exists>n. slots_inv (rows (edge_slots st)) (rows (edge_ids st)) n"
  using store_invD(3) [OF inv] by blast

lemma node_at_inj: "node_at s i \<Longrightarrow> node_at s i' \<Longrightarrow> i = i'"
  using node_slots_inv slots_inv_inj id_collapse(1) unfolding node_at_def by metis

lemma node_at_slot: "node_at s i \<Longrightarrow> node_at s' i \<Longrightarrow> s = s'"
  by (simp add: node_at_def)

lemma node_at_read:
  assumes "node_at s i"
  shows "\<exists>r. g_nodes G i = Some r \<and> read_node_by_slot E st s = Inr (Some r)"
proof -
  obtain n where sl: "slots_inv (rows (node_slots st)) (rows (node_ids st)) n" using node_slots_inv by blast
  have "read_node E st i = Inr (g_nodes G i)" by (rule representsD(1) [OF rep])
  then show ?thesis using assms
    by (cases "g_nodes G i")
       (auto simp: node_at_def read_node_def node_slot_def read_slot_eq [OF sl] rbind_Inr split: option.splits)
qed

lemma node_at_exists: "g_nodes G i = Some r \<Longrightarrow> \<exists>s. node_at s i"
proof -
  assume g: "g_nodes G i = Some r"
  obtain n where sl: "slots_inv (rows (node_slots st)) (rows (node_ids st)) n" using node_slots_inv by blast
  have "read_node E st i = Inr (Some r)" using representsD(1) [OF rep, of i] g by simp
  with sl obtain s b disk where "rows (node_slots st) (id_key (node_u128 i)) = Some (u64_to_le s)" by (rule read_nodeD)
  then show ?thesis by (auto simp: node_at_def)
qed

lemma node_slot_cases:
  obtains (slot) s where "node_at s i" "node_slot (eB E) (node_slots st) i = Inr (Some s)"
  | (none) "\<And>s. \<not> node_at s i" "node_slot (eB E) (node_slots st) i = Inr None"
proof -
  obtain n where sl: "slots_inv (rows (node_slots st)) (rows (node_ids st)) n" using node_slots_inv by blast
  show thesis
  proof (cases "rows (node_slots st) (id_key (node_u128 i))")
    case None
    then show ?thesis using none by (simp add: node_slot_def read_slot_eq [OF sl] node_at_def)
  next
    case (Some b)
    then obtain s where "b = u64_to_le s" using slots_inv_fwd [OF sl] by blast
    with Some slot show ?thesis by (simp add: node_slot_def read_slot_eq [OF sl] node_at_def)
  qed
qed

lemma edge_read_at:
  assumes x: "g_edges G j = Some x"
  shows "\<exists>y d. edge_at y d x \<and> rows (edge_slots st) (id_key (edge_u128 j)) = Some (u64_to_le y)"
proof -
  obtain n where sl: "slots_inv (rows (node_slots st)) (rows (node_ids st)) n" using node_slots_inv by blast
  obtain k where esl: "slots_inv (rows (edge_slots st)) (rows (edge_ids st)) k" using edge_slots_inv by blast
  have rd: "read_edge E st j = Inr (Some x)" using representsD(2) [OF rep, of j] x by simp
  from esl sl rd obtain y d where d: "rows (edge_slots st) (id_key (edge_u128 j)) = Some (u64_to_le y)" "ers y = Some d"
    "edge_from_disk_v4 (eB E) d (i_dicts st) (i_scopes st) (node_ids st) = Inr x"
    "rows (node_ids st) (slot_key (ed_from d)) = Some (id_key (node_u128 (e_from x)))"
    "rows (node_ids st) (slot_key (ed_to d)) = Some (id_key (node_u128 (e_to x)))" by (rule read_edgeD)
  have "read_edge_by_slot E st y = Inr (Some x)"
    using rd d(1) by (auto simp: read_edge_def edge_slot_def read_slot_eq [OF esl] rbind_Inr split: option.splits)
  moreover have "by_id (i_scopes st) (ed_scope d) = Some (e_scope x)" "d_ids (dmap (i_dicts st) EdgeType) (ed_ty d) = Some (e_ty x)"
    "ed_valid_from d = e_valid_from x" "ed_valid_to d = e_valid_to x"
    using d(3) by (auto simp: edge_from_disk_v4_def rbind_Inr resolve_def scope_resolve_def simp del: dmap.simps split: option.splits)
  moreover have "node_at (ed_from d) (e_from x)" "node_at (ed_to d) (e_to x)"
    using slots_inv_rvs [OF sl d(4)] slots_inv_rvs [OF sl d(5)] by (auto simp: node_at_def)
  moreover have "g_edges G (e_id x) = Some x" using representsD(4) [OF rep x] x by simp
  ultimately show ?thesis using d(1,2) unfolding edge_at_def by blast
qed

lemma edge_row_at:
  assumes "ers y = Some d"
  shows "\<exists>x. edge_at y d x"
proof -
  obtain k where esl: "slots_inv (rows (edge_slots st)) (rows (edge_ids st)) k" using edge_slots_inv by blast
  have "rows (edge_ids st) (slot_key y) \<noteq> None" using store_invD(5) [OF inv, of y] assms by simp
  then obtain i where i: "rows (edge_slots st) (id_key i) = Some (u64_to_le y)" using slots_inv_rvs [OF esl] by blast
  have "g_edges G (EdgeId i) \<noteq> None" using no_edge_slot [OF inv rep, of "EdgeId i"] i by force
  then obtain x where "g_edges G (EdgeId i) = Some x" by blast
  from edge_read_at [OF this] obtain y' d' where e: "edge_at y' d' x" "rows (edge_slots st) (id_key i) = Some (u64_to_le y')" by auto
  then have "y' = y" "d' = d" using i assms by (auto simp: edge_at_def)
  then show ?thesis using e(1) by blast
qed

lemma edge_at_unique: "edge_at y d x \<Longrightarrow> edge_at y d' x' \<Longrightarrow> x = x' \<and> d = d'"
  by (auto simp: edge_at_def)

lemma edge_at_slot:
  assumes "edge_at y d x" "edge_at y' d' x"
  shows "y = y'"
proof -
  obtain k where esl: "slots_inv (rows (edge_slots st)) (rows (edge_ids st)) k" using edge_slots_inv by blast
  have own: "rows (edge_slots st) (id_key (edge_u128 (e_id x))) = Some (u64_to_le z)" if "edge_at z c x" for z c
  proof -
    have "rows (edge_ids st) (slot_key z) \<noteq> None" using store_invD(5) [OF inv, of z] that by (simp add: edge_at_def)
    then obtain i where i: "rows (edge_slots st) (id_key i) = Some (u64_to_le z)" using slots_inv_rvs [OF esl] by blast
    have "read_edge E st (EdgeId i) = Inr (Some x)"
      using that i by (simp add: read_edge_def edge_slot_def read_slot_eq [OF esl] edge_at_def)
    then have "g_edges G (EdgeId i) = Some x" using representsD(2) [OF rep] by (metis sum.inject(2))
    then have "e_id x = EdgeId i" by (rule representsD(4) [OF rep])
    then show ?thesis using i by simp
  qed
  show ?thesis using own [OF assms(1)] own [OF assms(2)] by simp
qed

section \<open>Adjacency entries are edges\<close>

lemma sum_list_mem: "(ty, e) \<in># (\<Sum>ty \<leftarrow> tys. image_mset (Pair ty) (f ty)) \<longleftrightarrow> ty \<in> set tys \<and> e \<in># f ty"
  by (induction tys) auto

lemma read_adj_index:
  assumes wf: "adj_wf (lz E) (rows t)" and ms: "\<And>n ty. adj_ms (chunk_at (lz E) (rows t)) n ty = index_of sd ers n ty"
    and run: "read_adj (lz E) (eB E) t s tf = Inr out"
  shows "p \<in> set out \<longleftrightarrow> incident ers sd s p \<and> (case tf of None \<Rightarrow> True | Some tys \<Rightarrow> fst p \<in> set tys)"
proof (cases tf)
  case None
  have "mset out = (\<Sum>ty \<in> UNIV. image_mset (Pair ty) (index_of sd ers s ty))"
    using ch.read_slot_ok [OF wf run [unfolded None]] by (simp add: ms)
  from index_set [OF this] None show ?thesis by simp
next
  case (Some tys)
  have out: "mset out = (\<Sum>ty \<leftarrow> tys. image_mset (Pair ty) (index_of sd ers s ty))"
    using ch.read_types [OF wf run [unfolded Some]] by (simp add: ms)
  have "(ty, e) \<in> set out \<longleftrightarrow> ty \<in> set tys \<and> e \<in># index_of sd ers s ty" for ty e
    by (simp only: set_mset_mset [symmetric] out sum_list_mem)
  then show ?thesis using Some by (cases p) (simp add: index_mem conj_commute)
qed

lemma adj_live: "adj_wf (lz E) (rows t) \<Longrightarrow> \<exists>out. read_adj (lz E) (eB E) t s tf = Inr out"
  by (rule chunk_store_live.read_adj_live [OF chunk_store_live.intro [OF tab lzc]])

lemma edge_at_side: "edge_at y d x \<Longrightarrow> node_at (anchor sd d) (near sd x) \<and> node_at (opposite sd d) (near (flip sd) x)"
  by (cases sd) (simp_all add: edge_at_def)

lemma mem_map_filter: "y \<in> set (List.map_filter f xs) \<longleftrightarrow> (\<exists>x \<in> set xs. f x = Some y)"
  by (induction xs) (auto simp: map_filter_simps split: option.split)

lemma type_filter_mem:
  assumes "edge_at y d x"
  shows "(case type_filter (i_dicts st) names of None \<Rightarrow> True | Some tys \<Rightarrow> ed_ty d \<in> set tys) \<longleftrightarrow>
    (case names of None \<Rightarrow> True | Some ns \<Rightarrow> e_ty x \<in> set ns)"
proof -
  have wf: "dm_wf (dmap (i_dicts st) EdgeType)" using store_invD(1) [OF inv] by (simp only: interning_wf_def dicts_wf_def)
  have t: "d_ids (dmap (i_dicts st) EdgeType) (ed_ty d) = Some (e_ty x)" using assms by (simp only: edge_at_def)
  have names: "d_names (dmap (i_dicts st) EdgeType) n = Some k \<longleftrightarrow> d_ids (dmap (i_dicts st) EdgeType) k = Some n" for n k
    using wf by (simp only: dm_wf_def)
  have own: "id_of (i_dicts st) EdgeType n = Some (ed_ty d) \<longleftrightarrow> n = e_ty x" for n
    unfolding id_of_def names t by auto
  have "ed_ty d \<in> set (List.map_filter (id_of (i_dicts st) EdgeType) ns) \<longleftrightarrow> e_ty x \<in> set ns" for ns
    by (simp only: mem_map_filter own) simp
  then show ?thesis by (cases names) (simp_all add: type_filter_def)
qed

lemma admits_eq:
  assumes y: "edge_at y d x" and e: "e = index_entry sd y d"
  shows "admits E st q iv t e = Inr (contains (q_scopes q) (e_scope x) \<and> edge_live q iv t x \<and> visible G (q_scopes q) (near (flip sd) x))"
proof -
  have sc: "scope_resolve (i_scopes st) (a_scope e) = Inr (e_scope x)"
    using y by (simp add: e index_entry_def edge_at_def scope_resolve_def)
  have g: "hop_gate E st q iv t e = Inr (edge_live q iv t x)"
    using y by (simp add: e index_entry_def edge_at_def hop_gate_def edge_live_def split: option.split time_axis.split)
  obtain r where r: "g_nodes G (near (flip sd) x) = Some r" "read_node_by_slot E st (a_target e) = Inr (Some r)"
    using node_at_read [of "opposite sd d" "near (flip sd) x"] edge_at_side [OF y] by (auto simp: e)
  show ?thesis by (simp add: admits_def sc g r visible_def)
qed

abbreviation cands :: "traversal_query \<Rightarrow> u64 \<Rightarrow> (u32 \<times> adj_entry) list result" where
  "cands q s \<equiv> candidates E st q (type_filter (i_dicts st) (q_edge_types q)) s"

lemma candidates_mem:
  obtains cs where "cands q s = Inr cs"
    "\<And>p. p \<in> set cs \<longleftrightarrow> (\<exists>sd. allowed (q_direction q) sd \<and> incident ers sd s p) \<and>
       (case type_filter (i_dicts st) (q_edge_types q) of None \<Rightarrow> True | Some tys \<Rightarrow> fst p \<in> set tys)"
proof -
  let ?tf = "type_filter (i_dicts st) (q_edge_types q)"
  obtain os where os: "read_adj (lz E) (eB E) (out_adj st) s ?tf = Inr os" using adj_live [OF store_invD(6) [OF inv]] by blast
  obtain js where js: "read_adj (lz E) (eB E) (in_adj st) s ?tf = Inr js" using adj_live [OF store_invD(7) [OF inv]] by blast
  note om = read_adj_index [OF store_invD(6,8) [OF inv] os] and im = read_adj_index [OF store_invD(7,9) [OF inv] js]
  have sides: "(\<exists>sd. P sd) \<longleftrightarrow> P Outgoing \<or> P Incoming" for P by (metis side.exhaust)
  let ?cs = "(if q_direction q \<in> {Out, Both} then os else []) @ (if q_direction q \<in> {In, Both} then js else [])"
  have "cands q s = Inr ?cs" by (simp add: candidates_def os js)
  moreover have "p \<in> set ?cs \<longleftrightarrow> (\<exists>sd. allowed (q_direction q) sd \<and> incident ers sd s p) \<and>
       (case ?tf of None \<Rightarrow> True | Some tys \<Rightarrow> fst p \<in> set tys)" for p
    unfolding sides allowed.simps by (simp only: set_append Un_iff if_distrib [of set] split: if_split) (simp add: om im, blast)
  ultimately show thesis by (rule that)
qed

section \<open>The walk is a breadth-first search\<close>

abbreviation admitted :: "traversal_query \<Rightarrow> valid_interval option \<Rightarrow> i64 \<Rightarrow> (u32 \<times> adj_entry) list \<Rightarrow> (u64 \<times> u64) list" where
  "admitted q iv t cs \<equiv> map (\<lambda>(ty, e). (a_edge e, a_target e)) (filter (\<lambda>(ty, e). admits E st q iv t e = Inr True) cs)"

definition nbrs :: "traversal_query \<Rightarrow> valid_interval option \<Rightarrow> i64 \<Rightarrow> u64 \<Rightarrow> (u64 \<times> u64) list" where
  "nbrs q iv t s = (case cands q s of Inl _ \<Rightarrow> [] | Inr cs \<Rightarrow> admitted q iv t cs)"

abbreviation hops :: "(u64 \<times> u8) list \<Rightarrow> (u64 \<times> nat) list" where
  "hops F \<equiv> map (\<lambda>(s, h). (s, unat h)) F"

lemma scan_is_visit:
  assumes "\<forall>p \<in> set cs. \<exists>ok. admits E st q iv t (snd p) = Inr ok" and "h < 255"
  shows "\<exists>V' S' F'. scan_candidates E st q iv t h cs (V, S, F) = Inr (V', S', F') \<and>
    visit (admitted q iv t cs) (Suc (unat h)) (V, S, hops F) = (V', S', hops F')"
  using assms(1)
proof (induction cs arbitrary: V S F)
  case (Cons p cs)
  obtain ty e where p: "p = (ty, e)" by fastforce
  from Cons.prems p obtain ok where ok: "admits E st q iv t e = Inr ok" by auto
  have u: "unat (h + 1) = Suc (unat h)" using assms(2) by (simp add: word_less_nat_alt unat_word_ariths)
  show ?case
  proof (cases ok)
    case True
    then show ?thesis
      using Cons.IH [of "insert (a_target e) V" "insert (a_edge e) S" "if a_target e \<in> V then F else F @ [(a_target e, h + 1)]"] Cons.prems
      by (simp add: p ok u split: if_splits)
  next
    case False
    then show ?thesis using Cons.IH [of V S F] Cons.prems by (simp add: p ok)
  qed
qed simp

lemma incident_admits:
  assumes "incident ers sd s p"
  obtains d x where "edge_at (a_edge (snd p)) d x" "anchor sd d = s" "ed_ty d = fst p"
    "a_target (snd p) = opposite sd d"
    "admits E st q iv t (snd p) = Inr (contains (q_scopes q) (e_scope x) \<and> edge_live q iv t x \<and> visible G (q_scopes q) (near (flip sd) x))"
proof -
  from assms obtain d where d: "ers (a_edge (snd p)) = Some d" "anchor sd d = s" "ed_ty d = fst p"
    "snd p = index_entry sd (a_edge (snd p)) d" by blast
  from edge_row_at [OF d(1)] obtain x where x: "edge_at (a_edge (snd p)) d x" ..
  have "a_target (snd p) = opposite sd d" using d(4) by (metis a_edge_index_entry(2))
  from that [OF x d(2,3) this admits_eq [OF x d(4)]] show thesis .
qed

lemma cands_admit: "cands q s = Inr cs \<Longrightarrow> \<forall>p \<in> set cs. \<exists>ok. admits E st q iv t (snd p) = Inr ok"
proof
  fix p
  assume cs: "cands q s = Inr cs" and p: "p \<in> set cs"
  obtain cs' where cs': "cands q s = Inr cs'" "\<And>p. p \<in> set cs' \<longleftrightarrow> (\<exists>sd. allowed (q_direction q) sd \<and> incident ers sd s p) \<and>
       (case type_filter (i_dicts st) (q_edge_types q) of None \<Rightarrow> True | Some tys \<Rightarrow> fst p \<in> set tys)"
    using candidates_mem by blast
  then obtain sd where "incident ers sd s p" using cs p by auto
  then show "\<exists>ok. admits E st q iv t (snd p) = Inr ok" by (rule incident_admits) blast
qed

lemma walk_is_bfs:
  assumes "q_max_hops q \<le> 4"
  shows "\<exists>V' S'. walk_loop E st q iv t (type_filter (i_dicts st) (q_edge_types q)) (V, S, F) = Inr (V', S') \<and>
    (bfs_step (nbrs q iv t) (unat (q_max_hops q)))\<^sup>*\<^sup>* (V, S, hops F) (V', S', [])"
proof (induction "(V, S, F)" arbitrary: V S F
    rule: wf_induct_rule [OF wf_measures [of "[\<lambda>(V, S, F). card (- V), \<lambda>(V, S, F). length F]"]])
  case (1 V S F)
  show ?case
  proof (cases F)
    case Nil
    then show ?thesis by simp
  next
    case (Cons p F1)
    obtain s h where p: "p = (s, h)" by fastforce
    show ?thesis
    proof (cases "q_max_hops q \<le> h")
      case True
      then have "unat (q_max_hops q) \<le> unat h" by (simp add: word_le_nat_alt)
      then have "bfs_step (nbrs q iv t) (unat (q_max_hops q)) (V, S, hops F) (V, S, hops F1)" by (simp add: Cons p skip)
      moreover have "((V, S, F1), (V, S, F)) \<in> measures [\<lambda>(V, S, F). card (- V), \<lambda>(V, S, F). length F]" by (simp add: Cons)
      ultimately show ?thesis using "1.hyps" [of V S F1] True by (auto simp: Cons p intro: converse_rtranclp_into_rtranclp)
    next
      case False
      then have h: "unat h < unat (q_max_hops q)" "h < 255" using assms by unat_arith+
      obtain cs where cs: "cands q s = Inr cs" by (rule candidates_mem)
      from scan_is_visit [OF cands_admit [OF cs] h(2)] obtain V' S' F' where
        scan: "scan_candidates E st q iv t h cs (V, S, F1) = Inr (V', S', F')"
        and vis: "visit (admitted q iv t cs) (Suc (unat h)) (V, S, hops F1) = (V', S', hops F')" by blast
      have "bfs_step (nbrs q iv t) (unat (q_max_hops q)) (V, S, hops F) (V', S', hops F')"
        using expand [of "unat h" "unat (q_max_hops q)" "nbrs q iv t" V S s "hops F1"] h(1) vis by (simp add: Cons p nbrs_def cs)
      moreover have "((V', S', F'), (V, S, F)) \<in> measures [\<lambda>(V, S, F). card (- V), \<lambda>(V, S, F). length F]"
        using scan_measure [OF scan] by (auto simp: Cons)
      ultimately show ?thesis using "1.hyps" [of V' S' F'] False scan cs by (auto simp: Cons p intro: converse_rtranclp_into_rtranclp)
    qed
  qed
qed

section \<open>Slots and ids\<close>

lemma nbrs_hop:
  assumes i: "node_at s i"
  shows "(y, s') \<in> set (nbrs q iv t s) \<longleftrightarrow> (\<exists>x d b. edge_at y d x \<and> node_at s' b \<and> hop G q iv t i x b)"
proof -
  obtain cs where cs: "cands q s = Inr cs" "\<And>p. p \<in> set cs \<longleftrightarrow> (\<exists>sd. allowed (q_direction q) sd \<and> incident ers sd s p) \<and>
       (case type_filter (i_dicts st) (q_edge_types q) of None \<Rightarrow> True | Some tys \<Rightarrow> fst p \<in> set tys)"
    using candidates_mem by blast
  have mem: "(y, s') \<in> set (nbrs q iv t s) \<longleftrightarrow>
      (\<exists>p \<in> set cs. a_edge (snd p) = y \<and> a_target (snd p) = s' \<and> admits E st q iv t (snd p) = Inr True)"
    by (force simp: nbrs_def cs(1))
  show ?thesis
  proof
    assume "(y, s') \<in> set (nbrs q iv t s)"
    then obtain p sd where p: "a_edge (snd p) = y" "a_target (snd p) = s'" "admits E st q iv t (snd p) = Inr True"
      and sd: "allowed (q_direction q) sd" "incident ers sd s p"
      and ty: "case type_filter (i_dicts st) (q_edge_types q) of None \<Rightarrow> True | Some tys \<Rightarrow> fst p \<in> set tys"
      using mem cs(2) by blast
    from sd(2) obtain d x where x: "edge_at (a_edge (snd p)) d x" "anchor sd d = s" "ed_ty d = fst p" "a_target (snd p) = opposite sd d"
      "admits E st q iv t (snd p) = Inr (contains (q_scopes q) (e_scope x) \<and> edge_live q iv t x \<and> visible G (q_scopes q) (near (flip sd) x))"
      by (rule incident_admits)
    have n: "near sd x = i" "node_at s' (near (flip sd) x)"
      using edge_at_side [OF x(1), of sd] node_at_inj [OF i] x(2,4) p(2) by auto
    have "g_edges G (e_id x) = Some x" using x(1) by (simp only: edge_at_def)
    moreover have "contains (q_scopes q) (e_scope x)" "edge_live q iv t x" "visible G (q_scopes q) (near (flip sd) x)"
      using x(5) p(3) by simp_all
    moreover have "case q_edge_types q of None \<Rightarrow> True | Some tys \<Rightarrow> e_ty x \<in> set tys"
      using ty type_filter_mem [OF x(1), of "q_edge_types q"] by (simp only: x(3))
    ultimately have "hop G q iv t i x (near (flip sd) x)" unfolding hop_side using n(1) sd(1) by blast
    then show "\<exists>x d b. edge_at y d x \<and> node_at s' b \<and> hop G q iv t i x b" using x(1) p(1) n(2) by blast
  next
    assume "\<exists>x d b. edge_at y d x \<and> node_at s' b \<and> hop G q iv t i x b"
    then obtain x d b where x: "edge_at y d x" and b: "node_at s' b" and h: "hop G q iv t i x b" by blast
    from h [unfolded hop_side] obtain sd where sd: "allowed (q_direction q) sd" "near sd x = i" "near (flip sd) x = b" by blast
    have an: "anchor sd d = s" "opposite sd d = s'"
      using edge_at_side [OF x, of sd] node_at_slot [OF _ i] node_at_slot [OF _ b] sd(2,3) by auto
    let ?p = "(ed_ty d, index_entry sd y d)"
    have "incident ers sd s ?p" using x an by (simp add: edge_at_def)
    moreover have "case type_filter (i_dicts st) (q_edge_types q) of None \<Rightarrow> True | Some tys \<Rightarrow> fst ?p \<in> set tys"
      using type_filter_mem [OF x, of "q_edge_types q"] h by (simp only: fst_conv hop_def)
    ultimately have "?p \<in> set cs" unfolding cs(2) using sd(1) by blast
    moreover have "admits E st q iv t (snd ?p) = Inr True"
      using admits_eq [OF x refl, of q iv t sd] h sd(3) by (simp add: hop_def)
    ultimately show "(y, s') \<in> set (nbrs q iv t s)" using mem an by force
  qed
qed

lemma visible_at: "visible G scopes i \<Longrightarrow> \<exists>s. node_at s i"
  using node_at_exists by (auto simp: visible_def)

lemma within_visible: "i \<in> within G q iv t k \<Longrightarrow> visible G (q_scopes q) i"
  by (induction k) (auto simp: hop_def)

lemma reach_within:
  "s \<in> bounded_bfs.reach (nbrs q iv t) {s. \<exists>i \<in> within G q iv t 0. node_at s i} k \<longleftrightarrow> (\<exists>i \<in> within G q iv t k. node_at s i)"
proof (induction k arbitrary: s)
  case 0
  show ?case by (simp add: bounded_bfs.reach.simps)
next
  case (Suc k)
  let ?R = "bounded_bfs.reach (nbrs q iv t) {s. \<exists>i \<in> within G q iv t 0. node_at s i} k"
  have "(\<exists>a \<in> ?R. \<exists>e. (e, s) \<in> set (nbrs q iv t a)) \<longleftrightarrow> (\<exists>i \<in> within G q iv t k. \<exists>x b. hop G q iv t i x b \<and> node_at s b)"
  proof
    assume "\<exists>a \<in> ?R. \<exists>e. (e, s) \<in> set (nbrs q iv t a)"
    then obtain a e i where "(e, s) \<in> set (nbrs q iv t a)" "i \<in> within G q iv t k" "node_at a i" using Suc.IH by blast
    then show "\<exists>i \<in> within G q iv t k. \<exists>x b. hop G q iv t i x b \<and> node_at s b" using nbrs_hop by blast
  next
    assume "\<exists>i \<in> within G q iv t k. \<exists>x b. hop G q iv t i x b \<and> node_at s b"
    then obtain i x b where i: "i \<in> within G q iv t k" and x: "hop G q iv t i x b" "node_at s b" by blast
    obtain a where a: "node_at a i" using visible_at [OF within_visible [OF i]] by blast
    have "g_edges G (e_id x) = Some x" using x(1) by (simp only: hop_def)
    then obtain y d where "edge_at y d x" using edge_read_at by blast
    then have "(y, s) \<in> set (nbrs q iv t a)" using nbrs_hop [OF a] x by blast
    then show "\<exists>a \<in> ?R. \<exists>e. (e, s) \<in> set (nbrs q iv t a)" using Suc.IH a i by blast
  qed
  then show ?case using Suc.IH by (simp add: bounded_bfs.reach.simps) blast
qed

lemma seed_walk_eq:
  "\<exists>V' F'. seed_walk E st q seeds (V, F) = Inr (V', F') \<and>
     V' = V \<union> {s. \<exists>i \<in> set seeds. visible G (q_scopes q) i \<and> node_at s i} \<and> set F' = set F \<union> (V' - V) \<times> {0}"
proof (induction seeds arbitrary: V F)
  case (Cons i seeds)
  show ?case
  proof (cases i rule: node_slot_cases)
    case none
    then show ?thesis using Cons.IH [of V F] by auto
  next
    case (slot s)
    obtain r where r: "g_nodes G i = Some r" "read_node_by_slot E st s = Inr (Some r)" using node_at_read [OF slot(1)] by blast
    have one: "{s'. node_at s' i} = {s}" using slot(1) node_at_slot by blast
    show ?thesis
    proof (cases "contains (q_scopes q) (n_scope r)")
      case True
      then have v: "visible G (q_scopes q) i" using r by (simp add: visible_def)
      from Cons.IH [of "insert s V" "if s \<in> V then F else F @ [(s, 0)]"] obtain V' F' where
        "seed_walk E st q seeds (insert s V, if s \<in> V then F else F @ [(s, 0)]) = Inr (V', F')"
        "V' = insert s V \<union> {s. \<exists>i \<in> set seeds. visible G (q_scopes q) i \<and> node_at s i}"
        "set F' = set (if s \<in> V then F else F @ [(s, 0)]) \<union> (V' - insert s V) \<times> {0}" by blast
      then show ?thesis using slot r True v one by (auto simp: insert_absorb split: if_splits)
    next
      case False
      then have "\<not> visible G (q_scopes q) i" using r by (simp add: visible_def)
      then show ?thesis using Cons.IH [of V F] slot r False by auto
    qed
  qed
qed simp

section \<open>The result\<close>

lemma collect_nodes_eq:
  assumes "\<And>s. s \<in> set ss \<Longrightarrow> \<exists>i \<in> I. node_at s i" and "distinct ss"
  shows "\<exists>ns. collect_nodes E st ss = Inr ns \<and> distinct (map n_id ns) \<and>
    set ns = {r. \<exists>i \<in> I. \<exists>s \<in> set ss. node_at s i \<and> g_nodes G i = Some r}"
  using assms
proof (induction ss)
  case (Cons s ss)
  from Cons.IH Cons.prems obtain ns where ns: "collect_nodes E st ss = Inr ns" "distinct (map n_id ns)"
    "set ns = {r. \<exists>i \<in> I. \<exists>s \<in> set ss. node_at s i \<and> g_nodes G i = Some r}" by auto
  from Cons.prems(1) [of s] obtain i where i: "i \<in> I" "node_at s i" by auto
  obtain r where r: "g_nodes G i = Some r" "read_node_by_slot E st s = Inr (Some r)" using node_at_read [OF i(2)] by blast
  have "n_id r \<notin> n_id ` set ns"
  proof
    assume "n_id r \<in> n_id ` set ns"
    then obtain r' i' s' where "n_id r' = n_id r" "s' \<in> set ss" "node_at s' i'" "g_nodes G i' = Some r'" using ns(3) by auto
    moreover from this have "i' = i" using representsD(3) [OF rep] r(1) by metis
    ultimately show False using node_at_slot [OF i(2)] Cons.prems(2) by auto
  qed
  moreover have "set (r # ns) = {r. \<exists>i \<in> I. \<exists>s' \<in> set (s # ss). node_at s' i \<and> g_nodes G i = Some r}"
  proof -
    have one: "r' = r \<longleftrightarrow> (\<exists>i \<in> I. node_at s i \<and> g_nodes G i = Some r')" for r'
    proof
      assume "\<exists>i \<in> I. node_at s i \<and> g_nodes G i = Some r'"
      then obtain j where "node_at s j" "g_nodes G j = Some r'" by blast
      then show "r' = r" using node_at_inj [OF i(2), of j] r(1) by simp
    qed (use i r(1) in blast)
    have "x \<in> set (r # ns) \<longleftrightarrow> (\<exists>i \<in> I. \<exists>s' \<in> set (s # ss). node_at s' i \<and> g_nodes G i = Some x)" for x
      by (simp add: one ns(3)) blast
    then show ?thesis by blast
  qed
  ultimately show ?case using ns(1,2) r(2) by (intro exI [of _ "r # ns"]) simp
qed simp

lemma collect_edges_eq:
  assumes "\<And>y. y \<in> set ys \<Longrightarrow> \<exists>d x. edge_at y d x" and "distinct ys"
  shows "\<exists>es. collect_edges E st ys = Inr es \<and> distinct (map e_id es) \<and> set es = {x. \<exists>y \<in> set ys. \<exists>d. edge_at y d x}"
  using assms
proof (induction ys)
  case (Cons y ys)
  from Cons.IH Cons.prems obtain es where es: "collect_edges E st ys = Inr es" "distinct (map e_id es)"
    "set es = {x. \<exists>y \<in> set ys. \<exists>d. edge_at y d x}" by auto
  from Cons.prems(1) [of y] obtain d x where x: "edge_at y d x" by auto
  have "e_id x \<notin> e_id ` set es"
  proof
    assume "e_id x \<in> e_id ` set es"
    then obtain x' y' d' where x': "e_id x' = e_id x" "y' \<in> set ys" "edge_at y' d' x'" using es(3) by auto
    then have "x' = x" using x by (auto simp: edge_at_def)
    then show False using edge_at_slot [OF x] x' Cons.prems(2) by auto
  qed
  moreover have "set (x # es) = {x. \<exists>y' \<in> set (y # ys). \<exists>d. edge_at y' d x}"
  proof -
    have one: "x' = x \<longleftrightarrow> (\<exists>d. edge_at y d x')" for x'
    proof
      assume "\<exists>d. edge_at y d x'"
      then obtain d' where "edge_at y d' x'" ..
      from edge_at_unique [OF x this] show "x' = x" by simp
    qed (use x in blast)
    have "x' \<in> set (x # es) \<longleftrightarrow> (\<exists>y' \<in> set (y # ys). \<exists>d. edge_at y' d x')" for x'
      by (simp add: one es(3))
    then show ?thesis by blast
  qed
  moreover have "read_edge_by_slot E st y = Inr (Some x)" using x by (simp only: edge_at_def)
  ultimately show ?case using es(1,2) by (intro exI [of _ "x # es"]) simp
qed simp

lemma traverse_exact:
  assumes t: "t = unwrap_or now (q_as_of q)" and hops: "q_max_hops q \<noteq> 0" "q_max_hops q \<le> 4" and ord: "\<And>S. set (order S) = S" "\<And>S. distinct (order S)"
  shows "\<exists>sg. traverse_read E order (Inr ()) now st q iv = Inr sg \<and>
    set (sg_nodes sg) = {r. \<exists>i \<in> within G q iv t (unat (q_max_hops q)). g_nodes G i = Some r} \<and>
    set (sg_edges sg) = {x. \<exists>k < unat (q_max_hops q). \<exists>a \<in> within G q iv t k. \<exists>b. hop G q iv t a x b} \<and>
    distinct (map n_id (sg_nodes sg)) \<and> distinct (map e_id (sg_edges sg))"
proof -
  let ?tf = "type_filter (i_dicts st) (q_edge_types q)" and ?H = "unat (q_max_hops q)"
  define S0 where "S0 = {s. \<exists>i \<in> within G q iv t 0. node_at s i}"
  have s0: "{} \<union> {s. \<exists>i \<in> set (q_seeds q). visible G (q_scopes q) i \<and> node_at s i} = S0" by (auto simp: S0_def)
  from seed_walk_eq [of q "q_seeds q" "{}" "[]", unfolded s0] obtain F where
    seed: "seed_walk E st q (q_seeds q) ({}, []) = Inr (S0, F)" and F: "set F = S0 \<times> {0}" by auto
  from walk_is_bfs [OF hops(2), of iv t S0 "{}" F] obtain V S where
    walk: "walk_loop E st q iv t ?tf (S0, {}, F) = Inr (V, S)"
    and run: "(bfs_step (nbrs q iv t) ?H)\<^sup>*\<^sup>* (S0, {}, hops F) (V, S, [])" by blast
  have "p \<in> set (hops F) \<longleftrightarrow> fst p \<in> S0 \<and> snd p = 0" for p using F by (cases p) force
  note res = bounded_bfs.bfs_result [OF run this]
  have V: "s \<in> V \<longleftrightarrow> (\<exists>i \<in> within G q iv t ?H. node_at s i)" for s unfolding res(1) S0_def by (rule reach_within)
  have S: "y \<in> S \<longleftrightarrow> (\<exists>k < ?H. \<exists>a \<in> within G q iv t k. \<exists>x b d. hop G q iv t a x b \<and> edge_at y d x)" for y
  proof
    assume "y \<in> S"
    then obtain s s' k a where "k < ?H" "a \<in> within G q iv t k" "node_at s a" "(y, s') \<in> set (nbrs q iv t s)"
      unfolding res(2) S0_def using reach_within by blast
    then show "\<exists>k < ?H. \<exists>a \<in> within G q iv t k. \<exists>x b d. hop G q iv t a x b \<and> edge_at y d x" using nbrs_hop by blast
  next
    assume "\<exists>k < ?H. \<exists>a \<in> within G q iv t k. \<exists>x b d. hop G q iv t a x b \<and> edge_at y d x"
    then obtain k a x b d where k: "k < ?H" "a \<in> within G q iv t k" "hop G q iv t a x b" "edge_at y d x" by blast
    obtain s where s: "node_at s a" using visible_at [OF within_visible [OF k(2)]] by blast
    have "visible G (q_scopes q) b" using k(3) by (simp only: hop_def)
    then obtain s' where "node_at s' b" using visible_at by blast
    then have "(y, s') \<in> set (nbrs q iv t s)" using nbrs_hop [OF s] k by blast
    then show "y \<in> S" unfolding res(2) S0_def using reach_within k s by blast
  qed
  have oV: "\<And>s. s \<in> set (order V) \<Longrightarrow> \<exists>i \<in> within G q iv t ?H. node_at s i" by (simp only: ord V)
  from collect_nodes_eq [OF oV ord(2), unfolded ord(1)] obtain ns where
    ns: "collect_nodes E st (order V) = Inr ns" "distinct (map n_id ns)"
      "set ns = {r. \<exists>i \<in> within G q iv t ?H. \<exists>s \<in> V. node_at s i \<and> g_nodes G i = Some r}" by blast
  have oS: "\<And>y. y \<in> set (order S) \<Longrightarrow> \<exists>d x. edge_at y d x" unfolding ord(1) S by blast
  from collect_edges_eq [OF oS ord(2), unfolded ord(1)] obtain es where
    es: "collect_edges E st (order S) = Inr es" "distinct (map e_id es)" "set es = {x. \<exists>y \<in> S. \<exists>d. edge_at y d x}" by blast
  have "set ns = {r. \<exists>i \<in> within G q iv t ?H. g_nodes G i = Some r}"
    unfolding ns(3) using V visible_at [OF within_visible] by blast
  moreover have "set es = {x. \<exists>k < ?H. \<exists>a \<in> within G q iv t k. \<exists>b. hop G q iv t a x b}"
  proof -
    have "(\<exists>y \<in> S. \<exists>d. edge_at y d x) \<longleftrightarrow> (\<exists>k < ?H. \<exists>a \<in> within G q iv t k. \<exists>b. hop G q iv t a x b)" for x
    proof
      assume "\<exists>y \<in> S. \<exists>d. edge_at y d x"
      then obtain y d k a x' b d' where "edge_at y d x" "k < ?H" "a \<in> within G q iv t k" "hop G q iv t a x' b" "edge_at y d' x'"
        using S by blast
      moreover from this have "x' = x" using edge_at_unique by blast
      ultimately show "\<exists>k < ?H. \<exists>a \<in> within G q iv t k. \<exists>b. hop G q iv t a x b" by blast
    next
      assume "\<exists>k < ?H. \<exists>a \<in> within G q iv t k. \<exists>b. hop G q iv t a x b"
      then obtain k a b where k: "k < ?H" "a \<in> within G q iv t k" "hop G q iv t a x b" by blast
      have "g_edges G (e_id x) = Some x" using k(3) by (simp only: hop_def)
      then obtain y d where "edge_at y d x" using edge_read_at by blast
      then show "\<exists>y \<in> S. \<exists>d. edge_at y d x" using S k by blast
    qed
    then show ?thesis unfolding es(3) by simp
  qed
  moreover have "traverse_read E order (Inr ()) now st q iv = Inr \<lparr>sg_nodes = ns, sg_edges = es\<rparr>"
    using hops by (simp add: linorder_not_less traverse_read_def Let_def t [symmetric] seed walk ns es)
  ultimately show ?thesis using ns(2) es(2) by simp
qed

end

section \<open>Traversals\<close>

interpretation blank: snapshot tree_env RBT.lookup RBT.lookup empty_store empty_graph
  by (intro snapshot.intro tree.engine_axioms snapshot_axioms.intro empty_represents)

text \<open>C8. A traversal terminates, never fails on a sound store, and returns exactly what it should: with a
  hop bound between 1 and 4, the nodes are the in-scope nodes within that many hops of an in-scope seed, and
  the edges are those leaving a node strictly inside the bound, along edges in scope, of a requested type,
  in a requested direction and alive on the requested time axis, each once. Marking a slot when it is
  queued loses nothing.\<close>

theorem traverse_correct:
  fixes st :: "('b, 'd, 'l, 'm, 'o, 'z) store_scheme"
  assumes "engine E rows mrows" and "store_inv E rows mrows st" and "represents E rows st G"
    and "q_max_hops q \<noteq> 0" and "q_max_hops q \<le> 4" and "\<And>S. set (order S) = S" and "\<And>S. distinct (order S)"
    and "t = unwrap_or now (q_as_of q)"
  shows "\<exists>sg. traverse_read E order (Inr ()) now st q iv = Inr sg \<and>
    set (sg_nodes sg) = {r. \<exists>i \<in> within G q iv t (unat (q_max_hops q)). g_nodes G i = Some r} \<and>
    set (sg_edges sg) = {x. \<exists>k < unat (q_max_hops q). \<exists>a \<in> within G q iv t k. \<exists>b. hop G q iv t a x b} \<and>
    distinct (map n_id (sg_nodes sg)) \<and> distinct (map e_id (sg_edges sg))"
proof -
  have "snapshot E rows mrows st G" using assms(1-3) by (intro snapshot.intro snapshot_axioms.intro)
  from snapshot.traverse_exact [OF this assms(8,4,5,6,7)] show ?thesis .
qed

definition example_query :: traversal_query where
  "example_query = \<lparr>q_scopes = with_shared (scope_set_of []), q_seeds = [NodeId 7], q_max_hops = 1, q_edge_types = None,
     q_direction = Both, q_as_of = None, q_time_axis = Valid\<rparr>"

lemma example_snapshot:
  "\<exists>st G. store_inv tree_env RBT.lookup RBT.lookup (st :: tree_store) \<and> represents tree_env RBT.lookup st G \<and>
     g_edges G = Map.empty \<and>
     g_nodes G = [NodeId 7 \<mapsto> \<lparr>n_id = NodeId 7, n_scope = Shared, n_label = ''Memory'', n_props = [], n_embedding = None\<rparr>]"
proof -
  from apply_created obtain st where run: "apply_op tree_env (CreateNode (NodeId 7) Shared ''Memory'' []) empty_store = (Inr (), st)" ..
  from tree.sim_op [OF empty_represents run created_ok] obtain G where "store_inv tree_env RBT.lookup RBT.lookup st"
    "represents tree_env RBT.lookup st G" "spec_op (stored_vector tree_env) (CreateNode (NodeId 7) Shared ''Memory'' []) empty_graph = Some G" by blast
  then show ?thesis by (intro exI [of _ st] exI [of _ G]) auto
qed

lemma example_within:
  assumes "g_edges G = Map.empty"
    and "g_nodes G = [NodeId 7 \<mapsto> \<lparr>n_id = NodeId 7, n_scope = Shared, n_label = ''Memory'', n_props = [], n_embedding = None\<rparr>]"
  shows "\<not> hop G example_query None 5 a x b" "within G example_query None 5 (unat (q_max_hops example_query)) = {NodeId 7}"
proof -
  show h: "\<not> hop G example_query None 5 a x b" for a x b by (simp add: hop_def assms(1))
  show "within G example_query None 5 (unat (q_max_hops example_query)) = {NodeId 7}"
  proof -
    have q: "unat (q_max_hops example_query) = 1" "q_seeds example_query = [NodeId 7]" by (simp_all add: example_query_def)
    have "visible G (q_scopes example_query) (NodeId 7)" by (simp add: visible_def assms(2) example_query_def)
    then show ?thesis by (auto simp: q h)
  qed
qed

lemma example_facts: "q_max_hops example_query \<noteq> 0" "q_max_hops example_query \<le> 4" "5 = unwrap_or 5 (q_as_of example_query)"
  by (simp_all add: example_query_def unwrap_or_def)

lemma example_traversal:
  "\<exists>(st :: tree_store) sg. traverse_read tree_env sorted_list_of_set (Inr ()) 5 st example_query None = Inr sg \<and>
     n_id ` set (sg_nodes sg) = {NodeId 7}"
proof -
  from example_snapshot obtain st :: tree_store and G where s: "store_inv tree_env RBT.lookup RBT.lookup st" "represents tree_env RBT.lookup st G"
    and G: "g_edges G = Map.empty"
      "g_nodes G = [NodeId 7 \<mapsto> \<lparr>n_id = NodeId 7, n_scope = Shared, n_label = ''Memory'', n_props = [], n_embedding = None\<rparr>]" by blast
  have "snapshot tree_env RBT.lookup RBT.lookup st G" using s tree.engine_axioms by (intro snapshot.intro snapshot_axioms.intro)
  from snapshot.traverse_exact [OF this example_facts(3,1,2), of sorted_list_of_set None] obtain sg where
    sg: "traverse_read tree_env sorted_list_of_set (Inr ()) 5 st example_query None = Inr sg"
      "set (sg_nodes sg) = {r. \<exists>i \<in> {NodeId 7}. g_nodes G i = Some r}" unfolding example_within(2) [OF G] by auto
  then have "n_id ` set (sg_nodes sg) = {NodeId 7}" by (auto simp: G(2))
  with sg(1) show ?thesis by blast
qed

theorem traverse_correct_witness:
  "\<exists>(st :: tree_store) sg. traverse_read tree_env sorted_list_of_set (Inr ()) 5 st example_query None = Inr sg \<and>
     n_id ` set (sg_nodes sg) = {NodeId 7} \<and> sg_edges sg = []"
proof -
  from example_snapshot obtain st :: tree_store and G where s: "store_inv tree_env RBT.lookup RBT.lookup st" "represents tree_env RBT.lookup st G"
    and G: "g_edges G = Map.empty"
      "g_nodes G = [NodeId 7 \<mapsto> \<lparr>n_id = NodeId 7, n_scope = Shared, n_label = ''Memory'', n_props = [], n_embedding = None\<rparr>]" by blast
  from traverse_correct [OF tree.engine_axioms s example_facts(1,2) _ _ example_facts(3), of sorted_list_of_set None] obtain sg where
    sg: "traverse_read tree_env sorted_list_of_set (Inr ()) 5 st example_query None = Inr sg"
      "set (sg_nodes sg) = {r. \<exists>i \<in> {NodeId 7}. g_nodes G i = Some r}" "set (sg_edges sg) = {}"
    unfolding example_within(2) [OF G] by (auto simp: example_within(1) [OF G])
  then have "n_id ` set (sg_nodes sg) = {NodeId 7}" by (auto simp: G(2))
  with sg(1,3) show ?thesis by (intro exI [of _ st] exI [of _ sg]) simp
qed

section \<open>Scopes\<close>

text \<open>Every slot marked by a walk reads as an in-scope node.\<close>

definition scoped :: "('b, 'd, 'l, 'm, 'o) env \<Rightarrow> ('b, 'd, 'l, 'm, 'o, 'z) store_scheme \<Rightarrow> scope_set \<Rightarrow> u64 set \<Rightarrow> bool" where
  "scoped E st scopes V \<longleftrightarrow> (\<forall>s \<in> V. \<exists>r. read_node_by_slot E st s = Inr (Some r) \<and> contains scopes (n_scope r))"

lemma admits_scoped:
  "admits E st q iv t e = Inr True \<Longrightarrow> \<exists>r. read_node_by_slot E st (a_target e) = Inr (Some r) \<and> contains (q_scopes q) (n_scope r)"
  by (auto simp: admits_def rbind_Inr split: if_splits option.splits)

lemma scan_scoped:
  assumes "scan_candidates E st q iv t h cs (V, S, F) = Inr (V', S', F')" "scoped E st (q_scopes q) V"
  shows "scoped E st (q_scopes q) V'"
  using assms
proof (induction cs arbitrary: V S F)
  case (Cons p cs)
  obtain ty e where p: "p = (ty, e)" by fastforce
  from Cons.prems(1) obtain ok where ok: "admits E st q iv t e = Inr ok" by (auto simp: p rbind_Inr)
  show ?case
  proof (cases ok)
    case True
    have "scoped E st (q_scopes q) (insert (a_target e) V)" using admits_scoped ok True Cons.prems(2) by (auto simp: scoped_def)
    with Cons.IH Cons.prems(1) ok True show ?thesis by (auto simp: p)
  next
    case False
    with Cons.IH Cons.prems ok show ?thesis by (auto simp: p)
  qed
qed simp

lemma walk_scoped:
  "walk_loop E st q iv t tf w = Inr (V', S') \<Longrightarrow> scoped E st (q_scopes q) (fst w) \<Longrightarrow> scoped E st (q_scopes q) V'"
proof (induction E st q iv t tf w rule: walk_loop.induct)
  case (2 E st q iv t tf V S s h F)
  show ?case
  proof (cases "q_max_hops q \<le> h")
    case True
    with 2 show ?thesis by simp
  next
    case False
    with "2.prems"(1) obtain cs w' where cs: "candidates E st q tf s = Inr cs"
      and w: "scan_candidates E st q iv t h cs (V, S, F) = Inr w'" "walk_loop E st q iv t tf w' = Inr (V', S')"
      by (auto simp: rbind_Inr)
    obtain V1 S1 F1 where w': "w' = (V1, S1, F1)" by (cases w')
    show ?thesis using "2.IH"(2) [OF False cs w(1,2)] scan_scoped [OF w(1) [unfolded w']] "2.prems"(2) by (simp add: w')
  qed
qed simp

lemma seed_scoped:
  "seed_walk E st q seeds (V, F) = Inr (V', F') \<Longrightarrow> scoped E st (q_scopes q) V \<Longrightarrow> scoped E st (q_scopes q) V'"
proof (induction seeds arbitrary: V F)
  case (Cons i seeds)
  from Cons.prems(1) obtain o' where o': "node_slot (eB E) (node_slots st) i = Inr o'" by (auto simp: rbind_Inr)
  show ?case
  proof (cases o')
    case None
    with Cons o' show ?thesis by simp
  next
    case (Some s)
    with Cons.prems(1) o' obtain r where r: "read_node_by_slot E st s = Inr r" by (auto simp: rbind_Inr)
    show ?thesis
    proof (cases "\<exists>rec. r = Some rec \<and> contains (q_scopes q) (n_scope rec) \<and> s \<notin> V")
      case True
      then have "scoped E st (q_scopes q) (insert s V)" using r Cons.prems(2) by (auto simp: scoped_def)
      with Cons.IH [of "insert s V" "F @ [(s, 0)]"] Cons.prems(1) o' Some r True show ?thesis by auto
    next
      case False
      with Cons.IH [of V F] Cons.prems o' Some r show ?thesis by (cases r) auto
    qed
  qed
qed simp

lemma collect_scoped:
  "collect_nodes E st ss = Inr ns \<Longrightarrow> scoped E st scopes (set ss) \<Longrightarrow> r \<in> set ns \<Longrightarrow> contains scopes (n_scope r)"
  by (induction E st ss arbitrary: ns rule: collect_nodes.induct)
     (auto simp: rbind_Inr scoped_def split: option.splits)



section \<open>Edge listings\<close>

fun gate_pass :: "edge_gate \<Rightarrow> edge_record \<Rightarrow> bool" where
  "gate_pass (OpenOnly open_only axis) x \<longleftrightarrow>
     (open_only \<longrightarrow> (case axis of Valid \<Rightarrow> e_valid_to x = None | Recorded \<Rightarrow> e_superseded_at x = None))"
| "gate_pass (IntervalGate iv) x \<longleftrightarrow> interval_matches iv (e_valid_from x) (e_valid_to x)"

fun side_of :: "edge_direction \<Rightarrow> side" where
  "side_of EdgeOut = Outgoing"
| "side_of EdgeIn = Incoming"

definition listed :: "graph \<Rightarrow> scope_set \<Rightarrow> side \<Rightarrow> node_id \<Rightarrow> node_id option \<Rightarrow> string option \<Rightarrow> edge_gate \<Rightarrow> edge_record \<Rightarrow> bool" where
  "listed G scopes sd p f ty gate x \<longleftrightarrow> g_edges G (e_id x) = Some x \<and> near sd x = p \<and>
     (case f of None \<Rightarrow> True | Some n \<Rightarrow> near (flip sd) x = n) \<and> (case ty of None \<Rightarrow> True | Some n \<Rightarrow> e_ty x = n) \<and>
     contains scopes (e_scope x) \<and> gate_pass gate x"

lemma gate_split:
  "e = index_entry sd y d \<Longrightarrow> ed_valid_from d = e_valid_from x \<Longrightarrow> ed_valid_to d = e_valid_to x \<Longrightarrow>
     gate_pass gate x \<longleftrightarrow> \<not> should_skip_entry gate e \<and> \<not> should_skip_record gate x"
  by (cases gate) (auto simp: index_entry_def split: time_axis.split)

context snapshot
begin

lemma scan_entries_eq:
  assumes "\<And>p. p \<in> set es \<Longrightarrow> incident ers sd s p"
  shows "\<exists>out. scan_entries E st scopes fs gate es = Inr out \<and>
    set out = {x. \<exists>p \<in> set es. \<exists>d. edge_at (a_edge (snd p)) d x \<and> (case fs of None \<Rightarrow> True | Some z \<Rightarrow> opposite sd d = z) \<and>
      contains scopes (e_scope x) \<and> gate_pass gate x}"
  using assms
proof (induction es)
  case (Cons p es)
  obtain ty e where p: "p = (ty, e)" by fastforce
  from Cons.prems [of p] p obtain d where d: "ers (a_edge e) = Some d" "e = index_entry sd (a_edge e) d" by auto
  from edge_row_at [OF d(1)] obtain x where x: "edge_at (a_edge e) d x" ..
  have tg: "a_target e = opposite sd d" "a_scope e = ed_scope d" using d(2) by (metis a_edge_index_entry(2), metis index_entry_def adj_entry.select_convs(3))
  have f: "scope_resolve (i_scopes st) (a_scope e) = Inr (e_scope x)" "read_edge_by_slot E st (a_edge e) = Inr (Some x)"
    "ed_valid_from d = e_valid_from x" "ed_valid_to d = e_valid_to x"
    using x by (simp_all add: edge_at_def scope_resolve_def tg(2))
  note g = gate_split [OF d(2) f(3,4), of gate]
  from Cons obtain out where out: "scan_entries E st scopes fs gate es = Inr out"
    "set out = {x. \<exists>p \<in> set es. \<exists>d. edge_at (a_edge (snd p)) d x \<and> (case fs of None \<Rightarrow> True | Some z \<Rightarrow> opposite sd d = z) \<and>
      contains scopes (e_scope x) \<and> gate_pass gate x}" by auto
  have one: "(\<exists>d'. edge_at (a_edge e) d' x' \<and> (case fs of None \<Rightarrow> True | Some z \<Rightarrow> opposite sd d' = z) \<and> contains scopes (e_scope x') \<and> gate_pass gate x') \<longleftrightarrow>
      x' = x \<and> (case fs of None \<Rightarrow> True | Some z \<Rightarrow> opposite sd d = z) \<and> contains scopes (e_scope x) \<and> gate_pass gate x" for x'
    using x edge_at_unique [OF x] by blast
  let ?ok = "(case fs of None \<Rightarrow> True | Some z \<Rightarrow> opposite sd d = z) \<and> contains scopes (e_scope x) \<and> gate_pass gate x"
  have "scan_entries E st scopes fs gate (p # es) = Inr (if ?ok then x # out else out)"
    using out(1) by (cases fs) (auto simp: p f g tg(1) is_some_and_def)
  moreover have "set (if ?ok then x # out else out) = {x. \<exists>p \<in> set (p # es). \<exists>d. edge_at (a_edge (snd p)) d x \<and>
      (case fs of None \<Rightarrow> True | Some z \<Rightarrow> opposite sd d = z) \<and> contains scopes (e_scope x) \<and> gate_pass gate x}"
    by (auto simp: p out(2) one)
  ultimately show ?case by blast
qed simp

lemma ty_filter_eq:
  "map_option (\<lambda>name. case id_of d EdgeType name of None \<Rightarrow> [] | Some k \<Rightarrow> [k]) ty = type_filter d (map_option (\<lambda>n. [n]) ty)"
  by (cases ty) (auto simp: type_filter_def map_filter_simps split: option.split)

lemma listed_at:
  assumes "listed G scopes sd p f ty gate x"
  shows "\<exists>y d. edge_at y d x \<and> node_at (anchor sd d) p \<and> (\<forall>n. f = Some n \<longrightarrow> node_at (opposite sd d) n)"
proof -
  have x: "g_edges G (e_id x) = Some x" "near sd x = p" "\<And>n. f = Some n \<Longrightarrow> near (flip sd) x = n"
    using assms by (auto simp: listed_def split: option.splits)
  from edge_read_at [OF x(1)] obtain y d where y: "edge_at y d x" by blast
  show ?thesis using y edge_at_side [OF y, of sd] x(2,3) by blast
qed

lemma filter_slot_cases:
  obtains (gone) n where "f = Some n" "\<And>z. \<not> node_at z n" "filter_slot_of E st f = Inr None"
  | (any) "f = None" "filter_slot_of E st f = Inr (Some None)"
  | (slot) n z where "f = Some n" "node_at z n" "filter_slot_of E st f = Inr (Some (Some z))"
proof (cases f)
  case (Some n)
  show thesis
  proof (cases n rule: node_slot_cases)
    case (slot s)
    then show thesis using that(3) Some by (simp add: filter_slot_of_def)
  next
    case none
    then show thesis using that(1) Some by (simp add: filter_slot_of_def)
  qed
qed (use that(2) in \<open>simp add: filter_slot_of_def\<close>)

lemma listed_entries:
  assumes s: "node_at s p" and fs: "f = None \<and> fs = None \<or> (\<exists>n z. f = Some n \<and> fs = Some z \<and> node_at z n)"
    and es: "\<And>p. p \<in> set es \<longleftrightarrow> incident ers sd s p \<and>
      (case type_filter (i_dicts st) (map_option (\<lambda>n. [n]) ty) of None \<Rightarrow> True | Some tys \<Rightarrow> fst p \<in> set tys)"
  shows "(\<exists>p \<in> set es. \<exists>d. edge_at (a_edge (snd p)) d x \<and> (case fs of None \<Rightarrow> True | Some z \<Rightarrow> opposite sd d = z) \<and>
      contains scopes (e_scope x) \<and> gate_pass gate x) \<longleftrightarrow> listed G scopes sd p f ty gate x"
proof
  assume "\<exists>p \<in> set es. \<exists>d. edge_at (a_edge (snd p)) d x \<and> (case fs of None \<Rightarrow> True | Some z \<Rightarrow> opposite sd d = z) \<and>
      contains scopes (e_scope x) \<and> gate_pass gate x"
  then obtain e d where e: "e \<in> set es" and d: "edge_at (a_edge (snd e)) d x" "case fs of None \<Rightarrow> True | Some z \<Rightarrow> opposite sd d = z"
    "contains scopes (e_scope x)" "gate_pass gate x" by blast
  from e es obtain d' where d': "ers (a_edge (snd e)) = Some d'" "anchor sd d' = s" "ed_ty d' = fst e" by blast
  have "d' = d" using d(1) d'(1) by (simp add: edge_at_def)
  note d' = d' [unfolded this] and sides = edge_at_side [OF d(1), of sd]
  have "near sd x = p" using sides d'(2) node_at_inj [OF s] by auto
  moreover have "case f of None \<Rightarrow> True | Some n \<Rightarrow> near (flip sd) x = n"
    using fs d(2) sides node_at_inj by (auto split: option.splits)
  moreover have "case map_option (\<lambda>n. [n]) ty of None \<Rightarrow> True | Some ns \<Rightarrow> e_ty x \<in> set ns"
  proof -
    have "case type_filter (i_dicts st) (map_option (\<lambda>n. [n]) ty) of None \<Rightarrow> True | Some tys \<Rightarrow> ed_ty d \<in> set tys"
      using e es d'(3) by (simp only:)
    then show ?thesis by (simp only: type_filter_mem [OF d(1)])
  qed
  moreover have "g_edges G (e_id x) = Some x" using d(1) by (simp only: edge_at_def)
  ultimately show "listed G scopes sd p f ty gate x" using d(3,4) by (auto simp: listed_def split: option.splits)
next
  assume l: "listed G scopes sd p f ty gate x"
  from listed_at [OF l] obtain y d where y: "edge_at y d x" "node_at (anchor sd d) p" "\<forall>n. f = Some n \<longrightarrow> node_at (opposite sd d) n" by blast
  let ?p = "(ed_ty d, index_entry sd y d)"
  have "anchor sd d = s" using node_at_slot [OF y(2) s] .
  then have "incident ers sd s ?p" using y(1) by (simp add: edge_at_def)
  moreover have "case map_option (\<lambda>n. [n]) ty of None \<Rightarrow> True | Some ns \<Rightarrow> e_ty x \<in> set ns"
    using l by (auto simp: listed_def split: option.splits)
  then have "case type_filter (i_dicts st) (map_option (\<lambda>n. [n]) ty) of None \<Rightarrow> True | Some tys \<Rightarrow> fst ?p \<in> set tys"
    using type_filter_mem [OF y(1), of "map_option (\<lambda>n. [n]) ty"] by (simp only: fst_conv)
  ultimately have "?p \<in> set es" using es by blast
  moreover have "case fs of None \<Rightarrow> True | Some z \<Rightarrow> opposite sd d = z" using fs y(3) node_at_slot by (auto split: option.splits)
  moreover have "contains scopes (e_scope x)" "gate_pass gate x" using l by (simp_all add: listed_def)
  ultimately show "\<exists>p \<in> set es. \<exists>d. edge_at (a_edge (snd p)) d x \<and> (case fs of None \<Rightarrow> True | Some z \<Rightarrow> opposite sd d = z) \<and>
      contains scopes (e_scope x) \<and> gate_pass gate x" using y(1) by (intro bexI [of _ ?p] exI [of _ d]) simp_all
qed

lemma scan_adjacency_exact:
  "\<exists>out. scan_adjacency E (Inr ()) st scopes p f ty dir gate = Inr out \<and> sorted (map (\<lambda>x. edge_u128 (e_id x)) out) \<and>
     set out = {x. listed G scopes (side_of dir) p f ty gate x}"
proof (cases p rule: node_slot_cases)
  case none
  then have "\<not> listed G scopes (side_of dir) p f ty gate x" for x using listed_at by blast
  then show ?thesis using none(2) by (simp add: scan_adjacency_def Let_def)
next
  case (slot s)
  let ?adj = "case dir of EdgeOut \<Rightarrow> out_adj st | EdgeIn \<Rightarrow> in_adj st" and ?tf = "type_filter (i_dicts st) (map_option (\<lambda>n. [n]) ty)"
  have adj: "adj_wf (lz E) (rows ?adj)" "\<And>n ty. adj_ms (chunk_at (lz E) (rows ?adj)) n ty = index_of (side_of dir) ers n ty"
    using store_invD(6-9) [OF inv] by (cases dir; simp)+
  obtain es where es: "read_adj (lz E) (eB E) ?adj s ?tf = Inr es" using adj_live [OF adj(1)] by blast
  note mem = read_adj_index [OF adj es]
  have run: ?thesis if fs: "filter_slot_of E st f = Inr (Some fs)" "f = None \<and> fs = None \<or> (\<exists>n z. f = Some n \<and> fs = Some z \<and> node_at z n)" for fs
  proof -
    from scan_entries_eq [of es "side_of dir" s scopes fs gate] mem obtain out where
      out: "scan_entries E st scopes fs gate es = Inr out" "set out = {x. \<exists>p \<in> set es. \<exists>d. edge_at (a_edge (snd p)) d x \<and>
        (case fs of None \<Rightarrow> True | Some z \<Rightarrow> opposite (side_of dir) d = z) \<and> contains scopes (e_scope x) \<and> gate_pass gate x}" by blast
    have "scan_adjacency E (Inr ()) st scopes p f ty dir gate = Inr (sort_key (\<lambda>x. edge_u128 (e_id x)) out)"
      using slot(2) fs(1) es out(1) by (simp add: scan_adjacency_def Let_def ty_filter_eq)
    moreover have "set out = {x. listed G scopes (side_of dir) p f ty gate x}"
      unfolding out(2) using listed_entries [OF slot(1) fs(2) mem] by blast
    ultimately show ?thesis by simp
  qed
  show ?thesis
  proof (cases f rule: filter_slot_cases)
    case (gone n)
    then have "\<not> listed G scopes (side_of dir) p f ty gate x" for x using listed_at by blast
    then show ?thesis using slot(2) gone(3) by (simp add: scan_adjacency_def Let_def)
  qed (use run in auto)
qed

end

text \<open>C10. An edge listing is exact: on a sound store \<^verbatim>\<open>edges_from\<close>, \<^verbatim>\<open>edges_to\<close> and their interval variants
  never fail, list exactly the in-scope edges at the node with the requested other end, type and
  time gate, and list them in ascending id order.\<close>

theorem edge_listing_correct:
  fixes st :: "('b, 'd, 'l, 'm, 'o, 'z) store_scheme"
  assumes "engine E rows mrows" and "store_inv E rows mrows st" and "represents E rows st G"
  shows "\<exists>out. scan_adjacency E (Inr ()) st scopes p f ty dir gate = Inr out \<and> sorted (map (\<lambda>x. edge_u128 (e_id x)) out) \<and>
    set out = {x. listed G scopes (side_of dir) p f ty gate x}"
proof -
  have "snapshot E rows mrows st G" using assms by (intro snapshot.intro snapshot_axioms.intro)
  from snapshot.scan_adjacency_exact [OF this] show ?thesis .
qed

theorem edge_listing_correct_witness:
  "scan_adjacency tree_env (Inr ()) empty_store (with_shared (scope_set_of [])) (NodeId 1) None None EdgeOut (OpenOnly True Valid) = Inr []"
  using edge_listing_correct [OF tree.engine_axioms empty_represents, of "with_shared (scope_set_of [])" "NodeId 1" None None EdgeOut "OpenOnly True Valid"]
  by (auto simp: listed_def)

end
