(* ===== verification/Loads.thy ===== *)
theory Loads
  imports Walks
begin

text \<open>
  Point and set reads of nodes (\<^verbatim>\<open>crates/topodb/src/storage.rs\<close>: the \<^verbatim>\<open>load_\<close> functions;
  \<^verbatim>\<open>crates/topodb/src/read.rs\<close>: \<^verbatim>\<open>node\<close>, \<^verbatim>\<open>nodes_by_label\<close>, \<^verbatim>\<open>nodes_by_prop\<close> and their variants). Every
  read runs in one transaction; a failed one degrades to no hits where the interface says so. The label
  index is not trusted: the label and the scope of a hit are checked on the record itself, and the theorems
  need nothing of the index.
\<close>

section \<open>Point reads\<close>

definition load_node :: "('b, 'd, 'l, 'm, 'o) env \<Rightarrow> redb_error + unit \<Rightarrow> ('b, 'd, 'l, 'm, 'o, 'z) store_scheme \<Rightarrow> node_id
    \<Rightarrow> node_record option result" where
  "load_node E begin_read st i = rbind (redb begin_read) (\<lambda>_. read_node E st i)"

definition load_edge :: "('b, 'd, 'l, 'm, 'o) env \<Rightarrow> redb_error + unit \<Rightarrow> ('b, 'd, 'l, 'm, 'o, 'z) store_scheme \<Rightarrow> edge_id
    \<Rightarrow> edge_record option result" where
  "load_edge E begin_read st i = rbind (redb begin_read) (\<lambda>_. read_edge E st i)"

text \<open>\<^verbatim>\<open>ids\<close> is a hash set; its elements are taken in an unspecified order.\<close>

definition load_step :: "('b, 'd, 'l, 'm, 'o) env \<Rightarrow> ('b, 'd, 'l, 'm, 'o, 'z) store_scheme \<Rightarrow> node_id
    \<Rightarrow> (node_id \<rightharpoonup> node_record) \<Rightarrow> (node_id \<rightharpoonup> node_record) result" where
  "load_step E st i out = rbind (read_node E st i) (\<lambda>r. Inr (case r of Some rec \<Rightarrow> out(i \<mapsto> rec) | None \<Rightarrow> out))"

definition load_nodes :: "('b, 'd, 'l, 'm, 'o) env \<Rightarrow> (node_id set \<Rightarrow> node_id list) \<Rightarrow> redb_error + unit
    \<Rightarrow> ('b, 'd, 'l, 'm, 'o, 'z) store_scheme \<Rightarrow> node_id set \<Rightarrow> (node_id \<rightharpoonup> node_record) result" where
  "load_nodes E id_order begin_read st xs =
     (if xs = {} then Inr Map.empty
      else rbind (redb begin_read) (\<lambda>_. rfold (load_step E st) (id_order xs) Map.empty))"

definition ok_flatten :: "'a option result \<Rightarrow> 'a option" where
  "ok_flatten r = (case r of Inl _ \<Rightarrow> None | Inr x \<Rightarrow> x)"

definition node :: "('b, 'd, 'l, 'm, 'o) env \<Rightarrow> ('c, node_id \<times> i64) sender_ops \<Rightarrow> redb_error + unit \<Rightarrow> i64
    \<Rightarrow> ('b, 'd, 'l, 'm, 'o, 'z) store_scheme \<Rightarrow> scope_set \<Rightarrow> node_id \<Rightarrow> 'c option \<Rightarrow> node_record option \<times> 'c option" where
  "node E C begin_read now st scopes i bump_tx =
     (let hit = (case ok_flatten (load_node E begin_read st i) of
                   Some r \<Rightarrow> if contains scopes (n_scope r) then Some r else None
                 | None \<Rightarrow> None)
      in (hit, if hit \<noteq> None then bump C now [i] bump_tx else bump_tx))"

section \<open>Label scans\<close>

definition label_match :: "scope_set \<Rightarrow> string \<Rightarrow> node_record \<Rightarrow> bool" where
  "label_match scopes label r \<longleftrightarrow> n_label r = label \<and> contains scopes (n_scope r)"

fun label_hits :: "('b, 'd, 'l, 'm, 'o) env \<Rightarrow> ('b, 'd, 'l, 'm, 'o, 'z) store_scheme \<Rightarrow> scope_set \<Rightarrow> string
    \<Rightarrow> (bytes \<times> u64) list \<Rightarrow> node_record list result" where
  "label_hits E st scopes label [] = Inr []"
| "label_hits E st scopes label ((key, slot) # es) =
     rbind (read_node_by_slot E st slot) (\<lambda>r. rbind (label_hits E st scopes label es) (\<lambda>out. Inr (case r of
         Some rec \<Rightarrow> if label_match scopes label rec then rec # out else out
       | None \<Rightarrow> out)))"

text \<open>The reverse scan stops once \<open>k\<close> hits were taken; rows without a matching record do not count.\<close>

fun newest_hits :: "('b, 'd, 'l, 'm, 'o) env \<Rightarrow> ('b, 'd, 'l, 'm, 'o, 'z) store_scheme \<Rightarrow> scope_set \<Rightarrow> string \<Rightarrow> nat \<Rightarrow> nat
    \<Rightarrow> (bytes \<times> u64) list \<Rightarrow> node_record list result" where
  "newest_hits E st scopes label k taken [] = Inr []"
| "newest_hits E st scopes label k taken ((key, slot) # es) =
     (if k \<le> taken then Inr []
      else rbind (read_node_by_slot E st slot) (\<lambda>r. case r of
          Some rec \<Rightarrow>
            if label_match scopes label rec
            then rbind (newest_hits E st scopes label k (taken + 1) es) (\<lambda>out. Inr (rec # out))
            else newest_hits E st scopes label k taken es
        | None \<Rightarrow> newest_hits E st scopes label k taken es))"

fun over_scopes :: "('b, 'd, 'l, 'm, 'o) env \<Rightarrow> ('b, 'd, 'l, 'm, 'o, 'z) store_scheme
    \<Rightarrow> ((bytes \<times> u64) list \<Rightarrow> node_record list result) \<Rightarrow> u32 \<Rightarrow> scope list \<Rightarrow> node_record list result" where
  "over_scopes E st hits label_id [] = Inr []"
| "over_scopes E st hits label_id (s # ss) =
     (case scope_id_of (i_scopes st) s of
        None \<Rightarrow> over_scopes E st hits label_id ss
      | Some scope_id \<Rightarrow>
          rbind (redb (trange (eL E) (label_index st) (label_index_key label_id scope_id (NodeId 0))
                         (label_index_key label_id scope_id (NodeId (- 1))))) (\<lambda>es.
          rbind (hits es) (\<lambda>hs. rbind (over_scopes E st hits label_id ss) (\<lambda>out. Inr (hs @ out)))))"

definition load_nodes_by_label :: "('b, 'd, 'l, 'm, 'o) env \<Rightarrow> redb_error + unit \<Rightarrow> ('b, 'd, 'l, 'm, 'o, 'z) store_scheme
    \<Rightarrow> scope_set \<Rightarrow> string \<Rightarrow> node_record list result" where
  "load_nodes_by_label E begin_read st scopes label =
     rbind (redb begin_read) (\<lambda>_. case id_of (i_dicts st) Label label of
        None \<Rightarrow> Inr []
      | Some label_id \<Rightarrow> over_scopes E st (label_hits E st scopes label) label_id (iter_scopes scopes))"

text \<open>\<^verbatim>\<open>std::cmp::Reverse\<close>.\<close>

datatype 'a reverse = Reverse (unReverse: 'a)

instantiation reverse :: (linorder) linorder
begin
definition less_eq_reverse :: "'a reverse \<Rightarrow> 'a reverse \<Rightarrow> bool" where
  "a \<le> b \<longleftrightarrow> unReverse b \<le> unReverse a"
definition less_reverse :: "'a reverse \<Rightarrow> 'a reverse \<Rightarrow> bool" where
  "a < b \<longleftrightarrow> unReverse b < unReverse a"
instance
proof
  fix x y z :: "'a reverse"
  show "x < y \<longleftrightarrow> x \<le> y \<and> \<not> y \<le> x" by (auto simp: less_eq_reverse_def less_reverse_def)
  show "x \<le> x" by (simp add: less_eq_reverse_def)
  show "x \<le> y \<Longrightarrow> y \<le> z \<Longrightarrow> x \<le> z" by (auto simp: less_eq_reverse_def)
  show "x \<le> y \<Longrightarrow> y \<le> x \<Longrightarrow> x = y" by (cases x; cases y) (simp add: less_eq_reverse_def)
  show "x \<le> y \<or> y \<le> x" by (auto simp: less_eq_reverse_def)
qed
end

definition load_nodes_by_label_newest :: "('b, 'd, 'l, 'm, 'o) env \<Rightarrow> redb_error + unit \<Rightarrow> ('b, 'd, 'l, 'm, 'o, 'z) store_scheme
    \<Rightarrow> scope_set \<Rightarrow> string \<Rightarrow> nat \<Rightarrow> node_record list result" where
  "load_nodes_by_label_newest E begin_read st scopes label k =
     (if k = 0 then Inr []
      else rbind (redb begin_read) (\<lambda>_. case id_of (i_dicts st) Label label of
          None \<Rightarrow> Inr []
        | Some label_id \<Rightarrow>
            rbind (over_scopes E st (\<lambda>es. newest_hits E st scopes label k 0 (rev es)) label_id (iter_scopes scopes)) (\<lambda>candidates.
            Inr (take k (sort_key (\<lambda>r. Reverse (n_id r)) candidates)))))"

text \<open>The readers that count as recalls bump every hit; the maintenance scan does not.\<close>

definition bumped :: "('c, node_id \<times> i64) sender_ops \<Rightarrow> i64 \<Rightarrow> node_record list \<Rightarrow> 'c option \<Rightarrow> node_record list \<times> 'c option" where
  "bumped C now hits bump_tx = (hits, bump C now (map n_id hits) bump_tx)"

definition nodes_by_label :: "('b, 'd, 'l, 'm, 'o) env \<Rightarrow> ('c, node_id \<times> i64) sender_ops \<Rightarrow> redb_error + unit \<Rightarrow> i64
    \<Rightarrow> ('b, 'd, 'l, 'm, 'o, 'z) store_scheme \<Rightarrow> scope_set \<Rightarrow> string \<Rightarrow> 'c option \<Rightarrow> node_record list \<times> 'c option" where
  "nodes_by_label E C begin_read now st scopes label =
     bumped C now (unwrap_or_nil (load_nodes_by_label E begin_read st scopes label))"

definition nodes_by_label_unbumped :: "('b, 'd, 'l, 'm, 'o) env \<Rightarrow> redb_error + unit
    \<Rightarrow> ('b, 'd, 'l, 'm, 'o, 'z) store_scheme \<Rightarrow> scope_set \<Rightarrow> string \<Rightarrow> node_record list" where
  "nodes_by_label_unbumped E begin_read st scopes label = unwrap_or_nil (load_nodes_by_label E begin_read st scopes label)"

definition nodes_by_label_newest :: "('b, 'd, 'l, 'm, 'o) env \<Rightarrow> ('c, node_id \<times> i64) sender_ops \<Rightarrow> redb_error + unit \<Rightarrow> i64
    \<Rightarrow> ('b, 'd, 'l, 'm, 'o, 'z) store_scheme \<Rightarrow> scope_set \<Rightarrow> string \<Rightarrow> nat \<Rightarrow> 'c option \<Rightarrow> node_record list \<times> 'c option" where
  "nodes_by_label_newest E C begin_read now st scopes label k =
     bumped C now (unwrap_or_nil (load_nodes_by_label_newest E begin_read st scopes label k))"

section \<open>Property lookups\<close>

definition load_nodes_by_index :: "('b, 'd, 'l, 'm, 'o) env \<Rightarrow> redb_error + unit \<Rightarrow> ('b, 'd, 'l, 'm, 'o, 'z) store_scheme
    \<Rightarrow> u32 \<Rightarrow> index_value \<Rightarrow> node_record list result" where
  "load_nodes_by_index E begin_read st prop_key v =
     rbind (redb begin_read) (\<lambda>_.
     rbind (prop_lookup (uni E) (eB E) (prop_table st) prop_key v) (collect_nodes E st))"

definition nodes_by_prop_inner :: "('b, 'd, 'l, 'm, 'o) env \<Rightarrow> redb_error + unit \<Rightarrow> ('b, 'd, 'l, 'm, 'o, 'z) store_scheme
    \<Rightarrow> scope_set \<Rightarrow> string \<Rightarrow> string \<Rightarrow> prop_value \<Rightarrow> bool \<Rightarrow> node_record list result" where
  "nodes_by_prop_inner E begin_read st scopes label prop v exact =
     (if \<not> (\<exists>c \<in> set (equality (spec E)). pi_label c = label \<and> pi_prop c = prop)
      then Inl (Rejected ''not equality-indexed'')
      else case index_value_of v of
        None \<Rightarrow> Inl (Rejected ''Float values are not equality-indexable'')
      | Some iv \<Rightarrow>
          (case id_of (i_dicts st) PropKey prop of
             None \<Rightarrow> Inr []
           | Some prop_key \<Rightarrow>
               rbind (load_nodes_by_index E begin_read st prop_key iv) (\<lambda>candidates.
               Inr (filter (\<lambda>r. \<not> exact \<or> (case bt_get (n_props r) prop of None \<Rightarrow> False | Some w \<Rightarrow> prop_value_eq w v))
                     (filter (\<lambda>r. n_label r = label \<and> contains scopes (n_scope r)) candidates)))))"

definition nodes_by_prop :: "('b, 'd, 'l, 'm, 'o) env \<Rightarrow> ('c, node_id \<times> i64) sender_ops \<Rightarrow> redb_error + unit \<Rightarrow> i64
    \<Rightarrow> ('b, 'd, 'l, 'm, 'o, 'z) store_scheme \<Rightarrow> scope_set \<Rightarrow> string \<Rightarrow> string \<Rightarrow> prop_value \<Rightarrow> 'c option
    \<Rightarrow> node_record list result \<times> 'c option" where
  "nodes_by_prop E C begin_read now st scopes label prop v bump_tx =
     (case nodes_by_prop_inner E begin_read st scopes label prop v True of
        Inl e \<Rightarrow> (Inl e, bump_tx)
      | Inr hits \<Rightarrow> (Inr hits, bump C now (map n_id hits) bump_tx))"

definition nodes_by_prop_normalized :: "('b, 'd, 'l, 'm, 'o) env \<Rightarrow> ('c, node_id \<times> i64) sender_ops \<Rightarrow> redb_error + unit \<Rightarrow> i64
    \<Rightarrow> ('b, 'd, 'l, 'm, 'o, 'z) store_scheme \<Rightarrow> scope_set \<Rightarrow> string \<Rightarrow> string \<Rightarrow> prop_value \<Rightarrow> 'c option
    \<Rightarrow> node_record list result \<times> 'c option" where
  "nodes_by_prop_normalized E C begin_read now st scopes label prop v bump_tx =
     (case nodes_by_prop_inner E begin_read st scopes label prop v False of
        Inl e \<Rightarrow> (Inl e, bump_tx)
      | Inr hits \<Rightarrow> (Inr hits, bump C now (map n_id hits) bump_tx))"

section \<open>Full scans\<close>

definition slot_of_key :: "bytes \<Rightarrow> u64 result" where
  "slot_of_key k = rbind (try_into 8 (Encoding ''bad node slot key'') k) (\<lambda>b. Inr (u64_from_be b))"

fun for_each_node_no_embedding :: "('b, 'd, 'l, 'm, 'o) env \<Rightarrow> ('b, 'd, 'l, 'm, 'o, 'z) store_scheme
    \<Rightarrow> (u64 \<Rightarrow> node_record \<Rightarrow> 's \<Rightarrow> 's result) \<Rightarrow> (bytes \<times> bytes) list \<Rightarrow> 's \<Rightarrow> 's result" where
  "for_each_node_no_embedding E st f [] acc = Inr acc"
| "for_each_node_no_embedding E st f ((k, v) # es) acc =
     rbind (slot_of_key k) (\<lambda>slot.
     rbind (unframe_value (lz E) v) (\<lambda>raw.
     rbind (pc_err (de (pc_node E) raw)) (\<lambda>disk.
     rbind (node_from_disk_v3 disk (i_dicts st) (i_scopes st)) (\<lambda>rec.
     rbind (f slot rec acc) (for_each_node_no_embedding E st f es)))))"

definition all_nodes :: "('b, 'd, 'l, 'm, 'o) env \<Rightarrow> redb_error + unit \<Rightarrow> ('b, 'd, 'l, 'm, 'o, 'z) store_scheme \<Rightarrow> node_record list result" where
  "all_nodes E begin_read st =
     rbind (redb begin_read) (\<lambda>_. rbind (redb (titer (eB E) (nodes st))) (\<lambda>es.
     for_each_node_no_embedding E st (\<lambda>slot rec out.
       rbind (read_embedding_by_slot E (vectors st) (embedding_ref st) (i_dicts st) slot) (\<lambda>emb.
       Inr (out @ [rec\<lparr>n_embedding := emb\<rparr>]))) es []))"

definition in_range :: "props \<Rightarrow> string \<Rightarrow> f64 \<Rightarrow> f64 \<Rightarrow> bool" where
  "in_range ps prop lo hi = (case bt_get ps prop of Some (PFloat f) \<Rightarrow> f64_le lo f \<and> f64_le f hi | _ \<Rightarrow> False)"

definition load_nodes_by_float_range :: "('b, 'd, 'l, 'm, 'o) env \<Rightarrow> redb_error + unit \<Rightarrow> ('b, 'd, 'l, 'm, 'o, 'z) store_scheme
    \<Rightarrow> scope_set \<Rightarrow> string \<Rightarrow> f64 \<Rightarrow> f64 \<Rightarrow> node_record list result" where
  "load_nodes_by_float_range E begin_read st scopes prop lo hi =
     rbind (redb begin_read) (\<lambda>_. rbind (redb (titer (eB E) (nodes st))) (\<lambda>es.
     for_each_node_no_embedding E st (\<lambda>slot rec out.
       if \<not> contains scopes (n_scope rec) then Inr out
       else if \<not> in_range (n_props rec) prop lo hi then Inr out
       else rbind (read_embedding_by_slot E (vectors st) (embedding_ref st) (i_dicts st) slot) (\<lambda>emb.
         Inr (out @ [rec\<lparr>n_embedding := emb\<rparr>]))) es []))"

definition nodes_by_float_range :: "('b, 'd, 'l, 'm, 'o) env \<Rightarrow> redb_error + unit \<Rightarrow> ('b, 'd, 'l, 'm, 'o, 'z) store_scheme
    \<Rightarrow> scope_set \<Rightarrow> string \<Rightarrow> f64 \<Rightarrow> f64 \<Rightarrow> node_record list" where
  "nodes_by_float_range E begin_read st scopes prop lo hi = unwrap_or_nil (load_nodes_by_float_range E begin_read st scopes prop lo hi)"

fun decode_edges :: "('b, 'd, 'l, 'm, 'o) env \<Rightarrow> ('b, 'd, 'l, 'm, 'o, 'z) store_scheme \<Rightarrow> (bytes \<times> bytes) list \<Rightarrow> edge_record list result" where
  "decode_edges E st [] = Inr []"
| "decode_edges E st ((k, v) # es) =
     rbind (unframe_value (lz E) v) (\<lambda>raw.
     rbind (pc_err (de (pc_edge E) raw)) (\<lambda>disk.
     rbind (edge_from_disk_v4 (eB E) disk (i_dicts st) (i_scopes st) (node_ids st)) (\<lambda>rec.
     rbind (decode_edges E st es) (\<lambda>out. Inr (rec # out)))))"

definition all_edges :: "('b, 'd, 'l, 'm, 'o) env \<Rightarrow> redb_error + unit \<Rightarrow> ('b, 'd, 'l, 'm, 'o, 'z) store_scheme \<Rightarrow> edge_record list result" where
  "all_edges E begin_read st =
     rbind (redb begin_read) (\<lambda>_. rbind (redb (titer (eB E) (edges st))) (decode_edges E st))"

definition debug_dump_nodes :: "('b, 'd, 'l, 'm, 'o) env \<Rightarrow> redb_error + unit \<Rightarrow> ('b, 'd, 'l, 'm, 'o, 'z) store_scheme \<Rightarrow> node_record list result" where
  "debug_dump_nodes E begin_read st =
     (case all_nodes E begin_read st of
        Inl _ \<Rightarrow> Inl (panicked ''debug dump: storage read failed'')
      | Inr out \<Rightarrow> Inr (sort_key n_id out))"

definition debug_dump_edges :: "('b, 'd, 'l, 'm, 'o) env \<Rightarrow> redb_error + unit \<Rightarrow> ('b, 'd, 'l, 'm, 'o, 'z) store_scheme \<Rightarrow> edge_record list result" where
  "debug_dump_edges E begin_read st =
     (case all_edges E begin_read st of
        Inl _ \<Rightarrow> Inl (panicked ''debug dump: storage read failed'')
      | Inr out \<Rightarrow> Inr (sort_key (\<lambda>x. edge_u128 (e_id x)) out))"

section \<open>Properties\<close>

lemma label_hits_sound: "label_hits E st scopes label es = Inr out \<Longrightarrow> r \<in> set out \<Longrightarrow> label_match scopes label r"
proof (induction es arbitrary: out)
  case (Cons p es)
  obtain k s where p: "p = (k, s)" by fastforce
  from Cons.prems(1) obtain rec out' where run: "read_node_by_slot E st s = Inr rec" "label_hits E st scopes label es = Inr out'"
    and out: "out = (case rec of Some rec \<Rightarrow> if label_match scopes label rec then rec # out' else out' | None \<Rightarrow> out')"
    by (auto simp: p rbind_Inr)
  show ?case using Cons.IH [OF run(2)] Cons.prems(2) by (cases rec) (auto simp: out split: if_splits)
qed simp

lemma newest_hits_sound:
  "newest_hits E st scopes label k taken es = Inr out \<Longrightarrow> r \<in> set out \<Longrightarrow> label_match scopes label r"
proof (induction es arbitrary: taken out)
  case (Cons p es)
  obtain k s where p: "p = (k, s)" by fastforce
  show ?case
  proof (cases "read_node_by_slot E st s")
    case (Inr rec)
    then show ?thesis using Cons.IH Cons.prems by (cases rec) (fastforce simp: p rbind_Inr split: if_splits)+
  qed (use Cons.prems in \<open>auto simp: p split: if_splits\<close>)
qed simp

lemma over_scopes_sound:
  assumes "over_scopes E st hits l ss = Inr out" "\<And>es hs r. hits es = Inr hs \<Longrightarrow> r \<in> set hs \<Longrightarrow> P r" "r \<in> set out"
  shows "P r"
  using assms(1,3)
proof (induction ss arbitrary: out)
  case (Cons s ss)
  show ?case
  proof (cases "scope_id_of (i_scopes st) s")
    case None
    with Cons show ?thesis by simp
  next
    case (Some i)
    with Cons.prems(1) obtain es hs rest where "hits es = Inr hs" "over_scopes E st hits l ss = Inr rest" "out = hs @ rest"
      by (auto simp: rbind_Inr)
    with Cons.IH Cons.prems(2) assms(2) show ?thesis by auto
  qed
qed simp

lemma label_scan_sound:
  assumes "load_nodes_by_label E tx st scopes label = Inr out" "r \<in> set out"
  shows "label_match scopes label r"
proof -
  from assms obtain l where "over_scopes E st (label_hits E st scopes label) l (iter_scopes scopes) = Inr out"
    by (cases "id_of (i_dicts st) Label label") (auto simp: load_nodes_by_label_def rbind_Inr)
  then show ?thesis using over_scopes_sound [where P = "label_match scopes label"] label_hits_sound assms(2) by blast
qed



text \<open>A hit of a property lookup has the label, lies in scope and, for the exact variant, holds exactly the
  requested value; a float is never a hit.\<close>

theorem nodes_by_prop_sound:
  assumes run: "nodes_by_prop_inner E tx st scopes label prop v exact = Inr hits" and r: "r \<in> set hits"
  shows "n_label r = label \<and> contains scopes (n_scope r) \<and> (\<forall>x. v \<noteq> PFloat x) \<and> (exact \<longrightarrow> bt_get (n_props r) prop = Some v)"
proof -
  have v: "\<forall>x. v \<noteq> PFloat x" using run by (auto simp: nodes_by_prop_inner_def split: if_splits)
  have eq: "w = v" if "prop_value_eq w v" for w using that v prop_value_eq_key prop_value_eq_sym by metis
  obtain iv where iv: "index_value_of v = Some iv" using run by (cases "index_value_of v") (auto simp: nodes_by_prop_inner_def split: if_splits)
  obtain k where k: "id_of (i_dicts st) PropKey prop = Some k" using run r iv
    by (cases "id_of (i_dicts st) PropKey prop") (auto simp: nodes_by_prop_inner_def split: if_splits)
  from run iv k obtain cs where "hits = filter (\<lambda>r. \<not> exact \<or> (case bt_get (n_props r) prop of None \<Rightarrow> False | Some w \<Rightarrow> prop_value_eq w v))
      (filter (\<lambda>r. n_label r = label \<and> contains scopes (n_scope r)) cs)"
    by (auto simp: nodes_by_prop_inner_def rbind_Inr split: if_splits)
  with r v eq show ?thesis by (auto split: option.splits)
qed

context snapshot
begin

lemma load_node_eq: "load_node E (Inr ()) st i = Inr (g_nodes G i)"
  using representsD(1) [OF rep] by (simp add: load_node_def)

lemma load_nodes_eq:
  assumes "set (id_order xs) = xs"
  shows "load_nodes E id_order (Inr ()) st xs = Inr (g_nodes G |` xs)"
proof -
  have "rfold (load_step E st) ys m = Inr (m ++ (g_nodes G |` set ys))" for ys m
  proof (induction ys arbitrary: m)
    case (Cons y ys)
    have "load_step E st y m = Inr (m ++ (g_nodes G |` {y}))"
      using representsD(1) [OF rep, of y]
      by (auto simp: load_step_def map_add_def restrict_map_def fun_eq_iff split: option.split)
    moreover have "m ++ (g_nodes G |` {y}) ++ (g_nodes G |` set ys) = m ++ (g_nodes G |` set (y # ys))"
      by (auto simp: map_add_def restrict_map_def fun_eq_iff split: option.split)
    ultimately show ?case using Cons.IH by simp
  qed simp
  then show ?thesis using assms by (cases "xs = {}") (simp_all add: load_nodes_def)
qed

end

text \<open>C11. A point read is exact and scoped: it returns the node when it exists in scope and nothing
  otherwise, the same nothing for a missing node and for one out of scope, and it bumps exactly the hits.\<close>

theorem node_read_exact:
  fixes st :: "('b, 'd, 'l, 'm, 'o, 'z) store_scheme"
  assumes "engine E rows mrows" and "store_inv E rows mrows st" and "represents E rows st G"
  shows "node E C (Inr ()) now st scopes i bump_tx =
    (if visible G scopes i then (g_nodes G i, bump C now [i] bump_tx) else (None, bump_tx))"
proof -
  have "snapshot E rows mrows st G" using assms by (intro snapshot.intro snapshot_axioms.intro)
  note l = snapshot.load_node_eq [OF this, of i]
  show ?thesis
  proof (cases "g_nodes G i")
    case None
    then show ?thesis by (simp add: node_def l ok_flatten_def visible_def)
  next
    case (Some r)
    then show ?thesis by (simp add: node_def l ok_flatten_def visible_def)
  qed
qed

theorem node_read_exact_witness:
  "node tree_env list_chan (Inr ()) 3 empty_store (with_shared (scope_set_of [])) (NodeId 1) (Some (2, [], True)) = (None, Some (2, [], True))"
  using node_read_exact [OF tree.engine_axioms empty_represents, of list_chan 3 "with_shared (scope_set_of [])" "NodeId 1" "Some (2, [], True)"]
  by (simp add: visible_def)

end
