(* ===== verification/Fuzzy.thy ===== *)
theory Fuzzy
  imports FtsIndex EditDistance "HOL-Library.Product_Lexorder"
begin

text \<open>
  The fuzzy fallback of the text search (\<^verbatim>\<open>crates/topodb/src/fts.rs\<close>, lines 1081-1170): the vocabulary of a scope, read
  from the keys of the postings table, and the candidates a term without postings is expanded to. The vocabulary is
  exactly the terms that have postings, in order; the expansions are the closest few terms of the vocabulary.
\<close>

section \<open>The code\<close>

text \<open>\<^verbatim>\<open>std::str::from_utf8\<close>: the well-formed byte sequences of the Unicode standard.\<close>

definition byte_in :: "u8 \<Rightarrow> u8 \<Rightarrow> u8 \<Rightarrow> bool" where
  "byte_in lo hi b \<longleftrightarrow> lo \<le> b \<and> b \<le> hi"

fun utf8_valid :: "bytes \<Rightarrow> bool" where
  "utf8_valid [] = True"
| "utf8_valid (a # bs) =
     (if a < 0x80 then utf8_valid bs
      else case bs of [] \<Rightarrow> False | b # cs \<Rightarrow>
        if byte_in 0xC2 0xDF a then byte_in 0x80 0xBF b \<and> utf8_valid cs
        else case cs of [] \<Rightarrow> False | c # ds \<Rightarrow>
          if a = 0xE0 \<and> byte_in 0xA0 0xBF b \<or> (byte_in 0xE1 0xEC a \<or> byte_in 0xEE 0xEF a) \<and> byte_in 0x80 0xBF b \<or>
             a = 0xED \<and> byte_in 0x80 0x9F b
          then byte_in 0x80 0xBF c \<and> utf8_valid ds
          else case ds of [] \<Rightarrow> False | d # es \<Rightarrow>
            (a = 0xF0 \<and> byte_in 0x90 0xBF b \<or> byte_in 0xF1 0xF3 a \<and> byte_in 0x80 0xBF b \<or> a = 0xF4 \<and> byte_in 0x80 0x8F b) \<and>
            byte_in 0x80 0xBF c \<and> byte_in 0x80 0xBF d \<and> utf8_valid es)"

definition from_utf8 :: "bytes \<Rightarrow> string option" where
  "from_utf8 bs = (if utf8_valid bs then Some (bytes_str bs) else None)"

fun collect_terms :: "bytes \<Rightarrow> bytes list \<Rightarrow> string list \<Rightarrow> string list result" where
  "collect_terms prefix [] out = Inr out"
| "collect_terms prefix (key # keys) out =
     (if take (length prefix) key \<noteq> prefix then Inr out
      else if length key < 8 then Inl (Encoding ''postings chunk key too short'')
      else rbind (ok_or (Encoding ''non-UTF-8 postings term'') (from_utf8 (take (length key - 8) (drop 4 key)))) (\<lambda>w.
           collect_terms prefix keys (if out \<noteq> [] \<and> last out = w then out else out @ [w])))"

definition scope_terms :: "('b, bytes, bytes) table_ops \<Rightarrow> 'b \<Rightarrow> u32 \<Rightarrow> string list result" where
  "scope_terms T t scope_id =
     rbind (redb (trange_from T t (u32_to_be scope_id))) (\<lambda>es. collect_terms (u32_to_be scope_id) (map fst es) [])"

definition FUZZY_MAX_EXPANSIONS :: nat where "FUZZY_MAX_EXPANSIONS = 4"
definition FUZZY_MIN_PREFIX :: nat where "FUZZY_MIN_PREFIX = 3"

definition max_distance :: "nat \<Rightarrow> u32" where
  "max_distance n = (if n \<le> 2 then 0 else if n \<le> 5 then 1 else 2)"

definition starts_with :: "string \<Rightarrow> string \<Rightarrow> bool" where
  "starts_with s p \<longleftrightarrow> take (length p) s = p"

definition prefix_hit :: "string \<Rightarrow> string \<Rightarrow> bool" where
  "prefix_hit q t \<longleftrightarrow>
     FUZZY_MIN_PREFIX \<le> length (utf8_chars q) \<and> starts_with t q \<or>
     FUZZY_MIN_PREFIX \<le> length (utf8_chars t) \<and> starts_with q t"

text \<open>The body of the loop: the rank a term of the vocabulary gets, if it is not skipped.\<close>

definition fuzzy_rank :: "string \<Rightarrow> string \<Rightarrow> u32 option" where
  "fuzzy_rank q t =
     (let max_d = max_distance (length (utf8_chars q))
      in if t = q then None
         else if prefix_hit q t then Some 1
         else if max_d = 0 then None
         else bounded_levenshtein (utf8_chars q) t max_d)"

definition ranked_terms :: "string list \<Rightarrow> string \<Rightarrow> (u32 \<times> string) list" where
  "ranked_terms vocab q = concat (map (\<lambda>t. case fuzzy_rank q t of Some r \<Rightarrow> [(r, t)] | None \<Rightarrow> []) vocab)"

definition fuzzy_expansions :: "string list \<Rightarrow> string \<Rightarrow> string list" where
  "fuzzy_expansions vocab q = map snd (take FUZZY_MAX_EXPANSIONS (sort (ranked_terms vocab q)))"

section \<open>The vocabulary\<close>

text \<open>The terms of a table: well-formed strings without a zero byte, as the analyzer produces them.\<close>

definition terms_ok :: "(bytes \<rightharpoonup> bytes) \<Rightarrow> bool" where
  "terms_ok rs \<longleftrightarrow> (\<forall>s w c. column rs s w c \<noteq> None \<longrightarrow> utf8_valid (str_bytes w) \<and> 0 \<notin> set (str_bytes w))"

lemma posting_key_exists:
  assumes "8 \<le> length k"
  shows "\<exists>s w c. k = chunked_posting_key s w c"
proof -
  obtain s where s: "take 4 k = u32_to_be s" using be_bytes_exist(2) [of "take 4 k"] assms by auto
  obtain c where c: "drop (length k - 4) k = u32_to_be c" using be_bytes_exist(2) [of "drop (length k - 4) k"] assms by auto
  have "drop 4 k = take (length k - 8) (drop 4 k) @ drop (length k - 4) k"
  proof -
    have "drop (length k - 8) (drop 4 k) = drop (length k - 4) k" using assms by (simp add: add.commute)
    then show ?thesis by (metis append_take_drop_id)
  qed
  then have "k = take 4 k @ take (length k - 8) (drop 4 k) @ drop (length k - 4) k" by (metis append_take_drop_id)
  then have "k = chunked_posting_key s (bytes_str (take (length k - 8) (drop 4 k))) c"
    unfolding chunked_posting_key_def s c by simp
  then show ?thesis by blast
qed

lemma posting_key_parts:
  "take 4 (chunked_posting_key s w c) = u32_to_be s"
  "take (length (chunked_posting_key s w c) - 8) (drop 4 (chunked_posting_key s w c)) = str_bytes w"
  by (simp_all add: chunked_posting_key_def)

text \<open>Keys with a zero byte after the term are ordered by the term.\<close>

lemma zero_ended_le:
  fixes xs ys :: bytes
  assumes "xs @ 0 # us \<le> ys @ 0 # vs" "0 \<notin> set xs" "0 \<notin> set ys"
  shows "xs \<le> ys"
  using assms
proof (induction xs ys rule: list_induct2')
  case (2 x xs)
  then have "x \<le> 0" by (auto simp: le_less)
  with 2 show ?case by simp
qed auto

lemma small_chunk_bytes:
  assumes "unat c < 2 ^ 24"
  shows "\<exists>us. u32_to_be c = 0 # us"
proof -
  have four: "(4 :: nat) = Suc (Suc (Suc (Suc 0)))" by simp
  have "unat c div 256 div 256 div 256 = unat c div (256 * 256 * 256)" by (simp only: div_mult2_eq)
  also have "\<dots> = 0" using assms by simp
  finally show ?thesis unfolding u32_to_be_def nat_to_be_def four by simp
qed

lemma posting_keys_term_order:
  assumes "chunked_posting_key s w c \<le> chunked_posting_key s w' c'" "unat c < 2 ^ 24" "unat c' < 2 ^ 24"
    and "0 \<notin> set (str_bytes w)" "0 \<notin> set (str_bytes w')"
  shows "w \<le> w'"
proof -
  obtain us vs where "u32_to_be c = 0 # us" "u32_to_be c' = 0 # vs" using small_chunk_bytes assms(2,3) by blast
  then have "str_bytes w @ 0 # us \<le> str_bytes w' @ 0 # vs"
    using assms(1) by (simp add: chunked_posting_key_def bytes_le_append_iff)
  from zero_ended_le [OF this assms(4,5)] show ?thesis by simp
qed

definition key_term :: "bytes \<Rightarrow> string" where
  "key_term k = bytes_str (take (length k - 8) (drop 4 k))"

lemma key_term_key [simp]: "key_term (chunked_posting_key s w c) = w"
  unfolding key_term_def posting_key_parts(2) by simp

text \<open>The keys of a scope that the tables can hold.\<close>

definition vocab_key :: "u32 \<Rightarrow> bytes \<Rightarrow> bool" where
  "vocab_key s k \<longleftrightarrow> (\<exists>w c. k = chunked_posting_key s w c \<and> utf8_valid (str_bytes w) \<and> 0 \<notin> set (str_bytes w) \<and> unat c < 2 ^ 24)"

lemma vocab_key_order: "vocab_key s k \<Longrightarrow> vocab_key s k' \<Longrightarrow> k < k' \<Longrightarrow> key_term k \<le> key_term k'"
proof -
  assume "vocab_key s k" "vocab_key s k'" and lt: "k < k'"
  then obtain w c w' c' where k: "k = chunked_posting_key s w c" "0 \<notin> set (str_bytes w)" "unat c < 2 ^ 24"
    "k' = chunked_posting_key s w' c'" "0 \<notin> set (str_bytes w')" "unat c' < 2 ^ 24" unfolding vocab_key_def by blast
  have "w \<le> w'" using lt k by (intro posting_keys_term_order [of s w c w' c']) (auto intro: less_imp_le)
  then show ?thesis by (simp add: k)
qed

lemma posting_key_scope_le: "s2 = s \<Longrightarrow> chunked_posting_key s1 w1 c1 \<le> chunked_posting_key s2 w2 c2 \<Longrightarrow> s1 \<le> s"
  by (auto simp: chunked_posting_key_def bytes_le_append_iff)

lemma scope_le_posting_key: "u32_to_be s \<le> chunked_posting_key s1 w1 c1 \<Longrightarrow> s \<le> s1"
  using bytes_le_append_iff [of "u32_to_be s" "u32_to_be s1" "[]" "str_bytes w1 @ u32_to_be c1"]
  by (auto simp: chunked_posting_key_def)

text \<open>The loop collects the terms of the keys up to the first foreign one, without adjacent repetitions.\<close>

lemma fold_adjacent: "fold (\<lambda>w out. if out \<noteq> [] \<and> last out = w then out else out @ [w]) ws (out @ [x]) = out @ remdups_adj (x # ws)"
proof (induction ws arbitrary: out x)
  case (Cons w ws)
  show ?case using Cons.IH [of out x] Cons.IH [of "out @ [x]" w] by (cases "x = w") auto
qed simp

lemma fold_adjacent_all: "fold (\<lambda>w out. if out \<noteq> [] \<and> last out = w then out else out @ [w]) ws [] = remdups_adj ws"
  using fold_adjacent [of "tl ws" "[]" "hd ws"] by (cases ws) auto

lemma collect_terms_run:
  assumes "\<forall>k \<in> set (takeWhile (\<lambda>k. take 4 k = u32_to_be s) ks). \<exists>w c. k = chunked_posting_key s w c \<and> utf8_valid (str_bytes w)"
  shows "collect_terms (u32_to_be s) ks out = Inr (fold (\<lambda>w out. if out \<noteq> [] \<and> last out = w then out else out @ [w])
      (map key_term (takeWhile (\<lambda>k. take 4 k = u32_to_be s) ks)) out)"
  using assms
proof (induction ks arbitrary: out)
  case (Cons k ks)
  show ?case
  proof (cases "take 4 k = u32_to_be s")
    case True
    with Cons.prems obtain w c where k: "k = chunked_posting_key s w c" "utf8_valid (str_bytes w)" by auto
    have "from_utf8 (take (length k - 8) (drop 4 k)) = Some w" "key_term k = w"
      unfolding k(1) posting_key_parts(2) by (simp_all add: from_utf8_def k(2))
    moreover have "8 \<le> length k" by (simp add: k length_posting_key)
    ultimately show ?thesis using True Cons.IH Cons.prems by simp
  qed simp
qed simp

lemma takeWhile_filter:
  "(\<And>i j. i < j \<Longrightarrow> j < length ks \<Longrightarrow> P (ks ! j) \<Longrightarrow> P (ks ! i)) \<Longrightarrow> takeWhile P ks = filter P ks"
proof (induction ks)
  case (Cons k ks)
  have tail: "takeWhile P ks = filter P ks"
    by (rule Cons.IH) (use Cons.prems [of "Suc i" "Suc j" for i j] in auto)
  show ?case
  proof (cases "P k")
    case False
    have "\<not> P (ks ! j)" if "j < length ks" for j using Cons.prems [of 0 "Suc j"] that False by auto
    then have "filter P ks = []" by (auto simp: filter_empty_conv in_set_conv_nth)
    with False show ?thesis by simp
  qed (simp add: tail)
qed simp

context chunk_store_live
begin

lemma has_postings_iff:
  assumes "blocks_ok L (rows t)"
  shows "plist L (rows t) s w \<noteq> [] \<longleftrightarrow> (\<exists>c. column (rows t) s w c \<noteq> None)"
proof
  assume "plist L (rows t) s w \<noteq> []"
  then have "chunk_nums (column (rows t) s w) \<noteq> []" by (auto simp: plist_def column_chunks_def)
  then show "\<exists>c. column (rows t) s w c \<noteq> None" using chunk_nums_props(2) [of "column (rows t) s w"] by (metis domIff empty_iff equals0I set_empty)
next
  assume "\<exists>c. column (rows t) s w c \<noteq> None"
  then obtain c b where c: "column (rows t) s w c = Some b" by blast
  then have "posting_entries L b \<in> set (column_chunks L (column (rows t) s w))"
    using chunk_nums_props(2) [of "column (rows t) s w"] by (force simp: column_chunks_def)
  moreover have "posting_entries L b \<noteq> []" using chunk_reads(3) [OF assms c] by (simp add: pchunk_ok_def)
  ultimately show "plist L (rows t) s w \<noteq> []" by (force simp: plist_def)
qed

lemma table_key:
  assumes "blocks_ok L (rows t)" "terms_ok (rows t)" "chunks_below (2 ^ 24) (rows t)" "rows t k \<noteq> None"
  shows "\<exists>s. vocab_key s k"
proof -
  have "8 \<le> length k" using assms(1,4) by (auto simp: blocks_ok_def)
  then obtain s w c where k: "k = chunked_posting_key s w c" using posting_key_exists by blast
  then have "column (rows t) s w c \<noteq> None" using assms(4) by (simp add: column_def)
  then have "vocab_key s k" unfolding vocab_key_def using k assms(2,3) unfolding terms_ok_def chunks_below_def by blast
  then show ?thesis ..
qed

lemma scan_keys:
  assumes "trange_from T t (u32_to_be s) = Inr es"
  shows "k \<in> set (map fst es) \<longleftrightarrow> u32_to_be s \<le> k \<and> rows t k \<noteq> None" "sorted_wrt (<) (map fst es)"
proof -
  have "k \<in> set (map fst es) \<longleftrightarrow> (\<exists>w. (k, w) \<in> set es)" by force
  then show "k \<in> set (map fst es) \<longleftrightarrow> u32_to_be s \<le> k \<and> rows t k \<noteq> None" by (simp add: range_from_mem [OF assms])
  show "sorted_wrt (<) (map fst es)" using range_from_ok [OF assms] by (simp add: bt_wf_def)
qed

text \<open>The keys up to the first foreign one are all the keys of the scope.\<close>

lemma own_keys:
  assumes ok: "blocks_ok L (rows t)" "terms_ok (rows t)" "chunks_below (2 ^ 24) (rows t)"
    and es: "trange_from T t (u32_to_be s) = Inr es"
  shows "takeWhile (\<lambda>k. take 4 k = u32_to_be s) (map fst es) = filter (\<lambda>k. take 4 k = u32_to_be s) (map fst es)"
proof (rule takeWhile_filter)
  let ?ks = "map fst es"
  fix i j assume ij: "i < j" "j < length ?ks" "take 4 (?ks ! j) = u32_to_be s"
  then have lt: "?ks ! i \<le> ?ks ! j" using scan_keys(2) [OF es] sorted_wrt_nth_less [of "(<)" ?ks i j] by simp
  have "?ks ! i \<in> set ?ks" "?ks ! j \<in> set ?ks" using ij by (auto intro!: nth_mem)
  then have m: "u32_to_be s \<le> ?ks ! i" "rows t (?ks ! i) \<noteq> None" "rows t (?ks ! j) \<noteq> None" using scan_keys(1) [OF es] by blast+
  obtain s1 where "vocab_key s1 (?ks ! i)" using table_key [OF ok m(2)] by blast
  then obtain w1 c1 where k1: "?ks ! i = chunked_posting_key s1 w1 c1" unfolding vocab_key_def by blast
  obtain s2 where "vocab_key s2 (?ks ! j)" using table_key [OF ok m(3)] by blast
  then obtain w2 c2 where k2: "?ks ! j = chunked_posting_key s2 w2 c2" unfolding vocab_key_def by blast
  have "s2 = s" using ij(3) unfolding k2 posting_key_parts(1) by simp
  then have "s1 \<le> s" using lt unfolding k1 k2 by (rule posting_key_scope_le)
  moreover have "s \<le> s1" using m(1) unfolding k1 by (rule scope_le_posting_key)
  ultimately show "take 4 (?ks ! i) = u32_to_be s" unfolding k1 by (simp add: posting_key_parts(1))
qed

lemma own_keys_mem:
  assumes "trange_from T t (u32_to_be s) = Inr es"
  shows "chunked_posting_key s w c \<in> set (filter (\<lambda>k. take 4 k = u32_to_be s) (map fst es)) \<longleftrightarrow> column (rows t) s w c \<noteq> None"
proof -
  have "u32_to_be s \<le> chunked_posting_key s w c"
    using bytes_le_append_iff [of "u32_to_be s" "u32_to_be s" "[]" "str_bytes w @ u32_to_be c"] by (simp add: chunked_posting_key_def)
  then show ?thesis using scan_keys(1) [OF assms, of "chunked_posting_key s w c"]
    by (simp add: posting_key_parts(1) column_def del: set_map)
qed

lemma scope_terms_run:
  assumes ok: "blocks_ok L (rows t)" "terms_ok (rows t)" "chunks_below (2 ^ 24) (rows t)"
  shows "\<exists>ws. scope_terms T t s = Inr ws \<and> sorted_wrt (<) ws \<and> set ws = {w. plist L (rows t) s w \<noteq> []}"
proof -
  obtain es where es: "trange_from T t (u32_to_be s) = Inr es" using range_from_live by blast
  define ks where "ks = filter (\<lambda>k. take 4 k = u32_to_be s) (map fst es)"
  note own = own_keys [OF ok es, folded ks_def]
  have key: "vocab_key s k" if "k \<in> set ks" for k
  proof -
    have "k \<in> set (map fst es)" "take 4 k = u32_to_be s" using that by (auto simp: ks_def)
    then obtain s' where "vocab_key s' k" using table_key [OF ok] scan_keys(1) [OF es] by blast
    then show ?thesis using \<open>take 4 k = u32_to_be s\<close> by (auto simp: vocab_key_def posting_key_parts(1))
  qed
  have "\<forall>k \<in> set ks. \<exists>w c. k = chunked_posting_key s w c \<and> utf8_valid (str_bytes w)" using key unfolding vocab_key_def by blast
  from collect_terms_run [of s "map fst es", unfolded own, OF this]
  have run: "scope_terms T t s = Inr (remdups_adj (map key_term ks))"
    by (simp add: scope_terms_def es fold_adjacent_all)
  have "sorted (map key_term ks)"
    unfolding sorted_map using scan_keys(2) [OF es, THEN sorted_wrt_filter, of "\<lambda>k. take 4 k = u32_to_be s", folded ks_def]
    by (rule sorted_wrt_mono_rel [rotated]) (use key in \<open>auto intro: vocab_key_order\<close>)
  moreover have "set (map key_term ks) = {w. plist L (rows t) s w \<noteq> []}"
  proof (rule set_eqI)
    fix w
    have "w \<in> set (map key_term ks) \<longleftrightarrow> (\<exists>c. chunked_posting_key s w c \<in> set ks)"
    proof
      assume "w \<in> set (map key_term ks)"
      then obtain k where k: "k \<in> set ks" "key_term k = w" by auto
      with key [OF k(1)] show "\<exists>c. chunked_posting_key s w c \<in> set ks" by (auto simp: vocab_key_def key_term_key)
    next
      assume "\<exists>c. chunked_posting_key s w c \<in> set ks"
      then show "w \<in> set (map key_term ks)" by (metis image_eqI key_term_key list.set_map)
    qed
    also have "\<dots> \<longleftrightarrow> plist L (rows t) s w \<noteq> []"
      using own_keys_mem [OF es, folded ks_def] has_postings_iff [OF ok(1)] by simp
    finally show "w \<in> set (map key_term ks) \<longleftrightarrow> w \<in> {w. plist L (rows t) s w \<noteq> []}" by simp
  qed
  ultimately show ?thesis using run remdups_adj_strict [of "map key_term ks"] by auto
qed

end

section \<open>The expansions\<close>

text \<open>How near a term is: 1 for a prefix match, the edit distance otherwise.\<close>

definition nearness :: "string \<Rightarrow> string \<Rightarrow> nat \<Rightarrow> bool" where
  "nearness q t r \<longleftrightarrow> t \<noteq> q \<and>
     (if prefix_hit q t then r = 1
      else 3 \<le> length (utf8_chars q) \<and> r \<le> (if length (utf8_chars q) \<le> 5 then 1 else 2) \<and>
           within r (utf8_chars q) (utf8_chars t) \<and> (\<forall>n < r. \<not> within n (utf8_chars q) (utf8_chars t)))"

lemma within_least: "within r xs ys \<and> (\<forall>n < r. \<not> within n xs ys) \<longleftrightarrow> r = lev xs ys"
  unfolding lev_within by (metis le_refl not_less nat_less_le)

lemma fuzzy_rank_nearness:
  assumes "length (utf8_chars q) + length (utf8_chars t) + 2 < 2 ^ 32"
  shows "fuzzy_rank q t = Some r \<longleftrightarrow> nearness q t (unat r)"
proof -
  let ?d = "lev (utf8_chars q) (utf8_chars t)"
  have d: "?d < 2 ^ 32" using lev_bound [of "utf8_chars q" "utf8_chars t"] assms by simp
  then have r: "word_of_nat ?d = r \<longleftrightarrow> unat r = ?d" by (auto simp: unat_of_nat word_unat_eq_iff)
  have one: "unat r = 1 \<longleftrightarrow> 1 = r" by (metis unat_1 word_unat_eq_iff)
  show ?thesis
    unfolding fuzzy_rank_def nearness_def within_least Let_def bounded_levenshtein_lev [OF assms]
    using r one by (auto simp: max_distance_def split: if_splits)
qed

lemma ranked_mem: "(r, t) \<in> set (ranked_terms vocab q) \<longleftrightarrow> t \<in> set vocab \<and> fuzzy_rank q t = Some r"
  by (auto simp: ranked_terms_def split: option.splits)

lemma take_sorted_least:
  assumes "sorted xs" "x \<in> set (take n xs)" "y \<in> set xs" "y \<notin> set (take n xs)"
  shows "x \<le> y" "n \<le> length xs"
proof -
  have "y \<in> set (drop n xs)" using assms(3,4) by (metis Un_iff append_take_drop_id set_append)
  then show "n \<le> length xs" by (cases "n \<le> length xs") simp_all
  have "sorted (take n xs @ drop n xs)" using assms(1) by simp
  with assms(2) \<open>y \<in> set (drop n xs)\<close> show "x \<le> y" unfolding sorted_append by blast
qed

lemma expansion_mem: "t \<in> set (fuzzy_expansions vocab q) \<longleftrightarrow> (\<exists>r. (r, t) \<in> set (take FUZZY_MAX_EXPANSIONS (sort (ranked_terms vocab q))))"
  by (force simp: fuzzy_expansions_def)

lemma expansion_near:
  assumes fits: "\<forall>t \<in> set vocab. length (utf8_chars q) + length (utf8_chars t) + 2 < 2 ^ 32" and t: "t \<in> set (fuzzy_expansions vocab q)"
  shows "t \<in> set vocab" "\<exists>r. nearness q t (unat r) \<and> (r, t) \<in> set (take FUZZY_MAX_EXPANSIONS (sort (ranked_terms vocab q)))"
proof -
  from t obtain r where r: "(r, t) \<in> set (take FUZZY_MAX_EXPANSIONS (sort (ranked_terms vocab q)))" by (auto simp: expansion_mem)
  then have m: "t \<in> set vocab" "fuzzy_rank q t = Some r" using ranked_mem [of r t vocab q] by (auto dest: in_set_takeD)
  then show "t \<in> set vocab" by simp
  show "\<exists>r. nearness q t (unat r) \<and> (r, t) \<in> set (take FUZZY_MAX_EXPANSIONS (sort (ranked_terms vocab q)))"
    using r m fits by (auto simp: fuzzy_rank_nearness [symmetric])
qed

lemma nearness_unique: "nearness q t m \<Longrightarrow> nearness q t n \<Longrightarrow> m = n"
  unfolding nearness_def within_least by (auto split: if_splits)

lemma nearness_not_self: "nearness q t r \<Longrightarrow> t \<noteq> q"
  by (simp add: nearness_def)

lemma nearness_small: "nearness q t n \<Longrightarrow> n \<le> 2"
  unfolding nearness_def by (auto split: if_splits)

section \<open>Properties\<close>

text \<open>The vocabulary of a scope is exactly the terms with postings in the scope, ascending and without repetition,
  although the scan sees chunk keys only and other scopes and terms interleave in the table. It relies on terms
  without zero bytes and on fewer than \<open>2\<^sup>2\<^sup>4\<close> chunks per term.\<close>

theorem scope_terms_exact:
  assumes "chunk_store_live T rows L" and "postings_wf L (rows t)" and "terms_ok (rows t)" and "chunks_below (2 ^ 24) (rows t)"
  shows "\<exists>ws. scope_terms T t s = Inr ws \<and> sorted_wrt (<) ws \<and> set ws = {w. plist L (rows t) s w \<noteq> []}"
  using chunk_store_live.scope_terms_run [OF assms(1) _ assms(3,4)] assms(2) by (simp add: postings_wf_def)

lemma one_term_table:
  "\<exists>t'. set_posting rle_lz4 rbt_ops 7 ''graph'' 42 3 RBT.empty = Inr t' \<and> postings_wf rle_lz4 (RBT.lookup t') \<and>
    terms_ok (RBT.lookup t') \<and> chunks_below (2 ^ 24) (RBT.lookup t') \<and> {w. plist rle_lz4 (RBT.lookup t') 7 w \<noteq> []} = {''graph''}"
proof -
  have empty: "plist rle_lz4 Map.empty s w = []" for s w by (simp add: plist_def column_chunks_def chunk_nums_def column_def)
  have wf: "postings_wf rle_lz4 (RBT.lookup RBT.empty)" "chunks_below 0 (RBT.lookup (RBT.empty :: (bytes, bytes) rbt))"
    by (simp_all add: postings_wf_def blocks_ok_def empty chunks_below_def column_def)
  obtain t' where t': "set_posting rle_lz4 rbt_ops 7 ''graph'' 42 3 RBT.empty = Inr t'" "postings_wf rle_lz4 (RBT.lookup t')"
    "chunks_below (Suc 0) (RBT.lookup t')"
    "\<And>s' w'. plist rle_lz4 (RBT.lookup t') s' w' = (if s' = 7 \<and> w' = ''graph'' then put_posting 42 3 [] else [])"
    using rbt_chunks.set_posting_step [OF wf, of 7 "''graph''" 42 3] by (auto simp: empty)
  have "w = ''graph''" if "column (RBT.lookup t') s w c \<noteq> None" for s w c
    using that rbt_chunks.has_postings_iff [of t' s w] t'(2,4) by (auto simp: postings_wf_def split: if_splits)
  moreover have "utf8_valid (str_bytes ''graph'') \<and> 0 \<notin> set (str_bytes ''graph'')" by code_simp
  ultimately have "terms_ok (RBT.lookup t')" unfolding terms_ok_def by metis
  moreover have "chunks_below (2 ^ 24) (RBT.lookup t')" by (rule chunks_below_mono [OF t'(3)]) simp
  moreover have "{w. plist rle_lz4 (RBT.lookup t') 7 w \<noteq> []} = {''graph''}" by (auto simp: t'(4) put_posting_def)
  ultimately show ?thesis using t'(1,2) by blast
qed

theorem scope_terms_exact_witness:
  "\<exists>t'. set_posting rle_lz4 rbt_ops 7 ''graph'' 42 3 RBT.empty = Inr t' \<and> scope_terms rbt_ops t' 7 = Inr [''graph'']"
proof -
  obtain t' where t': "set_posting rle_lz4 rbt_ops 7 ''graph'' 42 3 RBT.empty = Inr t'" "postings_wf rle_lz4 (RBT.lookup t')"
    "terms_ok (RBT.lookup t')" "chunks_below (2 ^ 24) (RBT.lookup t')" "{w. plist rle_lz4 (RBT.lookup t') 7 w \<noteq> []} = {''graph''}"
    using one_term_table by blast
  obtain ws where ws: "scope_terms rbt_ops t' 7 = Inr ws" "sorted_wrt (<) ws" "set ws = {''graph''}"
    using scope_terms_exact [OF rbt_chunks.chunk_store_live_axioms t'(2-4), of 7] t'(5) by auto
  have "ws = [''graph'']" using ws(2,3) by (intro sorted_distinct_set_unique) (auto simp: strict_sorted_iff)
  with t'(1) ws(1) show ?thesis by blast
qed

text \<open>C20. The expansions of a term are at most four near terms of the vocabulary, never the term itself, and a near term
  that is left out is no nearer than any that is returned, ties going to the smaller term.\<close>

theorem fuzzy_expansions_nearest:
  assumes "\<forall>t \<in> set vocab. length (utf8_chars q) + length (utf8_chars t) + 2 < 2 ^ 32"
  shows "length (fuzzy_expansions vocab q) \<le> 4 \<and>
    (\<forall>t \<in> set (fuzzy_expansions vocab q). t \<in> set vocab \<and> t \<noteq> q \<and> (\<exists>r. nearness q t r)) \<and>
    (\<forall>t \<in> set vocab. \<forall>r. nearness q t r \<and> t \<notin> set (fuzzy_expansions vocab q) \<longrightarrow>
       length (fuzzy_expansions vocab q) = 4 \<and>
       (\<forall>t' \<in> set (fuzzy_expansions vocab q). \<forall>r'. nearness q t' r' \<longrightarrow> r' < r \<or> r' = r \<and> t' \<le> t))"
proof (intro conjI ballI allI impI)
  let ?xs = "sort (ranked_terms vocab q)" and ?out = "fuzzy_expansions vocab q"
  show "length ?out \<le> 4" by (simp add: fuzzy_expansions_def FUZZY_MAX_EXPANSIONS_def)
  fix t assume "t \<in> set ?out"
  from expansion_near [OF assms this] show "t \<in> set vocab" "t \<noteq> q" "\<exists>r. nearness q t r" using nearness_not_self by blast+
next
  let ?xs = "sort (ranked_terms vocab q)" and ?out = "fuzzy_expansions vocab q"
  fix t r assume t: "t \<in> set vocab" and r: "nearness q t r \<and> t \<notin> set ?out"
  have ur: "unat (word_of_nat r :: u32) = r" using nearness_small [of q t r] r by (simp add: unat_of_nat)
  have mem: "(word_of_nat r, t) \<in> set ?xs" using t r assms ur by (simp add: ranked_mem fuzzy_rank_nearness)
  have out: "(word_of_nat r, t) \<notin> set (take FUZZY_MAX_EXPANSIONS ?xs)" using r by (auto simp: expansion_mem)
  have "(word_of_nat r, t) \<in> set (drop FUZZY_MAX_EXPANSIONS ?xs)" using mem out by (metis Un_iff append_take_drop_id set_append)
  then show "length ?out = 4"
    by (cases "FUZZY_MAX_EXPANSIONS \<le> length ?xs") (simp_all add: fuzzy_expansions_def FUZZY_MAX_EXPANSIONS_def)
  fix t' r' assume t': "t' \<in> set ?out" and r': "nearness q t' r'"
  from expansion_near(2) [OF assms t'] obtain n where n: "nearness q t' (unat n)" "(n, t') \<in> set (take FUZZY_MAX_EXPANSIONS ?xs)" by blast
  have "unat n = r'" using nearness_unique [OF n(1) r'] .
  moreover have "(n, t') \<le> (word_of_nat r, t)" using take_sorted_least(1) [OF sorted_sort n(2) mem out] .
  ultimately show "r' < r \<or> r' = r \<and> t' \<le> t" using ur by (auto simp: less_eq_prod_def word_less_nat_alt word_le_nat_alt)
qed

theorem fuzzy_expansions_nearest_witness:
  "fuzzy_expansions [''grape'', ''graph'', ''tree''] ''graphs'' = [''graph'', ''grape''] \<and>
   length (fuzzy_expansions [''grape'', ''graph'', ''tree''] ''graphs'') \<le> 4 \<and> (\<exists>r. nearness ''graphs'' ''grape'' r)"
proof -
  have run: "fuzzy_expansions [''grape'', ''graph'', ''tree''] ''graphs'' = [''graph'', ''grape'']" by code_simp
  have "length (utf8_chars s) \<le> length s" for s
    by (induction s rule: utf8_chars.induct) (auto intro: le_trans [OF _ length_dropWhile_le])
  from this [of "''graphs''"] this [of "''grape''"] this [of "''graph''"] this [of "''tree''"]
  have "\<forall>t \<in> set [''grape'', ''graph'', ''tree'']. length (utf8_chars ''graphs'') + length (utf8_chars t) + 2 < 2 ^ 32" by simp
  from fuzzy_expansions_nearest [OF this] run show ?thesis by simp
qed

end
