(* ===== verification/SearchOptions.thy ===== *)
theory SearchOptions
  imports Floats
begin

text \<open>
  The tuning of text searches (\<^verbatim>\<open>crates/topodb/src/fts.rs\<close>, lines 66-297): result filters, half-lives and their
  validation. Constants are the bit patterns of the literals.
\<close>

definition K1 :: f32 where "K1 = 0x3F99999A"
definition BM25_B :: f32 where "BM25_B = 0x3F400000"
definition FUZZY_DISCOUNT :: f32 where "FUZZY_DISCOUNT = 0x3F19999A"

section \<open>Filters\<close>

record prop_retain =
  pr_prop :: string
  any_of :: "string list"
  absent_as :: "string option"

definition retain_keeps :: "prop_retain \<Rightarrow> props \<Rightarrow> bool" where
  "retain_keeps p ps =
     (let val = (case bt_get ps (pr_prop p) of Some (PStr s) \<Rightarrow> Some s | _ \<Rightarrow> absent_as p)
      in case val of Some v \<Rightarrow> v \<in> set (any_of p) | None \<Rightarrow> False)"

record created_range =
  after_ms :: "i64 option"
  before_ms :: "i64 option"

definition range_keeps :: "created_range \<Rightarrow> i64 \<Rightarrow> bool" where
  "range_keeps r ts_ms \<longleftrightarrow>
     (case after_ms r of None \<Rightarrow> True | Some after \<Rightarrow> after \<le>s ts_ms) \<and>
     (case before_ms r of None \<Rightarrow> True | Some before \<Rightarrow> ts_ms <s before)"

record prop_half_life =
  hl_prop :: string
  per_value :: "(string \<times> i64) list"
  default_ms :: i64

record search_options =
  recency_weight :: f32
  recency_half_life_ms :: i64
  recency_half_life_by_prop :: "prop_half_life option"
  so_now_ms :: "i64 option"
  fuzzy_fallback :: bool
  so_retain :: "prop_retain option"
  so_created :: "created_range option"

definition default_options :: search_options where
  "default_options = \<lparr>recency_weight = f_zero, recency_half_life_ms = 30 * 24 * 60 * 60 * 1000,
     recency_half_life_by_prop = None, so_now_ms = None, fuzzy_fallback = True, so_retain = None, so_created = None\<rparr>"

section \<open>Validation\<close>

fun validate_per_value :: "(string \<times> i64) list \<Rightarrow> unit result" where
  "validate_per_value [] = Inr ()"
| "validate_per_value ((v, ms) # rest) =
     (if ms \<le>s 0 then Inl (Rejected ''recency_half_life_by_prop value must be > 0'') else validate_per_value rest)"

definition validate_half_lives :: "search_options \<Rightarrow> unit result" where
  "validate_half_lives opt =
     (case recency_half_life_by_prop opt of
        Some m \<Rightarrow>
          if hl_prop m = [] then Inl (Rejected ''recency_half_life_by_prop.prop must not be empty'')
          else if default_ms m \<le>s 0 then Inl (Rejected ''recency_half_life_by_prop.default_ms must be > 0'')
          else validate_per_value (per_value m)
      | None \<Rightarrow>
          if recency_half_life_ms opt \<le>s 0 then Inl (Rejected ''recency_half_life_ms must be > 0'') else Inr ())"

definition validate_recency :: "f32_ops \<Rightarrow> search_options \<Rightarrow> unit result" where
  "validate_recency F opt =
     (let w = recency_weight opt
      in if \<not> (f_le F f_zero w \<and> f_le F w f_one) \<or> \<not> f_finite F w then Inl (Rejected ''recency_weight must be in 0.0..=1.0'')
         else if f_lt F f_zero w then validate_half_lives opt
         else Inr ())"

definition validate_prop_retain :: "search_options \<Rightarrow> unit result" where
  "validate_prop_retain opt =
     (case so_retain opt of
        Some r \<Rightarrow>
          if pr_prop r = [] then Inl (Rejected ''prop_retain.prop must not be empty'')
          else if any_of r = [] then Inl (Rejected ''prop_retain.any_of must not be empty'')
          else Inr ()
      | None \<Rightarrow> Inr ())"

definition validate_created_range :: "search_options \<Rightarrow> unit result" where
  "validate_created_range opt =
     (case so_created opt of
        Some r \<Rightarrow> (case (after_ms r, before_ms r) of
            (Some after, Some before) \<Rightarrow> if before \<le>s after then Inl (Rejected ''created_range is empty'') else Inr ()
          | _ \<Rightarrow> Inr ())
      | None \<Rightarrow> Inr ())"

definition half_life_for :: "search_options \<Rightarrow> node_record \<Rightarrow> i64" where
  "half_life_for opt r =
     (case recency_half_life_by_prop opt of
        Some m \<Rightarrow> (case bt_get (n_props r) (hl_prop m) of
            Some (PStr v) \<Rightarrow> (case find (\<lambda>p. fst p = v) (per_value m) of Some (_, ms) \<Rightarrow> ms | None \<Rightarrow> default_ms m)
          | _ \<Rightarrow> default_ms m)
      | None \<Rightarrow> recency_half_life_ms opt)"

section \<open>What validation gives\<close>

lemma validate_per_value_Inr: "validate_per_value ps = Inr () \<longleftrightarrow> (\<forall>p \<in> set ps. \<not> snd p \<le>s 0)"
  by (induction ps rule: validate_per_value.induct) auto

text \<open>Once the options of a search are accepted and recency is weighted, every node decays with a positive half-life,
  whatever its properties hold, so the age is never divided by zero or by a negative number; and an accepted creation
  range that starts somewhere keeps the timestamp it starts at.\<close>

theorem validated_options:
  "(validate_recency F opt = Inr () \<and> f_lt F f_zero (recency_weight opt) \<longrightarrow> \<not> half_life_for opt r \<le>s 0) \<and>
   (validate_created_range opt = Inr () \<and> so_created opt = Some rng \<and> after_ms rng = Some a \<longrightarrow> range_keeps rng a)"
  (is "?h \<and> ?c")
proof
  show ?h
  proof (intro impI, elim conjE)
    assume v: "validate_recency F opt = Inr ()" and w: "f_lt F f_zero (recency_weight opt)"
    then have "validate_half_lives opt = Inr ()" by (auto simp: validate_recency_def Let_def split: if_splits)
    then show "\<not> half_life_for opt r \<le>s 0"
      by (auto simp: validate_half_lives_def half_life_for_def validate_per_value_Inr find_Some_iff
          split: option.splits if_splits prop_value.splits) (metis nth_mem snd_conv)+
  qed
  show ?c
    by (auto simp: validate_created_range_def range_keeps_def word_sle_eq word_sless_alt split: option.splits if_splits)
qed

end
