(* ===== verification/Search.thy ===== *)
theory Search
  imports Loads Fuzzy SearchOptions Ranking Batch
begin

text \<open>
  The text search of the engine (\<^verbatim>\<open>crates/topodb/src/fts.rs\<close>, lines 1196-1535): each requested scope is scored against its
  own corpus, first with the terms of the query, then with discounted expansions and near terms; the scored slots are
  read back, filtered, ranked and cut to the wanted number of hits, which are then bumped. Hash maps are association
  lists whose iteration order is the parameter \<open>hash_order\<close>; the timestamp of an id belongs to the \<^verbatim>\<open>ulid\<close> crate.
\<close>

section \<open>Scores\<close>

type_synonym scores = "(u64 \<times> f32) list"

text \<open>\<^verbatim>\<open>*scores.entry(slot).or_insert(0.0) += x\<close>\<close>

fun add_score :: "f32_ops \<Rightarrow> u64 \<Rightarrow> f32 \<Rightarrow> scores \<Rightarrow> scores" where
  "add_score F slot x [] = [(slot, f_add F f_zero x)]"
| "add_score F slot x ((s, v) # m) = (if s = slot then (s, f_add F v x) # m else (s, v) # add_score F slot x m)"

definition bm25_idf :: "f32_ops \<Rightarrow> u64 \<Rightarrow> f32 \<Rightarrow> f32" where
  "bm25_idf F n_docs df =
     f_ln F (f_add F (f_div F (f_add F (f_sub F (f_of_u64 F n_docs) df) f_half) (f_add F df f_half)) f_one)"

definition bm25 :: "f32_ops \<Rightarrow> f32 \<Rightarrow> f32 \<Rightarrow> f32 \<Rightarrow> u32 \<Rightarrow> u32 \<Rightarrow> f32" where
  "bm25 F avgdl weight idf tf len =
     (let t = f_of_u32 F tf;
          denom = f_add F t (f_mul F K1 (f_add F (f_sub F f_one BM25_B) (f_div F (f_mul F BM25_B (f_of_u32 F len)) avgdl)))
      in f_div F (f_mul F (f_mul F (f_mul F weight idf) t) (f_add F K1 f_one)) denom)"

definition accumulate :: "('b, 'd, 'l, 'm, 'o) env \<Rightarrow> f32_ops \<Rightarrow> ('b, 'd, 'l, 'm, 'o, 'z) store_scheme \<Rightarrow> u32 \<Rightarrow> u64 \<Rightarrow> f32
    \<Rightarrow> string \<Rightarrow> f32 \<Rightarrow> f32 \<Rightarrow> scores \<Rightarrow> scores result" where
  "accumulate E F st scope_id n_docs avgdl w df weight scores =
     rbind (read_posting (lz E) (eB E) (postings st) scope_id w) (\<lambda>hits.
     rfold (\<lambda>(slot, tf) sc. rbind (read_doc_len (eB E) (pc_fts E) (fts_docs st) slot) (\<lambda>len.
              Inr (add_score F slot (bm25 F avgdl weight (bm25_idf F n_docs df) tf len) sc))) hits scores)"

text \<open>The state of one scope's pass: the scores, the tokens that were discounted and the vocabulary, once read.\<close>

record pass =
  p_scores :: scores
  p_seen :: "string set"
  p_vocab :: "string list option"

definition exact_term :: "('b, 'd, 'l, 'm, 'o) env \<Rightarrow> f32_ops \<Rightarrow> ('b, 'd, 'l, 'm, 'o, 'z) store_scheme \<Rightarrow> u32 \<Rightarrow> u64 \<Rightarrow> f32
    \<Rightarrow> string \<Rightarrow> scores \<times> string list \<Rightarrow> (scores \<times> string list) result" where
  "exact_term E F st scope_id n_docs avgdl w = (\<lambda>(sc, hits).
     rbind (posting_df (lz E) (eB E) (postings st) scope_id w) (\<lambda>n.
     let df = f_of_u64 F n
     in if f_lt F f_zero df
        then rbind (accumulate E F st scope_id n_docs avgdl w df f_one sc) (\<lambda>sc'. Inr (sc', hits @ [w]))
        else Inr (sc, hits)))"

definition discounted_term :: "('b, 'd, 'l, 'm, 'o) env \<Rightarrow> f32_ops \<Rightarrow> ('b, 'd, 'l, 'm, 'o, 'z) store_scheme \<Rightarrow> u32 \<Rightarrow> u64 \<Rightarrow> f32
    \<Rightarrow> string list \<Rightarrow> string \<Rightarrow> pass \<Rightarrow> pass result" where
  "discounted_term E F st scope_id n_docs avgdl exact w p =
     (if w \<in> set exact \<or> w \<in> p_seen p then Inr p
      else
        let p' = p\<lparr>p_seen := insert w (p_seen p)\<rparr>
        in rbind (posting_df (lz E) (eB E) (postings st) scope_id w) (\<lambda>n.
           let df = f_of_u64 F n
           in if f_lt F f_zero df
              then rbind (accumulate E F st scope_id n_docs avgdl w df FUZZY_DISCOUNT (p_scores p'))
                     (\<lambda>sc. Inr (p'\<lparr>p_scores := sc\<rparr>))
              else Inr p'))"

definition expansion_tokens :: "analyzer \<Rightarrow> string \<Rightarrow> string \<times> string list \<Rightarrow> string list" where
  "expansion_tokens A w = (\<lambda>(expanded_from, terms).
     case tokenize A expanded_from of
       [] \<Rightarrow> []
     | t # _ \<Rightarrow> if t = w then concat (map (tokenize A) terms) else [])"

definition fuzzy_pass :: "('b, 'd, 'l, 'm, 'o) env \<Rightarrow> f32_ops \<Rightarrow> ('b, 'd, 'l, 'm, 'o, 'z) store_scheme \<Rightarrow> u32 \<Rightarrow> u64 \<Rightarrow> f32
    \<Rightarrow> string list \<Rightarrow> string \<Rightarrow> pass \<Rightarrow> pass result" where
  "fuzzy_pass E F st scope_id n_docs avgdl exact w p =
     rbind (case p_vocab p of
              None \<Rightarrow> scope_terms (eB E) (postings st) scope_id
            | Some v \<Rightarrow> Inr v) (\<lambda>vocab.
     rfold (discounted_term E F st scope_id n_docs avgdl exact) (fuzzy_expansions vocab w) (p\<lparr>p_vocab := Some vocab\<rparr>))"

definition extra_terms :: "('b, 'd, 'l, 'm, 'o) env \<Rightarrow> f32_ops \<Rightarrow> ('b, 'd, 'l, 'm, 'o, 'z) store_scheme \<Rightarrow> search_options
    \<Rightarrow> (string \<times> string list) list \<Rightarrow> u32 \<Rightarrow> u64 \<Rightarrow> f32 \<Rightarrow> string list \<Rightarrow> string \<Rightarrow> pass \<Rightarrow> pass result" where
  "extra_terms E F st opt expansions scope_id n_docs avgdl exact w p =
     rbind (rfold (discounted_term E F st scope_id n_docs avgdl exact)
              (concat (map (expansion_tokens (analyzer_of E) w) expansions)) p) (\<lambda>p1.
     if w \<in> set exact then Inr p1
     else if \<not> fuzzy_fallback opt then Inr p1
     else fuzzy_pass E F st scope_id n_docs avgdl exact w p1)"

definition score_scope :: "('b, 'd, 'l, 'm, 'o) env \<Rightarrow> f32_ops \<Rightarrow> ('b, 'd, 'l, 'm, 'o, 'z) store_scheme \<Rightarrow> search_options
    \<Rightarrow> (string \<times> string list) list \<Rightarrow> string list \<Rightarrow> scope \<Rightarrow> scores \<Rightarrow> scores result" where
  "score_scope E F st opt expansions terms scope sc =
     (case scope_id_of (i_scopes st) scope of
        None \<Rightarrow> Inr sc
      | Some scope_id \<Rightarrow>
          rbind (read_stats (eB E) (pc_fts E) (fts_stats st) scope_id) (\<lambda>(n_docs, total_len).
          if n_docs = 0 then Inr sc
          else
            let avgdl = f_div F (f_of_u64 F total_len) (f_of_u64 F n_docs)
            in rbind (rfold (exact_term E F st scope_id n_docs avgdl) terms (sc, [])) (\<lambda>(sc1, exact).
               rbind (rfold (extra_terms E F st opt expansions scope_id n_docs avgdl exact) terms
                        \<lparr>p_scores = sc1, p_seen = {}, p_vocab = None\<rparr>) (\<lambda>p. Inr (p_scores p)))))"

section \<open>Hits\<close>

text \<open>\<^verbatim>\<open>(now - ts).max(0)\<close> on signed integers; the difference wraps in a release build.\<close>

definition hit_score :: "f32_ops \<Rightarrow> search_options \<Rightarrow> i64 option \<Rightarrow> i64 \<Rightarrow> node_record \<Rightarrow> f32 \<Rightarrow> f32" where
  "hit_score F opt recency_now ts rec score =
     (case recency_now of
        None \<Rightarrow> score
      | Some now \<Rightarrow>
          let w = recency_weight opt;
              age = f_of_i64 F (if now - ts <s 0 then 0 else now - ts);
              half_life = f_of_i64 F (half_life_for opt rec)
          in f_mul F score (f_add F (f_sub F f_one w) (f_mul F w (f_exp2 F (f_neg F (f_div F age half_life))))))"

definition retired :: "i64 option \<Rightarrow> string list \<Rightarrow> node_record \<Rightarrow> bool" where
  "retired tombstone_now tombstone_props rec \<longleftrightarrow>
     (case tombstone_now of
        None \<Rightarrow> False
      | Some now \<Rightarrow> \<exists>p \<in> set tombstone_props. case bt_get (n_props rec) p of Some (PInt ts) \<Rightarrow> ts \<le>s now | _ \<Rightarrow> False)"

definition hit_kept :: "search_options \<Rightarrow> i64 option \<Rightarrow> string list \<Rightarrow> scope_set \<Rightarrow> i64 \<Rightarrow> node_record \<Rightarrow> bool" where
  "hit_kept opt tombstone_now tombstone_props scopes ts rec \<longleftrightarrow>
     contains scopes (n_scope rec) \<and> \<not> retired tombstone_now tombstone_props rec \<and>
     (case so_retain opt of None \<Rightarrow> True | Some r \<Rightarrow> retain_keeps r (n_props rec)) \<and>
     (case so_created opt of None \<Rightarrow> True | Some r \<Rightarrow> range_keeps r ts)"

definition collect_hit :: "('b, 'd, 'l, 'm, 'o) env \<Rightarrow> f32_ops \<Rightarrow> ('b, 'd, 'l, 'm, 'o, 'z) store_scheme \<Rightarrow> (node_id \<Rightarrow> u64)
    \<Rightarrow> search_options \<Rightarrow> i64 option \<Rightarrow> i64 option \<Rightarrow> string list \<Rightarrow> scope_set \<Rightarrow> u64 \<times> f32
    \<Rightarrow> (node_record \<times> f32) list \<Rightarrow> (node_record \<times> f32) list result" where
  "collect_hit E F st timestamp_ms opt recency_now tombstone_now tombstone_props scopes = (\<lambda>(slot, score) out.
     rbind (read_node_by_slot E st slot) (\<lambda>r. Inr (case r of
         Some rec \<Rightarrow>
           if hit_kept opt tombstone_now tombstone_props scopes (timestamp_ms (n_id rec)) rec
           then out @ [(rec, hit_score F opt recency_now (timestamp_ms (n_id rec)) rec score)]
           else out
       | None \<Rightarrow> out)))"

text \<open>Descending score, then ascending id; scores that do not compare count as equal.\<close>

definition ranks_before :: "f32_ops \<Rightarrow> node_record \<times> f32 \<Rightarrow> node_record \<times> f32 \<Rightarrow> bool" where
  "ranks_before F = (\<lambda>(r, a) (q, b). f_lt F b a \<or> \<not> f_lt F a b \<and> n_id r \<le> n_id q)"

section \<open>The search\<close>

text \<open>The clocks of a search: read at most once each, and not at all when the option gives the time or nothing asks for it.\<close>

definition recency_clock :: "f32_ops \<Rightarrow> search_options \<Rightarrow> i64 \<Rightarrow> i64 option" where
  "recency_clock F opt wall =
     (if f_lt F f_zero (recency_weight opt) then Some (case so_now_ms opt of Some t \<Rightarrow> t | None \<Rightarrow> wall) else None)"

definition tombstone_clock :: "search_options \<Rightarrow> string list \<Rightarrow> i64 \<Rightarrow> i64 option" where
  "tombstone_clock opt tombstone_props wall =
     (if tombstone_props \<noteq> [] then Some (case so_now_ms opt of Some t \<Rightarrow> t | None \<Rightarrow> wall) else None)"

definition search_results :: "('b, 'd, 'l, 'm, 'o) env \<Rightarrow> f32_ops \<Rightarrow> (node_id \<Rightarrow> u64) \<Rightarrow> (scores \<Rightarrow> scores) \<Rightarrow> redb_error + unit
    \<Rightarrow> i64 \<times> i64 \<Rightarrow> ('b, 'd, 'l, 'm, 'o, 'z) store_scheme \<Rightarrow> scope_set \<Rightarrow> string \<Rightarrow> nat \<Rightarrow> search_options
    \<Rightarrow> (string \<times> string list) list \<Rightarrow> string list \<Rightarrow> (node_record \<times> f32) list result" where
  "search_results E F timestamp_ms hash_order begin_read wall st scopes query k opt expansions tombstone_props =
     (if k = 0 then Inl (Rejected ''text search requires k > 0'')
      else
        rbind (validate_recency F opt) (\<lambda>_.
        rbind (validate_prop_retain opt) (\<lambda>_.
        rbind (validate_created_range opt) (\<lambda>_.
        let tokens = tokenize (analyzer_of E) query
        in if tokens = [] then Inl (Rejected ''query has no searchable terms'')
           else
             rbind (redb begin_read) (\<lambda>_.
             rbind (rfold (score_scope E F st opt expansions (sort (remdups tokens))) (iter_scopes scopes) []) (\<lambda>scores.
             rbind (rfold (collect_hit E F st timestamp_ms opt (recency_clock F opt (fst wall)) (tombstone_clock opt tombstone_props (snd wall))
                       tombstone_props scopes) (hash_order scores) []) (\<lambda>out.
             Inr (take k (sort_by (ranks_before F) out)))))))))"

definition search_text_expanded_internal :: "('b, 'd, 'l, 'm, 'o) env \<Rightarrow> f32_ops \<Rightarrow> (node_id \<Rightarrow> u64) \<Rightarrow> (scores \<Rightarrow> scores)
    \<Rightarrow> ('c, node_id \<times> i64) sender_ops \<Rightarrow> redb_error + unit \<Rightarrow> i64 \<times> i64 \<Rightarrow> i64 \<Rightarrow> ('b, 'd, 'l, 'm, 'o, 'z) store_scheme \<Rightarrow> scope_set
    \<Rightarrow> string \<Rightarrow> nat \<Rightarrow> search_options \<Rightarrow> (string \<times> string list) list \<Rightarrow> bool \<Rightarrow> string list \<Rightarrow> 'c option
    \<Rightarrow> (node_record \<times> f32) list result \<times> 'c option" where
  "search_text_expanded_internal E F timestamp_ms hash_order C begin_read wall now st scopes query k opt expansions bump_hits
     tombstone_props bump_tx =
     (case search_results E F timestamp_ms hash_order begin_read wall st scopes query k opt expansions tombstone_props of
        Inl e \<Rightarrow> (Inl e, bump_tx)
      | Inr out \<Rightarrow> (Inr out, if bump_hits then bump C now (map (n_id \<circ> fst) out) bump_tx else bump_tx))"

definition search_text_expanded where
  "search_text_expanded E F timestamp_ms hash_order C begin_read wall now st scopes query k opt expansions =
     search_text_expanded_internal E F timestamp_ms hash_order C begin_read wall now st scopes query k opt expansions True []"

definition search_text_with where
  "search_text_with E F timestamp_ms hash_order C begin_read wall now st scopes query k opt =
     search_text_expanded E F timestamp_ms hash_order C begin_read wall now st scopes query k opt []"

definition search_text where
  "search_text E F timestamp_ms hash_order C begin_read wall now st scopes query k =
     search_text_with E F timestamp_ms hash_order C begin_read wall now st scopes query k default_options"

definition search_text_unbumped where
  "search_text_unbumped E F timestamp_ms hash_order C begin_read wall now st scopes query k =
     search_text_expanded_internal E F timestamp_ms hash_order C begin_read wall now st scopes query k default_options [] False []"

definition search_text_live where
  "search_text_live E F timestamp_ms hash_order C begin_read wall now st scopes query k opt tombstone_props =
     search_text_expanded_internal E F timestamp_ms hash_order C begin_read wall now st scopes query k opt [] True tombstone_props"

section \<open>What a search is worth\<close>

text \<open>The slots whose document contains a word, in a scope, and the words of the scope.\<close>

definition holding :: "documents \<Rightarrow> u32 \<Rightarrow> string \<Rightarrow> u64 set" where
  "holding D sc w = {slot. \<exists>ts. D slot = Some (sc, ts) \<and> w \<in> set ts}"

definition vocabulary :: "documents \<Rightarrow> u32 \<Rightarrow> string set" where
  "vocabulary D sc = {w. holding D sc w \<noteq> {}}"

text \<open>The tokens of the documents are strings of the analyzer.\<close>

definition tokens_ok :: "documents \<Rightarrow> bool" where
  "tokens_ok D \<longleftrightarrow> (\<forall>slot sc ts w. D slot = Some (sc, ts) \<and> w \<in> set ts \<longrightarrow> utf8_valid (str_bytes w) \<and> 0 \<notin> set (str_bytes w))"

text \<open>The first occurrences of the elements outside a set.\<close>

fun fresh :: "'a set \<Rightarrow> 'a list \<Rightarrow> 'a list" where
  "fresh A [] = []"
| "fresh A (x # xs) = (if x \<in> A then fresh A xs else x # fresh (insert x A) xs)"

text \<open>The words a query looks for in a scope, with their weights: its own terms count fully; the expansions of every term
  and the near words of a missing one count once, at a discount, unless the query has the word itself.\<close>

definition extra_words :: "analyzer \<Rightarrow> search_options \<Rightarrow> (string \<times> string list) list \<Rightarrow> string set \<Rightarrow> string \<Rightarrow> string list" where
  "extra_words A opt expansions vocab w = concat (map (expansion_tokens A w) expansions) @
     (if w \<notin> vocab \<and> fuzzy_fallback opt then fuzzy_expansions (sorted_list_of_set vocab) w else [])"

definition search_words :: "analyzer \<Rightarrow> search_options \<Rightarrow> (string \<times> string list) list \<Rightarrow> string list \<Rightarrow> string set \<Rightarrow> (string \<times> f32) list" where
  "search_words A opt expansions q vocab = map (\<lambda>w. (w, f_one)) q @
     map (\<lambda>w. (w, FUZZY_DISCOUNT)) (fresh (set q \<inter> vocab) (concat (map (extra_words A opt expansions vocab) q)))"

text \<open>The BM25 value of one word for a document, and of all words of a search.\<close>

definition corpus_docs :: "documents \<Rightarrow> u32 \<Rightarrow> u64" where
  "corpus_docs D sid = word_of_nat (card (docs_in D sid))"

definition corpus_avg :: "f32_ops \<Rightarrow> documents \<Rightarrow> u32 \<Rightarrow> f32" where
  "corpus_avg F D sid = f_div F (f_of_u64 F (word_of_nat (corpus_len D sid))) (f_of_u64 F (corpus_docs D sid))"

definition word_df :: "f32_ops \<Rightarrow> documents \<Rightarrow> u32 \<Rightarrow> string \<Rightarrow> f32" where
  "word_df F D sid w = f_of_u64 F (word_of_nat (card (holding D sid w)))"

definition word_score :: "f32_ops \<Rightarrow> documents \<Rightarrow> u32 \<Rightarrow> string list \<Rightarrow> string \<times> f32 \<Rightarrow> f32" where
  "word_score F D sid ts = (\<lambda>(w, weight). bm25 F (corpus_avg F D sid) weight (bm25_idf F (corpus_docs D sid) (word_df F D sid w))
     (word_of_nat (count_list ts w)) (word_of_nat (length ts)))"

definition add_words :: "f32_ops \<Rightarrow> documents \<Rightarrow> u32 \<Rightarrow> string list \<Rightarrow> (string \<times> f32) list \<Rightarrow> f32 \<Rightarrow> f32" where
  "add_words F D sid ts ws v = foldl (\<lambda>v x. f_add F v (word_score F D sid ts x)) v ws"

definition found_words :: "(string \<times> f32) list \<Rightarrow> string list \<Rightarrow> (string \<times> f32) list" where
  "found_words ws ts = filter (\<lambda>x. fst x \<in> set ts) ws"

definition text_score :: "f32_ops \<Rightarrow> analyzer \<Rightarrow> search_options \<Rightarrow> (string \<times> string list) list \<Rightarrow> string list \<Rightarrow> documents
    \<Rightarrow> u32 \<Rightarrow> string list \<Rightarrow> f32 option" where
  "text_score F A opt expansions q D sid ts =
     (case found_words (search_words A opt expansions q (vocabulary D sid)) ts of
        [] \<Rightarrow> None
      | ws \<Rightarrow> Some (add_words F D sid ts ws f_zero))"

text \<open>The score of a slot in a search of several scopes, the slots that pass the filters, and the ranked candidates.\<close>

definition search_score :: "f32_ops \<Rightarrow> analyzer \<Rightarrow> search_options \<Rightarrow> (string \<times> string list) list \<Rightarrow> string list \<Rightarrow> documents
    \<Rightarrow> scope_registry \<Rightarrow> scope_set \<Rightarrow> u64 \<Rightarrow> f32 option" where
  "search_score F A opt expansions q D reg scopes slot =
     (case D slot of
        None \<Rightarrow> None
      | Some (sid, ts) \<Rightarrow>
          if \<exists>scope. contains scopes scope \<and> scope_id_of reg scope = Some sid then text_score F A opt expansions q D sid ts else None)"

definition candidates :: "f32_ops \<Rightarrow> (node_id \<Rightarrow> u64) \<Rightarrow> i64 \<times> i64 \<Rightarrow> scope_set \<Rightarrow> search_options \<Rightarrow> string list
    \<Rightarrow> (u64 \<Rightarrow> node_record) \<Rightarrow> (u64 \<Rightarrow> f32 option) \<Rightarrow> (node_record \<times> f32) multiset" where
  "candidates F timestamp_ms wall scopes opt tombstone_props node_at score =
     {#(node_at slot, hit_score F opt (recency_clock F opt (fst wall)) (timestamp_ms (n_id (node_at slot))) (node_at slot) (the (score slot))).
       slot \<in># mset_set {slot. score slot \<noteq> None \<and>
         hit_kept opt (tombstone_clock opt tombstone_props (snd wall)) tombstone_props scopes (timestamp_ms (n_id (node_at slot))) (node_at slot)}#}"


section \<open>Score tables\<close>

definition or_zero :: "f32 option \<Rightarrow> f32" where
  "or_zero v = (case v of None \<Rightarrow> f_zero | Some x \<Rightarrow> x)"

lemma or_zero_simps [simp]: "or_zero None = f_zero" "or_zero (Some x) = x"
  by (simp_all add: or_zero_def)

lemma add_score_lookup: "map_of (add_score F slot x m) = (map_of m)(slot \<mapsto> f_add F (or_zero (map_of m slot)) x)"
  by (induction F slot x m rule: add_score.induct) (auto simp: fun_eq_iff)

lemma add_score_dom: "fst ` set (add_score F slot x m) = insert slot (fst ` set m)"
  by (induction F slot x m rule: add_score.induct) auto

lemma add_score_distinct: "distinct (map fst m) \<Longrightarrow> distinct (map fst (add_score F slot x m))"
proof (induction F slot x m rule: add_score.induct)
  case (2 F slot x s v m)
  then show ?case using add_score_dom [of F slot x m] by auto
qed simp

text \<open>What one word adds to the scores of a scope.\<close>

definition credit :: "f32_ops \<Rightarrow> documents \<Rightarrow> u32 \<Rightarrow> string \<times> f32 \<Rightarrow> (u64 \<rightharpoonup> f32) \<Rightarrow> u64 \<rightharpoonup> f32" where
  "credit F D sid x m = (\<lambda>slot. case D slot of
       None \<Rightarrow> m slot
     | Some (s, ts) \<Rightarrow>
         if s = sid \<and> fst x \<in> set ts then Some (f_add F (or_zero (m slot)) (word_score F D sid ts x)) else m slot)"

lemma credit_nothing: "holding D sid (fst x) = {} \<Longrightarrow> credit F D sid x m = m"
  by (auto simp: credit_def holding_def fun_eq_iff split: option.split)

lemma fold_credit_other:
  assumes "D slot = None \<or> fst (the (D slot)) \<noteq> sid"
  shows "fold (credit F D sid) ws m slot = m slot"
  using assms by (induction ws arbitrary: m) (auto simp: credit_def split: option.split)

lemma fold_credit_at:
  assumes "D slot = Some (sid, ts)"
  shows "fold (credit F D sid) ws m slot = (case found_words ws ts of [] \<Rightarrow> m slot
    | ws' \<Rightarrow> Some (add_words F D sid ts ws' (or_zero (m slot))))"
proof (induction ws arbitrary: m)
  case (Cons w ws)
  show ?case using Cons.IH [of "credit F D sid w m"] assms
    by (auto simp: credit_def found_words_def add_words_def split: list.split)
qed (simp add: found_words_def)

lemma fresh_append: "fresh A (xs @ ys) = fresh A xs @ fresh (A \<union> set xs) ys"
  by (induction xs arbitrary: A) (auto simp: insert_absorb)

text \<open>The scores after several scopes.\<close>

definition credit_scopes :: "f32_ops \<Rightarrow> documents \<Rightarrow> (u32 \<Rightarrow> (string \<times> f32) list) \<Rightarrow> (scope \<rightharpoonup> u32) \<Rightarrow> scope list \<Rightarrow> (u64 \<rightharpoonup> f32) \<Rightarrow> u64 \<rightharpoonup> f32" where
  "credit_scopes F D words sid_of = fold (\<lambda>scope m. case sid_of scope of None \<Rightarrow> m | Some sid \<Rightarrow> fold (credit F D sid) (words sid) m)"

lemma credit_scopes_other:
  assumes "\<forall>scope \<in> set scs. \<forall>sid. sid_of scope = Some sid \<longrightarrow> D slot = None \<or> fst (the (D slot)) \<noteq> sid"
  shows "credit_scopes F D words sid_of scs m slot = m slot"
  using assms by (induction scs arbitrary: m) (auto simp: credit_scopes_def fold_credit_other split: option.split)

lemma credit_scopes_at:
  assumes inj: "\<forall>a b sid. sid_of a = Some sid \<and> sid_of b = Some sid \<longrightarrow> a = b" and d: "distinct scs"
    and slot: "D slot = Some (sid, ts)" and sc: "scope \<in> set scs" "sid_of scope = Some sid"
  shows "credit_scopes F D words sid_of scs Map.empty slot =
    (case found_words (words sid) ts of [] \<Rightarrow> None | ws \<Rightarrow> Some (add_words F D sid ts ws f_zero))"
proof -
  from sc(1) obtain us vs where scs: "scs = us @ scope # vs" by (metis split_list)
  let ?m = "credit_scopes F D words sid_of us Map.empty"
  have u: "?m slot = None" using d inj sc(2) slot by (subst credit_scopes_other) (auto simp: scs)
  have "credit_scopes F D words sid_of scs Map.empty = credit_scopes F D words sid_of vs (fold (credit F D sid) (words sid) ?m)"
    by (simp add: credit_scopes_def scs sc(2))
  moreover have "credit_scopes F D words sid_of vs (fold (credit F D sid) (words sid) ?m) slot = fold (credit F D sid) (words sid) ?m slot"
    using d inj sc(2) slot by (intro credit_scopes_other) (auto simp: scs)
  ultimately show ?thesis using fold_credit_at [of D slot sid ts F "words sid" ?m, OF slot] by (simp add: u split: list.split)
qed

locale text_search = fts_store "eB E" rows "lz E" "pc_fts E"
  for E :: "('b, 'd, 'l, 'm, 'o) env" and rows :: "'b \<Rightarrow> bytes \<rightharpoonup> bytes" and F :: f32_ops +
  assumes positive: "f_lt F f_zero (f_of_u64 F n) \<longleftrightarrow> n \<noteq> 0"
begin

abbreviation indexed :: "('b, 'd, 'l, 'm, 'o, 'z) store_scheme \<Rightarrow> documents \<Rightarrow> bool" where
  "indexed st D \<equiv> indexes (lz E) (pc_fts E) rows (postings st, fts_docs st, fts_stats st) D"

lemma plist_mem:
  assumes "indexed st D"
  shows "(slot, n) \<in> set (plist (lz E) (rows (postings st)) sc w) \<longleftrightarrow>
     (\<exists>ts. D slot = Some (sc, ts) \<and> w \<in> set ts \<and> n = word_of_nat (count_list ts w))"
  using assms unfolding indexes_def postings_of_def by blast

lemma plist_slots:
  assumes "indexed st D"
  shows "fst ` set (plist (lz E) (rows (postings st)) sc w) = holding D sc w"
proof -
  have "slot \<in> fst ` set (plist (lz E) (rows (postings st)) sc w) \<longleftrightarrow> (\<exists>n. (slot, n) \<in> set (plist (lz E) (rows (postings st)) sc w))" for slot
    by force
  then show ?thesis unfolding plist_mem [OF assms] by (auto simp: holding_def)
qed

lemma plist_distinct:
  assumes "indexed st D"
  shows "distinct (map fst (plist (lz E) (rows (postings st)) sc w))"
  using assms by (auto simp: indexes_def postings_of_def postings_wf_def slots_ascend_def strict_sorted_iff)

lemma plist_empty_iff: "indexed st D \<Longrightarrow> plist (lz E) (rows (postings st)) sc w = [] \<longleftrightarrow> holding D sc w = {}"
  using plist_slots [of st D sc w] by auto

lemma card_holding: "indexed st D \<Longrightarrow> card (holding D sc w) < 2 ^ 64"
proof -
  assume ix: "indexed st D"
  have "card (holding D sc w) \<le> card (docs_in D sc)" by (intro card_mono) (auto simp: holding_def docs_in_def)
  also have "\<dots> < 2 ^ 64" using ix card_docs_le [of D sc] by (auto simp: indexes_def docs_ok_def intro: le_less_trans)
  finally show ?thesis .
qed

lemma df_run:
  assumes ix: "indexed st D"
  shows "posting_df (lz E) (eB E) (postings st) sid w = Inr (word_of_nat (card (holding D sid w)))"
proof -
  have "length (plist (lz E) (rows (postings st)) sid w) = card (holding D sid w)"
    using distinct_card [OF plist_distinct [OF ix, of sid w]] plist_slots [OF ix, of sid w] by simp
  moreover have "posting_df (lz E) (eB E) (postings st) sid w = Inr (word_of_nat (length (plist (lz E) (rows (postings st)) sid w)))"
    using ix by (intro posting_df_run) (simp add: indexes_def postings_of_def postings_wf_def)
  ultimately show ?thesis by simp
qed

lemma df_positive:
  assumes ix: "indexed st D"
  shows "f_lt F f_zero (f_of_u64 F (word_of_nat (card (holding D sc w)))) \<longleftrightarrow> holding D sc w \<noteq> {}"
proof -
  have "unat (word_of_nat (card (holding D sc w)) :: u64) = card (holding D sc w)" using card_holding [OF ix] by (simp add: unat_of_nat)
  moreover have "finite (holding D sc w)" using plist_slots [OF ix, of sc w] by (metis List.finite_set finite_imageI)
  ultimately have "(word_of_nat (card (holding D sc w)) :: u64) \<noteq> 0 \<longleftrightarrow> holding D sc w \<noteq> {}" by (metis card_0_eq unat_0 unat_eq_zero)
  then show ?thesis by (simp add: positive)
qed

lemma doc_len_run:
  assumes "indexed st D" "D slot = Some (sc, ts)"
  shows "read_doc_len (eB E) (pc_fts E) (fts_docs st) slot = Inr (word_of_nat (length ts))"
proof -
  have "lengths_of (pc_fts E) (rows (fts_docs st)) D" using assms(1) by (simp add: indexes_def)
  then have "case D slot of None \<Rightarrow> rows (fts_docs st) (slot_key slot) = None
    | Some (sc, ts) \<Rightarrow> \<exists>b. rows (fts_docs st) (slot_key slot) = Some b \<and> de (len_codec (pc_fts E)) b = Inr (word_of_nat (length ts))"
    unfolding lengths_of_def by blast
  then show ?thesis using assms(2) by (auto simp: read_doc_len_def get_eq pc_err_def)
qed

text \<open>One accumulation credits exactly the documents that hold the word.\<close>

lemma accumulate_run:
  assumes ix: "indexed st D" and d: "distinct (map fst sc)"
  shows "\<exists>sc'. accumulate E F st sid (corpus_docs D sid) (corpus_avg F D sid) w (word_df F D sid w) weight sc = Inr sc' \<and>
    distinct (map fst sc') \<and> map_of sc' = credit F D sid (w, weight) (map_of sc)"
proof -
  let ?idf = "bm25_idf F (corpus_docs D sid) (word_df F D sid w)"
  let ?step = "\<lambda>(slot, tf) sc. rbind (read_doc_len (eB E) (pc_fts E) (fts_docs st) slot) (\<lambda>len.
      Inr (add_score F slot (bm25 F (corpus_avg F D sid) weight ?idf tf len) sc))"
  let ?hits = "plist (lz E) (rows (postings st)) sid w"
  have fold: "\<exists>sc'. rfold ?step hits sc = Inr sc' \<and> distinct (map fst sc') \<and>
      map_of sc' = (\<lambda>slot. if slot \<in> fst ` set hits then credit F D sid (w, weight) (map_of sc) slot else map_of sc slot)"
    if "set hits \<subseteq> set ?hits" "distinct (map fst hits)" for hits :: "posting list"
    using that d
  proof (induction hits arbitrary: sc)
    case (Cons h hits)
    obtain slot tf where h: "h = (slot, tf)" by fastforce
    then obtain ts where ts: "D slot = Some (sid, ts)" "w \<in> set ts" "tf = word_of_nat (count_list ts w)"
      using Cons.prems(1) plist_mem [OF ix] by auto
    have hits: "set hits \<subseteq> set ?hits" "distinct (map fst hits)" using Cons.prems(1,2) by auto
    let ?sc = "add_score F slot (bm25 F (corpus_avg F D sid) weight ?idf tf (word_of_nat (length ts))) sc"
    obtain sc' where sc': "rfold ?step hits ?sc = Inr sc'" "distinct (map fst sc')"
      "map_of sc' = (\<lambda>s. if s \<in> fst ` set hits then credit F D sid (w, weight) (map_of ?sc) s else map_of ?sc s)"
      using Cons.IH [OF hits add_score_distinct [OF Cons.prems(3)]] by blast
    have run: "rfold ?step (h # hits) sc = Inr sc'" using sc'(1) by (simp add: h doc_len_run [OF ix ts(1)])
    have slot: "slot \<notin> fst ` set hits" using Cons.prems(2) h by simp
    have same: "map_of ?sc s = map_of sc s" if "s \<noteq> slot" for s using that by (simp add: add_score_lookup)
    have here: "map_of ?sc slot = credit F D sid (w, weight) (map_of sc) slot"
      by (simp add: add_score_lookup credit_def ts word_score_def)
    have "map_of sc' s = (if s \<in> fst ` set (h # hits) then credit F D sid (w, weight) (map_of sc) s else map_of sc s)" for s
    proof (cases "s = slot")
      case False
      have "credit F D sid (w, weight) (map_of ?sc) s = credit F D sid (w, weight) (map_of sc) s"
        unfolding credit_def same [OF False] ..
      then show ?thesis unfolding sc'(3) using False same [OF False] by (simp add: h)
    qed (use slot here in \<open>simp add: sc'(3) h\<close>)
    with run sc'(2) show ?case by blast
  qed (use d in auto)
  have all: "(\<lambda>slot. if slot \<in> fst ` set ?hits then credit F D sid (w, weight) (map_of sc) slot else map_of sc slot) =
      credit F D sid (w, weight) (map_of sc)"
    unfolding plist_slots [OF ix] by (auto simp: holding_def credit_def fun_eq_iff split: option.split)
  have "blocks_ok (lz E) (rows (postings st))" using ix by (simp add: indexes_def postings_of_def postings_wf_def)
  then show ?thesis using fold [OF subset_refl plist_distinct [OF ix]] unfolding all accumulate_def
    by (simp only: read_posting_run rbind_simps)
qed

text \<open>Pass 1 credits every term of the query once and remembers which ones occur.\<close>

lemma exact_terms_run:
  assumes ix: "indexed st D" and d: "distinct (map fst sc)"
  shows "\<exists>sc'. rfold (exact_term E F st sid (corpus_docs D sid) (corpus_avg F D sid)) q (sc, hits) =
      Inr (sc', hits @ filter (\<lambda>w. w \<in> vocabulary D sid) q) \<and>
    distinct (map fst sc') \<and> map_of sc' = fold (credit F D sid) (map (\<lambda>w. (w, f_one)) q) (map_of sc)"
  using d
proof (induction q arbitrary: sc hits)
  case (Cons w ws)
  show ?case
  proof (cases "holding D sid w = {}")
    case True
    then have "exact_term E F st sid (corpus_docs D sid) (corpus_avg F D sid) w (sc, hits) = Inr (sc, hits)"
      using df_positive [OF ix, of sid w] by (simp add: exact_term_def df_run [OF ix])
    with Cons.IH [OF Cons.prems, of hits] True show ?thesis by (simp add: vocabulary_def credit_nothing)
  next
    case False
    obtain sc1 where sc1: "accumulate E F st sid (corpus_docs D sid) (corpus_avg F D sid) w (word_df F D sid w) f_one sc = Inr sc1"
      "distinct (map fst sc1)" "map_of sc1 = credit F D sid (w, f_one) (map_of sc)"
      using accumulate_run [OF ix Cons.prems] by blast
    have "exact_term E F st sid (corpus_docs D sid) (corpus_avg F D sid) w (sc, hits) = Inr (sc1, hits @ [w])"
      using df_positive [OF ix, of sid w] False sc1(1) by (simp add: exact_term_def df_run [OF ix] word_df_def)
    with Cons.IH [OF sc1(2), of "hits @ [w]"] sc1(3) False show ?thesis by (auto simp: vocabulary_def)
  qed
qed simp

text \<open>Pass 2 credits each further word once.\<close>

definition passed :: "documents \<Rightarrow> u32 \<Rightarrow> string list \<Rightarrow> string list \<Rightarrow> pass \<Rightarrow> pass \<Rightarrow> bool" where
  "passed D sid exact ws p p' \<longleftrightarrow> distinct (map fst (p_scores p')) \<and> set exact \<union> p_seen p' = set exact \<union> p_seen p \<union> set ws \<and>
     map_of (p_scores p') = fold (credit F D sid) (map (\<lambda>w. (w, FUZZY_DISCOUNT)) (fresh (set exact \<union> p_seen p) ws)) (map_of (p_scores p))"

lemma passed_append: "passed D sid exact xs p p1 \<Longrightarrow> passed D sid exact ys p1 p2 \<Longrightarrow> passed D sid exact (xs @ ys) p p2"
  by (simp add: passed_def fresh_append Un_assoc)

lemma discounted_run:
  assumes ix: "indexed st D" and d: "distinct (map fst (p_scores p))"
  shows "\<exists>p'. discounted_term E F st sid (corpus_docs D sid) (corpus_avg F D sid) exact w p = Inr p' \<and>
    passed D sid exact [w] p p' \<and> p_vocab p' = p_vocab p"
proof (cases "w \<in> set exact \<or> w \<in> p_seen p")
  case True
  with d show ?thesis by (auto simp: discounted_term_def passed_def)
next
  case False
  let ?p = "p\<lparr>p_seen := insert w (p_seen p)\<rparr>"
  obtain sc where sc: "accumulate E F st sid (corpus_docs D sid) (corpus_avg F D sid) w (word_df F D sid w) FUZZY_DISCOUNT (p_scores p) = Inr sc"
    "distinct (map fst sc)" "map_of sc = credit F D sid (w, FUZZY_DISCOUNT) (map_of (p_scores p))" using accumulate_run [OF ix d] by blast
  show ?thesis
  proof (cases "holding D sid w = {}")
    case True
    then have "discounted_term E F st sid (corpus_docs D sid) (corpus_avg F D sid) exact w p = Inr ?p"
      using df_positive [OF ix, of sid w] False by (simp add: discounted_term_def df_run [OF ix])
    with True d False show ?thesis by (simp add: passed_def credit_nothing)
  next
    case ne: False
    then have "discounted_term E F st sid (corpus_docs D sid) (corpus_avg F D sid) exact w p = Inr (?p\<lparr>p_scores := sc\<rparr>)"
      using df_positive [OF ix, of sid w] False sc(1) by (simp add: discounted_term_def df_run [OF ix] word_df_def)
    then show ?thesis using sc(2,3) False by (simp add: passed_def)
  qed
qed

lemma discounted_fold_run:
  assumes ix: "indexed st D" and "distinct (map fst (p_scores p))"
  shows "\<exists>p'. rfold (discounted_term E F st sid (corpus_docs D sid) (corpus_avg F D sid) exact) ws p = Inr p' \<and>
    passed D sid exact ws p p' \<and> p_vocab p' = p_vocab p"
  using assms(2)
proof (induction ws arbitrary: p)
  case (Cons w ws)
  obtain p1 where p1: "discounted_term E F st sid (corpus_docs D sid) (corpus_avg F D sid) exact w p = Inr p1"
    "passed D sid exact [w] p p1" "p_vocab p1 = p_vocab p" using discounted_run [OF ix Cons.prems] by blast
  from p1(2) have "distinct (map fst (p_scores p1))" by (simp add: passed_def)
  from Cons.IH [OF this] obtain p2 where
    p2: "rfold (discounted_term E F st sid (corpus_docs D sid) (corpus_avg F D sid) exact) ws p1 = Inr p2"
    "passed D sid exact ws p1 p2" "p_vocab p2 = p_vocab p1" by blast
  from passed_append [OF p1(2) p2(2)] p1 p2 show ?case by simp
qed (simp add: passed_def)

lemma vocabulary_run:
  assumes ix: "indexed st D" and toks: "tokens_ok D" and below: "chunks_below (2 ^ 24) (rows (postings st))"
  shows "scope_terms (eB E) (postings st) sid = Inr (sorted_list_of_set (vocabulary D sid))"
proof -
  have ok: "blocks_ok (lz E) (rows (postings st))" using ix by (simp add: indexes_def postings_of_def postings_wf_def)
  have "terms_ok (rows (postings st))"
    unfolding terms_ok_def
  proof (intro allI impI)
    fix s w c assume "column (rows (postings st)) s w c \<noteq> None"
    then have "plist (lz E) (rows (postings st)) s w \<noteq> []" using has_postings_iff [OF ok] by blast
    then obtain slot ts where "D slot = Some (s, ts)" "w \<in> set ts" using plist_empty_iff [OF ix] by (auto simp: holding_def)
    with toks show "utf8_valid (str_bytes w) \<and> 0 \<notin> set (str_bytes w)" unfolding tokens_ok_def by blast
  qed
  from scope_terms_run [OF ok this below] obtain ws where ws: "scope_terms (eB E) (postings st) sid = Inr ws"
    "sorted_wrt (<) ws" "set ws = {w. plist (lz E) (rows (postings st)) sid w \<noteq> []}" by blast
  have "set ws = vocabulary D sid" unfolding ws(3) vocabulary_def using plist_empty_iff [OF ix] by blast
  then have "ws = sorted_list_of_set (vocabulary D sid)"
    using ws(2) by (metis sorted_list_of_set.idem_if_sorted_distinct strict_sorted_iff)
  with ws(1) show ?thesis by simp
qed

definition vocab_ok :: "documents \<Rightarrow> u32 \<Rightarrow> pass \<Rightarrow> bool" where
  "vocab_ok D sid p \<longleftrightarrow> p_vocab p = None \<or> p_vocab p = Some (sorted_list_of_set (vocabulary D sid))"

lemma extra_term_run:
  assumes ix: "indexed st D" and toks: "tokens_ok D" and below: "chunks_below (2 ^ 24) (rows (postings st))"
    and d: "distinct (map fst (p_scores p))" and v: "vocab_ok D sid p" and w: "w \<in> set exact \<longleftrightarrow> w \<in> vocabulary D sid"
  shows "\<exists>p'. extra_terms E F st opt expansions sid (corpus_docs D sid) (corpus_avg F D sid) exact w p = Inr p' \<and>
    passed D sid exact (extra_words (analyzer_of E) opt expansions (vocabulary D sid) w) p p' \<and> vocab_ok D sid p'"
proof -
  let ?fold = "rfold (discounted_term E F st sid (corpus_docs D sid) (corpus_avg F D sid) exact)"
  let ?ts = "concat (map (expansion_tokens (analyzer_of E) w) expansions)" and ?v = "sorted_list_of_set (vocabulary D sid)"
  obtain p1 where p1: "?fold ?ts p = Inr p1" "passed D sid exact ?ts p p1" "p_vocab p1 = p_vocab p"
    using discounted_fold_run [OF ix d] by blast
  show ?thesis
  proof (cases "w \<notin> vocabulary D sid \<and> fuzzy_fallback opt")
    case False
    then have "extra_terms E F st opt expansions sid (corpus_docs D sid) (corpus_avg F D sid) exact w p = Inr p1"
      using p1(1) w by (auto simp: extra_terms_def)
    with p1 v False show ?thesis by (auto simp: extra_words_def vocab_ok_def)
  next
    case True
    let ?p1 = "p1\<lparr>p_vocab := Some ?v\<rparr>"
    have "distinct (map fst (p_scores ?p1))" using p1(2) by (simp add: passed_def)
    from discounted_fold_run [OF ix this, of sid exact "fuzzy_expansions ?v w"] obtain p2 where
      p2: "?fold (fuzzy_expansions ?v w) ?p1 = Inr p2" "passed D sid exact (fuzzy_expansions ?v w) ?p1 p2" "p_vocab p2 = Some ?v" by auto
    have run: "extra_terms E F st opt expansions sid (corpus_docs D sid) (corpus_avg F D sid) exact w p = Inr p2"
      using p1(1,3) p2(1) True w v vocabulary_run [OF ix toks below, of sid]
      by (auto simp: extra_terms_def fuzzy_pass_def vocab_ok_def)
    have "passed D sid exact ?ts p ?p1" using p1(2) by (simp add: passed_def)
    from passed_append [OF this p2(2)] run p2(3) True show ?thesis by (simp add: extra_words_def vocab_ok_def)
  qed
qed

lemma extra_fold_run:
  assumes ix: "indexed st D" and toks: "tokens_ok D" and below: "chunks_below (2 ^ 24) (rows (postings st))"
    and "distinct (map fst (p_scores p))" "vocab_ok D sid p" "\<forall>w \<in> set ws. w \<in> set exact \<longleftrightarrow> w \<in> vocabulary D sid"
  shows "\<exists>p'. rfold (extra_terms E F st opt expansions sid (corpus_docs D sid) (corpus_avg F D sid) exact) ws p = Inr p' \<and>
    passed D sid exact (concat (map (extra_words (analyzer_of E) opt expansions (vocabulary D sid)) ws)) p p'"
  using assms(4-6)
proof (induction ws arbitrary: p)
  case (Cons w ws)
  let ?step = "extra_terms E F st opt expansions sid (corpus_docs D sid) (corpus_avg F D sid) exact"
  let ?extra = "extra_words (analyzer_of E) opt expansions (vocabulary D sid)"
  obtain p1 where p1: "?step w p = Inr p1" "passed D sid exact (?extra w) p p1" "vocab_ok D sid p1"
    using extra_term_run [OF ix toks below Cons.prems(1,2)] Cons.prems(3) by (metis list.set_intros(1))
  from p1(2) have d: "distinct (map fst (p_scores p1))" by (simp add: passed_def)
  from Cons.IH [OF d p1(3)] Cons.prems(3) obtain p2 where
    p2: "rfold ?step ws p1 = Inr p2" "passed D sid exact (concat (map ?extra ws)) p1 p2" by auto
  from passed_append [OF p1(2) p2(2)] p1(1) p2(1) show ?case by simp
qed (simp add: passed_def)

text \<open>One scope credits exactly its search words.\<close>

lemma score_scope_run:
  assumes ix: "indexed st D" and toks: "tokens_ok D" and below: "chunks_below (2 ^ 24) (rows (postings st))"
    and d: "distinct (map fst sc)"
  shows "\<exists>sc'. score_scope E F st opt expansions q scope sc = Inr sc' \<and> distinct (map fst sc') \<and>
    map_of sc' = (case scope_id_of (i_scopes st) scope of None \<Rightarrow> map_of sc
      | Some sid \<Rightarrow> fold (credit F D sid) (search_words (analyzer_of E) opt expansions q (vocabulary D sid)) (map_of sc))"
proof (cases "scope_id_of (i_scopes st) scope")
  case None
  with d show ?thesis by (simp add: score_scope_def)
next
  case (Some sid)
  have stats: "read_stats (eB E) (pc_fts E) (fts_stats st) sid = Inr (corpus_docs D sid, word_of_nat (corpus_len D sid))"
    unfolding corpus_docs_def using ix by (intro read_stats_run) (simp add: indexes_def)
  have "card (docs_in D sid) < 2 ^ 64" using ix card_docs_le [of D sid] by (auto simp: indexes_def docs_ok_def intro: le_less_trans)
  then have "unat (corpus_docs D sid) = card (docs_in D sid)" by (simp add: corpus_docs_def unat_of_nat)
  then have zero: "corpus_docs D sid = 0 \<longleftrightarrow> docs_in D sid = {}" by (metis card_0_eq finite_docs unat_0 unat_eq_zero)
  show ?thesis
  proof (cases "docs_in D sid = {}")
    case True
    then have "holding D sid w = {}" for w by (auto simp: holding_def docs_in_def)
    then have "fold (credit F D sid) ws m = m" for ws m by (induction ws) (simp_all add: credit_nothing)
    with True zero d show ?thesis by (simp add: score_scope_def Some stats)
  next
    case False
    let ?exact = "filter (\<lambda>w. w \<in> vocabulary D sid) q" and ?x = "concat (map (extra_words (analyzer_of E) opt expansions (vocabulary D sid)) q)"
    obtain sc1 where sc1: "rfold (exact_term E F st sid (corpus_docs D sid) (corpus_avg F D sid)) q (sc, []) = Inr (sc1, ?exact)"
      "distinct (map fst sc1)" "map_of sc1 = fold (credit F D sid) (map (\<lambda>w. (w, f_one)) q) (map_of sc)"
      using exact_terms_run [OF ix d, of sid q "[]"] by auto
    let ?p = "\<lparr>p_scores = sc1, p_seen = {}, p_vocab = None\<rparr>"
    obtain p where p: "rfold (extra_terms E F st opt expansions sid (corpus_docs D sid) (corpus_avg F D sid) ?exact) q ?p = Inr p"
      "passed D sid ?exact ?x ?p p" using extra_fold_run [OF ix toks below, of ?p sid q ?exact] sc1(2) by (auto simp: vocab_ok_def)
    have "set ?exact = set q \<inter> vocabulary D sid" by auto
    then have "map_of (p_scores p) = fold (credit F D sid) (search_words (analyzer_of E) opt expansions q (vocabulary D sid)) (map_of sc)"
      "distinct (map fst (p_scores p))"
      using p(2) sc1(3) by (simp_all add: passed_def search_words_def)
    then show ?thesis using sc1(1) p(1) False zero
      by (simp add: score_scope_def Some stats Let_def corpus_avg_def [symmetric])
  qed
qed

lemma score_scopes_run:
  assumes ix: "indexed st D" and toks: "tokens_ok D" and below: "chunks_below (2 ^ 24) (rows (postings st))"
    and "distinct (map fst sc)"
  shows "\<exists>sc'. rfold (score_scope E F st opt expansions q) scs sc = Inr sc' \<and> distinct (map fst sc') \<and>
    map_of sc' = credit_scopes F D (\<lambda>sid. search_words (analyzer_of E) opt expansions q (vocabulary D sid)) (scope_id_of (i_scopes st)) scs (map_of sc)"
  using assms(4)
proof (induction scs arbitrary: sc)
  case (Cons scope scs)
  from score_scope_run [OF ix toks below Cons.prems, of opt expansions q scope] obtain sc1 where
    sc1: "score_scope E F st opt expansions q scope sc = Inr sc1" "distinct (map fst sc1)"
    "map_of sc1 = (case scope_id_of (i_scopes st) scope of None \<Rightarrow> map_of sc
      | Some sid \<Rightarrow> fold (credit F D sid) (search_words (analyzer_of E) opt expansions q (vocabulary D sid)) (map_of sc))" by blast
  from Cons.IH [OF sc1(2)] sc1 show ?case by (simp add: credit_scopes_def)
qed (simp add: credit_scopes_def)

lemma scores_run:
  assumes "indexed st D" "tokens_ok D" "chunks_below (2 ^ 24) (rows (postings st))"
    and reg: "registry_wf (i_scopes st)" and sc: "scope_set_wf scopes"
  shows "\<exists>sc. rfold (score_scope E F st opt expansions q) (iter_scopes scopes) [] = Inr sc \<and> distinct (map fst sc) \<and>
    map_of sc = search_score F (analyzer_of E) opt expansions q D (i_scopes st) scopes"
proof -
  let ?words = "\<lambda>sid. search_words (analyzer_of E) opt expansions q (vocabulary D sid)"
  let ?m = "credit_scopes F D ?words (scope_id_of (i_scopes st)) (iter_scopes scopes) Map.empty"
  have inj: "\<forall>a b sid. scope_id_of (i_scopes st) a = Some sid \<and> scope_id_of (i_scopes st) b = Some sid \<longrightarrow> a = b"
    using reg unfolding registry_wf_def scope_id_of_def by (metis option.inject)
  have "?m slot = search_score F (analyzer_of E) opt expansions q D (i_scopes st) scopes slot" for slot
  proof (cases "\<exists>sid ts scope. D slot = Some (sid, ts) \<and> scope \<in> set (iter_scopes scopes) \<and> scope_id_of (i_scopes st) scope = Some sid")
    case True
    then obtain sid ts scope where *: "D slot = Some (sid, ts)" "scope \<in> set (iter_scopes scopes)" "scope_id_of (i_scopes st) scope = Some sid" by blast
    have "?m slot = text_score F (analyzer_of E) opt expansions q D sid ts"
      using credit_scopes_at [OF inj distinct_iter_scopes [OF sc], of D slot sid ts scope F ?words] * by (simp add: text_score_def)
    with * show ?thesis by (auto simp: search_score_def set_iter_scopes)
  next
    case False
    then have "?m slot = None" by (subst credit_scopes_other) force+
    with False show ?thesis by (auto simp: search_score_def set_iter_scopes split: option.split)
  qed
  then have "?m = search_score F (analyzer_of E) opt expansions q D (i_scopes st) scopes" by blast
  then show ?thesis using score_scopes_run [OF assms(1-3), of "[]" opt expansions q "iter_scopes scopes"] by (simp del: fun_upd_apply)
qed

end

section \<open>Collecting the hits\<close>

lemma collect_run:
  assumes "\<forall>x \<in> set xs. read_node_by_slot E st (fst x) = Inr (Some (node_at (fst x)))"
  shows "rfold (collect_hit E F st timestamp_ms opt rnow tnow props scopes) xs out = Inr (out @
    map (\<lambda>x. (node_at (fst x), hit_score F opt rnow (timestamp_ms (n_id (node_at (fst x)))) (node_at (fst x)) (snd x)))
      (filter (\<lambda>x. hit_kept opt tnow props scopes (timestamp_ms (n_id (node_at (fst x)))) (node_at (fst x))) xs))"
  using assms by (induction xs arbitrary: out) (auto simp: collect_hit_def)

lemma table_mset:
  assumes "distinct (map fst m)"
  shows "{#f (fst x) (snd x). x \<in># filter_mset (\<lambda>x. P (fst x)) (mset m)#} =
    {#f s (the (map_of m s)). s \<in># mset_set {s. map_of m s \<noteq> None \<and> P s}#}"
  using assms
proof (induction m)
  case (Cons a m)
  obtain s v where a: "a = (s, v)" by fastforce
  have s: "map_of m s = None" using Cons.prems by (simp add: a map_of_eq_None_iff)
  define S where "S = {x. map_of m x \<noteq> None \<and> P x}"
  have fin: "finite S" unfolding S_def by (rule finite_subset [OF _ finite_dom_map_of [of m]]) auto
  have notin: "s \<notin> S" by (simp add: S_def s)
  have new: "{x. map_of (a # m) x \<noteq> None \<and> P x} = (if P s then insert s S else S)" by (auto simp: a s S_def)
  have "{#f x (the (map_of (a # m) x)). x \<in># mset_set S#} = {#f x (the (map_of m x)). x \<in># mset_set S#}"
    using notin fin by (intro image_mset_cong) (auto simp: a)
  moreover have "{#f (fst x) (snd x). x \<in># filter_mset (\<lambda>x. P (fst x)) (mset m)#} = {#f x (the (map_of m x)). x \<in># mset_set S#}"
    using Cons by (simp only: S_def distinct.simps list.map simp_thms)
  ultimately show ?case unfolding new using notin fin by (auto simp: a)
qed simp

section \<open>A concrete instance\<close>

lemma or_one_pos: "0 < (x OR 1 :: 32 word)"
proof -
  have "bit (x OR 1) 0" by (simp add: bit_or_iff)
  then show ?thesis by (metis bit_0_eq bot_apply bot_bool_def word_gt_0)
qed

interpretation tree_search: text_search tree_env RBT.lookup pattern_floats
  using rbt_fts.fts_store_axioms or_one_pos
  by (intro text_search.intro text_search_axioms.intro) (auto simp: pattern_floats_def f_zero_def tree_env_def)

section \<open>The search is exact\<close>

text \<open>Over an index of the documents, and whatever order a hash map is iterated in, a search returns the best \<open>k\<close> of the
  candidates and bumps exactly the hits it returns, or none.\<close>

lemma search_run:
  assumes "text_search E rows F" and "indexes (lz E) (pc_fts E) rows (postings st, fts_docs st, fts_stats st) D"
    and "tokens_ok D" and "chunks_below (2 ^ 24) (rows (postings st))" and "registry_wf (i_scopes st)" and "scope_set_wf scopes"
    and read: "\<forall>slot. D slot \<noteq> None \<longrightarrow> read_node_by_slot E st slot = Inr (Some (node_at slot))"
    and hash: "\<forall>m. mset (hash_order m) = mset m"
    and ok: "validate_recency F opt = Inr ()" "validate_prop_retain opt = Inr ()" "validate_created_range opt = Inr ()"
  shows "if k = 0 \<or> tokenize (analyzer_of E) query = []
    then \<exists>msg. search_text_expanded_internal E F timestamp_ms hash_order C (Inr ()) wall now st scopes query k opt expansions bump_hits props tx =
      (Inl (Rejected msg), tx)
    else \<exists>out. search_text_expanded_internal E F timestamp_ms hash_order C (Inr ()) wall now st scopes query k opt expansions bump_hits props tx =
        (Inr out, if bump_hits then bump C now (map (\<lambda>h. n_id (fst h)) out) tx else tx) \<and>
      top_ranked (ranks_before F) k (candidates F timestamp_ms wall scopes opt props node_at
        (search_score F (analyzer_of E) opt expansions (sort (remdups (tokenize (analyzer_of E) query))) D (i_scopes st) scopes)) out"
proof (cases "k = 0 \<or> tokenize (analyzer_of E) query = []")
  case True
  then show ?thesis by (auto simp: search_text_expanded_internal_def search_results_def ok)
next
  case False
  let ?q = "sort (remdups (tokenize (analyzer_of E) query))"
  let ?score = "search_score F (analyzer_of E) opt expansions ?q D (i_scopes st) scopes"
  let ?hit = "\<lambda>slot v. (node_at slot, hit_score F opt (recency_clock F opt (fst wall)) (timestamp_ms (n_id (node_at slot))) (node_at slot) v)"
  let ?kept = "\<lambda>slot. hit_kept opt (tombstone_clock opt props (snd wall)) props scopes (timestamp_ms (n_id (node_at slot))) (node_at slot)"
  obtain sc where sc: "rfold (score_scope E F st opt expansions ?q) (iter_scopes scopes) [] = Inr sc" "distinct (map fst sc)"
    "map_of sc = ?score" using text_search.scores_run [OF assms(1-6), of opt expansions ?q] by blast
  define hits where "hits = map (\<lambda>x. ?hit (fst x) (snd x)) (filter (\<lambda>x. ?kept (fst x)) (hash_order sc))"
  have "set (hash_order sc) = set sc" using hash by (metis set_mset_mset)
  then have "D (fst x) \<noteq> None" if "x \<in> set (hash_order sc)" for x
    using that map_of_eq_None_iff [of sc "fst x"] unfolding sc(3) search_score_def by (auto split: option.splits)
  then have run: "rfold (collect_hit E F st timestamp_ms opt (recency_clock F opt (fst wall)) (tombstone_clock opt props (snd wall)) props scopes)
      (hash_order sc) [] = Inr hits" using read unfolding hits_def by (subst collect_run [where node_at = node_at]) simp_all
  have "mset hits = candidates F timestamp_ms wall scopes opt props node_at ?score"
    using table_mset [OF sc(2), of ?hit ?kept] hash unfolding hits_def candidates_def sc(3) by (simp add: mset_filter)
  with top_ranked_take [of "ranks_before F" k hits] False sc(1) run show ?thesis
    by (simp add: search_text_expanded_internal_def search_results_def ok o_def)
qed

end
