(* ===== verification/TextIndex.thy ===== *)
theory TextIndex
  imports Refinement Search
begin

text \<open>
  The text index across batches. Every operation reports how the text of its node changes, and the batch replays these
  edits on the index at its end (\<^verbatim>\<open>apply_ops_in_txn\<close> of \<^verbatim>\<open>crates/topodb/src/storage.rs\<close>). Here the index is shown to stay the
  inverted index of the texts of exactly the nodes of the graph, so that a search of a database answers about its graph.
\<close>

section \<open>The documents of a graph\<close>

definition node_doc :: "('b, 'd, 'l, 'm, 'o) env \<Rightarrow> scope_registry \<Rightarrow> node_record \<Rightarrow> (u32 \<times> string list) option" where
  "node_doc E reg r = Option.bind (scope_id_of reg (n_scope r)) (\<lambda>sid. document (analyzer_of E) sid (doc_text (spec E) r))"

definition text_docs :: "('b, 'd, 'l, 'm, 'o) env \<Rightarrow> ('b \<Rightarrow> bytes \<rightharpoonup> bytes) \<Rightarrow> ('b, 'd, 'l, 'm, 'o, 'z) store_scheme \<Rightarrow> graph \<Rightarrow> documents" where
  "text_docs E rows st G = (\<lambda>slot. case rows (node_ids st) (slot_key slot) of
       None \<Rightarrow> None
     | Some b \<Rightarrow> Option.bind (g_nodes G (NodeId (u128_from_be b))) (node_doc E (i_scopes st)))"

lemma document_None [simp]: "document A sid None = None"
  by (simp add: document_def text_tokens_def)

lemma text_docs_at:
  assumes "slots_inv (rows (node_slots st)) (rows (node_ids st)) n" "rows (node_slots st) (id_key (node_u128 i)) = Some (u64_to_le s)"
  shows "text_docs E rows st G s = Option.bind (g_nodes G i) (node_doc E (i_scopes st))"
  using slots_inv_slot [OF assms] by (simp add: text_docs_def)

lemma text_docs_none:
  assumes "slots_inv (rows (node_slots st)) (rows (node_ids st)) n" "\<And>i. rows (node_slots st) (id_key i) \<noteq> Some (u64_to_le s)"
  shows "text_docs E rows st G s = None"
  using slots_inv_rvs [OF assms(1), of s] assms(2) by (auto simp: text_docs_def split: option.split)

text \<open>Two states with the same documents at a slot, whoever has it.\<close>

lemma text_docs_frame:
  assumes sl: "slots_inv (rows (node_slots st)) (rows (node_ids st)) n" "slots_inv (rows (node_slots st')) (rows (node_ids st')) n'"
    and fw: "\<And>i. P i \<Longrightarrow> rows (node_slots st') (id_key (node_u128 i)) = rows (node_slots st) (id_key (node_u128 i))"
    and docs: "\<And>i. P i \<Longrightarrow> Option.bind (g_nodes G' i) (node_doc E (i_scopes st')) = Option.bind (g_nodes G i) (node_doc E (i_scopes st))"
    and s: "\<And>i. \<not> P i \<Longrightarrow> rows (node_slots st) (id_key (node_u128 i)) \<noteq> Some (u64_to_le s) \<and> rows (node_slots st') (id_key (node_u128 i)) \<noteq> Some (u64_to_le s)"
  shows "text_docs E rows st' G' s = text_docs E rows st G s"
proof (cases "\<exists>i. rows (node_slots st) (id_key (node_u128 i)) = Some (u64_to_le s)")
  case True
  then obtain i where i: "rows (node_slots st) (id_key (node_u128 i)) = Some (u64_to_le s)" ..
  then have "P i" using s by blast
  with i text_docs_at [OF sl(1) i] text_docs_at [OF sl(2), of i s] fw docs show ?thesis by simp
next
  case False
  then have no: "rows (node_slots st') (id_key (node_u128 i)) \<noteq> Some (u64_to_le s)" for i using fw s by metis
  have "rows (node_slots st) (id_key x) \<noteq> Some (u64_to_le s)" "rows (node_slots st') (id_key x) \<noteq> Some (u64_to_le s)" for x
    using False no by (metis node_u128.simps)+
  then show ?thesis using text_docs_none [OF sl(1)] text_docs_none [OF sl(2)] by metis
qed

section \<open>Steps that leave a part of the state alone\<close>

definition preserves :: "('s \<Rightarrow> 'p) \<Rightarrow> ('s, 'a) sm \<Rightarrow> bool" where
  "preserves p f \<longleftrightarrow> (\<forall>st. p (snd (f st)) = p st)"

lemma preservesD: "preserves p f \<Longrightarrow> f st = (r, st') \<Longrightarrow> p st' = p st"
  unfolding preserves_def by (metis snd_conv)

lemma preserves_mbind: "preserves p f \<Longrightarrow> (\<And>x. preserves p (g x)) \<Longrightarrow> preserves p (mbind f g)"
  unfolding preserves_def mbind_def by (auto split: prod.splits sum.splits) (metis snd_conv)+

lemma preserves_reads:
  "preserves p (mret x)" "preserves p (mfail e)" "preserves p (mlift r)" "preserves p (mget g)" "preserves p (mread q)"
  by (simp_all add: preserves_def monad_simps)

lemma preserves_mupd: "(\<And>st x st'. f st = Inr (x, st') \<Longrightarrow> p st' = p st) \<Longrightarrow> preserves p (mupd f)"
  by (auto simp: preserves_def mupd_def split: sum.split)

lemma preserves_cases:
  "preserves p f \<Longrightarrow> (\<And>x. preserves p (g x)) \<Longrightarrow> preserves p (case y of None \<Rightarrow> f | Some x \<Rightarrow> g x)"
  "(\<And>x z. preserves p (h x z)) \<Longrightarrow> preserves p (case q of (x, z) \<Rightarrow> h x z)"
  "preserves p f \<Longrightarrow> preserves p f' \<Longrightarrow> preserves p (if b then f else f')"
  by (auto split: option.split prod.split)

lemma preserves_mfold: "(\<And>x. preserves p (f x)) \<Longrightarrow> preserves p (mfold f xs)"
  by (induction xs) (auto simp: preserves_reads intro: preserves_mbind)

lemmas preserves_rules = preserves_mbind preserves_reads preserves_mupd preserves_cases preserves_mfold

abbreviation slot_tables :: "('b, 'd, 'l, 'm, 'o, 'z) store_scheme \<Rightarrow> 'b \<times> 'b" where
  "slot_tables st \<equiv> (node_slots st, node_ids st)"

abbreviation text_tables :: "('b, 'd, 'l, 'm, 'o, 'z) store_scheme \<Rightarrow> 'b \<times> 'b \<times> 'b" where
  "text_tables st \<equiv> (postings st, fts_docs st, fts_stats st)"

lemma preserves_more:
  fixes f :: "(('b, 'd, 'l, 'm, 'o, 'z) store_scheme, 'a) sm"
  assumes "leaves_more f"
  shows "preserves slot_tables f" "preserves text_tables f"
proof -
  have "interning.more (snd (f st)) = interning.more st" for st using assms by (simp add: leaves_more_def)
  moreover have "slot_tables st' = slot_tables st \<and> text_tables st' = text_tables st" if "interning.more st' = interning.more st"
    for st st' :: "('b, 'd, 'l, 'm, 'o, 'z) store_scheme" using that by (cases st; cases st'; simp)
  ultimately have "slot_tables (snd (f st)) = slot_tables st \<and> text_tables (snd (f st)) = text_tables st" for st by blast
  then show "preserves slot_tables f" "preserves text_tables f" unfolding preserves_def by simp_all
qed

lemmas preserves_encoders = preserves_more [OF leaves_more_encoders(1)] preserves_more [OF leaves_more_encoders(2)]
  preserves_more [OF leaves_more_basic(3)] preserves_more [OF leaves_more_basic(4)]

lemma preserves_run_hnsw: "preserves slot_tables (run_hnsw f)" "preserves text_tables (run_hnsw f)"
  unfolding run_hnsw_def by (rule preserves_mupd; auto simp: rbind_Inr)+

lemma preserves_hnsw:
  "preserves slot_tables (maybe_rebuild_cluster E m c)" "preserves text_tables (maybe_rebuild_cluster E m c)"
  "preserves slot_tables (apply_hnsw_set_embedding E old m c s i v)" "preserves text_tables (apply_hnsw_set_embedding E old m c s i v)"
  unfolding maybe_rebuild_cluster_def apply_hnsw_set_embedding_def by (intro preserves_rules preserves_run_hnsw)+

lemma preserves_put:
  "preserves slot_tables (put_node E rec)" "preserves text_tables (put_node E rec)"
  "preserves slot_tables (put_edge E x)" "preserves text_tables (put_edge E x)"
  unfolding put_node_def put_edge_def by (intro preserves_rules preserves_encoders; auto simp: rbind_Inr)+

lemma preserves_found: "preserves p (found_node E msg i)" "preserves p (found_slot E e i)"
  unfolding found_node_def found_slot_def by (intro preserves_reads)+

lemma preserves_edge_steps:
  "preserves slot_tables (insert_adjacency E f t ty s c v)" "preserves text_tables (insert_adjacency E f t ty s c v)"
  "preserves slot_tables (close_adjacency E f t ty s w)" "preserves text_tables (close_adjacency E f t ty s w)"
  "preserves slot_tables (remove_edge_row E s)" "preserves text_tables (remove_edge_row E s)"
  "preserves slot_tables (drop_counterpart E b s ty s')" "preserves text_tables (drop_counterpart E b s ty s')"
  "preserves slot_tables (remove_node_row E i s)" "preserves text_tables (remove_node_row E i s)"
  unfolding insert_adjacency_def close_adjacency_def remove_edge_row_def drop_counterpart_def remove_node_row_def
  by (intro preserves_rules; auto simp: rbind_Inr split: if_splits)+

lemma preserves_remove_vector: "preserves slot_tables (remove_node_vector E s)" "preserves text_tables (remove_node_vector E s)"
  unfolding remove_node_vector_def
  by (intro preserves_rules preserves_run_hnsw preserves_hnsw; auto simp: rbind_Inr split: option.splits)+

lemma preserves_cascade: "preserves slot_tables (cascade E b s es seen)" "preserves text_tables (cascade E b s es seen)"
  by (induction E b s es seen rule: cascade.induct) (auto intro!: preserves_rules preserves_edge_steps)

lemmas preserves_steps = preserves_rules preserves_found preserves_put preserves_hnsw preserves_run_hnsw preserves_encoders
  preserves_edge_steps preserves_remove_vector preserves_cascade

lemma preserves_slots:
  "preserves slot_tables (apply_set_node_props E i ups)" "preserves slot_tables (apply_set_embedding E i m v)"
  "preserves slot_tables (apply_create_edge E e sc ty f t ps vf ra)" "preserves slot_tables (apply_close_edge E e vt sa)"
  unfolding apply_set_node_props_def apply_set_embedding_def apply_create_edge_def apply_close_edge_def Let_def
  by (intro preserves_steps; auto simp: rbind_Inr)+

lemma preserves_texts:
  "preserves text_tables (apply_create_node E i sc l ps)" "preserves text_tables (apply_set_node_props E i ups)"
  "preserves text_tables (apply_set_embedding E i m v)" "preserves text_tables (apply_remove_node E i)"
  "preserves text_tables (apply_create_edge E e sc ty f t ps vf ra)" "preserves text_tables (apply_close_edge E e vt sa)"
  unfolding apply_create_node_def apply_set_node_props_def apply_set_embedding_def apply_remove_node_def apply_create_edge_def
    apply_close_edge_def Let_def
  by (intro preserves_steps; auto simp: rbind_Inr)+

lemma preserves_apply_op: "preserves text_tables (apply_op E x)"
  by (cases x) (simp_all add: preserves_texts preserves_reads)

lemma preserves_index:
  "preserves slot_tables (unindex_old E old)" "preserves text_tables (unindex_old E old)"
  "preserves slot_tables (index_new E x)" "preserves text_tables (index_new E x)"
  "preserves slot_tables (collect_edit E e x pre)" "preserves text_tables (collect_edit E e x pre)"
  "preserves slot_tables (append_log E xs)" "preserves text_tables (append_log E xs)" "preserves slot_tables (apply_fts_edit E ed)"
proof -
  show "preserves slot_tables (unindex_old E old)" "preserves text_tables (unindex_old E old)"
    unfolding unindex_old_def by (intro preserves_rules; auto simp: rbind_Inr split: option.splits)+
  have upd: "preserves slot_tables (mupd (\<lambda>st. rbind (reindex E i st) (\<lambda>t. Inr ((), st\<lparr>prop_table := t\<rparr>))))"
    "preserves text_tables (mupd (\<lambda>st. rbind (reindex E i st) (\<lambda>t. Inr ((), st\<lparr>prop_table := t\<rparr>))))" for i
    by (rule preserves_mupd; auto simp: rbind_Inr)+
  show "preserves slot_tables (index_new E x)" "preserves text_tables (index_new E x)"
    by (cases x; simp only: index_new_def Let_def op.case; rule upd preserves_reads)+
  show "preserves slot_tables (collect_edit E e x pre)" "preserves text_tables (collect_edit E e x pre)"
    unfolding collect_edit_def by (intro preserves_steps)+
  show "preserves slot_tables (append_log E xs)" "preserves text_tables (append_log E xs)"
    unfolding append_log_def by (rule preserves_mupd; auto simp: rbind_Inr)+
  show "preserves slot_tables (apply_fts_edit E ed)"
    unfolding apply_fts_edit_def by (intro preserves_cases preserves_mupd) (auto simp: rbind_Inr)
qed

section \<open>Where nodes are\<close>

lemma scope_id_grows: "registry_wf g \<Longrightarrow> registry_wf g' \<Longrightarrow> registry_ext g g' \<Longrightarrow> scope_id_of g s = Some i \<Longrightarrow> scope_id_of g' s = Some i"
  by (simp add: scope_id_of_def registry_wf_def registry_ext_def)

lemma node_doc_cong: "n_scope r' = n_scope r \<Longrightarrow> doc_text (spec E) r' = doc_text (spec E) r \<Longrightarrow> node_doc E g r' = node_doc E g r"
  by (simp add: node_doc_def)

lemma doc_text_embedding [simp]: "doc_text sp (r\<lparr>n_embedding := x\<rparr>) = doc_text sp r"
proof -
  have "text_part (r\<lparr>n_embedding := x\<rparr>) = text_part r" by (simp add: fun_eq_iff text_part_def)
  then show ?thesis by (simp add: doc_text_def)
qed

context engine
begin

lemma create_slots:
  assumes run: "apply_create_node E i sc l ps st = (Inr (), st')"
    and sl: "slots_inv (rows (node_slots st)) (rows (node_ids st)) n" "counter_is (mrows (meta st)) ''next_node_slot'' n"
  shows "j \<noteq> i \<Longrightarrow> rows (node_slots st') (id_key (node_u128 j)) = rows (node_slots st) (id_key (node_u128 j))"
proof -
  let ?rec = "\<lparr>n_id = i, n_scope = sc, n_label = l, n_props = ps, n_embedding = None\<rparr>"
  from run obtain slot m f r s2 lid s3 sid s4 t where
    al: "alloc_node_slot (eM E) (eB E) (meta st) (node_slots st) (node_ids st) i = Inr (slot, m, f, r)"
    and put: "put_node E ?rec (st\<lparr>meta := m, node_slots := f, node_ids := r\<rparr>) = (Inr (), s2)"
    and d3: "dict_intern (eD E) Label l s2 = (Inr lid, s3)" and d4: "registry_intern (eB E) sc s3 = (Inr sid, s4)"
    and st': "st' = s4\<lparr>label_index := t\<rparr>"
    by (auto simp: apply_create_node_def mbind_Inr mupd_Inr rbind_Inr)
  have "slot_tables st' = slot_tables (st\<lparr>meta := m, node_slots := f, node_ids := r\<rparr>)"
    using preservesD [OF preserves_put(1) put] preservesD [OF preserves_encoders(5) d3] preservesD [OF preserves_encoders(7) d4] by (simp add: st')
  moreover assume "j \<noteq> i"
  then have "node_u128 j \<noteq> node_u128 i" by (metis id_collapse(1))
  ultimately show ?thesis
    using alloc_correct [OF mtab bt.redb_table_axioms sl al [unfolded alloc_node_slot_def]] by auto
qed

lemma remove_slots:
  fixes st st' :: "('b, 'd, 'l, 'm, 'o, 'z) store_scheme"
  assumes run: "apply_remove_node E i st = (Inr (), st')" and sl: "slots_inv (rows (node_slots st)) (rows (node_ids st)) n"
  shows "rows (node_slots st') = (rows (node_slots st))(id_key (node_u128 i) := None)"
proof -
  from run obtain s a b t1 outs t2 ins fw rv seen f x where a: "remove_node_row E i s st = (Inr (), a)" and b: "remove_node_vector E s a = (Inr (), b)"
    and e: "remove_node_mapping (eB E) (node_slots b) (node_ids b) i = Inr (fw, rv)"
    and f: "cascade E True s outs {} (b\<lparr>out_adj := t1, in_adj := t2, node_slots := fw, node_ids := rv\<rparr>) = (Inr seen, f)"
    and g: "cascade E False s ins seen f = (Inr x, st')"
    by (auto simp: apply_remove_node_def mbind_Inr mupd_Inr rbind_Inr found_slot_def monad_simps split: prod.splits sum.splits)
  have "slot_tables b = slot_tables st"
    using preservesD [OF preserves_edge_steps(9) a] preservesD [OF preserves_remove_vector(1) b] by simp
  moreover have "node_slots st' = fw"
    using preservesD [OF preserves_cascade(1) f] preservesD [OF preserves_cascade(1) g] by simp
  ultimately show ?thesis
    using remove_mapping_correct [OF bt.redb_table_axioms sl, of "node_u128 i" fw rv] e by (simp add: remove_node_mapping_def)
qed

lemma scope_known:
  assumes inv: "store_inv E rows mrows st" and r: "read_node E st i = Inr (Some rec)"
  shows "\<exists>sid. scope_id_of (i_scopes st) (n_scope rec) = Some sid"
proof -
  obtain n where sl: "slots_inv (rows (node_slots st)) (rows (node_ids st)) n" using store_invD(2) [OF inv] by blast
  from read_nodeD [OF sl r] obtain disk where "node_from_disk_v3 disk (i_dicts st) (i_scopes st) = Inr (rec\<lparr>n_embedding := None\<rparr>)" by metis
  then have "scope_resolve (i_scopes st) (nd_scope disk) = Inr (n_scope rec)"
    by (auto simp: node_from_disk_v3_def rbind_Inr dest: arg_cong [where f = n_scope])
  then have "by_id (i_scopes st) (nd_scope disk) = Some (n_scope rec)" by (auto simp: scope_resolve_def split: option.splits)
  then show ?thesis using store_invD(1) [OF inv] by (auto simp: interning_wf_def registry_wf_def scope_id_of_def)
qed

lemma node_doc_grows:
  assumes inv: "store_inv E rows mrows st" and r: "read_node E st i = Inr (Some rec)" and g: "grows st st'" "interning_wf st'"
  shows "node_doc E (i_scopes st') rec = node_doc E (i_scopes st) rec"
proof -
  obtain sid where sid: "scope_id_of (i_scopes st) (n_scope rec) = Some sid" using scope_known [OF inv r] ..
  have "scope_id_of (i_scopes st') (n_scope rec) = Some sid"
    using scope_id_grows [OF _ _ _ sid] store_invD(1) [OF inv] g by (simp add: interning_wf_def grows_def)
  with sid show ?thesis by (simp add: node_doc_def)
qed

lemma docs_kept:
  assumes inv: "store_inv E rows mrows st" and rep: "represents E rows st G" and g: "grows st st'" "interning_wf st'"
    and same: "g_nodes G' i = None \<longleftrightarrow> g_nodes G i = None"
      "\<And>r r'. g_nodes G i = Some r \<Longrightarrow> g_nodes G' i = Some r' \<Longrightarrow> n_scope r' = n_scope r \<and> doc_text (spec E) r' = doc_text (spec E) r"
  shows "Option.bind (g_nodes G' i) (node_doc E (i_scopes st')) = Option.bind (g_nodes G i) (node_doc E (i_scopes st))"
proof (cases "g_nodes G i")
  case (Some r)
  then obtain r' where r': "g_nodes G' i = Some r'" using same(1) by auto
  have "node_doc E (i_scopes st') r' = node_doc E (i_scopes st') r" using same(2) [OF Some r'] by (intro node_doc_cong) simp_all
  moreover have "read_node E st i = Inr (Some r)" using representsD(1) [OF rep, of i] Some by simp
  ultimately show ?thesis using node_doc_grows [OF inv _ g] Some r' by simp
qed (use same in simp)

end

text \<open>Edits, each reporting the text its slot had and the one it gets, lead from one set of documents to another.\<close>

fun edits_follow :: "analyzer \<Rightarrow> fts_edit list \<Rightarrow> documents \<Rightarrow> documents \<Rightarrow> bool" where
  "edits_follow A [] D D' \<longleftrightarrow> D' = D"
| "edits_follow A ((sid, slot, old, new) # es) D D' \<longleftrightarrow>
     D slot = document A sid old \<and> edits_follow A es (D(slot := document A sid new)) D'"

lemma edits_follow_append: "edits_follow A es D D1 \<Longrightarrow> edits_follow A es' D1 D' \<Longrightarrow> edits_follow A (es @ es') D D'"
  by (induction A es D D1 rule: edits_follow.induct) simp_all

lemma edit_follows:
  assumes sl: "slots_inv (rows (node_slots st)) (rows (node_ids st)) n" "slots_inv (rows (node_slots st')) (rows (node_ids st')) n'"
    and fw: "\<And>i. i \<noteq> k \<Longrightarrow> rows (node_slots st') (id_key (node_u128 i)) = rows (node_slots st) (id_key (node_u128 i))"
    and docs: "\<And>i. i \<noteq> k \<Longrightarrow> Option.bind (g_nodes G' i) (node_doc E (i_scopes st')) = Option.bind (g_nodes G i) (node_doc E (i_scopes st))"
    and s: "rows (node_slots st) (id_key (node_u128 k)) \<in> {None, Some (u64_to_le s)}" "rows (node_slots st') (id_key (node_u128 k)) \<in> {None, Some (u64_to_le s)}"
    and texts: "text_docs E rows st G s = document A sid old" "text_docs E rows st' G' s = document A sid new"
  shows "edits_follow A [(sid, s, old, new)] (text_docs E rows st G) (text_docs E rows st' G')"
proof -
  have "text_docs E rows st' G' s' = text_docs E rows st G s'" if "s' \<noteq> s" for s'
    using text_docs_frame [OF sl, of "\<lambda>i. i \<noteq> k" G' E G s'] fw docs s that by auto
  then have "text_docs E rows st' G' = (text_docs E rows st G)(s := document A sid new)" using texts(2) by (auto simp: fun_eq_iff)
  with texts(1) show ?thesis by simp
qed

context engine
begin

lemma slot_of_node:
  assumes sl: "slots_inv (rows (node_slots st)) (rows (node_ids st)) n" and "node_slot (eB E) (node_slots st) i = Inr (Some s)"
  shows "rows (node_slots st) (id_key (node_u128 i)) = Some (u64_to_le s)"
  using assms(2) slots_inv_fwd [OF sl] by (fastforce simp: node_slot_def read_slot_eq [OF sl])

text \<open>What an operation reports about its node, and what it finds.\<close>

lemma existing_edit:
  assumes inv: "store_inv E rows mrows st" and rep: "represents E rows st G" and x: "x = SetNodeProps i ups \<or> x = RemoveNode i"
    and pre: "pre_edit E x st = Inr pre" and node: "g_nodes G i \<noteq> None"
  obtains r s where "g_nodes G i = Some r" "pre = Some (i, n_scope r, Some s, doc_text (spec E) r)"
    "rows (node_slots st) (id_key (node_u128 i)) = Some (u64_to_le s)"
proof -
  obtain r where r: "g_nodes G i = Some r" using node by blast
  then have rd: "read_node E st i = Inr (Some r)" using representsD(1) [OF rep, of i] by simp
  obtain n where sl: "slots_inv (rows (node_slots st)) (rows (node_ids st)) n" using store_invD(2) [OF inv] by blast
  from rd obtain s where s: "node_slot (eB E) (node_slots st) i = Inr (Some s)"
    by (auto simp: read_node_def rbind_Inr split: option.splits)
  have "pre = Some (i, n_scope r, Some s, doc_text (spec E) r)" using pre x rd s by (auto simp: pre_edit_def)
  then show thesis using that r slot_of_node [OF sl s] by blast
qed

lemma new_edit:
  assumes run: "collect_edit E missing x (Some (i, sc, ps, old)) st = (Inr ed, st')" and wf: "interning_wf st"
  obtains new s sid where "new_text E x i st = Inr new" "ed = [(sid, s, old, new)]" "scope_id_of (i_scopes st') sc = Some sid"
    "interning.more st' = interning.more st" "case ps of Some t \<Rightarrow> s = t | None \<Rightarrow> node_slot (eB E) (node_slots st) i = Inr (Some s)"
proof -
  from run obtain new s sid where *: "new_text E x i st = Inr new" "ed = [(sid, s, old, new)]" "registry_intern (eB E) sc st = (Inr sid, st')"
    "case ps of Some t \<Rightarrow> s = t | None \<Rightarrow> node_slot (eB E) (node_slots st) i = Inr (Some s)"
    by (auto simp: collect_edit_def mbind_Inr monad_simps found_slot_def rbind_Inr ok_or_def split: option.splits)
  have "by_id (i_scopes st') sid = Some sc" using registry_intern_id [OF *(3) wf] .
  moreover have "registry_wf (i_scopes st')" using keeps_run [OF keeps_registry_intern *(3) wf] by (simp add: interning_wf_def)
  ultimately have "scope_id_of (i_scopes st') sc = Some sid" by (simp add: registry_wf_def scope_id_of_def)
  then show thesis using that * registry_intern_more [OF *(3)] by blast
qed

text \<open>One operation: its edits lead from the documents of the graph before to those of the graph after.\<close>

lemma node_docE: "scope_id_of g (n_scope r) = Some sid \<Longrightarrow> node_doc E g r = document (analyzer_of E) sid (doc_text (spec E) r)"
  by (simp add: node_doc_def)

lemma text_create:
  fixes st st' :: "('b, 'd, 'l, 'm, 'o, 'z) store_scheme"
  assumes inv: "store_inv E rows mrows st" "store_inv E rows mrows st'" and rep: "represents E rows st G" "represents E rows st' G'"
    and g: "grows st st'" and new: "g_nodes G i = None" "g_nodes G' = (g_nodes G)(i \<mapsto> r)"
    and fw: "\<And>j. j \<noteq> i \<Longrightarrow> rows (node_slots st') (id_key (node_u128 j)) = rows (node_slots st) (id_key (node_u128 j))"
    and s: "rows (node_slots st') (id_key (node_u128 i)) = Some (u64_to_le s)" and sid: "scope_id_of (i_scopes st') (n_scope r) = Some sid"
  shows "edits_follow (analyzer_of E) [(sid, s, None, doc_text (spec E) r)] (text_docs E rows st G) (text_docs E rows st' G')"
proof -
  obtain n where sl: "slots_inv (rows (node_slots st)) (rows (node_ids st)) n" using store_invD(2) [OF inv(1)] by blast
  obtain n' where sl': "slots_inv (rows (node_slots st')) (rows (node_ids st')) n'" using store_invD(2) [OF inv(2)] by blast
  have none: "rows (node_slots st) (id_key (node_u128 i)) = None" by (rule no_node_slot [OF inv(1) rep(1) new(1)])
  have "rows (node_slots st) (id_key x) \<noteq> Some (u64_to_le s)" for x
  proof
    assume x: "rows (node_slots st) (id_key x) = Some (u64_to_le s)"
    then have "NodeId x \<noteq> i" using none by auto
    then have "rows (node_slots st') (id_key x) = Some (u64_to_le s)" using fw [of "NodeId x"] x by simp
    then show False using slots_inv_inj [OF sl' _ s, of x] \<open>NodeId x \<noteq> i\<close> by (metis id_collapse(1))
  qed
  then have "text_docs E rows st G s = document (analyzer_of E) sid None" using text_docs_none [OF sl] by simp
  moreover have "text_docs E rows st' G' s = document (analyzer_of E) sid (doc_text (spec E) r)"
    using text_docs_at [OF sl' s] new(2) node_docE [OF sid] by simp
  moreover have "Option.bind (g_nodes G' j) (node_doc E (i_scopes st')) = Option.bind (g_nodes G j) (node_doc E (i_scopes st))" if "j \<noteq> i" for j
    using that new(2) store_invD(1) [OF inv(2)] by (intro docs_kept [OF inv(1) rep(1) g]) simp_all
  ultimately show ?thesis using none s fw by (intro edit_follows [OF sl sl', where k = i]) simp_all
qed

lemma text_update:
  fixes st st' :: "('b, 'd, 'l, 'm, 'o, 'z) store_scheme"
  assumes inv: "store_inv E rows mrows st" "store_inv E rows mrows st'" and rep: "represents E rows st G" "represents E rows st' G'"
    and g: "grows st st'" and r: "g_nodes G i = Some r" "g_nodes G' = (g_nodes G)(i := r')"
    and fw: "\<And>j. j \<noteq> i \<Longrightarrow> rows (node_slots st') (id_key (node_u128 j)) = rows (node_slots st) (id_key (node_u128 j))"
    and s: "rows (node_slots st) (id_key (node_u128 i)) = Some (u64_to_le s)"
      "case r' of None \<Rightarrow> rows (node_slots st') (id_key (node_u128 i)) = None
        | Some q \<Rightarrow> n_scope q = n_scope r \<and> rows (node_slots st') (id_key (node_u128 i)) = Some (u64_to_le s)"
    and sid: "scope_id_of (i_scopes st') (n_scope r) = Some sid"
  shows "edits_follow (analyzer_of E) [(sid, s, doc_text (spec E) r, Option.bind r' (doc_text (spec E)))] (text_docs E rows st G) (text_docs E rows st' G')"
proof -
  obtain n where sl: "slots_inv (rows (node_slots st)) (rows (node_ids st)) n" using store_invD(2) [OF inv(1)] by blast
  obtain n' where sl': "slots_inv (rows (node_slots st')) (rows (node_ids st')) n'" using store_invD(2) [OF inv(2)] by blast
  have wf': "interning_wf st'" by (rule store_invD(1) [OF inv(2)])
  have rd: "read_node E st i = Inr (Some r)" using representsD(1) [OF rep(1), of i] r(1) by simp
  have "text_docs E rows st G s = node_doc E (i_scopes st') r" using text_docs_at [OF sl s(1)] r(1) node_doc_grows [OF inv(1) rd g wf'] by simp
  then have old: "text_docs E rows st G s = document (analyzer_of E) sid (doc_text (spec E) r)" by (simp add: node_docE [OF sid])
  have new: "text_docs E rows st' G' s = document (analyzer_of E) sid (Option.bind r' (doc_text (spec E)))"
  proof (cases r')
    case None
    have "rows (node_slots st') (id_key x) \<noteq> Some (u64_to_le s)" for x
    proof
      assume x: "rows (node_slots st') (id_key x) = Some (u64_to_le s)"
      then have "NodeId x \<noteq> i" using s(2) None by auto
      then have "rows (node_slots st) (id_key x) = Some (u64_to_le s)" using fw [of "NodeId x"] x by simp
      then show False using slots_inv_inj [OF sl _ s(1), of x] \<open>NodeId x \<noteq> i\<close> by (metis id_collapse(1))
    qed
    then show ?thesis using text_docs_none [OF sl'] None by simp
  next
    case (Some q)
    then have "rows (node_slots st') (id_key (node_u128 i)) = Some (u64_to_le s)" "n_scope q = n_scope r" using s(2) by auto
    with text_docs_at [OF sl', of i s E G'] r(2) Some node_docE [of "i_scopes st'" q sid] sid show ?thesis by simp
  qed
  moreover have "Option.bind (g_nodes G' j) (node_doc E (i_scopes st')) = Option.bind (g_nodes G j) (node_doc E (i_scopes st))" if "j \<noteq> i" for j
    using that r(2) by (intro docs_kept [OF inv(1) rep(1) g wf']) simp_all
  ultimately show ?thesis using old s fw by (intro edit_follows [OF sl sl', where k = i]) (auto split: option.splits)
qed

lemma text_same:
  fixes st st' :: "('b, 'd, 'l, 'm, 'o, 'z) store_scheme"
  assumes inv: "store_inv E rows mrows st" "store_inv E rows mrows st'" and rep: "represents E rows st G"
    and g: "grows st st'" and fw: "rows (node_slots st') = rows (node_slots st)"
    and same: "\<And>i. g_nodes G' i = None \<longleftrightarrow> g_nodes G i = None"
      "\<And>i r r'. g_nodes G i = Some r \<Longrightarrow> g_nodes G' i = Some r' \<Longrightarrow> n_scope r' = n_scope r \<and> doc_text (spec E) r' = doc_text (spec E) r"
  shows "text_docs E rows st' G' = text_docs E rows st G"
proof
  fix s
  obtain n where sl: "slots_inv (rows (node_slots st)) (rows (node_ids st)) n" using store_invD(2) [OF inv(1)] by blast
  obtain n' where sl': "slots_inv (rows (node_slots st')) (rows (node_ids st')) n'" using store_invD(2) [OF inv(2)] by blast
  show "text_docs E rows st' G' s = text_docs E rows st G s"
    by (rule text_docs_frame [OF sl sl', where P = "\<lambda>_. True"]) (use fw docs_kept [OF inv(1) rep g store_invD(1) [OF inv(2)] same] in auto)
qed

text \<open>Where nodes are after an operation.\<close>

definition slots_after :: "op \<Rightarrow> (bytes \<rightharpoonup> bytes) \<Rightarrow> (bytes \<rightharpoonup> bytes) \<Rightarrow> bool" where
  "slots_after x fw fw' \<longleftrightarrow>
     (case x of
        CreateNode i _ _ _ \<Rightarrow> \<forall>j. j \<noteq> i \<longrightarrow> fw' (id_key (node_u128 j)) = fw (id_key (node_u128 j))
      | RemoveNode i \<Rightarrow> fw' = fw(id_key (node_u128 i) := None)
      | _ \<Rightarrow> fw' = fw)"

lemma slots_step:
  fixes st st' :: "('b, 'd, 'l, 'm, 'o, 'z) store_scheme"
  assumes inv: "store_inv E rows mrows st" and run: "apply_op E x st = (Inr (), st')"
  shows "slots_after x (rows (node_slots st)) (rows (node_slots st'))"
proof -
  obtain n where sl: "slots_inv (rows (node_slots st)) (rows (node_ids st)) n" "counter_is (mrows (meta st)) ''next_node_slot'' n"
    using store_invD(2) [OF inv] by blast
  show ?thesis
  proof (cases x)
    case (CreateNode i sc l ps)
    then show ?thesis using create_slots [OF _ sl] run by (simp add: slots_after_def)
  next
    case (RemoveNode i)
    then show ?thesis using remove_slots [OF _ sl(1)] run by (simp add: slots_after_def)
  next
    case (SetNodeProps i ups)
    then have "apply_set_node_props E i ups st = (Inr (), st')" using run by simp
    from preservesD [OF preserves_slots(1) this] show ?thesis by (simp add: SetNodeProps slots_after_def)
  next
    case (SetEmbedding i m v)
    then have "apply_set_embedding E i m v st = (Inr (), st')" using run by simp
    from preservesD [OF preserves_slots(2) this] show ?thesis by (simp add: SetEmbedding slots_after_def)
  next
    case (CreateEdge i sc ty f t ps vf ra)
    then have "apply_create_edge E i sc ty f t ps vf ra st = (Inr (), st')" using run by simp
    from preservesD [OF preserves_slots(3) this] show ?thesis by (simp add: CreateEdge slots_after_def)
  next
    case (CloseEdge i vt sa)
    then have "apply_close_edge E i vt sa st = (Inr (), st')" using run by simp
    from preservesD [OF preserves_slots(4) this] show ?thesis by (simp add: CloseEdge slots_after_def)
  qed (use run in \<open>simp add: monad_simps\<close>)
qed

text \<open>The stages of one operation of a batch.\<close>

lemma one_stages:
  fixes st st' :: "('b, 'd, 'l, 'm, 'o, 'z) store_scheme"
  assumes inv: "store_inv E rows mrows st" and rep: "represents E rows st G" and run: "apply_one E x st = (Inr ed, st')"
    and ok: "op_ok rows st G x"
  obtains pre s G' where "pre_edit E x st = Inr pre" "spec_op (stored_vector E) x G = Some G'" "store_inv E rows mrows st'" "represents E rows st' G'"
    "collect_edit E (Encoding ''fts edit: node slot missing after CreateNode'') x pre s = (Inr ed, st')" "interning_wf s"
    "\<And>i. read_node E s i = Inr (g_nodes G' i)" "slot_tables st' = slot_tables s" "text_tables st' = text_tables st" "grows st st'"
    "slots_after x (rows (node_slots st)) (rows (node_slots st'))"
proof -
  from run obtain pre old s1 s2 s3 where p: "pre_edit E x st = Inr pre" and u: "unindex_old E old st = (Inr (), s1)"
    and a: "apply_op E x s1 = (Inr (), s2)" and n: "index_new E x s2 = (Inr (), s3)"
    and c: "collect_edit E (Encoding ''fts edit: node slot missing after CreateNode'') x pre s3 = (Inr ed, st')"
    by (auto simp: apply_one_def mbind_Inr monad_simps)
  have inv1: "store_inv E rows mrows s1" "represents E rows s1 G" using quiet_step [OF inv rep quiet_index(1) keeps_unindex_old u] by blast+
  have "op_ok rows s1 G x" using ok op_ok_cong [OF quietD [OF quiet_index(1) u]] by simp
  from sim_op [OF inv1 a this] obtain G' where g: "spec_op (stored_vector E) x G = Some G'" and inv2: "store_inv E rows mrows s2" "represents E rows s2 G'" by blast
  have inv3: "store_inv E rows mrows s3" "represents E rows s3 G'" using quiet_step [OF inv2 quiet_index(2) keeps_index_new n] by blast+
  have inv': "store_inv E rows mrows st'" "represents E rows st' G'" using quiet_step [OF inv3 quiet_index(3) keeps_collect_edit c] by blast+
  have tt: "text_tables st' = text_tables st"
    using preservesD [OF preserves_index(2) u] preservesD [OF preserves_apply_op a] preservesD [OF preserves_index(4) n]
      preservesD [OF preserves_index(6) c] by simp
  have t: "slot_tables s1 = slot_tables st" "slot_tables s3 = slot_tables s2" "slot_tables st' = slot_tables s3"
    using preservesD [OF preserves_index(1) u] preservesD [OF preserves_index(3) n] preservesD [OF preserves_index(5) c] by simp_all
  have sl: "slots_after x (rows (node_slots st)) (rows (node_slots st'))" using slots_step [OF inv1(1) a] t by simp
  have "grows st st'" using keeps_run [OF keeps_apply_one run store_invD(1) [OF inv]] by blast
  then show thesis using that [OF p g inv' c store_invD(1) [OF inv3(1)] representsD(1) [OF inv3(2)] t(3) tt _ sl] by blast
qed

text \<open>One operation: its edits lead from the documents of the graph before to those of the graph after.\<close>

lemma text_step:
  fixes st st' :: "('b, 'd, 'l, 'm, 'o, 'z) store_scheme"
  assumes inv: "store_inv E rows mrows st" and rep: "represents E rows st G" and run: "apply_one E x st = (Inr ed, st')"
    and ok: "op_ok rows st G x"
  shows "\<exists>G'. spec_op (stored_vector E) x G = Some G' \<and> store_inv E rows mrows st' \<and> represents E rows st' G' \<and>
    text_tables st' = text_tables st \<and> edits_follow (analyzer_of E) ed (text_docs E rows st G) (text_docs E rows st' G')"
proof -
  from inv rep run ok obtain pre s3 G' where p: "pre_edit E x st = Inr pre" and g: "spec_op (stored_vector E) x G = Some G'"
    and inv': "store_inv E rows mrows st'" and rep': "represents E rows st' G'"
    and c: "collect_edit E (Encoding ''fts edit: node slot missing after CreateNode'') x pre s3 = (Inr ed, st')" and wf3: "interning_wf s3"
    and rd3: "\<And>i. read_node E s3 i = Inr (g_nodes G' i)" and t3: "slot_tables st' = slot_tables s3" and tt: "text_tables st' = text_tables st"
    and grow: "grows st st'" and fw: "slots_after x (rows (node_slots st)) (rows (node_slots st'))" by (rule one_stages) blast
  have quiet: "edits_follow (analyzer_of E) ed (text_docs E rows st G) (text_docs E rows st' G')"
    if "pre = None" "rows (node_slots st') = rows (node_slots st)" "\<And>i. g_nodes G' i = None \<longleftrightarrow> g_nodes G i = None"
      "\<And>i r r'. g_nodes G i = Some r \<Longrightarrow> g_nodes G' i = Some r' \<Longrightarrow> n_scope r' = n_scope r \<and> doc_text (spec E) r' = doc_text (spec E) r"
    using c that(1) text_same [OF inv inv' rep grow that(2-4)] by (simp add: collect_edit_def monad_simps)
  have edit: "edits_follow (analyzer_of E) ed (text_docs E rows st G) (text_docs E rows st' G')"
    if x: "x = SetNodeProps i ups \<or> x = RemoveNode i" and r: "g_nodes G i = Some r" "g_nodes G' = (g_nodes G)(i := r')"
      and r': "r' = (if x = RemoveNode i then None else Some (r\<lparr>n_props := merge_props ups (n_props r)\<rparr>))" for i ups r r'
  proof -
    from existing_edit [OF inv rep x p] r(1) obtain s0 where pre: "pre = Some (i, n_scope r, Some s0, doc_text (spec E) r)"
      and s0: "rows (node_slots st) (id_key (node_u128 i)) = Some (u64_to_le s0)" by auto
    obtain new s sid where e: "new_text E x i s3 = Inr new" "ed = [(sid, s, doc_text (spec E) r, new)]" "scope_id_of (i_scopes st') (n_scope r) = Some sid"
      and s: "case Some s0 of Some t \<Rightarrow> s = t | None \<Rightarrow> node_slot (eB E) (node_slots s3) i = Inr (Some s)"
      by (rule new_edit [OF c [unfolded pre] wf3])
    have "new = Option.bind r' (doc_text (spec E))" using e(1) x rd3 [of i] r(2) r' by (auto simp: new_text_def)
    moreover have "node_u128 j \<noteq> node_u128 i" if "j \<noteq> i" for j using that by (metis id_collapse(1))
    ultimately show ?thesis
      using text_update [OF inv inv' rep rep' grow r, of s0 sid] e(2,3) s s0 fw x r' by (auto simp: slots_after_def)
  qed
  have "edits_follow (analyzer_of E) ed (text_docs E rows st G) (text_docs E rows st' G')"
  proof (cases x)
    case (CreateNode i sc l ps)
    then have pre: "pre = Some (i, sc, None, None)" using p by (simp add: pre_edit_def)
    obtain new s sid where e: "new_text E x i s3 = Inr new" "ed = [(sid, s, None, new)]" "scope_id_of (i_scopes st') sc = Some sid"
      "case None of Some t \<Rightarrow> s = t | None \<Rightarrow> node_slot (eB E) (node_slots s3) i = Inr (Some s)" by (rule new_edit [OF c [unfolded pre] wf3])
    let ?r = "\<lparr>n_id = i, n_scope = sc, n_label = l, n_props = ps, n_embedding = None\<rparr>"
    obtain m where sl': "slots_inv (rows (node_slots st')) (rows (node_ids st')) m" using store_invD(2) [OF inv'] by blast
    have G': "g_nodes G' = (g_nodes G)(i \<mapsto> ?r)" using g CreateNode by auto
    have "new = doc_text (spec E) ?r" using e(1) rd3 [of i] by (simp add: new_text_def CreateNode G')
    moreover have "rows (node_slots st') (id_key (node_u128 i)) = Some (u64_to_le s)" using slot_of_node [OF sl'] e(4) t3 by simp
    ultimately show ?thesis
      using text_create [OF inv inv' rep rep' grow _ G'] e(2,3) ok fw CreateNode by (simp add: slots_after_def)
  next
    case (SetNodeProps i ups)
    then obtain r where "g_nodes G i = Some r" using g by (auto split: option.splits)
    then show ?thesis using g SetNodeProps by (intro edit [of i ups r]) auto
  next
    case (RemoveNode i)
    then obtain r where "g_nodes G i = Some r" using g by (auto split: option.splits)
    then show ?thesis using g RemoveNode by (intro edit [of i "[]" r]) auto
  qed (rule quiet; use g p fw in \<open>auto simp: pre_edit_def slots_after_def split: option.splits if_splits\<close>)+
  with g inv' rep' tt show ?thesis by blast
qed

lemma text_all:
  fixes st st' :: "('b, 'd, 'l, 'm, 'o, 'z) store_scheme"
  assumes "store_inv E rows mrows st" "represents E rows st G" "apply_all E xs eds st = (Inr eds', st')" "ops_ok E rows xs st G"
  shows "\<exists>es G'. eds' = eds @ es \<and> spec_ops (stored_vector E) xs G = Some G' \<and> store_inv E rows mrows st' \<and> represents E rows st' G' \<and>
    text_tables st' = text_tables st \<and> edits_follow (analyzer_of E) es (text_docs E rows st G) (text_docs E rows st' G')"
  using assms
proof (induction xs arbitrary: eds st G)
  case (Cons x xs)
  from Cons.prems(3) obtain ed s1 where a: "apply_one E x st = (Inr ed, s1)" and r: "apply_all E xs (eds @ ed) s1 = (Inr eds', st')"
    by (auto simp: mbind_Inr)
  from text_step [OF Cons.prems(1,2) a] Cons.prems(4) obtain G1 where
    g: "spec_op (stored_vector E) x G = Some G1" and i: "store_inv E rows mrows s1" "represents E rows s1 G1"
    and t: "text_tables s1 = text_tables st" and e: "edits_follow (analyzer_of E) ed (text_docs E rows st G) (text_docs E rows s1 G1)" by auto
  have "ops_ok E rows xs s1 G1" using Cons.prems(4) by (simp add: a g)
  from Cons.IH [OF i r this] obtain es G' where "eds' = (eds @ ed) @ es" "spec_ops (stored_vector E) xs G1 = Some G'"
    "store_inv E rows mrows st'" "represents E rows st' G'" "text_tables st' = text_tables s1"
    "edits_follow (analyzer_of E) es (text_docs E rows s1 G1) (text_docs E rows st' G')" by blast
  with g t edits_follow_append [OF e] show ?case by (intro exI [of _ "ed @ es"] exI [of _ G']) simp
qed (simp add: monad_simps)

end

section \<open>Replaying the edits\<close>

text \<open>Lengths, counts and chunk numbers stay within their widths while a batch's edits are replayed.\<close>

fun edits_fit :: "analyzer \<Rightarrow> nat \<Rightarrow> documents \<Rightarrow> fts_edit list \<Rightarrow> bool" where
  "edits_fit A n D [] \<longleftrightarrow> True"
| "edits_fit A n D ((sid, slot, old, new) # es) \<longleftrightarrow>
     docs_ok (D(slot := document A sid new)) \<and> n + length (text_tokens A old) + length (text_tokens A new) \<le> 2 ^ 32 \<and>
     edits_fit A (n + length (text_tokens A old) + length (text_tokens A new)) (D(slot := document A sid new)) es"

lemma edits_run:
  assumes store: "fts_store (eB E) rows (lz E) (pc_fts E)"
    and "indexes (lz E) (pc_fts E) rows (text_tables st) D" "chunks_below n (rows (postings st))"
    and "edits_follow (analyzer_of E) es D D'" "edits_fit (analyzer_of E) n D es"
  shows "\<exists>st'. mfold (apply_fts_edit E) es st = (Inr (), st') \<and> indexes (lz E) (pc_fts E) rows (text_tables st') D'"
  using assms(2-)
proof (induction es arbitrary: st D n)
  case (Cons ed es)
  obtain sid slot old new where ed: "ed = (sid, slot, old, new)" by (cases ed) auto
  let ?A = "analyzer_of E"
  from fts_store.fts_update_run [OF store Cons.prems(1,2), of slot ?A sid old new] Cons.prems(3,4) obtain p d t where
    u: "fts_update (lz E) (eB E) ?A (pc_fts E) sid slot old new (text_tables st) = Inr (p, d, t)"
      "indexes (lz E) (pc_fts E) rows (p, d, t) (D(slot := document ?A sid new))"
      "chunks_below (n + length (text_tokens ?A old) + length (text_tokens ?A new)) (rows p)" by (auto simp: ed)
  let ?st = "st\<lparr>postings := p, fts_docs := d, fts_stats := t\<rparr>"
  have step: "apply_fts_edit E ed st = (Inr (), ?st)" using u(1) by (simp add: apply_fts_edit_def ed mupd_def)
  from Cons.IH [of ?st "D(slot := document ?A sid new)" "n + length (text_tokens ?A old) + length (text_tokens ?A new)"] u(2,3) Cons.prems(3,4)
  obtain st' where "mfold (apply_fts_edit E) es ?st = (Inr (), st')" "indexes (lz E) (pc_fts E) rows (text_tables st') D'"
    by (auto simp: ed simp del: fun_upd_apply)
  with step show ?case by auto
qed (simp add: monad_simps)

lemma text_docs_cong: "node_ids st' = node_ids st \<Longrightarrow> i_scopes st' = i_scopes st \<Longrightarrow> text_docs E rows st' G = text_docs E rows st G"
  by (simp add: text_docs_def fun_eq_iff split: option.split)

lemma preserves_scopes:
  "preserves (\<lambda>st. (slot_tables st, i_scopes st)) (mfold (apply_fts_edit E) es)" "preserves (\<lambda>st. (slot_tables st, i_scopes st)) (append_log E xs)"
  unfolding apply_fts_edit_def append_log_def by (intro preserves_rules; auto simp: rbind_Inr)+

section \<open>Batches and groups\<close>

text \<open>The edits of every batch of a group fit, each in the state its batch runs in.\<close>

fun texts_fit :: "('b, 'd, 'l, 'm, 'o) env \<Rightarrow> ('b \<Rightarrow> bytes \<rightharpoonup> bytes) \<Rightarrow> i64 \<Rightarrow> op list list
    \<Rightarrow> ('b, 'd, 'l, 'm, 'o, 'z) store_scheme \<Rightarrow> graph \<Rightarrow> bool" where
  "texts_fit E rows now [] st G \<longleftrightarrow> True"
| "texts_fit E rows now (ops # gs) st G \<longleftrightarrow>
     (case apply_ops_in_txn E now ops st of
        (Inr b, st') \<Rightarrow>
          (case apply_all E (resolved b) [] st of
             (Inr eds, _) \<Rightarrow> \<exists>n. chunks_below n (rows (postings st)) \<and> edits_fit (analyzer_of E) n (text_docs E rows st G) eds
           | _ \<Rightarrow> True) \<and>
          (case spec_ops (stored_vector E) (resolved b) G of Some G' \<Rightarrow> texts_fit E rows now gs st' G' | None \<Rightarrow> True)
      | _ \<Rightarrow> True)"

definition text_indexed :: "('b, 'd, 'l, 'm, 'o) env \<Rightarrow> ('b \<Rightarrow> bytes \<rightharpoonup> bytes) \<Rightarrow> ('b, 'd, 'l, 'm, 'o, 'z) store_scheme \<Rightarrow> graph \<Rightarrow> bool" where
  "text_indexed E rows st G \<longleftrightarrow> indexes (lz E) (pc_fts E) rows (text_tables st) (text_docs E rows st G)"

context engine
begin

lemma text_batch:
  fixes st st' :: "('b, 'd, 'l, 'm, 'o, 'z) store_scheme"
  assumes store: "fts_store (eB E) rows (lz E) (pc_fts E)" and inv: "store_inv E rows mrows st" and rep: "represents E rows st G"
    and ix: "text_indexed E rows st G" and run: "apply_ops_in_txn E now ops st = (Inr b, st')" and ok: "ops_ok E rows (resolved b) st G"
    and fit: "\<And>eds s. apply_all E (resolved b) [] st = (Inr eds, s) \<Longrightarrow>
      \<exists>n. chunks_below n (rows (postings st)) \<and> edits_fit (analyzer_of E) n (text_docs E rows st G) eds"
  shows "\<exists>G'. spec_ops (stored_vector E) (resolved b) G = Some G' \<and> text_indexed E rows st' G'"
proof -
  from run obtain eds s1 s2 fl where a: "apply_all E (resolved b) [] st = (Inr eds, s1)"
    and f: "mfold (apply_fts_edit E) eds s1 = (Inr (), s2)" and l: "append_log E (resolved b) s2 = (Inr fl, st')"
    by (auto simp: apply_ops_in_txn_def mbind_Inr monad_simps split: if_splits)
  from text_all [OF inv rep a ok] obtain G' where g: "spec_ops (stored_vector E) (resolved b) G = Some G'" and t: "text_tables s1 = text_tables st"
    and e: "edits_follow (analyzer_of E) eds (text_docs E rows st G) (text_docs E rows s1 G')" by auto
  from fit [OF a] obtain n where n: "chunks_below n (rows (postings s1))" "edits_fit (analyzer_of E) n (text_docs E rows st G) eds" using t by auto
  have "indexes (lz E) (pc_fts E) rows (text_tables s1) (text_docs E rows st G)" using ix t by (simp add: text_indexed_def)
  from edits_run [OF store this n(1) e n(2)] f have "indexes (lz E) (pc_fts E) rows (text_tables s2) (text_docs E rows s1 G')" by simp
  moreover have "text_tables st' = text_tables s2" by (rule preservesD [OF preserves_index(8) l])
  moreover have "text_docs E rows st' G' = text_docs E rows s1 G'"
    using preservesD [OF preserves_scopes(1) f] preservesD [OF preserves_scopes(2) l] by (intro text_docs_cong) simp_all
  ultimately show ?thesis using g by (simp add: text_indexed_def)
qed

lemma text_groups:
  fixes st st' :: "('b, 'd, 'l, 'm, 'o, 'z) store_scheme"
  assumes store: "fts_store (eB E) rows (lz E) (pc_fts E)" and "store_inv E rows mrows st" "represents E rows st G" "text_indexed E rows st G"
    and "run_groups E now idx gs app st = (Inr bs, st')" and "groups_ok E rows now gs st G" "texts_fit E rows now gs st G"
  shows "\<exists>cs G'. bs = app @ cs \<and> spec_ops (stored_vector E) (concat (map resolved cs)) G = Some G' \<and>
    store_inv E rows mrows st' \<and> represents E rows st' G' \<and> text_indexed E rows st' G'"
  using assms(2-)
proof (induction gs arbitrary: idx app st G)
  case (Cons ops gs)
  from Cons.prems(4) obtain b s1 where b: "apply_ops_in_txn E now ops st = (Inr b, s1)"
    and r: "run_groups E now (idx + 1) gs (app @ [b]) s1 = (Inr bs, st')"
    by (auto split: prod.splits sum.splits)
  have ok: "ops_ok E rows (resolved b) st G" using Cons.prems(5) by (simp add: b)
  from sim_batch [OF Cons.prems(1,2) b ok] obtain G1 where g: "spec_ops (stored_vector E) (resolved b) G = Some G1"
    and i: "store_inv E rows mrows s1" "represents E rows s1 G1" by blast
  have fit: "\<exists>n. chunks_below n (rows (postings st)) \<and> edits_fit (analyzer_of E) n (text_docs E rows st G) eds"
    if "apply_all E (resolved b) [] st = (Inr eds, s)" for eds s using Cons.prems(6) that by (simp add: b)
  have ix: "text_indexed E rows s1 G1" using text_batch [OF store Cons.prems(1-3) b ok fit] g by simp
  have "groups_ok E rows now gs s1 G1" "texts_fit E rows now gs s1 G1" using Cons.prems(5,6) by (simp_all add: b g)
  from Cons.IH [OF i ix r this] obtain cs G' where "bs = (app @ [b]) @ cs"
    "spec_ops (stored_vector E) (concat (map resolved cs)) G1 = Some G'" "store_inv E rows mrows st'" "represents E rows st' G'"
    "text_indexed E rows st' G'" by blast
  then show ?case using g by (intro exI [of _ "b # cs"]) (simp add: spec_ops_append)
qed simp

lemma text_journal: "text_indexed E rows (st\<lparr>i_journal := j\<rparr>) G = text_indexed E rows st G"
  using text_docs_cong [of "st\<lparr>i_journal := j\<rparr>" st E rows G] by (simp add: text_indexed_def)

lemma text_batches:
  fixes st st' :: "('b, 'd, 'l, 'm, 'o, 'z) store_scheme"
  assumes store: "fts_store (eB E) rows (lz E) (pc_fts E)" and inv: "store_inv E rows mrows st" and rep: "represents E rows st G"
    and ix: "text_indexed E rows st G" and run: "apply_batches E tx groups now st = (map Inr bs, st')"
    and ok: "groups_ok E rows now groups (st\<lparr>i_journal := journal_default\<rparr>) G"
    and fit: "texts_fit E rows now groups (st\<lparr>i_journal := journal_default\<rparr>) G"
  shows "\<exists>G'. spec_ops (stored_vector E) (concat (map resolved bs)) G = Some G' \<and>
    store_inv E rows mrows st' \<and> represents E rows st' G' \<and> text_indexed E rows st' G'"
proof (cases "groups = []")
  case True
  with run inv rep ix show ?thesis by (simp add: apply_batches_def)
next
  case False
  note j = journal_irrelevant [OF inv rep, of journal_default]
  from run False obtain st1 where r: "run_groups E now 0 groups [] (st\<lparr>i_journal := journal_default\<rparr>) = (Inr bs, st1)"
    and st': "st' = st1\<lparr>i_journal := i_journal st\<rparr>" by (rule batches_committed)
  from text_groups [OF store conjunct1 [OF j] conjunct2 [OF j] _ r ok fit] ix obtain G' where
    "spec_ops (stored_vector E) (concat (map resolved bs)) G = Some G'" "store_inv E rows mrows st1" "represents E rows st1 G'"
    "text_indexed E rows st1 G'" by (auto simp: text_journal)
  then show ?thesis using journal_irrelevant st' text_journal by blast
qed

end

end
