(* ===== verification/GraphSearch.thy ===== *)
theory GraphSearch
  imports TextIndex
begin

text \<open>
  Text searches of a graph: with the index an invariant of the database, a search ranks exactly the matching nodes of
  the graph. The instance runs a batch that stores a note and finds it again.
\<close>

section \<open>Searching a graph\<close>

text \<open>The score of a node and the ranked candidates of a search, over a graph.\<close>

definition node_score :: "('b, 'd, 'l, 'm, 'o) env \<Rightarrow> f32_ops \<Rightarrow> search_options \<Rightarrow> (string \<times> string list) list \<Rightarrow> string list \<Rightarrow> documents
    \<Rightarrow> scope_registry \<Rightarrow> node_record \<Rightarrow> f32 option" where
  "node_score E F opt expansions q D reg r = Option.bind (node_doc E reg r)
     (\<lambda>(sid, ts). text_score F (analyzer_of E) opt expansions q D sid ts)"

definition graph_candidates :: "f32_ops \<Rightarrow> (node_id \<Rightarrow> u64) \<Rightarrow> i64 \<times> i64 \<Rightarrow> scope_set \<Rightarrow> search_options \<Rightarrow> string list
    \<Rightarrow> graph \<Rightarrow> (node_record \<Rightarrow> f32 option) \<Rightarrow> (node_record \<times> f32) multiset" where
  "graph_candidates F timestamp_ms wall scopes opt tombstone_props G score =
     {#(let r = the (g_nodes G i) in (r, hit_score F opt (recency_clock F opt (fst wall)) (timestamp_ms i) r (the (score r)))).
       i \<in># mset_set {i. \<exists>r. g_nodes G i = Some r \<and> score r \<noteq> None \<and>
         hit_kept opt (tombstone_clock opt tombstone_props (snd wall)) tombstone_props scopes (timestamp_ms i) r}#}"

definition node_of :: "('b \<Rightarrow> bytes \<rightharpoonup> bytes) \<Rightarrow> ('b, 'd, 'l, 'm, 'o, 'z) store_scheme \<Rightarrow> u64 \<Rightarrow> node_id" where
  "node_of rows st slot = NodeId (u128_from_be (the (rows (node_ids st) (slot_key slot))))"

context engine
begin

lemma doc_node:
  fixes st :: "('b, 'd, 'l, 'm, 'o, 'z) store_scheme"
  assumes inv: "store_inv E rows mrows st" and rep: "represents E rows st G" and "text_docs E rows st G slot \<noteq> None"
  obtains r where "g_nodes G (node_of rows st slot) = Some r" "text_docs E rows st G slot = node_doc E (i_scopes st) r"
    "read_node_by_slot E st slot = Inr (Some r)" "rows (node_slots st) (id_key (node_u128 (node_of rows st slot))) = Some (u64_to_le slot)"
proof -
  obtain n where sl: "slots_inv (rows (node_slots st)) (rows (node_ids st)) n" using store_invD(2) [OF inv] by blast
  from assms(3) obtain b where b: "rows (node_ids st) (slot_key slot) = Some b" by (auto simp: text_docs_def split: option.splits)
  then obtain i where i: "b = id_key i" "rows (node_slots st) (id_key i) = Some (u64_to_le slot)" using slots_inv_rvs [OF sl] by blast
  have of: "node_of rows st slot = NodeId i" by (simp add: node_of_def b i(1))
  from assms(3) b i(1) obtain r where r: "g_nodes G (NodeId i) = Some r" "text_docs E rows st G slot = node_doc E (i_scopes st) r"
    by (auto simp: text_docs_def bind_eq_Some_conv)
  have "read_node E st (NodeId i) = Inr (Some r)" using representsD(1) [OF rep, of "NodeId i"] r(1) by simp
  then have "read_node_by_slot E st slot = Inr (Some r)"
    using i(2) by (auto simp: read_node_def node_slot_def read_slot_eq [OF sl] rbind_Inr split: option.splits)
  then show thesis using that r i(2) by (simp add: of)
qed

lemma scope_of_doc:
  assumes reg: "registry_wf reg" and "node_doc E reg r = Some (sid, ts)"
  shows "(\<exists>scope. contains scopes scope \<and> scope_id_of reg scope = Some sid) \<longleftrightarrow> contains scopes (n_scope r)"
proof -
  from assms(2) have "scope_id_of reg (n_scope r) = Some sid" by (auto simp: node_doc_def bind_eq_Some_conv document_def split: if_splits)
  moreover from this reg have "scope = n_scope r" if "scope_id_of reg scope = Some sid" for scope
    using that unfolding registry_wf_def scope_id_of_def by (metis option.inject)
  ultimately show ?thesis by blast
qed

lemma candidates_graph:
  fixes st :: "('b, 'd, 'l, 'm, 'o, 'z) store_scheme"
  assumes inv: "store_inv E rows mrows st" and rep: "represents E rows st G" and D: "D = text_docs E rows st G"
  shows "candidates F timestamp_ms wall scopes opt props (\<lambda>slot. the (g_nodes G (node_of rows st slot)))
      (search_score F (analyzer_of E) opt expansions q D (i_scopes st) scopes) =
    graph_candidates F timestamp_ms wall scopes opt props G (node_score E F opt expansions q D (i_scopes st))"
proof -
  let ?score = "search_score F (analyzer_of E) opt expansions q D (i_scopes st) scopes" and ?node = "node_of rows st"
  let ?nscore = "node_score E F opt expansions q D (i_scopes st)" and ?at = "\<lambda>slot. the (g_nodes G (node_of rows st slot))"
  let ?kept = "\<lambda>i r. hit_kept opt (tombstone_clock opt props (snd wall)) props scopes (timestamp_ms i) r"
  let ?hit = "\<lambda>i r v. (r, hit_score F opt (recency_clock F opt (fst wall)) (timestamp_ms i) r v)"
  define S where "S = {slot. ?score slot \<noteq> None \<and> ?kept (n_id (?at slot)) (?at slot)}"
  define N where "N = {i. \<exists>r. g_nodes G i = Some r \<and> ?nscore r \<noteq> None \<and> ?kept i r}"
  obtain n where sl: "slots_inv (rows (node_slots st)) (rows (node_ids st)) n" using store_invD(2) [OF inv] by blast
  have reg: "registry_wf (i_scopes st)" using store_invD(1) [OF inv] by (simp add: interning_wf_def)
  have score: "?score slot = ?nscore r" if "D slot = node_doc E (i_scopes st) r" "contains scopes (n_scope r)" for slot r
    using scope_of_doc [OF reg] that by (auto simp: search_score_def node_score_def split: option.split)
  have S: "\<exists>r. g_nodes G (?node slot) = Some r \<and> n_id r = ?node slot \<and> ?score slot = ?nscore r \<and>
      rows (node_slots st) (id_key (node_u128 (?node slot))) = Some (u64_to_le slot)" if "slot \<in> S" for slot
  proof -
    have s: "?score slot \<noteq> None" "?kept (n_id (?at slot)) (?at slot)" using that by (simp_all add: S_def)
    then have "D slot \<noteq> None" by (auto simp: search_score_def split: option.splits)
    then obtain r where r: "g_nodes G (?node slot) = Some r" "D slot = node_doc E (i_scopes st) r"
      "rows (node_slots st) (id_key (node_u128 (?node slot))) = Some (u64_to_le slot)" using doc_node [OF inv rep] unfolding D by blast
    have "contains scopes (n_scope r)" using s(2) r(1) by (simp add: hit_kept_def)
    then show ?thesis using r score representsD(3) [OF rep] by blast
  qed
  have "inj_on ?node S"
  proof (rule inj_onI)
    fix a b assume ab: "a \<in> S" "b \<in> S" "?node a = ?node b"
    have a: "rows (node_slots st) (id_key (node_u128 (?node a))) = Some (u64_to_le a)" using S [OF ab(1)] by blast
    have b: "rows (node_slots st) (id_key (node_u128 (?node b))) = Some (u64_to_le b)" using S [OF ab(2)] by blast
    have "u64_to_le a = u64_to_le b" using a b unfolding ab(3) by (metis option.inject)
    then show "a = b" by simp
  qed
  moreover have "?node ` S = N"
  proof (intro equalityI subsetI)
    fix i assume "i \<in> ?node ` S"
    then obtain slot where "slot \<in> S" "i = ?node slot" by blast
    moreover from S [OF this(1)] obtain r where "g_nodes G (?node slot) = Some r" "n_id r = ?node slot" "?score slot = ?nscore r" by blast
    ultimately show "i \<in> N" by (simp add: N_def S_def)
  next
    fix i assume "i \<in> N"
    then obtain r where r: "g_nodes G i = Some r" "?nscore r \<noteq> None" "?kept i r" by (auto simp: N_def)
    have "read_node E st i = Inr (Some r)" using representsD(1) [OF rep, of i] r(1) by simp
    from read_nodeD [OF sl this] obtain slot where slot: "rows (node_slots st) (id_key (node_u128 i)) = Some (u64_to_le slot)" by metis
    have i: "?node slot = i" using slots_inv_slot [OF sl slot] by (simp add: node_of_def)
    have "D slot = node_doc E (i_scopes st) r" using text_docs_at [OF sl slot] r(1) by (simp add: D)
    moreover have "contains scopes (n_scope r)" using r(3) by (simp add: hit_kept_def)
    ultimately have "?score slot = ?nscore r" by (rule score)
    then have "slot \<in> S" using r representsD(3) [OF rep r(1)] by (simp add: S_def i)
    then show "i \<in> ?node ` S" using i by blast
  qed
  ultimately have N: "mset_set N = image_mset ?node (mset_set S)" using image_mset_mset_set by metis
  have "{#let r = the (g_nodes G i) in ?hit i r (the (?nscore r)). i \<in># mset_set N#} = {#?hit (?node s) (?at s) (the (?nscore (?at s))). s \<in># mset_set S#}"
    unfolding N by (simp add: multiset.map_comp o_def Let_def)
  also have "\<dots> = {#?hit (n_id (?at s)) (?at s) (the (?score s)). s \<in># mset_set S#}"
    by (rule image_mset_cong) (use S in \<open>cases "finite S"; fastforce\<close>)
  finally show ?thesis by (simp add: candidates_def graph_candidates_def S_def N_def)
qed

end

section \<open>A concrete instance\<close>

text \<open>An environment that indexes the text of notes, with encodings of the rows it needs.\<close>

definition note_node :: "node_record_disk_v3 serde" where
  "note_node = \<lparr>
     ser = (\<lambda>d. case nd_props d of
         [(k, PStr s)] \<Rightarrow>
           if length s \<le> 65536 then Inr (id_key (node_u128 (nd_id d)) @ u32_to_be (nd_scope d) @ u32_to_be (nd_label d) @ u32_to_be k @ str_bytes s)
           else Inl ''too long''
       | _ \<Rightarrow> Inl ''unsupported''),
     de = (\<lambda>b. Inr \<lparr>nd_id = NodeId (u128_from_be (at 0 16 b)), nd_scope = u32_from_be (at 16 4 b), nd_label = u32_from_be (at 20 4 b),
                  nd_props = [(u32_from_be (at 24 4 b), PStr (bytes_str (drop 28 b)))]\<rparr>)\<rparr>"

definition note_ops :: postcard_ops where
  "note_ops = \<lparr>to_bytes = (\<lambda>_. Inr [0]), from_bytes = (\<lambda>_. Inl ''write only'')\<rparr>"

definition text_env :: tree_environment where
  "text_env = tree_env\<lparr>pc_op := note_ops, pc_node := note_node,
     spec := \<lparr>equality = [], text_props = [\<lparr>pi_label = ''Memory'', pi_prop = ''text''\<rparr>]\<rparr>\<rparr>"

lemma text_env_simps [simp]:
  "eB text_env = rbt_ops" "eD text_env = rbt_ops" "eL text_env = rbt_ops" "eM text_env = rbt_ops" "eO text_env = rbt_ops"
  "lz text_env = rle_lz4" "pc_fts text_env = fixed_fts" "analyzer_of text_env = ascii_analyzer" "pc_node text_env = note_node" "pc_op text_env = note_ops"
  "pc_edge text_env = fixed_edge" "pc_ref text_env = fixed_ref" "pc_qvec text_env = fixed_qvec"
  "spec text_env = \<lparr>equality = [], text_props = [\<lparr>pi_label = ''Memory'', pi_prop = ''text''\<rparr>]\<rparr>"
  by (simp_all add: text_env_def tree_env_def analyzer_of_def ascii_analyzer_def)

interpretation note_serde: serde_codec note_node
proof unfold_locales
  fix x b
  assume "ser note_node x = Inr b"
  then show "de note_node b = Inr x"
    by (cases x; cases "nd_id x") (auto simp: note_node_def at_def split: if_splits list.splits prop_value.splits)
qed

interpretation noted: engine text_env RBT.lookup RBT.lookup
proof (intro engine.intro)
  show "below_cap (pc_node text_env)"
    by (auto simp: below_cap_def note_node_def str_bytes_def MAX_DECOMPRESSED_LEN_def split: if_splits list.splits prop_value.splits)
qed (simp_all add: rbt_tab.redb_table_live_axioms rbt_tab.redb_table_axioms rle.lz4_codec_axioms note_serde.serde_codec_axioms
    edge_serde.serde_codec_axioms ref_serde.serde_codec_axioms qvec_serde.serde_codec_axioms fixed_below_cap)

abbreviation note_op :: op where
  "note_op \<equiv> CreateNode (NodeId 7) Shared ''Memory'' [(''text'', PStr ''graphDb graph'')]"


abbreviation note_rec :: node_record where
  "note_rec \<equiv> \<lparr>n_id = NodeId 7, n_scope = Shared, n_label = ''Memory'', n_props = [(''text'', PStr ''graphDb graph'')], n_embedding = None\<rparr>"

lemma note_created:
  "\<exists>st. apply_op text_env note_op empty_store = (Inr (), st) \<and>
     RBT.lookup (node_slots st) (id_key 7) = Some (u64_to_le 0) \<and> by_scope (i_scopes st) Shared = Some 0 \<and>
     ops_table st = RBT.empty \<and> RBT.lookup (meta st) ''oldest_seq'' = None \<and> text_tables st = (RBT.empty, RBT.empty, RBT.empty)"
  by (simp add: apply_create_node_def note_node_def run_store)

lemma note_empty: "store_inv text_env RBT.lookup RBT.lookup empty_store" "represents text_env RBT.lookup empty_store empty_graph"
  using noted.blank_represents [of empty_store] by (simp_all add: blank_tables_def)

lemma note_text: "doc_text \<lparr>equality = [], text_props = [\<lparr>pi_label = ''Memory'', pi_prop = ''text''\<rparr>]\<rparr> note_rec = Some ''graphDb graph''"
  by (simp add: doc_text_def text_part_def)

lemma note_edits:
  obtains s1 where "apply_all text_env [note_op] [] empty_store = (Inr [(0, 0, None, Some ''graphDb graph'')], s1)"
    "ops_table s1 = RBT.empty" "RBT.lookup (meta s1) ''oldest_seq'' = None" "text_tables s1 = (RBT.empty, RBT.empty, RBT.empty)"
proof -
  from note_created obtain st where st: "apply_op text_env note_op empty_store = (Inr (), st)"
    "RBT.lookup (node_slots st) (id_key 7) = Some (u64_to_le 0)" "by_scope (i_scopes st) Shared = Some 0"
    "ops_table st = RBT.empty" "RBT.lookup (meta st) ''oldest_seq'' = None" "text_tables st = (RBT.empty, RBT.empty, RBT.empty)" by blast
  have ok: "op_ok RBT.lookup empty_store empty_graph note_op" by simp
  from noted.sim_op [OF note_empty st(1) ok] obtain G where inv: "store_inv text_env RBT.lookup RBT.lookup st"
    and rep: "represents text_env RBT.lookup st G" and G: "g_nodes G = [NodeId 7 \<mapsto> note_rec]" by auto
  have rd: "read_node text_env st (NodeId 7) = Inr (Some note_rec)" using representsD(1) [OF rep, of "NodeId 7"] G by simp
  obtain n where sl: "slots_inv (RBT.lookup (node_slots st)) (RBT.lookup (node_ids st)) n" using store_invD(2) [OF inv] by blast
  have slot: "node_slot rbt_ops (node_slots st) (NodeId 7) = Inr (Some 0)"
    unfolding node_slot_def using noted.read_slot_eq [OF sl, of 7] st(2) by simp
  have re: "registry_intern rbt_ops Shared st = (Inr 0, st)"
    using st(3) by (simp add: registry_intern_def scope_intern_def)
  have idx: "index_new text_env note_op st = (Inr (), st)"
    by (simp add: index_new_def mupd_def reindex_def rd slot index_node_def entry_key_def should_index_def)
  have "collect_edit text_env e note_op (Some (NodeId 7, Shared, None, None)) st = (Inr [(0, 0, None, Some ''graphDb graph'')], st)" for e
    by (simp add: collect_edit_def new_text_def monad_simps mbind_def rd note_text found_slot_def slot ok_or_def re)
  then have "apply_one text_env note_op empty_store = (Inr [(0, 0, None, Some ''graphDb graph'')], st)"
    using st(1) idx by (simp add: apply_one_def mbind_def monad_simps pre_edit_def old_index_node_def unindex_old_def del: apply_op.simps)
  then show thesis using that [of st] st(4-6) by (simp add: mbind_def monad_simps)
qed

lemma note_fits: "edits_fit ascii_analyzer 0 Map.empty [(0, 0, None, Some ''graphDb graph'')]"
proof -
  have "text_tokens ascii_analyzer None = []" by (simp add: text_tokens_def)
  with example_docs_ok [of 0 0] show ?thesis by (simp add: example_document example_tokens del: fun_upd_apply)
qed

lemma blank_text: "text_docs text_env RBT.lookup empty_store empty_graph = Map.empty" "text_indexed text_env RBT.lookup empty_store empty_graph"
  using empty_indexes by (simp_all add: text_indexed_def text_docs_def fun_eq_iff empty_store_def)

lemma note_batch:
  obtains b st where "apply_ops_in_txn text_env 0 [note_op] empty_store = (Inr b, st)" "resolved b = [note_op]"
    "chunks_below (2 ^ 24) (RBT.lookup (postings st))"
proof -
  obtain s1 where s1: "apply_all text_env [note_op] [] empty_store = (Inr [(0, 0, None, Some ''graphDb graph'')], s1)"
    "ops_table s1 = RBT.empty" "RBT.lookup (meta s1) ''oldest_seq'' = None" "text_tables s1 = (RBT.empty, RBT.empty, RBT.empty)"
    by (rule note_edits)
  have "docs_ok (Map.empty(0 := document ascii_analyzer 0 (Some ''graphDb graph'')))" unfolding example_document by (rule example_docs_ok)
  from rbt_fts.fts_update_run [OF empty_indexes no_chunks [of 0] _ this, of None] obtain p d t where
    u: "fts_update rle_lz4 rbt_ops ascii_analyzer fixed_fts 0 0 None (Some ''graphDb graph'') (RBT.empty, RBT.empty, RBT.empty) = Inr (p, d, t)"
      "chunks_below (Suc (Suc (Suc 0))) (RBT.lookup p)"
    unfolding example_document example_tokens by (auto simp: text_tokens_def)
  let ?s2 = "s1\<lparr>postings := p, fts_docs := d, fts_stats := t\<rparr>"
  have s2: "mfold (apply_fts_edit text_env) [(0, 0, None, Some ''graphDb graph'')] s1 = (Inr (), ?s2)"
    using u(1) s1(4) by (simp add: apply_fts_edit_def mupd_def mbind_def monad_simps)
  from s1(2,3) obtain r s3 where log: "append_log text_env [note_op] ?s2 = (Inr r, s3)"
    by (simp add: append_log_def mupd_def append_rewritten_def next_seq_def read_oldest_seq_def append_rows_def append_one_def note_ops_def rbt_ops_def pc_err_def)
  have "postings s3 = p" using preservesD [OF preserves_index(8) log] by simp
  moreover have "chunks_below (2 ^ 24) (RBT.lookup p)" by (rule chunks_below_mono [OF u(2)]) simp
  moreover have "\<exists>b. apply_ops_in_txn text_env 0 [note_op] empty_store = (Inr b, s3) \<and> resolved b = [note_op]"
    using s1(1) s2 log by (cases r) (simp add: apply_ops_in_txn_def rewrite_upserts_def remap_op_node_ids_def monad_simps mbind_def)
  ultimately show thesis using that by blast
qed

abbreviation note_graph :: graph where
  "note_graph \<equiv> \<lparr>g_nodes = [NodeId 7 \<mapsto> note_rec], g_edges = Map.empty, g_dims = Map.empty\<rparr>"

lemma note_run:
  obtains b st where "apply_batches text_env tx_ok [[note_op]] 0 empty_store = (map Inr [b], st)" "resolved b = [note_op]"
    "groups_ok text_env RBT.lookup 0 [[note_op]] (empty_store\<lparr>i_journal := journal_default\<rparr>) empty_graph"
    "texts_fit text_env RBT.lookup 0 [[note_op]] (empty_store\<lparr>i_journal := journal_default\<rparr>) empty_graph"
    "chunks_below (2 ^ 24) (RBT.lookup (postings st))"
proof -
  obtain b st where b: "apply_ops_in_txn text_env 0 [note_op] empty_store = (Inr b, st)" "resolved b = [note_op]"
    "chunks_below (2 ^ 24) (RBT.lookup (postings st))" by (rule note_batch)
  obtain s1 where eds: "apply_all text_env [note_op] [] empty_store = (Inr [(0, 0, None, Some ''graphDb graph'')], s1)" by (rule note_edits)
  have "apply_batches text_env tx_ok [[note_op]] 0 empty_store = (map Inr [b], st\<lparr>i_journal := i_journal empty_store\<rparr>)"
    using b(1) by (simp add: apply_batches_def tx_ok_def empty_journal)
  moreover have "groups_ok text_env RBT.lookup 0 [[note_op]] (empty_store\<lparr>i_journal := journal_default\<rparr>) empty_graph"
    by (simp add: b empty_journal split: sum.split)
  moreover have "chunks_below 0 (RBT.lookup (postings empty_store))" using no_chunks by (simp add: empty_store_def)
  then have "texts_fit text_env RBT.lookup 0 [[note_op]] (empty_store\<lparr>i_journal := journal_default\<rparr>) empty_graph"
    using note_fits by (auto simp: b empty_journal eds blank_text simp del: apply_all.simps)
  ultimately show thesis using that [of b] b(2,3) by simp
qed

lemma note_store: "fts_store (eB text_env) RBT.lookup (lz text_env) (pc_fts text_env)"
  using rbt_fts.fts_store_axioms by simp

section \<open>Properties\<close>



text \<open>C13. A text search answers about the graph. Over a database whose text index is that of its graph, and whatever order
  a hash map is iterated in, it returns the best \<open>k\<close> of the candidates and bumps exactly the hits it returns, or none. The
  candidates are exactly the nodes of the graph that are in the requested scopes, pass the filters and whose text holds a
  search word; the score of each is the BM25 sum of its words in its own scope's corpus, a term of the query at full weight,
  an expansion or near word at a discount and never twice, decayed by age. A zero \<open>k\<close> and a query without terms are rejected.\<close>

theorem search_exact:
  fixes E :: "('b, 'd, 'l, 'm, 'o) env" and st :: "('b, 'd, 'l, 'm, 'o, 'z) store_scheme"
  assumes "engine E rows mrows" and "text_search E rows F" and "store_inv E rows mrows st" and "represents E rows st G"
    and "text_indexed E rows st G" and "tokens_ok (text_docs E rows st G)" and "chunks_below (2 ^ 24) (rows (postings st))"
    and "scope_set_wf scopes" and "\<forall>m. mset (hash_order m) = mset m"
    and "validate_recency F opt = Inr ()" "validate_prop_retain opt = Inr ()" "validate_created_range opt = Inr ()"
  shows "if k = 0 \<or> tokenize (analyzer_of E) query = []
    then \<exists>msg. search_text_expanded_internal E F timestamp_ms hash_order C (Inr ()) wall now st scopes query k opt expansions bump_hits props tx =
      (Inl (Rejected msg), tx)
    else \<exists>out. search_text_expanded_internal E F timestamp_ms hash_order C (Inr ()) wall now st scopes query k opt expansions bump_hits props tx =
        (Inr out, if bump_hits then bump C now (map (\<lambda>h. n_id (fst h)) out) tx else tx) \<and>
      top_ranked (ranks_before F) k (graph_candidates F timestamp_ms wall scopes opt props G
        (node_score E F opt expansions (sort (remdups (tokenize (analyzer_of E) query))) (text_docs E rows st G) (i_scopes st))) out"
proof -
  have reg: "registry_wf (i_scopes st)" using store_invD(1) [OF assms(3)] by (simp add: interning_wf_def)
  have read: "\<forall>slot. text_docs E rows st G slot \<noteq> None \<longrightarrow> read_node_by_slot E st slot = Inr (Some (the (g_nodes G (node_of rows st slot))))"
    using engine.doc_node [OF assms(1,3,4)] by (metis option.sel)
  show ?thesis
    unfolding engine.candidates_graph [OF assms(1,3,4) refl, symmetric]
    by (rule search_run [OF assms(2) assms(5) [unfolded text_indexed_def] assms(6,7) reg assms(8) read assms(9-12)])
qed

theorem search_exact_witness:
  "\<exists>st v. search_text text_env pattern_floats (\<lambda>_. 0) (\<lambda>m. m) list_chan (Inr ()) (0, 0) 3 (st :: tree_store)
      (with_shared (scope_set_of [])) ''graph'' 5 (Some (2, [], True)) =
    (Inr [(note_rec, v)], bump list_chan 3 [NodeId 7] (Some (2, [], True)))"
proof -
  obtain b st where run: "apply_batches text_env tx_ok [[note_op]] 0 empty_store = (map Inr [b], st)" "resolved b = [note_op]"
    and ok: "groups_ok text_env RBT.lookup 0 [[note_op]] (empty_store\<lparr>i_journal := journal_default\<rparr>) empty_graph"
    "texts_fit text_env RBT.lookup 0 [[note_op]] (empty_store\<lparr>i_journal := journal_default\<rparr>) empty_graph"
    and below: "chunks_below (2 ^ 24) (RBT.lookup (postings st))" by (rule note_run)
  from noted.text_batches [OF note_store note_empty blank_text(2) run(1) ok] run(2)
  have inv: "store_inv text_env RBT.lookup RBT.lookup st" "represents text_env RBT.lookup st note_graph" and ix: "text_indexed text_env RBT.lookup st note_graph"
    by auto
  let ?D = "text_docs text_env RBT.lookup st note_graph" and ?ss = "with_shared (scope_set_of [])"
  have "read_node text_env st (NodeId 7) = Inr (Some note_rec)" using representsD(1) [OF inv(2), of "NodeId 7"] by simp
  from noted.scope_known [OF inv(1) this] obtain sid where sid: "scope_id_of (i_scopes st) Shared = Some sid" by auto
  have doc: "node_doc text_env (i_scopes st) note_rec = Some (sid, [''graph'', ''db'', ''graph''])"
    by (simp add: node_doc_def sid note_text example_document)
  have toks: "tokens_ok ?D"
  proof -
    have "ts = [''graph'', ''db'', ''graph'']" if "?D slot = Some (sc, ts)" for slot sc ts
      using that by (auto simp: text_docs_def bind_eq_Some_conv doc split: option.splits if_splits)
    moreover have "utf8_valid (str_bytes ''graph'') \<and> 0 \<notin> set (str_bytes ''graph'')" by code_simp
    moreover have "utf8_valid (str_bytes ''db'') \<and> 0 \<notin> set (str_bytes ''db'')" by code_simp
    ultimately show ?thesis unfolding tokens_ok_def by (metis empty_iff empty_set set_ConsD)
  qed
  have q: "tokenize ascii_analyzer ''graph'' = [''graph'']" by code_simp
  have ss: "scope_set_wf ?ss" by code_simp
  have opts: "validate_recency pattern_floats default_options = Inr ()" "validate_prop_retain default_options = Inr ()"
    "validate_created_range default_options = Inr ()" by code_simp+
  let ?score = "node_score text_env pattern_floats default_options [] [''graph''] ?D (i_scopes st)"
  have score: "?score note_rec \<noteq> None"
    by (auto simp: node_score_def doc text_score_def search_words_def found_words_def split: list.splits)
  have kept: "hit_kept default_options (tombstone_clock default_options [] 0) [] ?ss 0 note_rec"
    by (simp add: hit_kept_def retired_def tombstone_clock_def default_options_def with_shared_def)
  obtain v where cands: "graph_candidates pattern_floats (\<lambda>_. 0) (0, 0) ?ss default_options [] note_graph ?score = {#(note_rec, v)#}"
  proof -
    have "{i. \<exists>r. g_nodes note_graph i = Some r \<and> ?score r \<noteq> None \<and>
        hit_kept default_options (tombstone_clock default_options [] (snd (0, 0))) [] ?ss 0 r} = {NodeId 7}" using score kept by auto
    then show thesis using that by (simp add: graph_candidates_def Let_def)
  qed
  have search: "text_search text_env RBT.lookup pattern_floats"
    using tree_search.text_search_axioms by (simp add: text_search_def tree_env_def text_env_def)
  from search_exact [OF noted.engine_axioms search inv ix toks below ss _ opts, where k = 5 and query = "''graph''" and hash_order = "\<lambda>m. m"
      and timestamp_ms = "\<lambda>_. 0" and C = list_chan and wall = "(0, 0)" and now = 3 and expansions = "[]" and bump_hits = True and props = "[]"
      and tx = "Some (2, [], True)"]
  obtain out where out: "search_text text_env pattern_floats (\<lambda>_. 0) (\<lambda>m. m) list_chan (Inr ()) (0, 0) 3 st ?ss ''graph'' 5 (Some (2, [], True)) =
      (Inr out, bump list_chan 3 (map (\<lambda>h. n_id (fst h)) out) (Some (2, [], True)))" "top_ranked (ranks_before pattern_floats) 5 {#(note_rec, v)#} out"
    by (auto simp: q cands search_text_def search_text_with_def search_text_expanded_def)
  from out(2) have "out = [(note_rec, v)]" by (cases out) (auto simp: top_ranked_def)
  with out(1) show ?thesis by auto
qed

end
