(* ===== verification/Journal.thy ===== *)
theory Journal
  imports Batch
begin

text \<open>
  The journal is write-only. The operations of the write path record what they intern in a journal and never read
  it, so the journal a transaction starts with decides neither its result nor the tables it leaves. Hence one
  transaction for a group of batches does exactly what one transaction per batch would do.
\<close>

definition blind :: "(('b, 'd, 'z) interning_scheme, 'a) sm \<Rightarrow> bool" where
  "blind f \<longleftrightarrow> (\<forall>st j. \<exists>j'. f (st\<lparr>i_journal := j\<rparr>) = (fst (f st), (snd (f st))\<lparr>i_journal := j'\<rparr>))"

lemma blindE:
  assumes "blind f" "f st = (r, st')"
  obtains j' where "f (st\<lparr>i_journal := j\<rparr>) = (r, st'\<lparr>i_journal := j'\<rparr>)"
  using assms unfolding blind_def by (metis fst_conv snd_conv)

lemma blind_mbind [intro]:
  assumes "blind f" "\<And>x. blind (g x)"
  shows "blind (mbind f g)"
  unfolding blind_def
proof (intro allI)
  fix st j
  obtain r s1 where f: "f st = (r, s1)" by fastforce
  from assms(1) f obtain j1 where f': "f (st\<lparr>i_journal := j\<rparr>) = (r, s1\<lparr>i_journal := j1\<rparr>)" by (rule blindE)
  show "\<exists>j'. mbind f g (st\<lparr>i_journal := j\<rparr>) = (fst (mbind f g st), (snd (mbind f g st))\<lparr>i_journal := j'\<rparr>)"
  proof (cases r)
    case (Inl e)
    then show ?thesis by (auto simp: mbind_def f f')
  next
    case (Inr x)
    obtain r2 s2 where g: "g x s1 = (r2, s2)" by fastforce
    from assms(2) g obtain j2 where "g x (s1\<lparr>i_journal := j1\<rparr>) = (r2, s2\<lparr>i_journal := j2\<rparr>)" by (rule blindE)
    then show ?thesis by (auto simp: mbind_def f f' Inr g)
  qed
qed

lemma blind_mupd:
  assumes "\<And>st j. f (st\<lparr>i_journal := j\<rparr>) = rbind (f st) (\<lambda>p. Inr (fst p, (snd p)\<lparr>i_journal := j\<rparr>))"
  shows "blind (mupd f)"
  unfolding blind_def
proof (intro allI exI)
  fix st j
  show "mupd f (st\<lparr>i_journal := j\<rparr>) = (fst (mupd f st), (snd (mupd f st))\<lparr>i_journal := j\<rparr>)"
    using assms [where st = st and j = j] by (cases "f st") (auto simp: mupd_def split: prod.splits)
qed

text \<open>A step that computes from the tables and then stores what it computed.\<close>

lemma blind_step:
  assumes "\<And>st j. g (st\<lparr>i_journal := j\<rparr>) = g st"
    and "\<And>st j x. h (st\<lparr>i_journal := j\<rparr>) x = rbind (h st x) (\<lambda>p. Inr (fst p, (snd p)\<lparr>i_journal := j\<rparr>))"
  shows "blind (mupd (\<lambda>st. rbind (g st) (h st)))"
  by (rule blind_mupd) (simp only: assms(1) rbind_assoc, rule arg_cong [where f = "rbind _"], rule ext, rule assms(2))

lemma blind_mread: "(\<And>st j. q (st\<lparr>i_journal := j\<rparr>) = q st) \<Longrightarrow> blind (mread q)"
  by (auto simp: blind_def monad_simps)

lemma blind_mget: "(\<And>st j. q (st\<lparr>i_journal := j\<rparr>) = q st) \<Longrightarrow> blind (mget q)"
  by (auto simp: blind_def monad_simps)

lemma blind_basic: "blind (mret x)" "blind (mfail e)" "blind (mlift r)"
  by (auto simp: blind_def monad_simps)

lemma blind_cases:
  "blind m \<Longrightarrow> blind n \<Longrightarrow> blind (if b then m else n)"
  "blind m \<Longrightarrow> (\<And>x. blind (k x)) \<Longrightarrow> blind (case o' of None \<Rightarrow> m | Some x \<Rightarrow> k x)"
  "(\<And>x y. blind (h x y)) \<Longrightarrow> blind (case p of (x, y) \<Rightarrow> h x y)"
  by (simp_all split: option.split prod.split)

lemma blind_mfold: "(\<And>x. blind (f x)) \<Longrightarrow> blind (mfold f xs)"
  by (induction xs) (auto simp: blind_basic)

lemma intern_blind:
  "\<exists>j'. intern R k s (d, t, j) = (case intern R k s (d, t, j0) of (r, d', t', _) \<Rightarrow> (r, d', t', j'))"
  by (auto simp: intern_def Let_def split: option.split sum.split)

lemma scope_intern_blind:
  "\<exists>j'. scope_intern R s (g, t, j) = (case scope_intern R s (g, t, j0) of (r, g', t', _) \<Rightarrow> (r, g', t', j'))"
  by (auto simp: scope_intern_def Let_def split: option.split sum.split)

lemma blind_dict_intern:
  fixes D :: "('d, bytes, string) table_ops"
  shows "blind (dict_intern D k s :: (('b, 'd, 'z) interning_scheme, u32) sm)"
  unfolding blind_def
proof (intro allI)
  fix st :: "('b, 'd, 'z) interning_scheme" and j
  show "\<exists>j'. dict_intern D k s (st\<lparr>i_journal := j\<rparr>) = (fst (dict_intern D k s st), (snd (dict_intern D k s st))\<lparr>i_journal := j'\<rparr>)"
    using intern_blind [of D k s "i_dicts st" "i_dict_table st" j "i_journal st"]
    by (auto simp: dict_intern_def split: prod.splits)
qed

lemma blind_registry_intern:
  fixes B :: "('b, bytes, bytes) table_ops"
  shows "blind (registry_intern B sc :: (('b, 'd, 'z) interning_scheme, u32) sm)"
  unfolding blind_def
proof (intro allI)
  fix st :: "('b, 'd, 'z) interning_scheme" and j
  show "\<exists>j'. registry_intern B sc (st\<lparr>i_journal := j\<rparr>) = (fst (registry_intern B sc st), (snd (registry_intern B sc st))\<lparr>i_journal := j'\<rparr>)"
    using scope_intern_blind [of B sc "i_scopes st" "i_scopes_table st" j "i_journal st"]
    by (auto simp: registry_intern_def split: prod.splits)
qed

lemmas blind_interning = blind_dict_intern blind_registry_intern

lemmas blind_intros = blind_mbind blind_basic blind_cases blind_mfold blind_interning blind_mread blind_mget

lemma read_by_slot_blind:
  "read_node_by_slot E (st\<lparr>i_journal := j\<rparr>) = read_node_by_slot E st" "read_edge_by_slot E (st\<lparr>i_journal := j\<rparr>) = read_edge_by_slot E st"
  by (simp_all add: fun_eq_iff read_node_by_slot_def read_edge_by_slot_def cong: option.case_cong)

lemma read_blind [simp]:
  "read_node E (st\<lparr>i_journal := j\<rparr>) = read_node E st" "read_edge E (st\<lparr>i_journal := j\<rparr>) = read_edge E st"
  by (simp_all only: fun_eq_iff read_node_def read_edge_def read_by_slot_blind) simp_all

lemma blind_props: "blind (props_to_disk D ps p)"
  by (induction D ps p rule: props_to_disk.induct) (auto intro!: blind_intros)

lemma blind_disk: "blind (node_to_disk_v3 B D r)" "blind (edge_to_disk_v4 B D slots x)"
  unfolding node_to_disk_v3_def edge_to_disk_v4_def
  by (intro blind_props blind_intros)+

lemma blind_put: "blind (put_node E r)" "blind (put_edge E x)"
  unfolding put_node_def put_edge_def
  by (intro blind_disk blind_intros blind_step; simp)+

lemma blind_run_hnsw: "blind (run_hnsw f)"
  unfolding run_hnsw_def by (rule blind_step) (simp_all split: prod.split)

lemma blind_hnsw: "blind (maybe_rebuild_cluster E m s)" "blind (apply_hnsw_set_embedding E old m s slot i v)"
  unfolding maybe_rebuild_cluster_def apply_hnsw_set_embedding_def
  by (intro blind_run_hnsw blind_intros; simp)+

lemma blind_found: "blind (found_node E msg i)" "blind (found_slot E e i)"
  unfolding found_node_def found_slot_def by (intro blind_intros; simp)+

lemmas blind_parts = blind_put blind_found blind_run_hnsw blind_hnsw blind_intros

lemma blind_create_node: "blind (apply_create_node E i sc l ps)"
  unfolding apply_create_node_def by (intro blind_parts blind_step; simp split: prod.split)

lemma blind_set_node_props: "blind (apply_set_node_props E i ups)"
  unfolding apply_set_node_props_def by (intro blind_parts)

lemma blind_set_embedding: "blind (apply_set_embedding E i m v)"
  unfolding apply_set_embedding_def by (intro blind_parts blind_step; simp split: prod.split)

lemma blind_remove_parts: "blind (remove_node_row E i s)" "blind (remove_node_vector E s)" "blind (remove_edge_row E s)"
  unfolding remove_node_row_def remove_node_vector_def remove_edge_row_def
  by (intro blind_parts blind_step; simp split: prod.split)+

lemma blind_drop_counterpart: "blind (drop_counterpart E b s ty e)"
  unfolding drop_counterpart_def
  by (cases b; simp; rule blind_step; simp split: prod.split)

lemma blind_cascade: "blind (cascade E b s es seen)"
  by (induction E b s es seen rule: cascade.induct)
     (auto intro!: blind_intros blind_drop_counterpart blind_remove_parts)

lemma blind_remove_node: "blind (apply_remove_node E i)"
  unfolding apply_remove_node_def
  by (intro blind_parts blind_remove_parts blind_cascade blind_step; simp split: prod.split)

lemma blind_adjacency: "blind (insert_adjacency E f t ty s sc vf)" "blind (close_adjacency E f t ty s vt)"
  unfolding insert_adjacency_def close_adjacency_def
  by (intro blind_parts blind_step; simp split: prod.split)+

lemma blind_create_edge: "blind (apply_create_edge E i sc ty f t ps vf ra)"
  unfolding apply_create_edge_def
  by (intro blind_parts blind_adjacency blind_step; simp split: prod.split)

lemma blind_close_edge: "blind (apply_close_edge E i vt sa)"
  unfolding apply_close_edge_def Let_def
  by (intro blind_parts blind_adjacency; simp)

lemma blind_apply_op: "blind (apply_op E x)"
  by (cases x) (simp_all add: blind_basic blind_create_node blind_set_node_props blind_set_embedding blind_remove_node
      blind_create_edge blind_close_edge)

section \<open>A batch does not see the journal\<close>

lemma batch_reads_blind:
  "pre_edit E x (st\<lparr>i_journal := j\<rparr>) = pre_edit E x st" "old_index_node E x (st\<lparr>i_journal := j\<rparr>) = old_index_node E x st"
  "reindex E i (st\<lparr>i_journal := j\<rparr>) = reindex E i st" "new_text E x i (st\<lparr>i_journal := j\<rparr>) = new_text E x i st"
  by (simp_all add: pre_edit_def old_index_node_def reindex_def new_text_def cong: option.case_cong op.case_cong)

lemma blind_unindex_old: "blind (unindex_old E old)"
  unfolding unindex_old_def
  by (intro blind_cases blind_basic blind_step) (auto simp: rbind_def split: option.split sum.split)

lemma blind_index_new: "blind (index_new E x)"
proof -
  have "blind (mupd (\<lambda>st. rbind (reindex E i st) (\<lambda>t. Inr ((), st\<lparr>prop_table := t\<rparr>))))" for i
    by (rule blind_step) (simp_all add: batch_reads_blind)
  then show ?thesis by (cases x) (simp_all add: index_new_def blind_basic)
qed

lemma blind_collect_edit: "blind (collect_edit E missing x pre)"
  unfolding collect_edit_def by (intro blind_parts; simp add: batch_reads_blind)

lemma blind_apply_one: "blind (apply_one E x)"
  unfolding apply_one_def
  by (intro blind_intros blind_unindex_old blind_index_new blind_collect_edit blind_apply_op; simp add: batch_reads_blind)

lemma blind_apply_all: "blind (apply_all E xs edits)"
  by (induction E xs edits rule: apply_all.induct) (auto intro!: blind_basic blind_apply_one)

lemma blind_fts_edit: "blind (apply_fts_edit E ed)"
  unfolding apply_fts_edit_def by (intro blind_cases blind_step; simp split: prod.split)

lemma blind_append_log: "blind (append_log E xs)"
  unfolding append_log_def by (rule blind_step) (simp_all split: prod.split)

lemma rewrite_blind: "rewrite_upserts E (st\<lparr>i_journal := j\<rparr>) xs = rewrite_upserts E st xs"
proof -
  have "lookup_indexed_node E (st\<lparr>i_journal := j\<rparr>) l p v sc = lookup_indexed_node E st l p v sc" for l p v sc
    by (cases "id_of (i_dicts st) PropKey p"; cases "index_value_of v") (auto simp: lookup_indexed_node_def read_by_slot_blind)
  then have "existing_upsert E (st\<lparr>i_journal := j\<rparr>) = existing_upsert E st"
    by (simp add: fun_eq_iff existing_upsert_def split: option.split)
  then have "rewrite_step E (st\<lparr>i_journal := j\<rparr>) x rs = rewrite_step E st x rs" for x rs
    by (cases x) simp_all
  then have "rewrite_step E (st\<lparr>i_journal := j\<rparr>) = rewrite_step E st" by (simp add: fun_eq_iff)
  then show ?thesis by (simp add: rewrite_upserts_def)
qed

lemma blind_apply_ops: "blind (apply_ops_in_txn E now ops)"
  unfolding apply_ops_in_txn_def
  by (intro blind_intros blind_apply_all blind_fts_edit blind_append_log; simp add: rewrite_blind)

section \<open>One transaction for a group, or one for each batch\<close>

text \<open>The batches of a group submitted one after the other, each in a transaction of its own.\<close>

fun one_by_one :: "('b, 'd, 'l, 'm, 'o) env \<Rightarrow> i64 \<Rightarrow> op list list \<Rightarrow> ('b, 'd, 'l, 'm, 'o, 'z) store_scheme
    \<Rightarrow> applied_batch result list \<times> ('b, 'd, 'l, 'm, 'o, 'z) store_scheme" where
  "one_by_one E now_ms [] st = ([], st)"
| "one_by_one E now_ms (ops # gs) st =
     (case apply_batch E tx_ok ops now_ms st of (r, st1) \<Rightarrow>
      case one_by_one E now_ms gs st1 of (rs, st2) \<Rightarrow> (r # rs, st2))"

lemma apply_batch_single:
  "apply_batch E tx_ok ops now st =
     (case apply_ops_in_txn E now ops (st\<lparr>i_journal := journal_default\<rparr>) of
        (Inr b, st') \<Rightarrow> (Inr b, st'\<lparr>i_journal := i_journal st\<rparr>)
      | (Inl e, st') \<Rightarrow> (Inl e, rollback st st'))"
  by (simp add: apply_batch_def apply_batches_def tx_ok_def group_errors_def split: prod.split sum.split)

lemma journal_same:
  fixes st st1 :: "('b, 'd, 'z) interning_scheme"
  shows "(\<exists>j1. st\<lparr>i_journal := j\<rparr> = st1\<lparr>i_journal := j1\<rparr>) \<longleftrightarrow> st = st1\<lparr>i_journal := i_journal st\<rparr>" (is "?l \<longleftrightarrow> ?r")
proof
  assume ?l
  then obtain j1 where "st\<lparr>i_journal := j\<rparr> = st1\<lparr>i_journal := j1\<rparr>" ..
  from arg_cong [OF this, of "i_journal_update (\<lambda>_. i_journal st)"] show ?r by simp
next
  assume ?r
  then have "st\<lparr>i_journal := j\<rparr> = st1\<lparr>i_journal := i_journal st\<rparr>\<lparr>i_journal := j\<rparr>" by (rule arg_cong)
  then show ?l by (intro exI [of _ j]) simp
qed

lemma run_groups_prefix: "run_groups E now idx gs app st = (Inr bs, st') \<Longrightarrow> \<exists>bs'. bs = app @ bs'"
  by (induction E now idx gs app st rule: run_groups.induct) (fastforce split: prod.splits sum.splits)+

lemma journal_reset:
  fixes s1 st' :: "('b, 'd, 'z) interning_scheme"
  shows "s1\<lparr>i_journal := j\<rparr> = st' \<longleftrightarrow> (\<exists>j1. s1 = st'\<lparr>i_journal := j1\<rparr>) \<and> i_journal st' = j"
proof (intro iffI conjI)
  assume *: "s1\<lparr>i_journal := j\<rparr> = st'"
  have "s1 = s1\<lparr>i_journal := j\<rparr>\<lparr>i_journal := i_journal s1\<rparr>" by simp
  then show "\<exists>j1. s1 = st'\<lparr>i_journal := j1\<rparr>" unfolding * ..
  show "i_journal st' = j" unfolding * [symmetric] by simp
qed auto

lemma one_by_one_keeps_journal: "one_by_one E now gs st = (rs, st') \<Longrightarrow> i_journal st' = i_journal st"
proof (induction gs arbitrary: st rs)
  case (Cons g gs)
  obtain r st1 where one: "apply_batch E tx_ok g now st = (r, st1)" by fastforce
  then have "i_journal st1 = i_journal st"
    by (auto simp: apply_batch_single rollback_def split: prod.splits sum.splits)
  with Cons one show ?case by (auto split: prod.splits)
qed simp

lemma one_by_one_journal:
  fixes st st' :: "('b, 'd, 'l, 'm, 'o, 'z) store_scheme"
  shows "one_by_one E now gs st = (rs, st'\<lparr>i_journal := i_journal st\<rparr>) \<and> i_journal st' = i_journal st \<longleftrightarrow>
    one_by_one E now gs st = (rs, st')"
proof (intro iffI conjI; (elim conjE)?)
  assume "one_by_one E now gs st = (rs, st'\<lparr>i_journal := i_journal st\<rparr>)" "i_journal st' = i_journal st"
  then show "one_by_one E now gs st = (rs, st')" by (metis interning.surjective interning.update_convs(5))
next
  assume *: "one_by_one E now gs st = (rs, st')"
  from one_by_one_keeps_journal [OF *] show "i_journal st' = i_journal st" .
  then have "st'\<lparr>i_journal := i_journal st\<rparr> = st'" by simp
  with * show "one_by_one E now gs st = (rs, st'\<lparr>i_journal := i_journal st\<rparr>)" by simp
qed

lemma run_groups_one_by_one:
  fixes st st1 :: "('b, 'd, 'l, 'm, 'o, 'z) store_scheme"
  shows "(\<exists>j1. run_groups E now idx gs app (st\<lparr>i_journal := j\<rparr>) = (Inr (app @ bs), st1\<lparr>i_journal := j1\<rparr>)) \<longleftrightarrow>
    one_by_one E now gs st = (map Inr bs, st1\<lparr>i_journal := i_journal st\<rparr>)"
proof (induction gs arbitrary: idx app st j bs)
  case Nil
  have same: "(\<exists>j1. st\<lparr>i_journal := j\<rparr> = st1\<lparr>i_journal := j1\<rparr>) \<longleftrightarrow> st = st1\<lparr>i_journal := i_journal st\<rparr>"
    by (rule journal_same)
  have nil: "(\<exists>j1. run_groups E now idx [] app (st\<lparr>i_journal := j\<rparr>) = (Inr (app @ bs), st1\<lparr>i_journal := j1\<rparr>)) \<longleftrightarrow>
      bs = [] \<and> (\<exists>j1. st\<lparr>i_journal := j\<rparr> = st1\<lparr>i_journal := j1\<rparr>)"
    by auto
  show ?case unfolding nil same by (simp only: one_by_one.simps prod.inject) auto
next
  case (Cons g gs)
  obtain r s1 where one: "apply_ops_in_txn E now g (st\<lparr>i_journal := journal_default\<rparr>) = (r, s1)" by fastforce
  from blind_apply_ops one obtain j2 where two: "apply_ops_in_txn E now g (st\<lparr>i_journal := j\<rparr>) = (r, s1\<lparr>i_journal := j2\<rparr>)"
    by (rule blindE [where j = j]) simp
  show ?case
  proof (cases r)
    case (Inl e)
    then show ?thesis by (auto simp: two apply_batch_single one split: prod.splits)
  next
    case (Inr b)
    have left: "run_groups E now idx (g # gs) app (st\<lparr>i_journal := j\<rparr>) =
        run_groups E now (idx + 1) gs (app @ [b]) (s1\<lparr>i_journal := j2\<rparr>)"
      by (simp add: two Inr)
    have right: "one_by_one E now (g # gs) st =
        (Inr b # fst (one_by_one E now gs (s1\<lparr>i_journal := i_journal st\<rparr>)), snd (one_by_one E now gs (s1\<lparr>i_journal := i_journal st\<rparr>)))"
      by (simp add: apply_batch_single one Inr split: prod.split)
    show ?thesis
    proof (cases "\<exists>bs'. bs = b # bs'")
      case True
      then obtain bs' where bs: "bs = b # bs'" ..
      from Cons.IH [of "idx + 1" "app @ [b]" j2 "s1\<lparr>i_journal := i_journal st\<rparr>" bs'] show ?thesis
        unfolding left right bs by (simp add: prod_eq_iff)
    next
      case False
      then have "run_groups E now (idx + 1) gs (app @ [b]) (s1\<lparr>i_journal := j2\<rparr>) \<noteq> (Inr (app @ bs), s2)" for s2
        using run_groups_prefix [of E now "idx + 1" gs "app @ [b]" "s1\<lparr>i_journal := j2\<rparr>" "app @ bs" s2] by auto
      with False show ?thesis unfolding left right by auto
    qed
  qed
qed



end
