(* ===== verification/Counters.thy ===== *)
theory Counters
  imports Loads "HOL-Library.Multiset"
begin

text \<open>
  Access counters (\<^verbatim>\<open>crates/topodb/src/counters.rs\<close>, \<^verbatim>\<open>storage.rs\<close>: \<^verbatim>\<open>merge_counter_bumps\<close>,
  \<^verbatim>\<open>read_counter\<close>, and \<^verbatim>\<open>db.rs\<close>: the bumper thread, \<^verbatim>\<open>access_stats\<close>). Counters live beside the graph in a
  table of their own, keyed by slot and never logged. The bumper thread folds single bumps into
  batches; the applier merges a batch in one transaction. The theorems say that no bump is lost or
  counted twice on the way, and that merging adds to the right node.
\<close>

section \<open>The counters table\<close>

record ('b, 'd, 'l, 'm, 'o) database = "('b, 'd, 'l, 'm, 'o) store" +
  counters :: 'b

record access_stats =
  access_count :: u64
  last_accessed_at :: i64

definition stats_default :: access_stats where
  "stats_default = \<lparr>access_count = 0, last_accessed_at = 0\<rparr>"

definition max_i64 :: "i64 \<Rightarrow> i64 \<Rightarrow> i64" where
  "max_i64 a b = (if word_sle a b then b else a)"

definition merged :: "u64 \<Rightarrow> i64 \<Rightarrow> access_stats \<Rightarrow> access_stats" where
  "merged n ts old = \<lparr>access_count = access_count old + n, last_accessed_at = max_i64 (last_accessed_at old) ts\<rparr>"

type_synonym bump_row = "node_id \<times> u64 \<times> i64"

definition merge_step :: "('b, 'd, 'l, 'm, 'o) env \<Rightarrow> access_stats serde \<Rightarrow> 'b \<Rightarrow> bump_row \<Rightarrow> 'b \<Rightarrow> 'b result" where
  "merge_step E S slots = (\<lambda>(i, n, ts) t.
     rbind (node_slot (eB E) slots i) (\<lambda>s. case s of
        None \<Rightarrow> Inr t
      | Some slot \<Rightarrow>
          rbind (redb (tget (eB E) t (slot_key slot))) (\<lambda>v.
          rbind (case v of Some b \<Rightarrow> pc_err (de S b) | None \<Rightarrow> Inr stats_default) (\<lambda>existing.
          rbind (pc_err (ser S (merged n ts existing))) (\<lambda>b.
          redb (tinsert (eB E) t (slot_key slot) b))))))"

definition merge_counter_bumps :: "('b, 'd, 'l, 'm, 'o) env \<Rightarrow> access_stats serde \<Rightarrow> tx \<Rightarrow> bump_row list
    \<Rightarrow> ('b, 'd, 'l, 'm, 'o, 'z) database_scheme \<Rightarrow> unit result \<times> ('b, 'd, 'l, 'm, 'o, 'z) database_scheme" where
  "merge_counter_bumps E S tx bumps db =
     (if bumps = [] then (Inr (), db)
      else case rbind (redb (tx_begin tx)) (\<lambda>_.
                rbind (rfold (merge_step E S (node_slots db)) bumps (counters db)) (\<lambda>t.
                rbind (redb (tx_commit tx)) (\<lambda>_. Inr t))) of
             Inl e \<Rightarrow> (Inl e, db)
           | Inr t \<Rightarrow> (Inr (), db\<lparr>counters := t\<rparr>))"

definition read_counter :: "('b, 'd, 'l, 'm, 'o) env \<Rightarrow> access_stats serde \<Rightarrow> redb_error + unit
    \<Rightarrow> ('b, 'd, 'l, 'm, 'o, 'z) database_scheme \<Rightarrow> node_id \<Rightarrow> access_stats option result" where
  "read_counter E S begin_read db i =
     rbind (redb begin_read) (\<lambda>_.
     rbind (node_slot (eB E) (node_slots db) i) (\<lambda>s. case s of
        None \<Rightarrow> Inr None
      | Some slot \<Rightarrow> rbind (redb (tget (eB E) (counters db) (slot_key slot))) (\<lambda>v. case v of
          None \<Rightarrow> Inr None
        | Some b \<Rightarrow> rbind (pc_err (de S b)) (\<lambda>stats. Inr (Some stats)))))"

text \<open>The two reads run in transactions of their own.\<close>

definition db_access_stats :: "('b, 'd, 'l, 'm, 'o) env \<Rightarrow> access_stats serde \<Rightarrow> redb_error + unit \<Rightarrow> redb_error + unit
    \<Rightarrow> ('b, 'd, 'l, 'm, 'o, 'z) database_scheme \<Rightarrow> scope_set \<Rightarrow> node_id \<Rightarrow> access_stats option result" where
  "db_access_stats E S begin_node begin_counter db scopes i =
     rbind (load_node E begin_node db i) (\<lambda>n.
     if \<not> is_some_and n (\<lambda>r. contains scopes (n_scope r)) then Inr None
     else rbind (read_counter E S begin_counter db i) (\<lambda>c. Inr (Some (unwrap_or stats_default c))))"

definition access_count_unbumped :: "('b, 'd, 'l, 'm, 'o) env \<Rightarrow> access_stats serde \<Rightarrow> redb_error + unit
    \<Rightarrow> ('b, 'd, 'l, 'm, 'o, 'z) database_scheme \<Rightarrow> node_id \<Rightarrow> u64" where
  "access_count_unbumped E S begin_read db i =
     (case ok_flatten (read_counter E S begin_read db i) of Some s \<Rightarrow> access_count s | None \<Rightarrow> 0)"

section \<open>The bumper thread\<close>

text \<open>
  The pending map of the thread, an association list without duplicate keys. A hash map yields its
  entries in an unspecified order; \<open>drain\<close> stands for it.
\<close>

fun bump_entry :: "node_id \<Rightarrow> i64 \<Rightarrow> bump_row list \<Rightarrow> bump_row list" where
  "bump_entry i ts [] = [(i, 0 + 1, max_i64 0 ts)]"
| "bump_entry i ts ((j, n, t) # ps) = (if j = i then (j, n + 1, max_i64 t ts) # ps else (j, n, t) # bump_entry i ts ps)"

text \<open>What the thread's \<^verbatim>\<open>recv_timeout\<close> returns.\<close>

datatype bump_recv = Received node_id i64 | RecvTimeout | RecvDisconnected

definition flush :: "(bump_row list \<Rightarrow> bump_row list) \<Rightarrow> bump_row list \<Rightarrow> bump_row list list" where
  "flush drain waiting = (if waiting = [] then [] else [drain waiting])"

text \<open>The batches sent to the applier, and what is still pending.\<close>

fun bumper :: "(bump_row list \<Rightarrow> bump_row list) \<Rightarrow> bump_recv list \<Rightarrow> bump_row list \<Rightarrow> bump_row list list \<times> bump_row list" where
  "bumper drain [] waiting = ([], waiting)"
| "bumper drain (Received i ts # ms) waiting =
     (let p = bump_entry i ts waiting
      in if 256 \<le> length p then (case bumper drain ms [] of (bs, p') \<Rightarrow> (flush drain p @ bs, p'))
         else bumper drain ms p)"
| "bumper drain (RecvTimeout # ms) waiting = (case bumper drain ms [] of (bs, p') \<Rightarrow> (flush drain waiting @ bs, p'))"
| "bumper drain (RecvDisconnected # ms) waiting = (flush drain waiting, [])"

section \<open>No bump is lost on the way\<close>

lemma max_i64_simps [simp]: "sint (max_i64 a b) = max (sint a) (sint b)"
  by (simp add: max_i64_def word_sle_eq)

lemma i64_eqI: "sint a = sint b \<Longrightarrow> a = (b :: i64)"
  by (rule signed_word_eqI)

lemma max_i64_comm: "max_i64 a b = max_i64 b a"
  by (rule i64_eqI) simp

lemma max_i64_assoc: "max_i64 (max_i64 a b) c = max_i64 a (max_i64 b c)"
  by (rule i64_eqI) simp

lemma max_i64_zero: "word_sle 0 a \<Longrightarrow> max_i64 a (max_i64 0 b) = max_i64 a b"
  by (rule i64_eqI) (simp add: word_sle_eq)

lemma merged_merged: "merged n s (merged m t o') = merged (m + n) (max_i64 t s) o'"
  by (simp add: merged_def max_i64_assoc add.assoc)

text \<open>The effect of batch rows, and of single bumps, on the counter of one node.\<close>

definition add_row :: "node_id \<Rightarrow> bump_row \<Rightarrow> access_stats \<Rightarrow> access_stats" where
  "add_row i = (\<lambda>(j, n, ts) c. if j = i then merged n ts c else c)"

abbreviation add_rows :: "node_id \<Rightarrow> bump_row list \<Rightarrow> access_stats \<Rightarrow> access_stats" where
  "add_rows i rs \<equiv> fold (add_row i) rs"

definition counted :: "node_id \<Rightarrow> (node_id \<times> i64) list \<Rightarrow> access_stats \<Rightarrow> access_stats" where
  "counted i bs = fold (\<lambda>(j, ts) c. if j = i then merged 1 ts c else c) bs"

fun received :: "bump_recv list \<Rightarrow> (node_id \<times> i64) list" where
  "received [] = []"
| "received (Received i ts # ms) = (i, ts) # received ms"
| "received (_ # ms) = received ms"

lemma add_row_comm: "add_row i a \<circ> add_row i b = add_row i b \<circ> add_row i a"
  by (cases a; cases b) (auto simp: fun_eq_iff add_row_def merged_merged add.commute max_i64_comm)

lemma add_rows_perm: "mset rs = mset rs' \<Longrightarrow> add_rows i rs = add_rows i rs'"
  by (rule fold_multiset_equiv) (simp_all add: add_row_comm)

lemma merged_later: "word_sle 0 (last_accessed_at c) \<Longrightarrow> word_sle 0 (last_accessed_at (merged n ts c))"
  by (auto simp: merged_def word_sle_eq)

lemma add_rows_later: "word_sle 0 (last_accessed_at c) \<Longrightarrow> word_sle 0 (last_accessed_at (add_rows i rs c))"
proof (induction rs arbitrary: c)
  case (Cons r rs)
  have "word_sle 0 (last_accessed_at (add_row i r c))" using Cons.prems by (cases r) (auto simp: add_row_def intro: merged_later)
  from Cons.IH [OF this] show ?case by simp
qed simp

lemma add_bump_entry:
  "word_sle 0 (last_accessed_at c) \<Longrightarrow>
     add_rows i (bump_entry j ts p) c = (if j = i then merged 1 ts (add_rows i p c) else add_rows i p c)"
proof (induction j ts p arbitrary: c rule: bump_entry.induct)
  case (1 j ts)
  then show ?case by (auto simp: add_row_def counted_def merged_def max_i64_zero)
next
  case (2 j ts k n t p)
  show ?case
  proof (cases "k = j")
    case False
    have "word_sle 0 (last_accessed_at (add_row i (k, n, t) c))" using 2(2) by (auto simp: add_row_def intro: merged_later)
    with 2(1) [OF False] False show ?thesis by simp
  next
    case True
    have "add_row i (k, 1, ts) (add_rows i p (add_row i (k, n, t) c)) = add_rows i ((k, n, t) # p @ [(k, 1, ts)]) c" by simp
    also have "\<dots> = add_rows i ((k, n, t) # (k, 1, ts) # p) c"
      by (rule fun_cong [OF add_rows_perm]) simp
    finally show ?thesis using True by (auto simp: add_row_def counted_def merged_merged)
  qed
qed

lemma length_bump_entry: "length (bump_entry i ts p) \<le> Suc (length p)"
  by (induction i ts p rule: bump_entry.induct) auto

lemma add_flush: "(\<And>p. mset (drain p) = mset p) \<Longrightarrow> add_rows i (concat (flush drain p)) = add_rows i p"
  by (auto simp: flush_def intro: add_rows_perm)

lemma counted_simps [simp]:
  "counted i [] c = c" "counted i ((j, ts) # bs) c = counted i bs (if j = i then merged 1 ts c else c)"
  by (simp_all add: counted_def)

lemma flush_short: "(\<And>p. mset (drain p) = mset p) \<Longrightarrow> length p \<le> 256 \<Longrightarrow> \<forall>b \<in> set (flush drain p). length b \<le> 256"
  using mset_eq_length [of "drain p" p] by (simp add: flush_def)

lemma bumper_conserves:
  "bumper drain ms p = (bs, p') \<Longrightarrow> (\<And>p. mset (drain p) = mset p) \<Longrightarrow> RecvDisconnected \<notin> set ms \<Longrightarrow> length p < 256 \<Longrightarrow>
     word_sle 0 (last_accessed_at c) \<Longrightarrow>
     length p' < 256 \<and> (\<forall>b \<in> set bs. length b \<le> 256) \<and>
     add_rows i (concat bs @ p') c = counted i (received ms) (add_rows i p c)"
proof (induction drain ms p arbitrary: bs p' c rule: bumper.induct)
  case (1 drain p)
  then show ?case by (simp add: counted_def)
next
  case (2 drain j ts ms p)
  let ?p = "bump_entry j ts p"
  note later = \<open>word_sle 0 (last_accessed_at c)\<close> and drain = \<open>\<And>p. mset (drain p) = mset p\<close> and run = \<open>bumper drain (Received j ts # ms) p = (bs, p')\<close>
  have n: "RecvDisconnected \<notin> set ms" using 2 by simp
  have e: "add_rows i ?p c = (if j = i then merged 1 ts (add_rows i p c) else add_rows i p c)" using later by (rule add_bump_entry)
  have l: "length ?p \<le> 256" using length_bump_entry [of j ts p] 2 by linarith
  show ?case
  proof (cases "256 \<le> length ?p")
    case True
    obtain bs' where b: "bumper drain ms [] = (bs', p')" "bs = flush drain ?p @ bs'"
      using run True by (auto simp: Let_def split: prod.splits)
    from 2(1) [OF refl True b(1) drain n _ add_rows_later [OF later, of i ?p]] flush_short [of drain, OF drain l] e add_flush [of drain, OF drain]
    show ?thesis by (simp add: b(2) ball_Un)
  next
    case False
    with run have b: "bumper drain ms ?p = (bs, p')" by (simp add: Let_def)
    from 2(2) [OF refl False b drain n _ later] False e show ?thesis by simp
  qed
next
  case (3 drain ms p)
  note later = \<open>word_sle 0 (last_accessed_at c)\<close> and drain = \<open>\<And>p. mset (drain p) = mset p\<close>
  obtain bs' where b: "bumper drain ms [] = (bs', p')" "bs = flush drain p @ bs'" using 3(2) by (auto split: prod.splits)
  have n: "RecvDisconnected \<notin> set ms" and l: "length p \<le> 256" using 3 by simp_all
  from 3(1) [OF b(1) drain n _ add_rows_later [OF later, of i p]] flush_short [of drain, OF drain l] add_flush [of drain, OF drain]
  show ?case by (simp add: b(2) ball_Un)
next
  case (4 drain ms p)
  then show ?case by simp
qed

lemma bumper_append:
  "RecvDisconnected \<notin> set ms \<Longrightarrow>
     bumper drain (ms @ ns) p = (case bumper drain ms p of (bs, q) \<Rightarrow> case bumper drain ns q of (cs, r) \<Rightarrow> (bs @ cs, r))"
proof (induction drain ms p rule: bumper.induct)
  case (2 drain j ts ms p)
  then show ?case by (auto simp: Let_def split: prod.splits)
qed (auto split: prod.splits)

text \<open>C17. The bumper thread neither loses nor invents an access: when its channel is closed it has sent
  batches of at most 256 rows and kept nothing back, and merging the rows of the batches changes the counter of
  every node exactly as the single bumps it received would have, count and latest time alike, whatever the
  order in which the hash map was drained.\<close>

theorem bumper_exact:
  assumes run: "bumper drain (ms @ [RecvDisconnected]) [] = (bs, p)" and drain: "\<And>p. mset (drain p) = mset p"
    and ms: "RecvDisconnected \<notin> set ms" and c: "word_sle 0 (last_accessed_at c)"
  shows "p = [] \<and> (\<forall>b \<in> set bs. length b \<le> 256) \<and> fold (add_row i) (concat bs) c = counted i (received ms) c"
proof -
  obtain bs' q where b: "bumper drain ms [] = (bs', q)" by fastforce
  from run have r: "bs = bs' @ flush drain q" "p = []" by (simp_all add: bumper_append [OF ms] b)
  from bumper_conserves [OF b drain ms _ c] have h: "length q < 256" "\<forall>b \<in> set bs'. length b \<le> 256"
    "add_rows i (concat bs' @ q) c = counted i (received ms) c" by simp_all
  show ?thesis using h r flush_short [of drain q, OF drain] add_flush [of drain i q, OF drain] by auto
qed

theorem bumper_exact_witness:
  "\<exists>bs. bumper rev [Received (NodeId 1) 5, Received (NodeId 2) 6, RecvTimeout, Received (NodeId 1) 9, RecvDisconnected] [] = (bs, []) \<and>
     fold (add_row (NodeId 1)) (concat bs) stats_default = \<lparr>access_count = 2, last_accessed_at = 9\<rparr>"
proof -
  let ?ms = "[Received (NodeId 1) 5, Received (NodeId 2) 6, RecvTimeout, Received (NodeId 1) 9]"
  obtain bs p where run: "bumper rev (?ms @ [RecvDisconnected]) [] = (bs, p)" by fastforce
  have c: "word_sle 0 (last_accessed_at stats_default)" by (simp add: stats_default_def)
  from bumper_exact [OF run _ _ c, of "NodeId 1"] run show ?thesis
    by (auto simp: counted_def merged_def stats_default_def max_i64_def word_sle_eq)
qed

section \<open>Merging a batch\<close>

text \<open>What a counter row reads as, and what a batch makes of it.\<close>

definition stats_at :: "access_stats serde \<Rightarrow> bytes option \<Rightarrow> access_stats option result" where
  "stats_at S v = (case v of None \<Rightarrow> Inr None | Some b \<Rightarrow> rbind (pc_err (de S b)) (\<lambda>x. Inr (Some x)))"

definition after_batch :: "node_id \<Rightarrow> bump_row list \<Rightarrow> access_stats option \<Rightarrow> access_stats option" where
  "after_batch i rs c = (if i \<in> fst ` set rs then Some (fold (add_row i) rs (unwrap_or stats_default c)) else c)"

lemma after_batch_Cons: "after_batch i (r # rs) c = after_batch i rs (after_batch i [r] c)"
proof (cases "fst r = i")
  case False
  then have "add_row i r x = x" for x by (cases r) (simp add: add_row_def)
  with False show ?thesis by (auto simp: after_batch_def)
next
  case True
  have "add_rows i rs x = x" if "i \<notin> fst ` set rs" for x
    using that by (induction rs arbitrary: x) (auto simp: add_row_def)
  with True show ?thesis by (auto simp: after_batch_def unwrap_or_def)
qed

context engine
begin

lemma merge_step_row:
  assumes sl: "slots_inv (rows slots) rv n" and S: "serde_codec S" and run: "merge_step E S slots r t = Inr t'"
    and i: "rows slots (id_key (node_u128 i)) = Some (u64_to_le s)" and old: "stats_at S (rows t (slot_key s)) = Inr c"
  shows "stats_at S (rows t' (slot_key s)) = Inr (after_batch i [r] c)"
proof -
  obtain j m ts where r: "r = (j, m, ts)" by (cases r)
  have slot: "node_slot (eB E) slots k = Inr (map_option u64_from_le (rows slots (id_key (node_u128 k))))" for k
    unfolding node_slot_def by (rule read_slot_eq [OF sl])
  show ?thesis
  proof (cases "rows slots (id_key (node_u128 j))")
    case None
    then have "j \<noteq> i" "t' = t" using run i by (auto simp: merge_step_def r slot)
    then show ?thesis using old by (simp add: r after_batch_def)
  next
    case (Some v)
    then obtain s' where v: "v = u64_to_le s'" using slots_inv_fwd [OF sl] by blast
    from run Some v obtain x b1 where x: "(case rows t (slot_key s') of Some b \<Rightarrow> pc_err (de S b) | None \<Rightarrow> Inr stats_default) = Inr x"
      and b1: "ser S (merged m ts x) = Inr b1" and t': "tinsert (eB E) t (slot_key s') b1 = Inr t'"
      by (auto simp: merge_step_def r slot rbind_Inr bt.get_eq)
    have rows': "rows t' = (rows t)(slot_key s' \<mapsto> b1)" using bt.insert_ok [OF t'] .
    show ?thesis
    proof (cases "j = i")
      case True
      then have "s' = s" using Some v i by simp
      then have "x = unwrap_or stats_default c" using x old by (auto simp: stats_at_def rbind_Inr unwrap_or_def split: option.splits)
      then show ?thesis using True \<open>s' = s\<close> rows' serde_codec.de_ser [OF S b1]
        by (simp add: r add_row_def stats_at_def after_batch_def pc_err_def)
    next
      case False
      then have "s' \<noteq> s" using slots_inv_inj [OF sl, of "node_u128 i" s "node_u128 j"] i Some v by (cases i; cases j) auto
      then show ?thesis using False rows' old by (simp add: r after_batch_def)
    qed
  qed
qed

lemma merge_rows:
  assumes sl: "slots_inv (rows slots) rv n" and S: "serde_codec S"
    and i: "rows slots (id_key (node_u128 i)) = Some (u64_to_le s)"
  shows "rfold (merge_step E S slots) rs t = Inr t' \<Longrightarrow> stats_at S (rows t (slot_key s)) = Inr c \<Longrightarrow>
    stats_at S (rows t' (slot_key s)) = Inr (after_batch i rs c)"
proof (induction rs arbitrary: t c)
  case (Cons r rs)
  then obtain t1 where t1: "merge_step E S slots r t = Inr t1" "rfold (merge_step E S slots) rs t1 = Inr t'" by (auto simp: rbind_Inr)
  from Cons.IH [OF t1(2) merge_step_row [OF sl S t1(1) i Cons.prems(2)]] show ?case by (simp only: after_batch_Cons [of i r rs])
qed (simp add: after_batch_def)

lemma read_counter_eq:
  assumes "slots_inv (rows (node_slots db)) rv n"
  shows "read_counter E S (Inr ()) db i = (case rows (node_slots db) (id_key (node_u128 i)) of
     None \<Rightarrow> Inr None | Some b \<Rightarrow> stats_at S (rows (counters db) (slot_key (u64_from_le b))))"
  using read_slot_eq [OF assms]
  by (simp add: read_counter_def node_slot_def bt.get_eq stats_at_def split: option.split)

end


text \<open>A serializer for counters: sixteen bytes.\<close>

definition fixed_stats :: "access_stats serde" where
  "fixed_stats = \<lparr>ser = (\<lambda>x. Inr (u64_to_be (access_count x) @ u64_to_be (last_accessed_at x))),
     de = (\<lambda>b. if length b = 16 then Inr \<lparr>access_count = u64_from_be (at 0 8 b), last_accessed_at = u64_from_be (at 8 8 b)\<rparr>
               else Inl ''bad length'')\<rparr>"

interpretation stats_serde: serde_codec fixed_stats
  by unfold_locales (auto simp: fixed_stats_def at_def)

type_synonym tree_database = "((bytes, bytes) rbt, (bytes, string) rbt, (bytes, u64) rbt, (string, bytes) rbt, (u64, bytes) rbt) database"

definition empty_database :: tree_database where
  "empty_database = store.extend empty_store \<lparr>counters = RBT.empty\<rparr>"

lemma empty_database_simps [simp]:
  "i_dicts empty_database = dicts_default" "i_scopes empty_database = registry_default" "i_journal empty_database = journal_default"
  "i_dict_table empty_database = RBT.empty" "i_scopes_table empty_database = RBT.empty"
  "nodes empty_database = RBT.empty" "edges empty_database = RBT.empty" "vector_dims empty_database = RBT.empty"
  "vectors empty_database = RBT.empty" "embedding_ref empty_database = RBT.empty" "meta empty_database = RBT.empty"
  "node_slots empty_database = RBT.empty" "node_ids empty_database = RBT.empty" "edge_slots empty_database = RBT.empty"
  "edge_ids empty_database = RBT.empty" "out_adj empty_database = RBT.empty" "in_adj empty_database = RBT.empty"
  "prop_table empty_database = RBT.empty" "label_index empty_database = RBT.empty" "ops_table empty_database = RBT.empty"
  "counters empty_database = RBT.empty"
  by (simp_all add: empty_database_def store.defs empty_store_def)

lemma empty_database_represents:
  "store_inv tree_env RBT.lookup RBT.lookup empty_database" "represents tree_env RBT.lookup empty_database empty_graph"
  using tree.blank_represents [of empty_database] empty_store_wf by (simp_all add: blank_tables_def interning_wf_def)

lemma create_seven:
  "\<exists>db. apply_op tree_env (CreateNode (NodeId 7) Shared ''Memory'' []) empty_database = (Inr (), db) \<and>
     RBT.lookup (node_slots db) (id_key 7) = Some (u64_to_le 0) \<and>
     RBT.lookup (node_slots db) (id_key 9) = None \<and> counters db = RBT.empty"
  by (simp add: apply_create_node_def run_store)


end
