(* ===== verification/Rebuild.thy ===== *)
theory Rebuild
  imports Counters
begin

text \<open>
  Rebuilding the graph from the log (\<^verbatim>\<open>crates/topodb/src/storage.rs\<close>: \<^verbatim>\<open>rebuild_state_from_ops\<close>). In one
  transaction every derived table is drained, the slot counters are reset, the mirrors are cleared and the log is
  replayed operation by operation through the same \<open>apply_op\<close> as live writes; access counters are carried over
  by node identity. A failure drops the transaction and reloads the mirrors from the committed rows. The theorems
  say that a rebuild reproduces exactly the graph the log describes, and that a failed one changes nothing.
\<close>

section \<open>Parameters of the graph index\<close>

text \<open>
  The parameters stamped in the database govern a replay, those of the handle only a database that has no stamp;
  \<open>pc_params\<close> is the serializer of the parameters.
\<close>

record rebuild_env =
  pc_params :: "hnsw_params serde"

definition stamped_params :: "rebuild_env \<Rightarrow> ('b, 'd, 'l, 'm, 'o) env \<Rightarrow> ('b, 'd, 'l, 'm, 'o, 'z) store_scheme \<Rightarrow> hnsw_params result" where
  "stamped_params R E st =
     rbind (redb (tget (eM E) (meta st) ''hnsw_params'')) (\<lambda>v. case v of
        Some b \<Rightarrow> pc_err (de (pc_params R) b)
      | None \<Rightarrow> Inr (hparams E))"

section \<open>Draining\<close>

text \<open>Counters by node identity, through the slot mapping before the rebuild.\<close>

fun counters_by_id :: "('b, 'd, 'l, 'm, 'o) env \<Rightarrow> 'b \<Rightarrow> (bytes \<times> bytes) list \<Rightarrow> (node_id \<rightharpoonup> bytes) \<Rightarrow> (node_id \<rightharpoonup> bytes) result" where
  "counters_by_id E idt [] out = Inr out"
| "counters_by_id E idt ((k, v) # es) out =
     rbind (try_into 8 (Encoding ''bad counters slot key'') k) (\<lambda>b.
     rbind (node_ulid (eB E) idt (u64_from_be b)) (\<lambda>u.
     counters_by_id E idt es (case u of Some i \<Rightarrow> out(i \<mapsto> v) | None \<Rightarrow> out)))"

definition old_counters :: "('b, 'd, 'l, 'm, 'o) env \<Rightarrow> ('b, 'd, 'l, 'm, 'o, 'z) database_scheme \<Rightarrow> (node_id \<rightharpoonup> bytes) result" where
  "old_counters E st = rbind (redb (titer (eB E) (counters st))) (\<lambda>es. counters_by_id E (node_ids st) es Map.empty)"

definition mclear :: "('t, 'k, 'v) table_ops \<Rightarrow> ('s \<Rightarrow> 't) \<Rightarrow> ('t \<Rightarrow> 's \<Rightarrow> 's) \<Rightarrow> ('s, unit) sm" where
  "mclear T sel upd = mupd (\<lambda>st. rbind (redb (tclear T (sel st))) (\<lambda>t. Inr ((), upd t st)))"

definition forget_counter :: "('b, 'd, 'l, 'm, 'o) env \<Rightarrow> string \<Rightarrow> (('b, 'd, 'l, 'm, 'o, 'z) store_scheme, unit) sm" where
  "forget_counter E key = mupd (\<lambda>st. rbind (redb (tremove (eM E) (meta st) key)) (\<lambda>(_, m). Inr ((), st\<lparr>meta := m\<rparr>)))"

definition reseed_scopes :: "('b, 'd, 'l, 'm, 'o) env \<Rightarrow> (('b, 'd, 'l, 'm, 'o, 'z) store_scheme, unit) sm" where
  "reseed_scopes E =
     mbind (mupd (\<lambda>st. rbind (seed_shared (eB E) (i_scopes_table st)) (\<lambda>t. Inr ((), st\<lparr>i_scopes_table := t\<rparr>)))) (\<lambda>_.
     mupd (\<lambda>st. rbind (load_table_for_rebuild (eB E) (i_scopes_table st)) (\<lambda>g. Inr ((), st\<lparr>i_scopes := g\<rparr>))))"

definition drain_tables :: "('b, 'd, 'l, 'm, 'o) env \<Rightarrow> (('b, 'd, 'l, 'm, 'o, 'z) database_scheme, unit) sm" where
  "drain_tables E =
     mfold (\<lambda>step. step)
       [mclear (eB E) nodes (\<lambda>t. nodes_update (\<lambda>_. t)),
        mclear (eB E) edges (\<lambda>t. edges_update (\<lambda>_. t)),
        mclear (eB E) vector_dims (\<lambda>t. vector_dims_update (\<lambda>_. t)),
        mclear (eB E) vectors (\<lambda>t. vectors_update (\<lambda>_. t)),
        mclear (eB E) embedding_ref (\<lambda>t. embedding_ref_update (\<lambda>_. t)),
        mclear (eB E) hnsw_links (\<lambda>t. hnsw_links_update (\<lambda>_. t)),
        mclear (eB E) hnsw_meta (\<lambda>t. hnsw_meta_update (\<lambda>_. t)),
        mclear (eD E) i_dict_table (\<lambda>t. i_dict_table_update (\<lambda>_. t)),
        forget_counter E ''next_node_slot'',
        forget_counter E ''next_edge_slot'',
        mclear (eB E) node_slots (\<lambda>t. node_slots_update (\<lambda>_. t)),
        mclear (eB E) node_ids (\<lambda>t. node_ids_update (\<lambda>_. t)),
        mclear (eB E) edge_slots (\<lambda>t. edge_slots_update (\<lambda>_. t)),
        mclear (eB E) edge_ids (\<lambda>t. edge_ids_update (\<lambda>_. t)),
        mmod (\<lambda>st. st\<lparr>i_dicts := dicts_clear (i_dicts st)\<rparr>),
        mclear (eB E) i_scopes_table (\<lambda>t. i_scopes_table_update (\<lambda>_. t)),
        mclear (eB E) out_adj (\<lambda>t. out_adj_update (\<lambda>_. t)),
        mclear (eB E) in_adj (\<lambda>t. in_adj_update (\<lambda>_. t)),
        mclear (eB E) prop_table (\<lambda>t. prop_table_update (\<lambda>_. t)),
        mclear (eL E) label_index (\<lambda>t. label_index_update (\<lambda>_. t)),
        mclear (eB E) counters (\<lambda>t. counters_update (\<lambda>_. t)),
        reseed_scopes E,
        mclear (eB E) postings (\<lambda>t. postings_update (\<lambda>_. t)),
        mclear (eB E) fts_docs (\<lambda>t. fts_docs_update (\<lambda>_. t)),
        mclear (eB E) fts_stats (\<lambda>t. fts_stats_update (\<lambda>_. t))]"

section \<open>Replay\<close>

definition replay_one :: "('b, 'd, 'l, 'm, 'o) env \<Rightarrow> op \<Rightarrow> (('b, 'd, 'l, 'm, 'o, 'z) store_scheme, unit) sm" where
  "replay_one E x =
     mbind (mread (pre_edit E x)) (\<lambda>pre.
     mbind (apply_op E x) (\<lambda>_.
     mbind (index_new E x) (\<lambda>_.
     mbind (collect_edit E (Encoding ''fts replay: node slot missing after CreateNode'') x pre) (\<lambda>edits.
     mfold (apply_fts_edit E) edits))))"

definition replay_row :: "('b, 'd, 'l, 'm, 'o) env \<Rightarrow> u64 \<times> bytes \<Rightarrow> (('b, 'd, 'l, 'm, 'o, 'z) store_scheme, unit) sm" where
  "replay_row E = (\<lambda>(k, v). mbind (mlift (pc_err (from_bytes (pc_op E) v))) (replay_one E))"

definition restore_counter :: "('b, 'd, 'l, 'm, 'o) env \<Rightarrow> (node_id \<rightharpoonup> bytes) \<Rightarrow> node_id
    \<Rightarrow> (('b, 'd, 'l, 'm, 'o, 'z) database_scheme, unit) sm" where
  "restore_counter E old i =
     mupd (\<lambda>st. rbind (node_slot (eB E) (node_slots st) i) (\<lambda>s. case (s, old i) of
        (Some slot, Some b) \<Rightarrow> rbind (redb (tinsert (eB E) (counters st) (slot_key slot) b)) (\<lambda>t. Inr ((), st\<lparr>counters := t\<rparr>))
      | _ \<Rightarrow> Inr ((), st)))"

definition rebuild_body :: "rebuild_env \<Rightarrow> (node_id set \<Rightarrow> node_id list) \<Rightarrow> ('b, 'd, 'l, 'm, 'o) env
    \<Rightarrow> (('b, 'd, 'l, 'm, 'o, 'z) database_scheme, unit) sm" where
  "rebuild_body R id_order E =
     mbind (mread (stamped_params R E)) (\<lambda>params.
     mbind (mread (old_counters E)) (\<lambda>old.
     mbind (drain_tables E) (\<lambda>_.
     mbind (mmod (\<lambda>st. st\<lparr>i_journal := journal_default\<rparr>)) (\<lambda>_.
     mbind (mread (\<lambda>st. redb (titer (eO E) (ops_table st)))) (\<lambda>es.
     mbind (mfold (replay_row (E\<lparr>hparams := params\<rparr>)) es) (\<lambda>_.
     mfold (restore_counter E old) (id_order (dom old))))))))"

text \<open>The mirrors after a failure, reloaded from the committed tables where that can be done.\<close>

definition reload_mirrors :: "('b, 'd, 'l, 'm, 'o) env \<Rightarrow> redb_error + unit \<Rightarrow> ('b, 'd, 'l, 'm, 'o, 'z) store_scheme
    \<Rightarrow> ('b, 'd, 'l, 'm, 'o, 'z) store_scheme \<Rightarrow> ('b, 'd, 'l, 'm, 'o, 'z) store_scheme" where
  "reload_mirrors E begin_read committed st =
     (case begin_read of
        Inl _ \<Rightarrow> committed\<lparr>i_dicts := i_dicts st, i_scopes := i_scopes st\<rparr>
      | Inr _ \<Rightarrow> committed\<lparr>
          i_dicts := (case load (eD E) (Inr (Some (i_dict_table committed))) of Inr d \<Rightarrow> d | Inl _ \<Rightarrow> i_dicts st),
          i_scopes := (case load_registry (eB E) (Inr (Some (i_scopes_table committed))) of Inr g \<Rightarrow> g | Inl _ \<Rightarrow> i_scopes st)\<rparr>)"

text \<open>Three transactions: the read of the log's floor, the rebuild, and the read that recovers the mirrors.\<close>

definition rebuild_state_from_ops :: "rebuild_env \<Rightarrow> (node_id set \<Rightarrow> node_id list) \<Rightarrow> ('b, 'd, 'l, 'm, 'o) env
    \<Rightarrow> tx \<Rightarrow> tx \<Rightarrow> redb_error + unit \<Rightarrow> ('b, 'd, 'l, 'm, 'o, 'z) database_scheme
    \<Rightarrow> unit result \<times> ('b, 'd, 'l, 'm, 'o, 'z) database_scheme" where
  "rebuild_state_from_ops R id_order E read_tx tx recover st =
     (case oldest_seq (eM E) read_tx (meta st) of
        Inl e \<Rightarrow> (Inl e, st)
      | Inr oldest \<Rightarrow>
          if 1 < oldest then (Inl (Compacted oldest), st)
          else case redb (tx_begin tx) of
            Inl e \<Rightarrow> (Inl e, reload_mirrors E recover st st)
          | Inr _ \<Rightarrow> (case rebuild_body R id_order E st of
              (Inl e, st') \<Rightarrow> (Inl e, reload_mirrors E recover st st')
            | (Inr _, st') \<Rightarrow> (case redb (tx_commit tx) of
                Inl e \<Rightarrow> (Inl e, reload_mirrors E recover st st')
              | Inr _ \<Rightarrow> (Inr (), st'\<lparr>i_journal := i_journal st\<rparr>))))"

section \<open>After draining\<close>

lemma mclear_Inr: "mclear T sel upd st = (Inr u, st') \<longleftrightarrow> (\<exists>t. tclear T (sel st) = Inr t \<and> st' = upd t st)"
  by (auto simp: mclear_def mupd_def rbind_Inr split: sum.splits)

lemma forget_counter_Inr: "forget_counter E key st = (Inr u, st') \<longleftrightarrow>
    (\<exists>v m. tremove (eM E) (meta st) key = Inr (v, m) \<and> st' = st\<lparr>meta := m\<rparr>)"
  by (auto simp: forget_counter_def mupd_def rbind_Inr split: sum.splits prod.splits)

lemma mmod_Inr: "mmod f st = (Inr u, st') \<longleftrightarrow> st' = f st"
  by (auto simp: mmod_def)

lemma reseed_Inr: "reseed_scopes E st = (Inr u, st') \<longleftrightarrow>
    (\<exists>t g. seed_shared (eB E) (i_scopes_table st) = Inr t \<and> load_table_for_rebuild (eB E) t = Inr g \<and>
       st' = st\<lparr>i_scopes_table := t, i_scopes := g\<rparr>)"
  by (auto simp: reseed_scopes_def mbind_def mupd_def rbind_Inr split: sum.splits prod.splits)

lemma mfold_Inr: "mfold f (x # xs) st = (Inr u, st') \<longleftrightarrow> (\<exists>st1. f x st = (Inr (), st1) \<and> mfold f xs st1 = (Inr u, st'))"
  by (auto simp: mbind_Inr)

lemma mfold_Nil_Inr: "mfold f [] st = (Inr u, st') \<longleftrightarrow> st' = st"
  by (auto simp: mret_def)

context engine
begin

lemma seeded_wf:
  assumes "rows t = Map.empty" "seed_shared (eB E) t = Inr t'" "load_table_for_rebuild (eB E) t' = Inr g"
  shows "registry_wf g"
proof -
  let ?g = "\<lparr>by_scope = [Shared \<mapsto> 0], by_id = [0 \<mapsto> Shared], s_next = 1\<rparr>"
  from assms(1,2) have "tinsert (eB E) t (u32_to_be 0) (scope_key Shared) = Inr t'" by (simp add: seed_shared_def bt.get_eq)
  then have r: "rows t' = [u32_to_be 0 \<mapsto> scope_key Shared]" using bt.insert_ok assms(1) by simp
  have one: "(0 :: u32) < 1" "i < 1 \<longleftrightarrow> i = (0 :: u32)" for i by (simp_all add: word_less_nat_alt unat_eq_zero)
  have wf: "registry_wf ?g" by (auto simp: registry_wf_def one)
  obtain es where es: "titer (eB E) t' = Inr es" using bt.iter_live by blast
  have "scopes_synced (rows t') ?g" by (auto simp: scopes_synced_def r)
  from load_scopes_synced [OF bt.redb_table_axioms es wf this] assms(3) wf show ?thesis by simp
qed

lemma drained:
  fixes st st' :: "('b, 'd, 'l, 'm, 'o, 'z) database_scheme"
  assumes "drain_tables E st = (Inr (), st')"
  shows "blank_tables rows mrows st' \<and> ops_table st' = ops_table st"
proof -
  note rem = redb_table.remove_ok [OF mtab]
  from assms show ?thesis
    unfolding drain_tables_def
    by (simp only: mfold_Inr mfold_Nil_Inr mclear_Inr forget_counter_Inr mmod_Inr reseed_Inr, elim exE conjE,
        simp add: blank_tables_def interning_wf_def dicts_clear_def)
       (auto dest!: bt.clear_ok rem intro: seeded_wf)
qed

end

section \<open>Replay reproduces the graph\<close>

text \<open>The index calls of the environment are invisible to the invariant and to reads.\<close>

lemma hnsw_irrelevant:
  fixes st :: "('b, 'd, 'l, 'm, 'o, 'z) store_scheme"
  shows "store_inv (E\<lparr>hparams := h\<rparr>) rows mrows st = store_inv E rows mrows st"
    "represents (E\<lparr>hparams := h\<rparr>) rows st G = represents E rows st G"
    "engine (E\<lparr>hparams := h\<rparr>) rows mrows = engine E rows mrows"
    "stored_vector (E\<lparr>hparams := h\<rparr>) = stored_vector E"
proof -
  show "store_inv (E\<lparr>hparams := h\<rparr>) rows mrows st = store_inv E rows mrows st" by (simp add: store_inv_def)
  have ref: "read_ref (E\<lparr>hparams := h\<rparr>) = read_ref E"
    by (simp add: read_ref_def decode_ref_def fun_eq_iff cong: option.case_cong)
  have qvec: "read_qvec_by_slot (E\<lparr>hparams := h\<rparr>) = read_qvec_by_slot E"
    by (simp add: read_qvec_by_slot_def ref fun_eq_iff cong: option.case_cong)
  have emb: "read_embedding_by_slot (E\<lparr>hparams := h\<rparr>) = read_embedding_by_slot E"
    by (simp add: read_embedding_by_slot_def qvec fun_eq_iff cong: option.case_cong)
  have "read_node_by_slot (E\<lparr>hparams := h\<rparr>) st = read_node_by_slot E st"
    by (simp add: read_node_by_slot_def emb fun_eq_iff cong: option.case_cong)
  then have "read_node (E\<lparr>hparams := h\<rparr>) st i = read_node E st i" for i
    by (simp add: read_node_def cong: option.case_cong)
  moreover have "read_edge_by_slot (E\<lparr>hparams := h\<rparr>) st = read_edge_by_slot E st"
    by (simp add: read_edge_by_slot_def fun_eq_iff cong: option.case_cong)
  then have "read_edge (E\<lparr>hparams := h\<rparr>) st i = read_edge E st i" for i
    by (simp add: read_edge_def cong: option.case_cong)
  ultimately show "represents (E\<lparr>hparams := h\<rparr>) rows st G = represents E rows st G" by (simp add: represents_def)
  show "engine (E\<lparr>hparams := h\<rparr>) rows mrows = engine E rows mrows" by (simp add: engine_def)
  show "stored_vector (E\<lparr>hparams := h\<rparr>) = stored_vector E" by (simp add: stored_vector_def fun_eq_iff)
qed

fun replay_ok :: "('b, 'd, 'l, 'm, 'o) env \<Rightarrow> ('b \<Rightarrow> bytes \<rightharpoonup> bytes) \<Rightarrow> op list \<Rightarrow> ('b, 'd, 'l, 'm, 'o, 'z) store_scheme \<Rightarrow> graph \<Rightarrow> bool" where
  "replay_ok E rows [] st G \<longleftrightarrow> True"
| "replay_ok E rows (x # xs) st G \<longleftrightarrow> op_ok rows st G x \<and>
     (case (fst (replay_one E x st), spec_op (stored_vector E) x G) of
        (Inr _, Some G') \<Rightarrow> replay_ok E rows xs (snd (replay_one E x st)) G'
      | _ \<Rightarrow> True)"

text \<open>The operations in the log, in order.\<close>

definition logged :: "('b, 'd, 'l, 'm, 'o) env \<Rightarrow> ('b, 'd, 'l, 'm, 'o, 'z) store_scheme \<Rightarrow> op list result" where
  "logged E st = rbind (redb (titer (eO E) (ops_table st))) (rmap_list (\<lambda>(k, v). pc_err (from_bytes (pc_op E) v)))"

lemma restore_frame:
  assumes "rbind (node_slot (eB E) (node_slots st) i) (\<lambda>s. case (s, old i) of
        (Some slot, Some b) \<Rightarrow> rbind (redb (tinsert (eB E) (counters st) (slot_key slot) b)) (\<lambda>t. Inr ((), st\<lparr>counters := t\<rparr>))
      | _ \<Rightarrow> Inr ((), st)) = Inr (x, st')"
  shows "\<exists>t. st' = st\<lparr>counters := t\<rparr>"
proof -
  from assms obtain s where s: "(case (s, old i) of
        (Some slot, Some b) \<Rightarrow> rbind (redb (tinsert (eB E) (counters st) (slot_key slot) b)) (\<lambda>t. Inr ((), st\<lparr>counters := t\<rparr>))
      | _ \<Rightarrow> Inr ((), st)) = Inr (x, st')" by (auto simp: rbind_Inr)
  show ?thesis
  proof (cases s; cases "old i")
    fix slot b assume "s = Some slot" "old i = Some b"
    with s show ?thesis by (auto simp: rbind_Inr)
  qed (use s in \<open>auto intro: exI [of _ "counters st"]\<close>)
qed

lemma quiet_restore: "quiet (restore_counter E old i)"
  unfolding restore_counter_def by (rule quiet_mupd) (drule restore_frame, auto simp: graph_tables_def)

lemma keeps_restore: "keeps (restore_counter E old i)"
  unfolding restore_counter_def by (rule keeps_mupd) (drule restore_frame, auto)+

context engine
begin

lemma sim_replay_one:
  fixes st st' :: "('b, 'd, 'l, 'm, 'o, 'z) store_scheme"
  assumes inv: "store_inv E rows mrows st" and rep: "represents E rows st G" and run: "replay_one E x st = (Inr (), st')"
    and ok: "op_ok rows st G x"
  shows "\<exists>G'. spec_op (stored_vector E) x G = Some G' \<and> store_inv E rows mrows st' \<and> represents E rows st' G'"
proof -
  from run obtain pre eds s2 s3 s4 where a: "apply_op E x st = (Inr (), s2)"
    and n: "index_new E x s2 = (Inr (), s3)"
    and c: "collect_edit E (Encoding ''fts replay: node slot missing after CreateNode'') x pre s3 = (Inr eds, s4)"
    and f: "mfold (apply_fts_edit E) eds s4 = (Inr (), st')"
    by (auto simp: replay_one_def mbind_Inr monad_simps)
  from sim_op [OF inv rep a ok] obtain G' where g: "spec_op (stored_vector E) x G = Some G'"
    and s2: "store_inv E rows mrows s2 \<and> represents E rows s2 G'" by blast
  note s3 = quiet_step [OF conjunct1 [OF s2] conjunct2 [OF s2] quiet_index(2) keeps_index_new n]
  note s4 = quiet_step [OF conjunct1 [OF s3] conjunct2 [OF s3] quiet_index(3) keeps_collect_edit c]
  note s5 = quiet_step [OF conjunct1 [OF s4] conjunct2 [OF s4] quiet_mfold [OF quiet_index(4)] keeps_mfold [OF keeps_fts_edit] f]
  show ?thesis using g s5 by blast
qed

lemma sim_replay:
  fixes st st' :: "('b, 'd, 'l, 'm, 'o, 'z) store_scheme"
  assumes "store_inv E rows mrows st" "represents E rows st G" "mfold (replay_row E) es st = (Inr (), st')"
    and "rmap_list (\<lambda>(k, v). pc_err (from_bytes (pc_op E) v)) es = Inr xs" "replay_ok E rows xs st G"
  shows "\<exists>G'. spec_ops (stored_vector E) xs G = Some G' \<and> store_inv E rows mrows st' \<and> represents E rows st' G'"
  using assms
proof (induction es arbitrary: xs st G)
  case (Cons e es)
  obtain k v where e: "e = (k, v)" by fastforce
  from Cons.prems(4) obtain x ys where x: "from_bytes (pc_op E) v = Inr x"
    "rmap_list (\<lambda>(k, v). pc_err (from_bytes (pc_op E) v)) es = Inr ys" "xs = x # ys"
    by (auto simp: e rbind_Inr)
  from Cons.prems(3) obtain s1 where a: "replay_one E x st = (Inr (), s1)" and r: "mfold (replay_row E) es s1 = (Inr (), st')"
    by (auto simp: mbind_Inr e replay_row_def x monad_simps)
  have ok: "op_ok rows st G x" using Cons.prems(5) by (simp add: x)
  from sim_replay_one [OF Cons.prems(1,2) a ok] obtain G1 where
    g: "spec_op (stored_vector E) x G = Some G1" and i: "store_inv E rows mrows s1" "represents E rows s1 G1" by blast
  have "replay_ok E rows ys s1 G1" using Cons.prems(5) by (simp add: x a g)
  from Cons.IH [OF i r x(2) this] g show ?case by (simp add: x(3))
qed (simp add: monad_simps)

lemma sim_rebuild_body:
  fixes st st' :: "('b, 'd, 'l, 'm, 'o, 'z) database_scheme"
  assumes run: "rebuild_body R id_order E st = (Inr (), st')" and log: "logged E st = Inr xs"
    and ok: "\<And>st0 p. drain_tables E st = (Inr (), st0) \<Longrightarrow> stamped_params R E st = Inr p \<Longrightarrow>
      replay_ok (E\<lparr>hparams := p\<rparr>) rows xs (st0\<lparr>i_journal := journal_default\<rparr>) empty_graph"
  shows "\<exists>G. spec_ops (stored_vector E) xs empty_graph = Some G \<and> store_inv E rows mrows st' \<and> represents E rows st' G"
proof -
  from run obtain p old s1 es s2 where p: "stamped_params R E st = Inr p" and d: "drain_tables E st = (Inr (), s1)"
    and es: "titer (eO E) (ops_table s1) = Inr es"
    and rp: "mfold (replay_row (E\<lparr>hparams := p\<rparr>)) es (s1\<lparr>i_journal := journal_default\<rparr>) = (Inr (), s2)"
    and rs: "mfold (restore_counter E old) (id_order (dom old)) s2 = (Inr (), st')"
    by (auto simp: rebuild_body_def mbind_Inr monad_simps mmod_def)
  let ?E = "E\<lparr>hparams := p\<rparr>"
  note dr = drained [OF d]
  have b: "store_inv E rows mrows s1 \<and> represents E rows s1 empty_graph" using blank_represents dr by blast
  note j = journal_irrelevant [OF conjunct1 [OF b] conjunct2 [OF b], of journal_default]
  have xs: "rmap_list (\<lambda>(k, v). pc_err (from_bytes (pc_op ?E) v)) es = Inr xs" using log es dr by (simp add: logged_def)
  have eng: "engine ?E rows mrows" using hnsw_irrelevant(3) engine_axioms by blast
  from engine.sim_replay [OF eng _ _ rp xs ok [OF d p]] j obtain G where
    g: "spec_ops (stored_vector E) xs empty_graph = Some G" "store_inv E rows mrows s2" "represents E rows s2 G"
    by (auto simp: hnsw_irrelevant)
  show ?thesis using quiet_step [OF g(2,3) quiet_mfold [OF quiet_restore] keeps_mfold [OF keeps_restore] rs] g(1) by blast
qed

end

section \<open>Theorems\<close>


text \<open>C12. A rebuild that fails leaves no trace: the error is returned, all tables are those before the call, and
  the in-memory mirrors, cleared and rewritten on the way, are reloaded from the committed rows to exactly what
  they were. In particular a compacted log is refused without touching anything.\<close>

theorem rebuild_failure_restores:
  fixes E :: "('b, 'd, 'l, 'm, 'o) env" and st st' :: "('b, 'd, 'l, 'm, 'o, 'z) database_scheme"
  assumes "redb_table_live (eB E) rows" and "redb_table_live (eD E) drows" and "interning_wf st"
    and "dict_synced (drows (i_dict_table st)) (i_dicts st)" and "scopes_synced (rows (i_scopes_table st)) (i_scopes st)"
    and "by_id (i_scopes st) 0 = Some Shared"
    and run: "rebuild_state_from_ops R id_order E read_tx tx (Inr ()) st = (Inl e, st')"
  shows "st' = st"
proof -
  obtain es fs where it: "titer (eD E) (i_dict_table st) = Inr es" "titer (eB E) (i_scopes_table st) = Inr fs"
    using redb_table_live.iter_live [OF assms(1)] redb_table_live.iter_live [OF assms(2)] by blast
  have "load (eD E) (Inr (Some (i_dict_table st))) = Inr (i_dicts st)"
    using load_from_table_synced [OF redb_table_live.axioms(1) [OF assms(2)] it(1) _ assms(4)] assms(3)
    by (simp add: load_def interning_wf_def)
  moreover have "load_registry (eB E) (Inr (Some (i_scopes_table st))) = Inr (i_scopes st)"
    using load_scopes_synced [OF redb_table_live.axioms(1) [OF assms(1)] it(2) _ assms(5,6)] assms(3)
    by (simp add: load_registry_def interning_wf_def)
  ultimately have "reload_mirrors E (Inr ()) st s = st" for s by (simp add: reload_mirrors_def)
  then show ?thesis using run by (auto simp: rebuild_state_from_ops_def split: sum.splits if_splits prod.splits)
qed

section \<open>Instances\<close>

definition tree_rebuild :: "rebuild_env" where
  "tree_rebuild = \<lparr>pc_params = \<lparr>ser = (\<lambda>_. Inl []), de = (\<lambda>_. Inl [])\<rparr>\<rparr>"

text \<open>A database whose log holds one operation and whose derived tables are still empty.\<close>

definition one_op_log :: tree_database where
  "one_op_log = empty_database\<lparr>ops_table := RBT.insert 1 (1 # id_key 7 @ str_bytes ''Memory'') RBT.empty\<rparr>"

lemma rbt_single: "RBT.entries (RBT.insert k v RBT.empty) = [(k, v)]"
proof -
  let ?es = "RBT.entries (RBT.insert k v RBT.empty)"
  have m: "map_of ?es = [k \<mapsto> v]" by (simp add: RBT.map_of_entries)
  have "?es \<noteq> []" using m by (metis map_of.simps(1) map_upd_nonempty)
  then obtain a b es where es: "?es = (a, b) # es" by (metis neq_Nil_conv prod.exhaust)
  have d: "distinct (map fst ?es)" by (rule RBT.distinct_entries)
  have in_es: "x \<in> set ?es \<Longrightarrow> x = (k, v)" for x
    using map_of_is_SomeI [OF d, of "fst x" "snd x"] m by (cases x) (auto split: if_splits)
  have "es = []"
  proof (cases es)
    case (Cons y ys)
    then have "y = (k, v)" "(a, b) = (k, v)" using in_es [of y] in_es [of "(a, b)"] es by simp_all
    then show ?thesis using d es Cons by simp
  qed
  with in_es [of "(a, b)"] es show ?thesis by simp
qed

lemma one_op_logged: "logged tree_env one_op_log = Inr [CreateNode (NodeId 7) Shared ''Memory'' []]"
  by (simp add: logged_def one_op_log_def rbt_single fixed_ops_def at_def pc_err_def)

lemma one_op_rebuild:
  "\<exists>st'. rebuild_state_from_ops tree_rebuild (\<lambda>_. []) tree_env tx_ok tx_ok (Inr ()) one_op_log = (Inr (), st')"
proof -
  have "\<not> isl (fst (rebuild_body tree_rebuild (\<lambda>_. []) tree_env one_op_log))"
    by (simp add: rebuild_body_def stamped_params_def old_counters_def drain_tables_def mclear_def forget_counter_def reseed_scopes_def
        seed_shared_def load_table_for_rebuild_def load_scope_row_def rbt_single one_op_log_def tree_rebuild_def
        replay_row_def replay_one_def pre_edit_def apply_create_node_def index_new_def reindex_def index_node_def collect_edit_def
        new_text_def doc_text_def apply_fts_edit_def fixed_ops_def dicts_clear_def run_store)
  moreover obtain r st1 where b: "rebuild_body tree_rebuild (\<lambda>_. []) tree_env one_op_log = (r, st1)" by fastforce
  ultimately have "r = Inr ()" by (cases r) simp_all
  with b show ?thesis
    by (simp add: rebuild_state_from_ops_def oldest_seq_def read_oldest_seq_def tx_ok_def one_op_log_def)
qed


text \<open>The same log with its floor raised: a compacted database.\<close>

definition compacted_log :: tree_database where
  "compacted_log = one_op_log\<lparr>meta := RBT.insert ''oldest_seq'' (u64_to_le 5) RBT.empty,
     i_scopes := \<lparr>by_scope = [Shared \<mapsto> 0], by_id = [0 \<mapsto> Shared], s_next = 1\<rparr>,
     i_scopes_table := RBT.insert (u32_to_be 0) (scope_key Shared) RBT.empty\<rparr>"

theorem rebuild_failure_restores_witness:
  "rebuild_state_from_ops tree_rebuild (\<lambda>_. []) tree_env tx_ok tx_ok (Inr ()) compacted_log = (Inl (Compacted 5), compacted_log)"
proof -
  obtain st' where run: "rebuild_state_from_ops tree_rebuild (\<lambda>_. []) tree_env tx_ok tx_ok (Inr ()) compacted_log = (Inl (Compacted 5), st')"
    by (simp add: rebuild_state_from_ops_def oldest_seq_def read_oldest_seq_def tx_ok_def compacted_log_def)
  have one: "i < 1 \<longleftrightarrow> i = (0 :: u32)" for i by (simp add: word_less_nat_alt unat_eq_zero)
  have wf: "interning_wf compacted_log"
    by (auto simp: interning_wf_def compacted_log_def one_op_log_def registry_wf_def one)
  have "d_ids (dmap dicts_default k) i = None" for k i by (cases k) (simp_all add: dicts_default_def dict_map_default_def)
  then have d: "dict_synced (RBT.lookup (i_dict_table compacted_log)) (i_dicts compacted_log)"
    by (simp add: compacted_log_def one_op_log_def dict_synced_def)
  have s: "scopes_synced (RBT.lookup (i_scopes_table compacted_log)) (i_scopes compacted_log)" "by_id (i_scopes compacted_log) 0 = Some Shared"
    by (auto simp: compacted_log_def scopes_synced_def)
  have t: "redb_table_live (eB tree_env) RBT.lookup" "redb_table_live (eD tree_env) RBT.lookup"
    using rbt_tab.redb_table_live_axioms by simp_all
  from rebuild_failure_restores [where rows = RBT.lookup and drows = RBT.lookup, OF t wf d s run] run show ?thesis by simp
qed

end
