(* ===== verification/Applier.thy ===== *)
theory Applier
  imports Rebuild Journal "HOL-Library.Multiset"
begin

text \<open>
  The applier thread (\<^verbatim>\<open>crates/topodb/src/db.rs\<close>): the one writer of the database. Clients put jobs on a bounded
  channel; the thread takes them in order, joins adjacent submissions into a group that shares one commit, broadcasts
  what was committed to the subscribers of the change feed (\<^verbatim>\<open>feed.rs\<close>) and answers every client. A reply channel is
  a number, the answers the thread sent are the list \<open>replies\<close>; the outcome of the \<open>n\<close>-th transaction and the reading
  of the clock are parameters.
\<close>

section \<open>The change feed\<close>

record change_event =
  seq :: u64
  ev_op :: op

definition batch_events :: "applied_batch \<Rightarrow> change_event list" where
  "batch_events b = map (\<lambda>(i, x). \<lparr>seq = first_seq b + word_of_nat i, ev_op = x\<rparr>) (enumerate 0 (resolved b))"

text \<open>A full buffer drops the event; a subscriber that is gone is pruned.\<close>

fun send_events :: "('c, change_event) sender_ops \<Rightarrow> change_event list \<Rightarrow> 'c \<Rightarrow> bool \<times> 'c" where
  "send_events C [] s = (True, s)"
| "send_events C (ev # evs) s =
     (case try_send C s ev of
        (Disconnected, s') \<Rightarrow> (False, s')
      | (_, s') \<Rightarrow> send_events C evs s')"

definition broadcast_batch :: "('c, change_event) sender_ops \<Rightarrow> applied_batch \<Rightarrow> 'c list \<Rightarrow> 'c list" where
  "broadcast_batch C batch subs = map snd (filter fst (map (send_events C (batch_events batch)) subs))"

definition ops_since :: "('b, 'd, 'l, 'm, 'o) env \<Rightarrow> tx \<Rightarrow> ('b, 'd, 'l, 'm, 'o, 'z) store_scheme \<Rightarrow> u64 \<Rightarrow> change_event list result" where
  "ops_since E tx st since_seq =
     rbind (read_ops (eO E) (eM E) (pc_op E) tx since_seq (ops_table st) (meta st)) (\<lambda>ops.
     Inr (map (\<lambda>(s, x). \<lparr>seq = s, ev_op = x\<rparr>) ops))"

section \<open>Jobs and the state of the thread\<close>

datatype job =
    Apply "op list" "i64 option" nat
  | RebuildJob nat
  | BumpCounters "bump_row list"
  | Compact u64 nat
  | MetaJob string bytes nat

datatype reply =
    BatchReply "applied_batch result"
  | UnitReply "unit result"

record ('c, 'b, 'd, 'l, 'm, 'o) engine_env =
  base_env :: "('b, 'd, 'l, 'm, 'o) env"
  rebuild_params :: rebuild_env
  pc_stats :: "access_stats serde"
  feed :: "('c, change_event) sender_ops"
  hash_order :: "node_id set \<Rightarrow> node_id list"
  io :: "nat \<Rightarrow> tx"
  clock :: "nat \<Rightarrow> i64"

record ('c, 'b, 'd, 'l, 'm, 'o) applier =
  disk :: "('b, 'd, 'l, 'm, 'o) database"
  subs :: "'c list"
  replies :: "(nat \<times> reply) list"
  ticks :: nat

definition send_reply :: "nat \<Rightarrow> reply \<Rightarrow> ('c, 'b, 'd, 'l, 'm, 'o) applier \<Rightarrow> ('c, 'b, 'd, 'l, 'm, 'o) applier" where
  "send_reply r x st = st\<lparr>replies := replies st @ [(r, x)]\<rparr>"

text \<open>A call into storage takes the next transaction of the schedule.\<close>

definition storage_call :: "('c, 'b, 'd, 'l, 'm, 'o) engine_env \<Rightarrow> (tx \<Rightarrow> ('b, 'd, 'l, 'm, 'o) database \<Rightarrow> 'a \<times> ('b, 'd, 'l, 'm, 'o) database)
    \<Rightarrow> ('c, 'b, 'd, 'l, 'm, 'o) applier \<Rightarrow> 'a \<times> ('c, 'b, 'd, 'l, 'm, 'o) applier" where
  "storage_call P f st =
     (case f (io P (ticks st)) (disk st) of (r, db) \<Rightarrow> (r, st\<lparr>disk := db, ticks := ticks st + 1\<rparr>))"

section \<open>One batch\<close>

fun ids_of_op :: "op \<Rightarrow> node_id set" where
  "ids_of_op (CreateEdge _ _ _ f t _ _ _) = {f, t}"
| "ids_of_op (CreateNode i _ _ _) = {i}"
| "ids_of_op _ = {}"

definition ids_needing_pre_state :: "op list \<Rightarrow> node_id set" where
  "ids_needing_pre_state ops = (\<Union>x \<in> set ops. ids_of_op x)"

definition pre_read :: "('c, 'b, 'd, 'l, 'm, 'o) engine_env \<Rightarrow> node_id set \<Rightarrow> ('c, 'b, 'd, 'l, 'm, 'o) applier
    \<Rightarrow> (node_id \<rightharpoonup> node_record) result \<times> ('c, 'b, 'd, 'l, 'm, 'o) applier" where
  "pre_read P xs = storage_call P (\<lambda>tx db. (load_nodes (base_env P) (hash_order P) (tx_begin tx) db xs, db))"

definition answer_batch :: "('c, change_event) sender_ops \<Rightarrow> nat \<Rightarrow> applied_batch result \<Rightarrow> ('c, 'b, 'd, 'l, 'm, 'o) applier
    \<Rightarrow> ('c, 'b, 'd, 'l, 'm, 'o) applier" where
  "answer_batch C reply r st =
     (case r of
        Inr batch \<Rightarrow> send_reply reply (BatchReply (Inr batch)) (st\<lparr>subs := broadcast_batch C batch (subs st)\<rparr>)
      | Inl e \<Rightarrow> send_reply reply (BatchReply (Inl e)) st)"

definition prevalidate :: "(node_id \<rightharpoonup> node_record) \<Rightarrow> op list \<Rightarrow> unit result" where
  "prevalidate pre ops = rbind (prevalidate_edge_scopes pre ops) (\<lambda>_. prevalidate_create_node_ids pre ops)"

definition apply_one_job :: "('c, 'b, 'd, 'l, 'm, 'o) engine_env \<Rightarrow> op list \<Rightarrow> i64 \<Rightarrow> nat \<Rightarrow> ('c, 'b, 'd, 'l, 'm, 'o) applier
    \<Rightarrow> ('c, 'b, 'd, 'l, 'm, 'o) applier" where
  "apply_one_job P ops now reply st =
     (case pre_read P (ids_needing_pre_state ops) st of
        (Inl e, st1) \<Rightarrow> send_reply reply (BatchReply (Inl e)) st1
      | (Inr pre, st1) \<Rightarrow>
          (case prevalidate pre ops of
             Inl e \<Rightarrow> send_reply reply (BatchReply (Inl e)) st1
           | Inr _ \<Rightarrow>
               (case storage_call P (\<lambda>tx. apply_batch (base_env P) tx ops now) st1 of
                  (r, st2) \<Rightarrow> answer_batch (feed P) reply r st2)))"

section \<open>A group of batches\<close>

text \<open>The text of an error of \<^verbatim>\<open>redb\<close> is that crate's; the prefix is the display form of \<^verbatim>\<open>TopoError::Storage\<close>.\<close>

definition group_pre_read_error :: "(redb_error \<Rightarrow> string) \<Rightarrow> topo_error \<Rightarrow> topo_error" where
  "group_pre_read_error to_string e =
     (let ctx = (\<lambda>m. ''group pre-validation read failed: '' @ m)
      in case e of
           Storage x \<Rightarrow> Storage (RedbFailure (ctx (''storage error: '' @ to_string x)))
         | Busy \<Rightarrow> Busy
         | Encoding m \<Rightarrow> Encoding (ctx m)
         | Rejected m \<Rightarrow> Rejected (ctx m)
         | Compacted oldest \<Rightarrow> Compacted oldest
         | Closed \<Rightarrow> Closed
         | UnsupportedFormat found supported \<Rightarrow> UnsupportedFormat found supported)"

type_synonym apply_job = "op list \<times> nat"
type_synonym overlay = "node_id \<rightharpoonup> scope option"

definition effective_pre :: "(node_id \<rightharpoonup> node_record) \<Rightarrow> overlay \<Rightarrow> node_id \<rightharpoonup> node_record" where
  "effective_pre base_pre ov i =
     (case ov i of
        Some (Some sc) \<Rightarrow> Some \<lparr>n_id = i, n_scope = sc, n_label = [], n_props = [], n_embedding = None\<rparr>
      | Some None \<Rightarrow> None
      | None \<Rightarrow> base_pre i)"

fun record_effect :: "op \<Rightarrow> overlay \<Rightarrow> overlay" where
  "record_effect (CreateNode i sc _ _) ov = ov(i \<mapsto> Some sc)"
| "record_effect (RemoveNode i) ov = ov(i \<mapsto> None)"
| "record_effect _ ov = ov"

fun include_jobs :: "(node_id \<rightharpoonup> node_record) \<Rightarrow> apply_job list \<Rightarrow> overlay \<Rightarrow> apply_job list
    \<Rightarrow> ('c, 'b, 'd, 'l, 'm, 'o) applier \<Rightarrow> apply_job list \<times> ('c, 'b, 'd, 'l, 'm, 'o) applier" where
  "include_jobs base_pre [] ov included st = (included, st)"
| "include_jobs base_pre ((ops, reply) # jobs) ov included st =
     (case prevalidate (effective_pre base_pre ov) ops of
        Inl e \<Rightarrow> include_jobs base_pre jobs ov included (send_reply reply (BatchReply (Inl e)) st)
      | Inr _ \<Rightarrow> include_jobs base_pre jobs (fold record_effect ops ov) (included @ [(ops, reply)]) st)"

definition apply_each :: "('c, 'b, 'd, 'l, 'm, 'o) engine_env \<Rightarrow> i64 \<Rightarrow> apply_job list \<Rightarrow> ('c, 'b, 'd, 'l, 'm, 'o) applier
    \<Rightarrow> ('c, 'b, 'd, 'l, 'm, 'o) applier" where
  "apply_each P now = fold (\<lambda>(ops, reply). apply_one_job P ops now reply)"

definition apply_included :: "('c, 'b, 'd, 'l, 'm, 'o) engine_env \<Rightarrow> i64 \<Rightarrow> apply_job list \<Rightarrow> ('c, 'b, 'd, 'l, 'm, 'o) applier
    \<Rightarrow> ('c, 'b, 'd, 'l, 'm, 'o) applier" where
  "apply_included P now included st =
     (if included = [] then st
      else if length included = 1 then apply_each P now included st
      else case storage_call P (\<lambda>tx. apply_batches (base_env P) tx (map fst included) now) st of
             (results, st1) \<Rightarrow>
               if \<forall>r \<in> set results. \<not> isl r
               then fold (\<lambda>((_, reply), r). answer_batch (feed P) reply r) (zip included results) st1
               else apply_each P now included st1)"

definition apply_group :: "(redb_error \<Rightarrow> string) \<Rightarrow> ('c, 'b, 'd, 'l, 'm, 'o) engine_env \<Rightarrow> apply_job list \<Rightarrow> i64
    \<Rightarrow> ('c, 'b, 'd, 'l, 'm, 'o) applier \<Rightarrow> ('c, 'b, 'd, 'l, 'm, 'o) applier" where
  "apply_group to_string P jobs now st =
     (case pre_read P (\<Union>(ops, _) \<in> set jobs. ids_needing_pre_state ops) st of
        (Inl e, st1) \<Rightarrow> fold (\<lambda>(_, reply). send_reply reply (BatchReply (Inl (group_pre_read_error to_string e)))) jobs st1
      | (Inr base_pre, st1) \<Rightarrow>
          (case include_jobs base_pre jobs Map.empty [] st1 of
             (included, st2) \<Rightarrow> apply_included P now included st2))"

section \<open>The loop\<close>

definition MAX_GROUP_JOBS :: nat where
  "MAX_GROUP_JOBS = 16"

definition MAX_GROUP_OPS :: nat where
  "MAX_GROUP_OPS = 4096"

fun drain_group :: "apply_job list \<Rightarrow> nat \<Rightarrow> job list \<Rightarrow> apply_job list \<times> job option \<times> job list" where
  "drain_group jobs total_ops [] = (jobs, None, [])"
| "drain_group jobs total_ops (j # rx) =
     (if length jobs < MAX_GROUP_JOBS \<and> total_ops < MAX_GROUP_OPS
      then case j of
             Apply ops None reply \<Rightarrow> drain_group (jobs @ [(ops, reply)]) (total_ops + length ops) rx
           | other \<Rightarrow> (jobs, Some other, rx)
      else (jobs, None, j # rx))"

definition write_meta :: "('m, string, bytes) table_ops \<Rightarrow> tx \<Rightarrow> string \<Rightarrow> bytes
    \<Rightarrow> ('b, 'd, 'l, 'm, 'o, 'z) store_scheme \<Rightarrow> unit result \<times> ('b, 'd, 'l, 'm, 'o, 'z) store_scheme" where
  "write_meta M tx key v st =
     (case rbind (redb (tx_begin tx)) (\<lambda>_.
           rbind (redb (tinsert M (meta st) key v)) (\<lambda>t.
           rbind (redb (tx_commit tx)) (\<lambda>_. Inr t))) of
        Inl e \<Rightarrow> (Inl e, st)
      | Inr t \<Rightarrow> (Inr (), st\<lparr>meta := t\<rparr>))"

definition read_meta :: "('m, string, bytes) table_ops \<Rightarrow> redb_error + unit \<Rightarrow> string
    \<Rightarrow> ('b, 'd, 'l, 'm, 'o, 'z) store_scheme \<Rightarrow> bytes option result" where
  "read_meta M begin_read key st = rbind (redb begin_read) (\<lambda>_. redb (tget M (meta st) key))"

definition compact_through :: "('b, 'd, 'l, 'm, 'o) env \<Rightarrow> tx \<Rightarrow> u64 \<Rightarrow> ('b, 'd, 'l, 'm, 'o, 'z) store_scheme
    \<Rightarrow> unit result \<times> ('b, 'd, 'l, 'm, 'o, 'z) store_scheme" where
  "compact_through E tx keep_from st =
     (case compact_ops_through (eO E) (eM E) tx keep_from (ops_table st) (meta st) of
        Inl e \<Rightarrow> (Inl e, st)
      | Inr (t, m) \<Rightarrow> (Inr (), st\<lparr>ops_table := t, meta := m\<rparr>))"

definition rebuild_call :: "('c, 'b, 'd, 'l, 'm, 'o) engine_env \<Rightarrow> ('c, 'b, 'd, 'l, 'm, 'o) applier
    \<Rightarrow> unit result \<times> ('c, 'b, 'd, 'l, 'm, 'o) applier" where
  "rebuild_call P st =
     (let n = ticks st in
      case rebuild_state_from_ops (rebuild_params P) (hash_order P) (base_env P) (io P n) (io P (n + 1))
             (tx_begin (io P (n + 2))) (disk st) of
        (r, db) \<Rightarrow> (r, st\<lparr>disk := db, ticks := n + 3\<rparr>))"

definition apply_drained :: "(redb_error \<Rightarrow> string) \<Rightarrow> ('c, 'b, 'd, 'l, 'm, 'o) engine_env \<Rightarrow> apply_job list
    \<Rightarrow> ('c, 'b, 'd, 'l, 'm, 'o) applier \<Rightarrow> ('c, 'b, 'd, 'l, 'm, 'o) applier" where
  "apply_drained to_string P jobs st =
     (let now = clock P (ticks st) in
      case jobs of
        [(ops, reply)] \<Rightarrow> apply_one_job P ops now reply st
      | _ \<Rightarrow> apply_group to_string P jobs now st)"

text \<open>One pass of the loop on a job that was taken: what is left of the channel, and the job popped but not served.\<close>

fun serve :: "(redb_error \<Rightarrow> string) \<Rightarrow> ('c, 'b, 'd, 'l, 'm, 'o) engine_env \<Rightarrow> job \<Rightarrow> job list \<Rightarrow> ('c, 'b, 'd, 'l, 'm, 'o) applier
    \<Rightarrow> job option \<times> job list \<times> ('c, 'b, 'd, 'l, 'm, 'o) applier" where
  "serve to_string P (Apply ops None reply) rx st =
     (case drain_group [(ops, reply)] (length ops) rx of
        (jobs, held, rx') \<Rightarrow> (held, rx', apply_drained to_string P jobs st))"
| "serve to_string P (Apply ops (Some now) reply) rx st = (None, rx, apply_one_job P ops now reply st)"
| "serve to_string P (RebuildJob reply) rx st =
     (case rebuild_call P st of (r, st') \<Rightarrow> (None, rx, send_reply reply (UnitReply r) st'))"
| "serve to_string P (BumpCounters bumps) rx st =
     (None, rx, snd (storage_call P (\<lambda>tx. merge_counter_bumps (base_env P) (pc_stats P) tx bumps) st))"
| "serve to_string P (Compact keep_from reply) rx st =
     (case storage_call P (\<lambda>tx. compact_through (base_env P) tx keep_from) st of
        (r, st') \<Rightarrow> (None, rx, send_reply reply (UnitReply r) st'))"
| "serve to_string P (MetaJob key v reply) rx st =
     (case storage_call P (\<lambda>tx. write_meta (eM (base_env P)) tx key v) st of
        (r, st') \<Rightarrow> (None, rx, send_reply reply (UnitReply r) st'))"

lemma drain_group_shorter: "drain_group jobs n rx = (js, held, rx') \<Longrightarrow> length rx' + (case held of None \<Rightarrow> 0 | Some _ \<Rightarrow> 1) \<le> length rx"
  by (induction jobs n rx rule: drain_group.induct) (auto split: if_splits job.splits option.splits)

definition take_job :: "job option \<Rightarrow> job list \<Rightarrow> (job \<times> job list) option" where
  "take_job held rx = (case held of Some j \<Rightarrow> Some (j, rx) | None \<Rightarrow> (case rx of [] \<Rightarrow> None | j # rx' \<Rightarrow> Some (j, rx')))"

lemma serve_shorter:
  "serve S P j rx st = (held, rx', st') \<Longrightarrow> length rx' + (case held of None \<Rightarrow> 0 | Some _ \<Rightarrow> 1) \<le> length rx"
  by (cases "(S, P, j, rx, st)" rule: serve.cases) (auto split: prod.splits dest: drain_group_shorter)

lemma take_job_shorter:
  "take_job held rx = Some (j, rx1) \<Longrightarrow> length rx1 < length rx + (case held of None \<Rightarrow> 0 | Some _ \<Rightarrow> 1)"
  by (auto simp: take_job_def split: option.splits list.splits)

text \<open>The loop after the last client is gone: it serves what is left and ends.\<close>

function run_applier :: "(redb_error \<Rightarrow> string) \<Rightarrow> ('c, 'b, 'd, 'l, 'm, 'o) engine_env \<Rightarrow> job option \<Rightarrow> job list
    \<Rightarrow> ('c, 'b, 'd, 'l, 'm, 'o) applier \<Rightarrow> ('c, 'b, 'd, 'l, 'm, 'o) applier" where
  "run_applier S P held rx st =
     (case take_job held rx of
        None \<Rightarrow> st
      | Some (j, rx1) \<Rightarrow> (case serve S P j rx1 st of (held', rx', st') \<Rightarrow> run_applier S P held' rx' st'))"
  by pat_completeness auto
termination
  by (relation "measure (\<lambda>(S, P, held, rx, st). length rx + (case held of None \<Rightarrow> 0 | Some _ \<Rightarrow> 1))")
     (simp, fastforce dest: take_job_shorter serve_shorter split: prod.splits)

declare run_applier.simps [simp del]

section \<open>Every client is answered\<close>

fun reply_ids :: "job \<Rightarrow> nat list" where
  "reply_ids (Apply _ _ r) = [r]"
| "reply_ids (RebuildJob r) = [r]"
| "reply_ids (BumpCounters _) = []"
| "reply_ids (Compact _ r) = [r]"
| "reply_ids (MetaJob _ _ r) = [r]"

abbreviation answered :: "('c, 'b, 'd, 'l, 'm, 'o) applier \<Rightarrow> nat list" where
  "answered st \<equiv> map fst (replies st)"

definition waiting_ids :: "job option \<Rightarrow> job list \<Rightarrow> nat list" where
  "waiting_ids held rx = concat (map reply_ids ((case held of None \<Rightarrow> [] | Some j \<Rightarrow> [j]) @ rx))"

lemma send_reply_answered [simp]: "answered (send_reply r x st) = answered st @ [r]"
  by (simp add: send_reply_def)

lemma storage_call_answered: "storage_call P f st = (r, st') \<Longrightarrow> replies st' = replies st"
  by (auto simp: storage_call_def split: prod.splits)

lemma storage_call_snd: "replies (snd (storage_call P f st)) = replies st"
  by (simp add: storage_call_def split: prod.split)

lemma answer_batch_answered [simp]: "answered (answer_batch C r x st) = answered st @ [r]"
  by (simp add: answer_batch_def split: sum.split)

lemma apply_one_job_answered [simp]: "answered (apply_one_job P ops now r st) = answered st @ [r]"
  by (auto simp: apply_one_job_def pre_read_def split: prod.splits sum.splits dest!: storage_call_answered)

lemma apply_each_answered [simp]: "answered (apply_each P now js st) = answered st @ map snd js"
  by (induction js arbitrary: st) (auto simp: apply_each_def)

lemma include_jobs_answered:
  "include_jobs base js ov inc st = (inc', st') \<Longrightarrow>
     mset (answered st') + mset (map snd inc') = mset (answered st) + mset (map snd inc) + mset (map snd js)"
  by (induction base js ov inc st rule: include_jobs.induct) (auto split: sum.splits)

lemma apply_batches_results: "apply_batches E tx gs now st = (rs, st') \<Longrightarrow> length rs = length gs"
proof (cases "gs = []")
  case False
  assume "apply_batches E tx gs now st = (rs, st')"
  then show ?thesis using False
  proof (cases rule: apply_batches_cases)
    case (abort idx e st1)
    from run_groups_index [OF abort(1)] abort(2) show ?thesis by (simp add: group_errors_def)
  next
    case (committed bs st1)
    then show ?thesis using run_groups_length [OF committed(1)] by simp
  qed (use False in \<open>auto simp: group_errors_def neq_Nil_conv\<close>)
qed (simp add: apply_batches_def)

lemma answers_answered:
  "length js = length rs \<Longrightarrow>
     answered (fold (\<lambda>((_, reply), r). answer_batch C reply r) (zip js rs) st) = answered st @ map snd js"
  by (induction js rs arbitrary: st rule: list_induct2) auto

lemma apply_included_answered [simp]: "answered (apply_included P now js st) = answered st @ map snd js"
proof (cases "js = [] \<or> length js = 1")
  case False
  obtain rs st1 where run: "storage_call P (\<lambda>tx. apply_batches (base_env P) tx (map fst js) now) st = (rs, st1)" by fastforce
  then have "length js = length rs" by (auto simp: storage_call_def dest!: apply_batches_results split: prod.splits)
  with False run storage_call_answered [OF run] show ?thesis by (auto simp: apply_included_def answers_answered)
qed (auto simp: apply_included_def)

lemma fold_reject_answered: "answered (fold (\<lambda>(_, reply). send_reply reply (f reply)) js st) = answered st @ map snd js"
  by (induction js arbitrary: st) auto

lemma apply_group_answered: "mset (answered (apply_group S P js now st)) = mset (answered st) + mset (map snd js)"
proof -
  obtain r st1 where pre: "pre_read P (\<Union>(ops, _) \<in> set js. ids_needing_pre_state ops) st = (r, st1)" by fastforce
  have same: "replies st1 = replies st" using pre by (simp add: pre_read_def storage_call_answered)
  show ?thesis
  proof (cases r)
    case (Inl e)
    with pre same show ?thesis by (simp add: apply_group_def fold_reject_answered del: mset_map)
  next
    case (Inr base)
    obtain inc st2 where i: "include_jobs base js Map.empty [] st1 = (inc, st2)" by fastforce
    with pre Inr have "answered (apply_group S P js now st) = answered st2 @ map snd inc" by (simp add: apply_group_def)
    with include_jobs_answered [OF i] same show ?thesis by (simp del: mset_map)
  qed
qed

lemma drain_group_ids:
  "drain_group jobs n rx = (js, held, rx') \<Longrightarrow> map snd js @ waiting_ids held rx' = map snd jobs @ waiting_ids None rx"
  by (induction jobs n rx rule: drain_group.induct) (auto simp: waiting_ids_def split: if_splits job.splits option.splits)

lemma apply_drained_answered: "mset (answered (apply_drained S P js st)) = mset (answered st) + mset (map snd js)"
  by (auto simp: apply_drained_def apply_group_answered Let_def simp del: mset_map split: list.split prod.split)

lemma serve_answers:
  assumes "serve S P j rx st = (held, rx', st')"
  shows "mset (answered st') + mset (waiting_ids held rx') = mset (answered st) + mset (reply_ids j) + mset (waiting_ids None rx)"
proof (cases "(S, P, j, rx, st)" rule: serve.cases)
  case (1 S P ops r rx st)
  obtain js h q where d: "drain_group [(ops, r)] (length ops) rx = (js, h, q)" by (metis prod_cases3)
  from drain_group_ids [OF d] have "mset (map snd js) + mset (waiting_ids h q) = mset [r] + mset (waiting_ids None rx)"
    by (metis list.simps(8,9) mset_append snd_conv)
  with 1 d assms apply_drained_answered [of S P js st] show ?thesis by (auto simp del: mset_map)
qed (use assms in \<open>auto simp: waiting_ids_def rebuild_call_def Let_def storage_call_snd dest!: storage_call_answered
      simp del: mset_map split: prod.splits\<close>)

section \<open>Clients and the thread together\<close>

text \<open>
  Clients and the thread interleave: a client puts a job on the channel while it has room (a send on a full channel
  blocks), the thread makes a pass of its loop, a client subscribes, and when the last handle is dropped the channel
  closes. A pass reads the channel several times; jobs that arrive meanwhile count as there before the pass if it takes
  them and as there after it if not, so a pass is one step.
\<close>

record ('c, 'b, 'd, 'l, 'm, 'o) server =
  core :: "('c, 'b, 'd, 'l, 'm, 'o) applier"
  rx :: "job list"
  held :: "job option"
  is_open :: bool

definition CHANNEL_BOUND :: nat where
  "CHANNEL_BOUND = 256"

definition subscribe :: "(nat \<Rightarrow> 'c) \<Rightarrow> nat \<Rightarrow> ('c, 'b, 'd, 'l, 'm, 'o) applier \<Rightarrow> ('c, 'b, 'd, 'l, 'm, 'o) applier" where
  "subscribe bounded capacity st = st\<lparr>subs := subs st @ [bounded (max capacity 1)]\<rparr>"

text \<open>
  What a client call puts on the channel, given the reply channel it made. A handle that was shut down has no sender.
\<close>

definition enqueue :: "bool \<Rightarrow> job \<Rightarrow> job result" where
  "enqueue sender j = (if sender then Inr j else Inl Closed)"

definition submit_inner :: "bool \<Rightarrow> op list \<Rightarrow> i64 option \<Rightarrow> nat \<Rightarrow> job result" where
  "submit_inner sender ops at_ms reply = enqueue sender (Apply ops at_ms reply)"

definition submit :: "bool \<Rightarrow> op list \<Rightarrow> nat \<Rightarrow> job result" where
  "submit sender ops reply = submit_inner sender ops None reply"

definition submit_at :: "bool \<Rightarrow> op list \<Rightarrow> i64 \<Rightarrow> nat \<Rightarrow> job result" where
  "submit_at sender ops now_ms reply = submit_inner sender ops (Some now_ms) reply"

definition compact_ops :: "bool \<Rightarrow> u64 \<Rightarrow> nat \<Rightarrow> job result" where
  "compact_ops sender keep_from reply = enqueue sender (Compact keep_from reply)"

definition db_rebuild :: "bool \<Rightarrow> nat \<Rightarrow> job result" where
  "db_rebuild sender reply = enqueue sender (RebuildJob reply)"

definition RESERVED :: "string list" where
  "RESERVED = [''format_version'', ''hnsw_params'', ''index_spec'']"

definition set_meta :: "bool \<Rightarrow> string \<Rightarrow> bytes \<Rightarrow> nat \<Rightarrow> job result" where
  "set_meta sender key v reply =
     (if key \<in> set RESERVED then Inl (Rejected ''META key is reserved for the engine and cannot be set via set_meta'')
      else enqueue sender (MetaJob key v reply))"

inductive serves :: "(redb_error \<Rightarrow> string) \<Rightarrow> (nat \<Rightarrow> 'c) \<Rightarrow> ('c, 'b, 'd, 'l, 'm, 'o) engine_env \<Rightarrow> ('c, 'b, 'd, 'l, 'm, 'o) server
    \<Rightarrow> job list \<Rightarrow> ('c, 'b, 'd, 'l, 'm, 'o) server \<Rightarrow> bool"
  for S bounded P sv where
  start: "serves S bounded P sv [] sv"
| submit: "serves S bounded P sv js sv1 \<Longrightarrow> is_open sv1 \<Longrightarrow> length (rx sv1) < CHANNEL_BOUND \<Longrightarrow>
    serves S bounded P sv (js @ [j]) (sv1\<lparr>rx := rx sv1 @ [j]\<rparr>)"
| listen: "serves S bounded P sv js sv1 \<Longrightarrow> is_open sv1 \<Longrightarrow>
    serves S bounded P sv js (sv1\<lparr>core := subscribe bounded n (core sv1)\<rparr>)"
| pass: "serves S bounded P sv js sv1 \<Longrightarrow> take_job (held sv1) (rx sv1) = Some (j, q) \<Longrightarrow>
    serve S P j q (core sv1) = (h, q', st') \<Longrightarrow>
    serves S bounded P sv js (sv1\<lparr>core := st', rx := q', held := h\<rparr>)"
| close: "serves S bounded P sv js sv1 \<Longrightarrow> serves S bounded P sv js (sv1\<lparr>is_open := False\<rparr>)"

definition idle_server :: "('c, 'b, 'd, 'l, 'm, 'o) applier \<Rightarrow> ('c, 'b, 'd, 'l, 'm, 'o) server" where
  "idle_server st = \<lparr>core = st, rx = [], held = None, is_open = True\<rparr>"

lemma take_job_ids:
  "take_job h q = Some (j, q') \<Longrightarrow> waiting_ids h q = reply_ids j @ waiting_ids None q'"
  by (auto simp: take_job_def waiting_ids_def split: option.splits list.splits)

lemma serves_answers:
  assumes "serves S bounded P sv js sv'"
  shows "mset (answered (core sv')) + mset (waiting_ids (held sv') (rx sv')) =
    mset (answered (core sv)) + mset (waiting_ids (held sv) (rx sv)) + mset (concat (map reply_ids js))"
  using assms
proof (induction rule: serves.induct)
  case (pass js sv1 j q h q' st')
  from serve_answers [OF pass(3)] take_job_ids [OF pass(2)] pass(4) show ?case by (simp add: ac_simps del: mset_map)
next
  case (submit js sv1 j)
  then show ?case by (simp add: waiting_ids_def del: mset_map)
qed (simp_all add: subscribe_def del: mset_map)

lemma run_applier_answers:
  "mset (answered (run_applier S P h q st)) = mset (answered st) + mset (waiting_ids h q)"
proof (induction S P h q st rule: run_applier.induct)
  case (1 S P h q st)
  show ?case
  proof (cases "take_job h q")
    case None
    then have "waiting_ids h q = []" by (auto simp: take_job_def waiting_ids_def split: option.splits list.splits)
    with None show ?thesis by (simp add: run_applier.simps)
  next
    case (Some p)
    obtain j q1 where p: "p = (j, q1)" by fastforce
    obtain h' q' st' where s: "serve S P j q1 st = (h', q', st')" by (metis prod_cases3)
    from 1 [OF Some p [symmetric] s [symmetric] refl] serve_answers [OF s] take_job_ids [OF Some [unfolded p]] show ?thesis
      by (subst run_applier.simps) (simp add: Some p s del: mset_map)
  qed
qed

text \<open>C7. Every client gets exactly one answer. However submissions and passes of the loop interleave, the replies
  sent and the reply channels of the jobs still waiting are together exactly those of the jobs submitted; and once the
  channel is closed the loop ends with every one of them answered.\<close>

theorem applier_answers_once:
  assumes "serves S bounded P (idle_server st) js sv"
  shows "mset (answered (core sv)) + mset (waiting_ids (held sv) (rx sv)) = mset (answered st) + mset (concat (map reply_ids js)) \<and>
    mset (answered (run_applier S P (held sv) (rx sv) (core sv))) = mset (answered st) + mset (concat (map reply_ids js))"
  using serves_answers [OF assms] run_applier_answers [of S P "held sv" "rx sv" "core sv"]
  by (simp add: idle_server_def waiting_ids_def del: mset_map)

section \<open>An engine in memory\<close>

type_synonym tree_engine = "(change_event list_chan, (bytes, bytes) rbt, (bytes, string) rbt, (bytes, u64) rbt, (string, bytes) rbt,
  (u64, bytes) rbt) engine_env"

type_synonym tree_applier = "(change_event list_chan, (bytes, bytes) rbt, (bytes, string) rbt, (bytes, u64) rbt, (string, bytes) rbt,
  (u64, bytes) rbt) applier"

definition tree_engine :: tree_engine where
  "tree_engine = \<lparr>base_env = tree_env, rebuild_params = tree_rebuild, pc_stats = fixed_stats, feed = list_chan,
     hash_order = sorted_list_of_set, io = (\<lambda>_. tx_ok), clock = (\<lambda>_. 0)\<rparr>"

definition empty_applier :: tree_applier where
  "empty_applier = \<lparr>disk = empty_database, subs = [], replies = [], ticks = 0\<rparr>"

definition new_list_chan :: "nat \<Rightarrow> 'a list_chan" where
  "new_list_chan n = (n, [], True)"

theorem applier_answers_once_witness:
  "\<exists>sv. serves (\<lambda>_. []) new_list_chan tree_engine (idle_server empty_applier)
       [Apply [RemoveNode (NodeId 5)] None 1, MetaJob ''onboarding:a'' [] 2] sv \<and> rx sv \<noteq> [] \<and>
     mset (answered (run_applier (\<lambda>_. []) tree_engine (held sv) (rx sv) (core sv))) = {#1, 2#}"
proof -
  let ?S = "(\<lambda>_. []) :: redb_error \<Rightarrow> string" and ?sv = "idle_server empty_applier"
  let ?j = "Apply [RemoveNode (NodeId 5)] None 1" and ?k = "MetaJob ''onboarding:a'' [] 2"
  have "serves ?S new_list_chan tree_engine ?sv ([] @ [?j]) (?sv\<lparr>rx := rx ?sv @ [?j]\<rparr>)"
    by (intro serves.intros) (simp_all add: idle_server_def CHANNEL_BOUND_def)
  from serves.submit [OF this, of ?k]
  have "serves ?S new_list_chan tree_engine ?sv [?j, ?k] (?sv\<lparr>rx := [?j, ?k]\<rparr>)"
    by (simp add: idle_server_def CHANNEL_BOUND_def)
  with applier_answers_once [OF this] show ?thesis
    by (intro exI [of _ "?sv\<lparr>rx := [?j, ?k]\<rparr>"]) (simp add: empty_applier_def del: mset_map)
qed

section \<open>A key the engine does not protect\<close>

text \<open>The slot counter is not among the reserved keys. A client that sets it back makes the engine hand out a slot
  in use: the next node created overwrites the record of another, which is then read back as the new node.\<close>

theorem slot_counter_clobbered:
  "set_meta True ''next_node_slot'' (u64_to_le 0) 2 = Inr (MetaJob ''next_node_slot'' (u64_to_le 0) 2) \<and>
   (\<exists>(db1 :: tree_database) db2 db3. apply_op tree_env (CreateNode (NodeId 7) Shared ''Memory'' []) empty_database = (Inr (), db1) \<and>
     write_meta rbt_ops tx_ok ''next_node_slot'' (u64_to_le 0) db1 = (Inr (), db2) \<and>
     apply_op tree_env (CreateNode (NodeId 8) Shared ''Memory'' []) db2 = (Inr (), db3) \<and>
     map_option n_id (projr (read_node tree_env db3 (NodeId 7))) = Some (NodeId 8))"
  by (simp add: set_meta_def RESERVED_def enqueue_def apply_create_node_def write_meta_def tx_ok_def run_store)

end
