(* ===== verification/Feed.thy ===== *)
theory Feed
  imports Applier
begin

text \<open>
  The change feed against the log. Every pass of the applier appends to the log exactly the operations it broadcasts,
  numbered as they are in the log, so a client that notes the current sequence number, subscribes and later replays
  the log from there has in its channel exactly what the replay returns.
\<close>

section \<open>What leaves the log alone\<close>

definition log_view :: "('m \<Rightarrow> string \<rightharpoonup> bytes) \<Rightarrow> ('b, 'd, 'l, 'm, 'o, 'z) store_scheme \<Rightarrow> 'o \<times> bytes option" where
  "log_view mrows st = (ops_table st, mrows (meta st) ''oldest_seq'')"

definition off_log :: "('m \<Rightarrow> string \<rightharpoonup> bytes) \<Rightarrow> (('b, 'd, 'l, 'm, 'o, 'z) store_scheme, 'a) sm \<Rightarrow> bool" where
  "off_log mrows f \<longleftrightarrow> (\<forall>st. log_view mrows (snd (f st)) = log_view mrows st)"

lemma off_logD: "off_log mrows f \<Longrightarrow> f st = (r, st') \<Longrightarrow> log_view mrows st' = log_view mrows st"
  unfolding off_log_def by (metis snd_conv)

lemma off_mbind: "off_log mrows f \<Longrightarrow> (\<And>x. off_log mrows (g x)) \<Longrightarrow> off_log mrows (mbind f g)"
  unfolding off_log_def mbind_def by (auto split: prod.splits sum.splits) (metis snd_conv)+

lemma off_basic: "off_log mrows (mret x)" "off_log mrows (mread q)" "off_log mrows (mfail e)" "off_log mrows (mget k)"
  "off_log mrows (mlift r)"
  by (simp_all add: off_log_def monad_simps)

lemma off_more:
  fixes f :: "(('b, 'd, 'l, 'm, 'o, 'z) store_scheme, 'a) sm"
  assumes "leaves_more f"
  shows "off_log mrows f"
  unfolding off_log_def
proof (intro allI)
  fix st :: "('b, 'd, 'l, 'm, 'o, 'z) store_scheme"
  from assms have m: "interning.more (snd (f st)) = interning.more st" by (simp add: leaves_more_def)
  then have "ops_table (snd (f st)) = ops_table st" by (cases st; cases "snd (f st)") simp
  with more_fields(11) [OF m] show "log_view mrows (snd (f st)) = log_view mrows st" by (simp add: log_view_def)
qed

lemma off_interning: "off_log mrows (dict_intern D k s)" "off_log mrows (registry_intern B c)"
  "off_log mrows (node_to_disk_v3 B D r)" "off_log mrows (edge_to_disk_v4 B D slots x)"
  by (intro off_more leaves_more_basic leaves_more_encoders)+

lemma off_mupd:
  "(\<And>st x st'. f st = Inr (x, st') \<Longrightarrow> log_view mrows st' = log_view mrows st) \<Longrightarrow> off_log mrows (mupd f)"
  by (auto simp: off_log_def mupd_def split: sum.split)

lemma off_mmod: "(\<And>st. log_view mrows (f st) = log_view mrows st) \<Longrightarrow> off_log mrows (mmod f)"
  by (simp add: off_log_def mmod_def)

lemma off_cases:
  "off_log mrows m \<Longrightarrow> off_log mrows n \<Longrightarrow> off_log mrows (if b then m else n)"
  "off_log mrows m \<Longrightarrow> (\<And>x. off_log mrows (k x)) \<Longrightarrow> off_log mrows (case y of None \<Rightarrow> m | Some x \<Rightarrow> k x)"
  "(\<And>x z. off_log mrows (h x z)) \<Longrightarrow> off_log mrows (case p of (x, z) \<Rightarrow> h x z)"
  by (simp_all split: option.split prod.split)

lemma off_mfold: "(\<And>x. off_log mrows (f x)) \<Longrightarrow> off_log mrows (mfold f xs)"
  by (induction xs) (auto simp: off_basic intro: off_mbind)

lemmas off_intros = off_mbind off_basic off_interning off_cases off_mfold

lemma off_put: "off_log mrows (put_node E r)" "off_log mrows (put_edge E x)"
  unfolding put_node_def put_edge_def
  by (intro off_intros off_mupd; auto simp: rbind_Inr log_view_def)+

lemma off_run_hnsw: "off_log mrows (run_hnsw f)"
  unfolding run_hnsw_def by (rule off_mupd) (auto simp: rbind_Inr log_view_def)

lemma off_hnsw: "off_log mrows (maybe_rebuild_cluster E m s)" "off_log mrows (apply_hnsw_set_embedding E old m s slot i v)"
  unfolding maybe_rebuild_cluster_def apply_hnsw_set_embedding_def by (intro off_run_hnsw off_intros)+

lemma off_found: "off_log mrows (found_node E msg i)" "off_log mrows (found_slot E e i)"
  unfolding found_node_def found_slot_def by (rule off_basic)+

text \<open>The slot counters are the only rows of the meta table an operation writes.\<close>

lemma alloc_floor:
  assumes "redb_table M mrows" "alloc M R mt fw rv counter i = Inr (s, mt', fw', rv')" "counter \<noteq> ''oldest_seq''"
  shows "mrows mt' ''oldest_seq'' = mrows mt ''oldest_seq''"
  using assms redb_table.insert_ok [OF assms(1)] by (auto simp: alloc_def rbind_Inr split: option.splits)

lemmas off_parts = off_put off_found off_run_hnsw off_hnsw off_intros

lemma off_create_node: "redb_table (eM E) mrows \<Longrightarrow> off_log mrows (apply_create_node E i sc l ps)"
  unfolding apply_create_node_def
  by (intro off_parts off_mupd) (auto simp: rbind_Inr log_view_def alloc_node_slot_def dest: alloc_floor)

lemma off_set_node_props: "off_log mrows (apply_set_node_props E i ups)"
  unfolding apply_set_node_props_def by (intro off_parts)

lemma off_set_embedding: "off_log mrows (apply_set_embedding E i m v)"
  unfolding apply_set_embedding_def by (intro off_parts off_mupd) (auto simp: rbind_Inr log_view_def)

lemma off_remove_parts: "off_log mrows (remove_node_row E i s)" "off_log mrows (remove_node_vector E s)"
  "off_log mrows (remove_edge_row E s)" "off_log mrows (drop_counterpart E b t ty e)"
  unfolding remove_node_row_def remove_node_vector_def remove_edge_row_def drop_counterpart_def
  by (intro off_parts off_mupd; auto simp: rbind_Inr log_view_def split: if_splits)+

lemma off_cascade: "off_log mrows (cascade E b s es seen)"
  by (induction E b s es seen rule: cascade.induct) (auto intro!: off_intros off_remove_parts)

lemma off_remove_node: "off_log mrows (apply_remove_node E i)"
  unfolding apply_remove_node_def
  by (intro off_parts off_remove_parts off_cascade off_mupd) (auto simp: rbind_Inr log_view_def)

lemma off_adjacency: "off_log mrows (insert_adjacency E f t ty s sc vf)" "off_log mrows (close_adjacency E f t ty s vt)"
  unfolding insert_adjacency_def close_adjacency_def
  by (intro off_parts off_mupd; auto simp: rbind_Inr log_view_def)+

lemma off_create_edge: "redb_table (eM E) mrows \<Longrightarrow> off_log mrows (apply_create_edge E i sc ty f t ps vf ra)"
  unfolding apply_create_edge_def
  by (intro off_parts off_adjacency off_mupd) (auto simp: rbind_Inr log_view_def alloc_edge_slot_def dest: alloc_floor)

lemma off_close_edge: "off_log mrows (apply_close_edge E i vt sa)"
  unfolding apply_close_edge_def Let_def by (intro off_parts off_adjacency)

lemma off_apply_op: "redb_table (eM E) mrows \<Longrightarrow> off_log mrows (apply_op E x)"
  by (cases x) (simp_all add: off_basic off_create_node off_set_node_props off_set_embedding off_remove_node
      off_create_edge off_close_edge)

lemma off_indexing: "off_log mrows (unindex_old E old)" "off_log mrows (index_new E x)"
  "off_log mrows (collect_edit E missing x pre)" "off_log mrows (apply_fts_edit E ed)"
proof -
  show "off_log mrows (unindex_old E old)"
    unfolding unindex_old_def
    by (intro off_intros off_mupd) (auto simp: rbind_Inr log_view_def split: option.splits)
  have "off_log mrows (mupd (\<lambda>st. rbind (reindex E i st) (\<lambda>t. Inr ((), st\<lparr>prop_table := t\<rparr>))))" for i
    by (rule off_mupd) (auto simp: rbind_Inr log_view_def)
  then show "off_log mrows (index_new E x)" by (cases x) (simp_all add: index_new_def off_basic)
  show "off_log mrows (collect_edit E missing x pre)"
    unfolding collect_edit_def by (intro off_found off_intros)
  show "off_log mrows (apply_fts_edit E ed)"
    unfolding apply_fts_edit_def by (intro off_intros off_mupd) (auto simp: rbind_Inr log_view_def)
qed

lemma off_apply_all: "redb_table (eM E) mrows \<Longrightarrow> off_log mrows (apply_all E xs eds)"
  by (induction E xs eds rule: apply_all.induct)
     (auto simp: apply_one_def intro!: off_intros off_apply_op off_indexing)

lemma off_replay: "redb_table (eM E) mrows \<Longrightarrow> off_log mrows (replay_row E kv)"
  unfolding replay_row_def replay_one_def
  by (intro off_intros off_apply_op off_indexing)

section \<open>A batch is logged as it is resolved\<close>

definition logs :: "('b, 'd, 'l, 'm, 'o) env \<Rightarrow> ('o \<Rightarrow> u64 \<rightharpoonup> bytes) \<Rightarrow> ('m \<Rightarrow> string \<rightharpoonup> bytes) \<Rightarrow> op list
    \<Rightarrow> ('b, 'd, 'l, 'm, 'o, 'z) store_scheme \<Rightarrow> bool" where
  "logs E orows mrows h st \<longleftrightarrow> log_inv (pc_op E) (orows (ops_table st)) (mrows (meta st)) h"

lemma floor_is_cong: "m ''oldest_seq'' = m' ''oldest_seq'' \<Longrightarrow> floor_is m lo \<longleftrightarrow> floor_is m' lo"
  by (simp add: floor_is_def)

lemma logs_view:
  fixes st st' :: "('b, 'd, 'l, 'm, 'o, 'z) store_scheme"
  assumes "log_view mrows st' = log_view mrows st"
  shows "logs E orows mrows h st' \<longleftrightarrow> logs E orows mrows h st"
  using assms floor_is_cong [of "mrows (meta st')" "mrows (meta st)"] by (simp add: logs_def log_view_def log_inv_def)

definition events_from :: "nat \<Rightarrow> op list \<Rightarrow> change_event list" where
  "events_from n xs = map (\<lambda>(s, x). \<lparr>seq = s, ev_op = x\<rparr>) (numbered n xs)"

lemma events_from_append: "events_from n (xs @ ys) = events_from n xs @ events_from (n + length xs) ys"
  by (rule nth_equalityI) (auto simp: events_from_def numbered_def nth_append nth_enumerate_eq enumerate_append_eq)

lemma batch_events_from: "unat (first_seq b) = n \<Longrightarrow> batch_events b = events_from n (resolved b)"
  by (auto simp: batch_events_def events_from_def numbered_def)

lemma rewritten_length: "rfold (rewrite_step E st) xs rs = Inr rs' \<Longrightarrow> length (rewritten rs') \<le> length (rewritten rs) + length xs"
proof (induction xs arbitrary: rs)
  case (Cons x xs)
  then obtain rs1 where s: "rewrite_step E st x rs = Inr rs1" and r: "rfold (rewrite_step E st) xs rs1 = Inr rs'"
    by (auto simp: rbind_Inr)
  have "length (rewritten rs1) \<le> length (rewritten rs) + 1"
    using s by (cases x) (auto simp: rbind_Inr split: option.splits)
  with Cons.IH [OF r] show ?case by simp
qed simp

lemma batch_logged:
  fixes st st' :: "('b, 'd, 'l, 'm, 'o, 'z) store_scheme"
  assumes L: "op_log (eO E) orows (eM E) mrows (pc_op E)" and inv: "logs E orows mrows h st"
    and run: "apply_ops_in_txn E now ops st = (Inr b, st')" and room: "length h + length ops + 1 < 2 ^ 64"
  shows "logs E orows mrows (h @ resolved b) st'" "batch_events b = events_from (length h + 1) (resolved b)"
    "length (resolved b) \<le> length ops"
proof -
  have M: "redb_table (eM E) mrows" using L by (simp add: op_log_def)
  from run obtain rs eds s1 s2 fl where w: "rewrite_upserts E st (map (resolve_op now) ops) = Inr rs"
    and a: "apply_all E (rewritten rs) [] st = (Inr eds, s1)" and f: "mfold (apply_fts_edit E) eds s1 = (Inr (), s2)"
    and l: "append_log E (rewritten rs) s2 = (Inr fl, st')"
    and b: "b = \<lparr>first_seq = fst fl, last_seq = snd fl, resolved = rewritten rs, remap = upsert_remap rs\<rparr>"
    by (auto simp: apply_ops_in_txn_def mbind_Inr monad_simps split: if_splits prod.splits)
  have v: "log_view mrows s2 = log_view mrows st"
    using off_logD [OF off_apply_all [OF M] a] off_logD [OF off_mfold [OF off_indexing(4)] f] by simp
  then have inv2: "log_inv (pc_op E) (orows (ops_table s2)) (mrows (meta s2)) h"
    using inv logs_view [OF v] by (simp add: logs_def)
  from l obtain t where t: "append_rewritten E (rewritten rs) (ops_table s2) (meta s2) = Inr (fl, t)" "st' = s2\<lparr>ops_table := t\<rparr>"
    by (auto simp: append_log_def mupd_Inr rbind_Inr)
  show len: "length (resolved b) \<le> length ops"
    using rewritten_length [OF w [unfolded rewrite_upserts_def]] by (simp add: b)
  from t obtain nxt where n: "next_seq (eO E) (eM E) (ops_table s2) (meta s2) = Inr nxt" by (auto simp: append_rewritten_def rbind_Inr)
  then have "fst fl = nxt" using t by (auto simp: append_rewritten_def rbind_Inr split: if_splits)
  with op_log.next_seq_ok [OF L inv2 n] show "batch_events b = events_from (length h + 1) (resolved b)"
    by (intro batch_events_from) (simp add: b)
  show "logs E orows mrows (h @ resolved b) st'"
  proof (cases "rewritten rs = []")
    case True
    with t n inv2 show ?thesis by (simp add: logs_def b append_rewritten_def)
  next
    case False
    then have "append_ops (eO E) (eM E) (pc_op E) tx_ok (rewritten rs) (ops_table s2) (meta s2) = Inr (fl, t)"
      using t by (auto simp: append_rewritten_def append_ops_def tx_ok_def rbind_Inr)
    from op_log.append_ok(1) [OF L inv2] this len room show ?thesis
      by (cases fl) (simp add: logs_def b t(2))
  qed
qed

lemma run_groups_logged:
  fixes st st' :: "('b, 'd, 'l, 'm, 'o, 'z) store_scheme"
  assumes "op_log (eO E) orows (eM E) mrows (pc_op E)" "logs E orows mrows h st"
    and "run_groups E now idx gs app st = (Inr bs, st')" "length h + length (concat gs) + 1 < 2 ^ 64"
  shows "\<exists>bs'. bs = app @ bs' \<and> logs E orows mrows (h @ concat (map resolved bs')) st' \<and>
    concat (map batch_events bs') = events_from (length h + 1) (concat (map resolved bs')) \<and>
    length (concat (map resolved bs')) \<le> length (concat gs)"
  using assms(2-)
proof (induction gs arbitrary: idx app st h)
  case Nil
  then show ?case by (auto simp: events_from_def numbered_def)
next
  case (Cons g gs)
  from Cons.prems(2) obtain b s1 where one: "apply_ops_in_txn E now g st = (Inr b, s1)"
    and rest: "run_groups E now (idx + 1) gs (app @ [b]) s1 = (Inr bs, st')"
    by (auto split: prod.splits sum.splits)
  note b = batch_logged [OF assms(1) Cons.prems(1) one]
  have room: "length h + length g + 1 < 2 ^ 64" using Cons.prems(3) by simp
  have room': "length (h @ resolved b) + length (concat gs) + 1 < 2 ^ 64" using Cons.prems(3) b(3) [OF room] by simp
  from Cons.IH [OF b(1) [OF room] rest room'] obtain bs' where bs': "bs = (app @ [b]) @ bs'"
    "logs E orows mrows ((h @ resolved b) @ concat (map resolved bs')) st'"
    "concat (map batch_events bs') = events_from (length (h @ resolved b) + 1) (concat (map resolved bs'))"
    "length (concat (map resolved bs')) \<le> length (concat gs)" by blast
  then show ?case
    using b(2,3) [OF room] by (intro exI [of _ "b # bs'"]) (simp add: events_from_append)
qed

lemma logs_journal: "logs E orows mrows h (st\<lparr>i_journal := j\<rparr>) \<longleftrightarrow> logs E orows mrows h st"
  by (simp add: logs_def)

text \<open>The successful batches of a call, in order.\<close>

definition oks :: "('e + 'a) list \<Rightarrow> 'a list" where
  "oks rs = map projr (filter (\<lambda>r. \<not> isl r) rs)"

lemma oks_simps [simp]: "oks [] = []" "oks (Inr b # rs) = b # oks rs" "oks (Inl e # rs) = oks rs"
  "oks (map Inr bs) = bs" "oks (rs @ rs') = oks rs @ oks rs'" "oks (replicate n (Inl e)) = []"
  by (simp_all add: oks_def comp_def)

lemma batches_logged:
  fixes st st' :: "('b, 'd, 'l, 'm, 'o, 'z) store_scheme"
  assumes L: "op_log (eO E) orows (eM E) mrows (pc_op E)" and inv: "logs E orows mrows h st"
    and run: "apply_batches E tx gs now st = (rs, st')" and room: "length h + length (concat gs) + 1 < 2 ^ 64"
  shows "logs E orows mrows (h @ concat (map resolved (oks rs))) st' \<and>
    concat (map batch_events (oks rs)) = events_from (length h + 1) (concat (map resolved (oks rs))) \<and>
    length (concat (map resolved (oks rs))) \<le> length (concat gs)"
proof (cases "gs = []")
  case True
  with run inv show ?thesis by (auto simp: apply_batches_def events_from_def numbered_def)
next
  case False
  have none: "events_from n [] = []" for n by (simp add: events_from_def numbered_def)
  have same: "logs E orows mrows h (rollback st s1) \<longleftrightarrow> logs E orows mrows h st" for s1 :: "('b, 'd, 'l, 'm, 'o, 'z) store_scheme"
    by (simp add: logs_def rollback_def)
  from run False show ?thesis
  proof (cases rule: apply_batches_cases)
    case (committed bs st1)
    from run_groups_logged [OF L _ committed(1) room] inv show ?thesis
      by (auto simp: committed(4,5) logs_journal)
  qed (use inv in \<open>auto simp: group_errors_def none same\<close>)
qed

lemma failed_batches_logs:
  fixes st st' :: "('b, 'd, 'l, 'm, 'o, 'z) store_scheme"
  assumes "apply_batches E tx gs now st = (rs, st')" "\<exists>r \<in> set rs. isl r"
  shows "logs E orows mrows h st' \<longleftrightarrow> logs E orows mrows h st"
proof -
  have "gs \<noteq> []" using assms by (auto simp: apply_batches_def)
  from assms(1) this show ?thesis
    by (cases rule: apply_batches_cases) (use assms(2) in \<open>auto simp: logs_def rollback_def\<close>)
qed

lemma off_mclear: "(\<And>t st. log_view mrows (upd t st) = log_view mrows st) \<Longrightarrow> off_log mrows (mclear T sel upd)"
  unfolding mclear_def by (rule off_mupd) (auto simp: rbind_Inr)

lemma off_forget:
  assumes "redb_table (eM E) mrows" "key \<noteq> ''oldest_seq''"
  shows "off_log mrows (forget_counter E key)"
  unfolding forget_counter_def
  by (rule off_mupd) (use assms in \<open>auto simp: rbind_Inr log_view_def dest: redb_table.remove_ok\<close>)

lemma off_drain: "redb_table (eM E) mrows \<Longrightarrow> off_log mrows (drain_tables E)"
  unfolding drain_tables_def mfold.simps reseed_scopes_def
  by (intro off_intros off_mclear off_forget off_mupd off_mmod) (auto simp: log_view_def rbind_Inr)

lemma off_restore: "off_log mrows (restore_counter E old i)"
  unfolding restore_counter_def
  by (rule off_mupd, cases "old i") (auto simp: rbind_Inr log_view_def split: option.splits)

lemma off_rebuild_body: "redb_table (eM E) mrows \<Longrightarrow> off_log mrows (rebuild_body R ord E)"
  unfolding rebuild_body_def
  by (intro off_intros off_drain off_replay off_restore off_mmod) (simp_all add: log_view_def)

lemma rebuild_logged:
  fixes st st' :: "('b, 'd, 'l, 'm, 'o, 'z) database_scheme"
  assumes M: "redb_table (eM E) mrows" and run: "rebuild_state_from_ops R ord E rtx tx rec st = (r, st')"
  shows "logs E orows mrows h st' \<longleftrightarrow> logs E orows mrows h st"
proof (rule logs_view)
  have body: "log_view mrows s1 = log_view mrows st" if "rebuild_body R ord E st = (x, s1)" for x s1
    by (rule off_logD [OF off_rebuild_body [OF M] that])
  have reload: "log_view mrows (reload_mirrors E rec st s1) = log_view mrows st" for s1
    by (simp add: reload_mirrors_def log_view_def split: sum.split)
  show "log_view mrows st' = log_view mrows st"
    using run body
    by (auto simp: rebuild_state_from_ops_def reload split: sum.splits prod.splits if_splits) (simp_all add: log_view_def)
qed

section \<open>Delivery\<close>

definition deliver :: "('c, change_event) sender_ops \<Rightarrow> change_event list \<Rightarrow> 'c list \<Rightarrow> 'c list" where
  "deliver C evs cs = map snd (filter fst (map (send_events C evs) cs))"

lemma deliver_append_subs: "deliver C evs (cs @ cs') = deliver C evs cs @ deliver C evs cs'"
  by (simp add: deliver_def)

lemma deliver_nil [simp]: "deliver C [] cs = cs"
  by (simp add: deliver_def comp_def)

lemma send_events_append:
  "send_events C (a @ b) s = (case send_events C a s of (True, s') \<Rightarrow> send_events C b s' | (False, s') \<Rightarrow> (False, s'))"
  by (induction C a s rule: send_events.induct) (auto split: prod.split sent.split)

lemma deliver_append: "deliver C (a @ b) cs = deliver C b (deliver C a cs)"
  by (induction cs) (auto simp: deliver_def send_events_append split: prod.splits bool.splits)

lemma broadcast_deliver: "broadcast_batch C b cs = deliver C (batch_events b) cs"
  by (simp add: broadcast_batch_def deliver_def)

text \<open>What a pass does to the log and to the subscribers.\<close>

definition advances :: "('c, 'b, 'd, 'l, 'm, 'o) engine_env \<Rightarrow> ('o \<Rightarrow> u64 \<rightharpoonup> bytes) \<Rightarrow> ('m \<Rightarrow> string \<rightharpoonup> bytes) \<Rightarrow> nat
    \<Rightarrow> ('c, 'b, 'd, 'l, 'm, 'o) applier \<Rightarrow> ('c, 'b, 'd, 'l, 'm, 'o) applier \<Rightarrow> bool" where
  "advances P orows mrows n st st' \<longleftrightarrow> (\<forall>h. logs (base_env P) orows mrows h (disk st) \<longrightarrow> length h + n + 1 < 2 ^ 64 \<longrightarrow>
     (\<exists>xs. length xs \<le> n \<and> logs (base_env P) orows mrows (h @ xs) (disk st') \<and>
       subs st' = deliver (feed P) (events_from (length h + 1) xs) (subs st)))"

lemma advances_trans:
  assumes "advances P orows mrows n s0 s1" "advances P orows mrows k s1 s2"
  shows "advances P orows mrows (n + k) s0 s2"
  unfolding advances_def
proof (intro allI impI)
  fix h
  assume h: "logs (base_env P) orows mrows h (disk s0)" "length h + (n + k) + 1 < 2 ^ 64"
  then obtain xs where xs: "length xs \<le> n" "logs (base_env P) orows mrows (h @ xs) (disk s1)"
    "subs s1 = deliver (feed P) (events_from (length h + 1) xs) (subs s0)"
    using assms(1) unfolding advances_def by fastforce
  with h(2) obtain ys where "length ys \<le> k" "logs (base_env P) orows mrows ((h @ xs) @ ys) (disk s2)"
    "subs s2 = deliver (feed P) (events_from (length (h @ xs) + 1) ys) (subs s1)"
    using assms(2) unfolding advances_def by fastforce
  with xs show "\<exists>zs. length zs \<le> n + k \<and> logs (base_env P) orows mrows (h @ zs) (disk s2) \<and>
      subs s2 = deliver (feed P) (events_from (length h + 1) zs) (subs s0)"
    by (intro exI [of _ "xs @ ys"]) (simp add: events_from_append deliver_append)
qed

lemma advances_still:
  assumes "\<And>h. logs (base_env P) orows mrows h (disk st) \<Longrightarrow> logs (base_env P) orows mrows h (disk st')" "subs st' = subs st"
  shows "advances P orows mrows 0 st st'"
  using assms by (auto simp: advances_def events_from_def numbered_def)

lemma advances_mono: "advances P orows mrows n st st' \<Longrightarrow> n \<le> k \<Longrightarrow> advances P orows mrows k st st'"
  unfolding advances_def by (meson add_mono le_less_trans le_trans order_refl)

lemma answer_batch_advances:
  "disk (answer_batch C r x st) = disk st"
  "subs (answer_batch C r x st) = deliver C (concat (map batch_events (oks [x]))) (subs st)"
  by (cases x; simp add: answer_batch_def send_reply_def broadcast_deliver)+

lemma apply_one_job_advances:
  assumes L: "op_log (eO (base_env P)) orows (eM (base_env P)) mrows (pc_op (base_env P))"
  shows "advances P orows mrows (length ops) st (apply_one_job P ops now r st)"
  unfolding advances_def
proof (intro allI impI)
  fix h
  assume h: "logs (base_env P) orows mrows h (disk st)" and room: "length h + length ops + 1 < 2 ^ 64"
  let ?goal = "\<lambda>st'. \<exists>xs. length xs \<le> length ops \<and> logs (base_env P) orows mrows (h @ xs) (disk st') \<and>
      subs st' = deliver (feed P) (events_from (length h + 1) xs) (subs st)"
  obtain pr s1 where pre: "pre_read P (ids_needing_pre_state ops) st = (pr, s1)" by fastforce
  then have s1: "disk s1 = disk st" "subs s1 = subs st" by (auto simp: pre_read_def storage_call_def)
  have rejected: "?goal (send_reply r x s1)" for x
    by (rule exI [of _ "[]"]) (simp add: send_reply_def s1 h events_from_def numbered_def)
  show "?goal (apply_one_job P ops now r st)"
  proof (cases "(\<exists>e. pr = Inl e) \<or> (\<exists>m e. pr = Inr m \<and> prevalidate m ops = Inl e)")
    case True
    with pre rejected show ?thesis by (auto simp: apply_one_job_def)
  next
    case False
    then obtain m where m: "pr = Inr m" "prevalidate m ops = Inr ()" by (metis old.unit.exhaust sum.exhaust)
    obtain rs db where run: "apply_batches (base_env P) (io P (ticks s1)) [ops] now (disk s1) = (rs, db)" by fastforce
    from batches_logged [OF L h run [unfolded s1(1)]] room have b: "logs (base_env P) orows mrows (h @ concat (map resolved (oks rs))) db"
      "concat (map batch_events (oks rs)) = events_from (length h + 1) (concat (map resolved (oks rs)))"
      "length (concat (map resolved (oks rs))) \<le> length ops" by simp_all
    have one: "rs = [last rs]" using apply_batches_results [OF run] by (cases rs rule: rev_cases) auto
    have "apply_one_job P ops now r st = answer_batch (feed P) r (last rs) (s1\<lparr>disk := db, ticks := ticks s1 + 1\<rparr>)"
      using pre m run by (simp add: apply_one_job_def storage_call_def apply_batch_def)
    with b one s1 show ?thesis
      by (intro exI [of _ "concat (map resolved (oks rs))"]) (simp add: answer_batch_advances)
  qed
qed

lemma apply_each_advances:
  assumes L: "op_log (eO (base_env P)) orows (eM (base_env P)) mrows (pc_op (base_env P))"
  shows "advances P orows mrows (length (concat (map fst js))) st (apply_each P now js st)"
proof (induction js arbitrary: st)
  case Nil
  show ?case by (simp add: apply_each_def advances_still)
next
  case (Cons j js)
  obtain ops r where j: "j = (ops, r)" by fastforce
  from advances_trans [OF apply_one_job_advances [OF L] Cons.IH] show ?case by (simp add: j apply_each_def)
qed

lemma answers_advance:
  assumes "length js = length rs"
  shows "disk (fold (\<lambda>((_, reply), r). answer_batch C reply r) (zip js rs) st) = disk st \<and>
    subs (fold (\<lambda>((_, reply), r). answer_batch C reply r) (zip js rs) st) = deliver C (concat (map batch_events (oks rs))) (subs st)"
  using assms
proof (induction js rs arbitrary: st rule: list_induct2)
  case (Cons j js r rs)
  have "oks (r # rs) = oks [r] @ oks rs" by (metis append_Cons append_Nil oks_simps(5))
  then have split: "concat (map batch_events (oks (r # rs))) = concat (map batch_events (oks [r])) @ concat (map batch_events (oks rs))"
    by simp
  show ?case unfolding split
    by (cases j) (simp add: Cons.IH answer_batch_advances deliver_append)
qed simp

lemma apply_included_advances:
  assumes L: "op_log (eO (base_env P)) orows (eM (base_env P)) mrows (pc_op (base_env P))"
  shows "advances P orows mrows (length (concat (map fst js))) st (apply_included P now js st)"
proof (cases "js = [] \<or> length js = 1")
  case True
  then show ?thesis using apply_each_advances [OF L] by (auto simp: apply_included_def intro: advances_still)
next
  case False
  obtain rs db where run: "apply_batches (base_env P) (io P (ticks st)) (map fst js) now (disk st) = (rs, db)" by fastforce
  let ?s1 = "st\<lparr>disk := db, ticks := ticks st + 1\<rparr>"
  have len: "length js = length rs" using apply_batches_results [OF run] by simp
  show ?thesis
  proof (cases "\<forall>r \<in> set rs. \<not> isl r")
    case True
    with False run have a: "apply_included P now js st = fold (\<lambda>((_, reply), r). answer_batch (feed P) reply r) (zip js rs) ?s1"
      by (auto simp: apply_included_def storage_call_def)
    show ?thesis
      unfolding a advances_def using batches_logged [OF L _ run] answers_advance [OF len, of "feed P" ?s1]
      by (metis (no_types, lifting) applier.select_convs(1) applier.select_convs(2) applier.surjective applier.update_convs(1) applier.update_convs(4))
  next
    case bad: False
    with False run have a: "apply_included P now js st = apply_each P now js ?s1"
      by (auto simp: apply_included_def storage_call_def)
    have "advances P orows mrows 0 st ?s1"
      by (rule advances_still) (use failed_batches_logs [OF run] bad in auto)
    from advances_trans [OF this apply_each_advances [OF L]] a show ?thesis by simp
  qed
qed

lemma include_jobs_still:
  "include_jobs base js ov inc st = (inc', st') \<Longrightarrow> disk st' = disk st \<and> subs st' = subs st \<and>
     length (concat (map fst inc')) \<le> length (concat (map fst inc)) + length (concat (map fst js))"
  by (induction base js ov inc st rule: include_jobs.induct) (auto simp: send_reply_def split: sum.splits)

lemma fold_reject_still:
  "disk (fold (\<lambda>(_, reply). send_reply reply x) js st) = disk st \<and> subs (fold (\<lambda>(_, reply). send_reply reply x) js st) = subs st"
  by (induction js arbitrary: st) (auto simp: send_reply_def)

lemma apply_group_advances:
  assumes L: "op_log (eO (base_env P)) orows (eM (base_env P)) mrows (pc_op (base_env P))"
  shows "advances P orows mrows (length (concat (map fst js))) st (apply_group S P js now st)"
proof -
  obtain r s1 where pre: "pre_read P (\<Union>(ops, _) \<in> set js. ids_needing_pre_state ops) st = (r, s1)" by fastforce
  then have s1: "disk s1 = disk st" "subs s1 = subs st" by (auto simp: pre_read_def storage_call_def)
  show ?thesis
  proof (cases r)
    case (Inl e)
    have "advances P orows mrows 0 st (apply_group S P js now st)"
      by (rule advances_still) (use s1 Inl pre in \<open>simp_all add: apply_group_def fold_reject_still\<close>)
    then show ?thesis by (rule advances_mono) simp
  next
    case (Inr base)
    obtain inc s2 where i: "include_jobs base js Map.empty [] s1 = (inc, s2)" by fastforce
    note still = include_jobs_still [OF i]
    have "advances P orows mrows 0 st s2" by (rule advances_still) (use still s1 in simp_all)
    from advances_trans [OF this apply_included_advances [OF L, of inc s2 now]]
    have "advances P orows mrows (length (concat (map fst inc))) st (apply_group S P js now st)"
      by (simp add: apply_group_def pre Inr i)
    then show ?thesis by (rule advances_mono) (use still in simp)
  qed
qed

section \<open>Passes of the loop\<close>

fun job_ops :: "job \<Rightarrow> nat" where
  "job_ops (Apply ops _ _) = length ops"
| "job_ops _ = 0"

definition waiting_ops :: "job option \<Rightarrow> job list \<Rightarrow> nat" where
  "waiting_ops h q = (case h of None \<Rightarrow> 0 | Some j \<Rightarrow> job_ops j) + sum_list (map job_ops q)"

text \<open>A client that does not write the floor of the log behind the engine's back.\<close>

fun spares_floor :: "job \<Rightarrow> bool" where
  "spares_floor (MetaJob key _ _) \<longleftrightarrow> key \<noteq> ''oldest_seq''"
| "spares_floor _ \<longleftrightarrow> True"

lemma drain_group_ops:
  "drain_group jobs n q = (js, h, q') \<Longrightarrow>
     length (concat (map fst js)) + waiting_ops h q' = length (concat (map fst jobs)) + waiting_ops None q"
  by (induction jobs n q rule: drain_group.induct) (auto simp: waiting_ops_def split: if_splits job.splits option.splits)

lemma apply_drained_advances:
  assumes L: "op_log (eO (base_env P)) orows (eM (base_env P)) mrows (pc_op (base_env P))"
  shows "advances P orows mrows (length (concat (map fst js))) st (apply_drained S P js st)"
proof (cases "\<exists>ops r. js = [(ops, r)]")
  case True
  with apply_one_job_advances [OF L] show ?thesis by (auto simp: apply_drained_def Let_def)
next
  case False
  then have "apply_drained S P js st = apply_group S P js (clock P (ticks st)) st"
    by (auto simp: apply_drained_def Let_def split: list.split)
  with apply_group_advances [OF L] show ?thesis by simp
qed

lemma meta_job_logs:
  assumes "redb_table (eM E) mrows" "write_meta (eM E) tx key v st = (r, st')" "key \<noteq> ''oldest_seq''"
  shows "log_view mrows st' = log_view mrows st"
  using assms by (auto simp: write_meta_def log_view_def rbind_Inr dest: redb_table.insert_ok split: sum.splits)

lemma compact_logs:
  assumes "op_log (eO E) orows (eM E) mrows (pc_op E)" "compact_through E tx k st = (r, st')" "logs E orows mrows h st"
  shows "logs E orows mrows h st'"
  using assms op_log.compact_ok [OF assms(1)] by (auto simp: compact_through_def logs_def split: sum.splits)

lemma serve_advances:
  assumes L: "op_log (eO (base_env P)) orows (eM (base_env P)) mrows (pc_op (base_env P))"
    and run: "serve S P j q st = (h, q', st')" and ok: "spares_floor j"
  shows "\<exists>n. n + waiting_ops h q' = job_ops j + waiting_ops None q \<and> advances P orows mrows n st st'"
proof (cases j)
  case (Apply ops at r)
  show ?thesis
  proof (cases at)
    case None
    obtain js h1 q1 where d: "drain_group [(ops, r)] (length ops) q = (js, h1, q1)" by (metis prod_cases3)
    with Apply None run drain_group_ops [OF d] apply_drained_advances [OF L, of js st S] show ?thesis by auto
  next
    case (Some now)
    with Apply run apply_one_job_advances [OF L] show ?thesis by (intro exI [of _ "length ops"]) auto
  qed
next
  case (RebuildJob r)
  then have "waiting_ops h q' = waiting_ops None q" using run by (auto split: prod.splits)
  moreover have "advances P orows mrows 0 st st'"
    using RebuildJob run L
    by (intro advances_still) (auto simp: op_log_def rebuild_call_def Let_def send_reply_def rebuild_logged split: prod.splits)
  ultimately show ?thesis using RebuildJob by auto
next
  case (BumpCounters bs)
  then have "waiting_ops h q' = waiting_ops None q" using run by (auto split: prod.splits)
  moreover have "advances P orows mrows 0 st st'"
    using BumpCounters run
    by (intro advances_still) (auto simp: storage_call_def merge_counter_bumps_def logs_def split: prod.splits sum.splits if_splits)
  ultimately show ?thesis using BumpCounters by auto
next
  case (Compact k r)
  then have "waiting_ops h q' = waiting_ops None q" using run by (auto split: prod.splits)
  moreover have "advances P orows mrows 0 st st'"
    using Compact run compact_logs [OF L]
    by (intro advances_still) (auto simp: storage_call_def send_reply_def split: prod.splits)
  ultimately show ?thesis using Compact by auto
next
  case (MetaJob key v r)
  then have "waiting_ops h q' = waiting_ops None q" using run by (auto split: prod.splits)
  moreover have "advances P orows mrows 0 st st'"
  proof (rule advances_still)
    obtain x db where w: "write_meta (eM (base_env P)) (io P (ticks st)) key v (disk st) = (x, db)" by fastforce
    have st': "disk st' = db" "subs st' = subs st"
      using MetaJob run w by (auto simp: storage_call_def send_reply_def)
    have "redb_table (eM (base_env P)) mrows" using L by (simp add: op_log_def)
    from logs_view [OF meta_job_logs [OF this w]] MetaJob ok st'
    show "logs (base_env P) orows mrows h (disk st) \<Longrightarrow> logs (base_env P) orows mrows h (disk st')" for h by simp
    show "subs st' = subs st" by (rule st')
  qed
  ultimately show ?thesis using MetaJob by auto
qed

lemma take_job_ops: "take_job h q = Some (j, q') \<Longrightarrow> waiting_ops h q = job_ops j + waiting_ops None q'"
  by (auto simp: take_job_def waiting_ops_def split: option.splits list.splits)

definition jobs_waiting :: "('c, 'b, 'd, 'l, 'm, 'o) server \<Rightarrow> job set" where
  "jobs_waiting sv = set (rx sv) \<union> set_option (held sv)"

lemma serve_jobs: "serve S P j q st = (h, q', st') \<Longrightarrow> set q' \<union> set_option h \<subseteq> set q"
proof -
  have drain: "drain_group jobs n q = (js, h, q') \<Longrightarrow> set q' \<union> set_option h \<subseteq> set q" for jobs n q js h q'
    by (induction jobs n q rule: drain_group.induct) (auto split: if_splits job.splits option.splits)
  assume "serve S P j q st = (h, q', st')"
  then show ?thesis
    by (cases "(S, P, j, q, st)" rule: serve.cases) (auto split: prod.splits dest: drain)
qed

lemma take_job_waiting: "take_job (held sv) (rx sv) = Some (j, q) \<Longrightarrow> j \<in> jobs_waiting sv \<and> set q \<subseteq> jobs_waiting sv"
  by (auto simp: take_job_def jobs_waiting_def split: option.splits list.splits)

lemma serves_waiting: "serves S bounded P sv js sv' \<Longrightarrow> jobs_waiting sv' \<subseteq> jobs_waiting sv \<union> set js"
proof (induction rule: serves.induct)
  case (pass js sv1 j q h q' st')
  have "jobs_waiting (sv1\<lparr>core := st', rx := q', held := h\<rparr>) \<subseteq> jobs_waiting sv1"
    using serve_jobs [OF pass(3)] take_job_waiting [OF pass(2)] by (auto simp: jobs_waiting_def)
  with pass.IH show ?case by blast
qed (auto simp: jobs_waiting_def)

lemma serves_feed:
  assumes L: "op_log (eO (base_env P)) orows (eM (base_env P)) mrows (pc_op (base_env P))"
    and run: "serves S bounded P sv js sv'" and inv: "logs (base_env P) orows mrows h (disk (core sv))"
    and ok: "\<forall>j \<in> jobs_waiting sv \<union> set js. spares_floor j"
    and room: "length h + waiting_ops (held sv) (rx sv) + sum_list (map job_ops js) + 1 < 2 ^ 64"
  shows "\<exists>xs others. logs (base_env P) orows mrows (h @ xs) (disk (core sv')) \<and>
    subs (core sv') = deliver (feed P) (events_from (length h + 1) xs) (subs (core sv)) @ others \<and>
    length xs + waiting_ops (held sv') (rx sv') \<le> waiting_ops (held sv) (rx sv) + sum_list (map job_ops js)"
  using run ok room
proof (induction rule: serves.induct)
  case start
  show ?case using inv by (intro exI [of _ "[]"]) (simp add: events_from_def numbered_def)
next
  case (submit js sv1 j)
  then show ?case by (fastforce simp: waiting_ops_def)
next
  case (listen js sv1 n)
  then show ?case by (fastforce simp: subscribe_def)
next
  case (pass js sv1 j q k q' st')
  then obtain xs others where xs: "logs (base_env P) orows mrows (h @ xs) (disk (core sv1))"
    "subs (core sv1) = deliver (feed P) (events_from (length h + 1) xs) (subs (core sv)) @ others"
    "length xs + waiting_ops (held sv1) (rx sv1) \<le> waiting_ops (held sv) (rx sv) + sum_list (map job_ops js)" by blast
  have "spares_floor j" using take_job_waiting [OF pass(2)] serves_waiting [OF pass(1)] pass.prems(1) by blast
  from serve_advances [OF L pass(3) this] obtain n where n: "n + waiting_ops k q' = job_ops j + waiting_ops None q"
    "advances P orows mrows n (core sv1) st'" by blast
  have w: "waiting_ops (held sv1) (rx sv1) = job_ops j + waiting_ops None q" using take_job_ops [OF pass(2)] .
  have "length (h @ xs) + n + 1 < 2 ^ 64" using xs(3) w n(1) pass.prems(2) by simp
  with n(2) xs(1) obtain ys where "length ys \<le> n" "logs (base_env P) orows mrows ((h @ xs) @ ys) (disk st')"
    "subs st' = deliver (feed P) (events_from (length (h @ xs) + 1) ys) (subs (core sv1))"
    unfolding advances_def by blast
  with xs w n(1) show ?case
    by (intro exI [of _ "xs @ ys"]) (auto simp: events_from_append deliver_append deliver_append_subs)
next
  case (close js sv1)
  then show ?case by simp
qed

section \<open>A gap-free live tail\<close>

lemma numbered_tail: "drop (length h) (numbered 1 (h @ xs)) = numbered (length h + 1) xs"
  by (rule nth_equalityI) (auto simp: numbered_def nth_enumerate_eq nth_append)

lemma send_events_fits:
  assumes "bounded_channel C queue capacity connected" "connected c" "length (queue c) + length evs \<le> capacity c"
  shows "\<exists>c'. send_events C evs c = (True, c') \<and> queue c' = queue c @ evs"
  using assms(2,3)
proof (induction evs arbitrary: c)
  case (Cons ev evs)
  then have lt: "length (queue c) < capacity c" by simp
  note r = bounded_channel.room [OF assms(1) Cons.prems(1) lt, of ev]
  obtain c1 where c1: "try_send C c ev = (Sent, c1)" using r(1) by (cases "try_send C c ev") auto
  from Cons.IH [of c1] r c1 Cons.prems(2) show ?case by auto
qed simp

lemma deliver_fits:
  assumes "bounded_channel C queue capacity connected" "connected c" "length (queue c) + length evs \<le> capacity c" "c \<in> set cs"
  shows "\<exists>c' \<in> set (deliver C evs cs). queue c' = queue c @ evs"
proof -
  from send_events_fits [OF assms(1-3)] obtain c' where "send_events C evs c = (True, c')" "queue c' = queue c @ evs" by blast
  with assms(4) show ?thesis by (force simp: deliver_def)
qed


section \<open>A tail of one operation\<close>

lemma create_logged:
  "\<exists>b db. apply_ops_in_txn tree_env 0 [CreateNode (NodeId 7) Shared ''Memory'' []] empty_database = (Inr b, db) \<and>
     ops_table db = RBT.insert 1 (1 # id_key 7 @ str_bytes ''Memory'') RBT.empty \<and> RBT.lookup (meta db) ''oldest_seq'' = None"
  by (simp add: apply_ops_in_txn_def rewrite_upserts_def remap_op_node_ids_def apply_one_def pre_edit_def old_index_node_def
      unindex_old_def apply_create_node_def index_new_def reindex_def index_node_def collect_edit_def new_text_def doc_text_def
      apply_fts_edit_def append_log_def append_rewritten_def next_seq_def read_oldest_seq_def append_rows_def append_one_def
      fixed_ops_def run_store)

definition listening :: tree_applier where
  "listening = empty_applier\<lparr>subs := [(16, [], True)]\<rparr>"

lemma create_served:
  "\<exists>st'. serve (\<lambda>_. []) tree_engine (Apply [CreateNode (NodeId 7) Shared ''Memory'' []] None 3) [] listening = (None, [], st') \<and>
     ops_since tree_env tx_ok (disk st') 1 = Inr [\<lparr>seq = 1, ev_op = CreateNode (NodeId 7) Shared ''Memory'' []\<rparr>]"
proof -
  let ?ops = "[CreateNode (NodeId 7) Shared ''Memory'' []]"
  from create_logged obtain b db where run: "apply_ops_in_txn tree_env 0 ?ops empty_database = (Inr b, db)"
    and t: "ops_table db = RBT.insert 1 (1 # id_key 7 @ str_bytes ''Memory'') RBT.empty" and m: "RBT.lookup (meta db) ''oldest_seq'' = None"
    by blast
  have j: "empty_database\<lparr>i_journal := journal_default\<rparr> = empty_database"
    by (simp add: empty_database_def empty_store_def store.defs)
  have batch: "apply_batch tree_env tx_ok ?ops 0 empty_database = (Inr b, db\<lparr>i_journal := i_journal empty_database\<rparr>)"
    using run by (simp add: apply_batch_single j)
  have pre: "load_nodes tree_env sorted_list_of_set (Inr ()) empty_database {NodeId 7} = Inr Map.empty"
    by (simp add: load_nodes_def load_step_def read_node_def node_slot_def read_slot_def)
  obtain st' where st': "serve (\<lambda>_. []) tree_engine (Apply ?ops None 3) [] listening = (None, [], st')" "disk st' = db\<lparr>i_journal := i_journal empty_database\<rparr>"
    using batch pre
    by (auto simp: listening_def empty_applier_def tree_engine_def apply_drained_def Let_def apply_one_job_def pre_read_def storage_call_def
        ids_needing_pre_state_def prevalidate_def prevalidate_edge_scopes_def prevalidate_create_node_ids_def answer_batch_def send_reply_def
        tx_ok_def split: sum.split)
  have "ops_since tree_env tx_ok (disk st') 1 = Inr [\<lparr>seq = 1, ev_op = CreateNode (NodeId 7) Shared ''Memory'' []\<rparr>]"
    by (simp add: st'(2) ops_since_def read_ops_def read_oldest_seq_def tx_ok_def t m rbt_single fixed_ops_def at_def pc_err_def)
  with st'(1) show ?thesis by blast
qed


end
