(* ===== verification/GroupCommit.thy ===== *)
theory GroupCommit
  imports Applier
begin

text \<open>
  Group commit against single commits (\<^verbatim>\<open>crates/topodb/src/db.rs\<close>: \<^verbatim>\<open>apply_group\<close>, \<^verbatim>\<open>apply_one_job\<close>). The group path
  validates later batches against an overlay of the earlier ones instead of against storage and commits once. The
  theorems say when clients cannot tell: every batch of the group succeeds and none of them upserts. Where an earlier
  batch fails, or upserts, a later one can be judged differently than on its own.
\<close>

section \<open>What the checks look at\<close>

abbreviation scope_at :: "(node_id \<rightharpoonup> node_record) \<Rightarrow> node_id \<Rightarrow> scope option" where
  "scope_at m i \<equiv> map_option n_scope (m i)"

definition agree :: "node_id set \<Rightarrow> (node_id \<rightharpoonup> node_record) \<Rightarrow> (node_id \<rightharpoonup> node_record) \<Rightarrow> bool" where
  "agree A m m' \<longleftrightarrow> (\<forall>i \<in> A. scope_at m i = scope_at m' i)"

lemma agreeD: "agree A m m' \<Longrightarrow> i \<in> A \<Longrightarrow> scope_at m i = scope_at m' i"
  by (simp add: agree_def)

lemma agree_mono: "agree A m m' \<Longrightarrow> B \<subseteq> A \<Longrightarrow> agree B m m'"
  by (auto simp: agree_def)

lemma agree_none: "agree A m m' \<Longrightarrow> i \<in> A \<Longrightarrow> m i = None \<longleftrightarrow> m' i = None"
  using agreeD [of A m m' i] by (metis map_option_is_None)

lemma edge_scopes_cong:
  "agree (ids_needing_pre_state ops) m m' \<Longrightarrow>
     prevalidate_edge_scopes_from m created ops = prevalidate_edge_scopes_from m' created ops"
proof (induction m created ops rule: prevalidate_edge_scopes_from.induct)
  case (3 pre created i s t f e p vf ra ops)
  have "agree {f, e} pre m'" "agree (ids_needing_pre_state ops) pre m'"
    using 3(4) by (auto simp: ids_needing_pre_state_def intro: agree_mono)
  moreover from this have "scope_of created pre f = scope_of created m' f" "scope_of created pre e = scope_of created m' e"
    by (auto simp: scope_of_def agree_def split: option.split)
  ultimately show ?case using 3 by (auto split: option.split)
qed (auto simp: ids_needing_pre_state_def intro: agree_mono)

lemma create_ids_cong:
  "agree (ids_needing_pre_state ops) m m' \<Longrightarrow>
     prevalidate_create_node_ids_from m seen ops = prevalidate_create_node_ids_from m' seen ops"
proof (induction m seen ops rule: prevalidate_create_node_ids_from.induct)
  case (2 pre seen i s l p ops)
  have "agree {i} pre m'" "agree (ids_needing_pre_state ops) pre m'"
    using 2(2) by (auto simp: ids_needing_pre_state_def intro: agree_mono)
  then show ?case using 2(1) agree_none [of "{i}" pre m' i] by simp
qed (auto simp: ids_needing_pre_state_def intro: agree_mono)

lemma prevalidate_cong: "agree (ids_needing_pre_state ops) m m' \<Longrightarrow> prevalidate m ops = prevalidate m' ops"
  by (simp add: prevalidate_def prevalidate_edge_scopes_def prevalidate_create_node_ids_def edge_scopes_cong create_ids_cong)

section \<open>The overlay follows the graph\<close>

fun is_upsert :: "op \<Rightarrow> bool" where
  "is_upsert (UpsertNode _ _ _ _ _) = True"
| "is_upsert _ = False"

lemma overlay_op:
  assumes "spec_op q (resolve_op now x) G = Some G'" "agree A (effective_pre base ov) (g_nodes G)"
  shows "agree A (effective_pre base (record_effect x ov)) (g_nodes G')"
  using assms by (cases x) (auto simp: agree_def effective_pre_def split: option.splits if_splits)

lemma overlay_ops:
  assumes "spec_ops q (map (resolve_op now) xs) G = Some G'" "agree A (effective_pre base ov) (g_nodes G)"
  shows "agree A (effective_pre base (fold record_effect xs ov)) (g_nodes G')"
  using assms
proof (induction xs arbitrary: G ov)
  case (Cons x xs)
  then obtain G1 where "spec_op q (resolve_op now x) G = Some G1" "spec_ops q (map (resolve_op now) xs) G1 = Some G'"
    by (auto simp: bind_eq_Some_conv)
  with Cons overlay_op show ?case by simp
qed simp

lemma plain_rewrite:
  assumes "\<forall>x \<in> set xs. \<not> is_upsert x" "upsert_remap rs = []"
  shows "rfold (rewrite_step E st) (map (resolve_op now) xs) rs = Inr (rs\<lparr>rewritten := rewritten rs @ map (resolve_op now) xs\<rparr>)"
  using assms
proof (induction xs arbitrary: rs)
  case (Cons x xs)
  have "rewrite_step E st (resolve_op now x) rs = Inr (rs\<lparr>rewritten := rewritten rs @ [resolve_op now x]\<rparr>)"
    using Cons.prems by (cases x) (simp_all add: remap_op_node_ids_def)
  with Cons show ?case by simp
qed simp

lemma plain_resolved:
  assumes "apply_ops_in_txn E now ops st = (Inr b, st')" "\<forall>x \<in> set ops. \<not> is_upsert x"
  shows "resolved b = map (resolve_op now) ops"
  using assms plain_rewrite [of ops "\<lparr>pending = [], upsert_remap = [], rewritten = []\<rparr>" E st now]
  by (auto simp: apply_ops_in_txn_def mbind_Inr monad_simps rewrite_upserts_def split: if_splits)

section \<open>Verdicts\<close>

text \<open>The jobs a group includes and the rejections it sends.\<close>

fun verdicts :: "(node_id \<rightharpoonup> node_record) \<Rightarrow> apply_job list \<Rightarrow> overlay \<Rightarrow> apply_job list \<times> (nat \<times> reply) list" where
  "verdicts base [] ov = ([], [])"
| "verdicts base ((ops, r) # jobs) ov =
     (case prevalidate (effective_pre base ov) ops of
        Inl e \<Rightarrow> (case verdicts base jobs ov of (new, rej) \<Rightarrow> (new, (r, BatchReply (Inl e)) # rej))
      | Inr _ \<Rightarrow> (case verdicts base jobs (fold record_effect ops ov) of (new, rej) \<Rightarrow> ((ops, r) # new, rej)))"

lemma include_jobs_verdicts:
  "include_jobs base jobs ov inc t =
     (inc @ fst (verdicts base jobs ov), t\<lparr>replies := replies t @ snd (verdicts base jobs ov)\<rparr>)"
  by (induction base jobs ov inc t rule: include_jobs.induct) (auto simp: send_reply_def split: sum.split prod.split)

section \<open>One job, on a store that represents a graph\<close>

text \<open>Transactions begin and commit, and a hash set is taken in some order without losing elements.\<close>

definition smooth :: "('c, 'b, 'd, 'l, 'm, 'o) engine_env \<Rightarrow> bool" where
  "smooth P \<longleftrightarrow> (\<forall>n. io P n = tx_ok) \<and> (\<forall>xs. finite xs \<longrightarrow> set (hash_order P xs) = xs)"

lemma load_steps:
  assumes "represents E rows st G"
  shows "rfold (load_step E st) is m = Inr (\<lambda>i. if i \<in> set is \<and> g_nodes G i \<noteq> None then g_nodes G i else m i)"
proof (induction "is" arbitrary: m)
  case (Cons i js)
  have "read_node E st i = Inr (g_nodes G i)" using assms by (simp add: represents_def)
  then have "load_step E st i m = Inr (\<lambda>k. if k = i \<and> g_nodes G k \<noteq> None then g_nodes G k else m k)"
    by (auto simp: load_step_def fun_eq_iff split: option.split)
  then show ?case by (simp add: Cons.IH fun_eq_iff)
qed simp

lemma finite_ids: "finite (ids_needing_pre_state ops)"
proof -
  have "finite (ids_of_op x)" for x by (cases x) simp_all
  then show ?thesis by (simp add: ids_needing_pre_state_def)
qed

lemma pre_read_graph:
  assumes "smooth P" "represents (base_env P) rows (disk st) G" "finite A"
  shows "\<exists>m. pre_read P A st = (Inr m, st\<lparr>ticks := ticks st + 1\<rparr>) \<and> agree A m (g_nodes G)"
proof -
  have "set (hash_order P A) = A" "io P (ticks st) = tx_ok" using assms(1,3) by (simp_all add: smooth_def)
  then show ?thesis
    using load_steps [OF assms(2), of "hash_order P A" Map.empty]
    by (cases "A = {}") (auto simp: pre_read_def storage_call_def load_nodes_def tx_ok_def agree_def)
qed

lemma one_job_outcome:
  assumes P: "smooth P" and rep: "represents (base_env P) rows (disk st) G"
  shows "\<exists>n. apply_one_job P ops now r st =
    (case prevalidate (g_nodes G) ops of
       Inl e \<Rightarrow> send_reply r (BatchReply (Inl e)) (st\<lparr>ticks := n\<rparr>)
     | Inr _ \<Rightarrow> (case apply_batch (base_env P) tx_ok ops now (disk st) of
         (x, db) \<Rightarrow> answer_batch (feed P) r x (st\<lparr>disk := db, ticks := n\<rparr>)))"
proof -
  from pre_read_graph [OF P rep finite_ids] obtain m where m: "pre_read P (ids_needing_pre_state ops) st = (Inr m, st\<lparr>ticks := ticks st + 1\<rparr>)"
    and ag: "agree (ids_needing_pre_state ops) m (g_nodes G)" by blast
  have io: "io P n = tx_ok" for n using P by (simp add: smooth_def)
  show ?thesis
    by (cases "prevalidate (g_nodes G) ops")
       (auto simp: apply_one_job_def m prevalidate_cong [OF ag] storage_call_def io split: prod.split)
qed

section \<open>The group against its jobs one by one\<close>

definition sequel :: "('c, 'b, 'd, 'l, 'm, 'o) engine_env \<Rightarrow> apply_job list \<Rightarrow> applied_batch list \<Rightarrow> (nat \<times> reply) list
    \<Rightarrow> ('b, 'd, 'l, 'm, 'o) database \<Rightarrow> ('c, 'b, 'd, 'l, 'm, 'o) applier \<Rightarrow> ('c, 'b, 'd, 'l, 'm, 'o) applier \<Rightarrow> bool" where
  "sequel P new bs rej db st st' \<longleftrightarrow> disk st' = db \<and> subs st' = fold (broadcast_batch (feed P)) bs (subs st) \<and>
     mset (replies st') = mset (replies st) + mset rej + mset (zip (map snd new) (map (\<lambda>b. BatchReply (Inr b)) bs))"

lemma answers_sequel:
  "length new = length bs \<Longrightarrow>
     sequel P new bs [] (disk st) st (fold (\<lambda>((_, reply), r). answer_batch (feed P) reply r) (zip new (map Inr bs)) st)"
proof (induction new bs arbitrary: st rule: list_induct2)
  case (Cons j new b bs)
  obtain ops r where j: "j = (ops, r)" by fastforce
  let ?s = "answer_batch (feed P) r (Inr b) st"
  have "disk ?s = disk st" "subs ?s = broadcast_batch (feed P) b (subs st)" "replies ?s = replies st @ [(r, BatchReply (Inr b))]"
    by (simp_all add: answer_batch_def send_reply_def)
  with Cons.IH [of ?s] show ?case by (simp add: sequel_def j)
qed (simp add: sequel_def)

lemma each_sequel:
  fixes P :: "('c, 'b, 'd, 'l, 'm, 'o) engine_env"
  assumes E: "engine (base_env P) rows mrows" and P: "smooth P"
    and plain: "\<forall>(ops, r) \<in> set jobs. \<forall>x \<in> set ops. \<not> is_upsert x"
    and inv: "store_inv (base_env P) rows mrows (disk st)" and rep: "represents (base_env P) rows (disk st) G"
    and ag: "agree (\<Union>(ops, _) \<in> set jobs. ids_needing_pre_state ops) (effective_pre base ov) (g_nodes G)"
    and v: "verdicts base jobs ov = (new, rej)"
    and run: "run_groups (base_env P) now idx (map fst new) app ((disk st)\<lparr>i_journal := j\<rparr>) = (Inr (app @ bs), db)"
    and ok: "groups_ok (base_env P) rows now (map fst new) ((disk st)\<lparr>i_journal := j\<rparr>) G"
  shows "sequel P new bs rej (db\<lparr>i_journal := i_journal (disk st)\<rparr>) st (apply_each P now jobs st)"
  using plain inv rep ag v run ok
proof (induction jobs arbitrary: st G ov new rej idx app j bs)
  case Nil
  then show ?case by (auto simp: sequel_def apply_each_def)
next
  case (Cons job jobs)
  obtain ops r where job: "job = (ops, r)" by fastforce
  from one_job_outcome [OF P Cons.prems(3), of ops now r] obtain n where one: "apply_one_job P ops now r st =
    (case prevalidate (g_nodes G) ops of
       Inl e \<Rightarrow> send_reply r (BatchReply (Inl e)) (st\<lparr>ticks := n\<rparr>)
     | Inr _ \<Rightarrow> (case apply_batch (base_env P) tx_ok ops now (disk st) of
         (x, db) \<Rightarrow> answer_batch (feed P) r x (st\<lparr>disk := db, ticks := n\<rparr>)))" ..
  have agj: "agree (ids_needing_pre_state ops) (effective_pre base ov) (g_nodes G)"
    and ags: "agree (\<Union>(ops, _) \<in> set jobs. ids_needing_pre_state ops) (effective_pre base ov) (g_nodes G)"
    using Cons.prems(4) by (auto simp: job intro: agree_mono)
  have each: "apply_each P now (job # jobs) st = apply_each P now jobs (apply_one_job P ops now r st)"
    by (simp add: apply_each_def job)
  show ?case
  proof (cases "prevalidate (effective_pre base ov) ops")
    case (Inl e)
    then obtain rej' where v': "verdicts base jobs ov = (new, rej')" "rej = (r, BatchReply (Inl e)) # rej'"
      using Cons.prems(5) by (auto simp: job split: prod.splits)
    let ?s = "send_reply r (BatchReply (Inl e)) (st\<lparr>ticks := n\<rparr>)"
    have s: "apply_one_job P ops now r st = ?s" "disk ?s = disk st" "subs ?s = subs st" "replies ?s = replies st @ [(r, BatchReply (Inl e))]"
      using one Inl prevalidate_cong [OF agj] by (simp_all add: send_reply_def)
    have "sequel P new bs rej' (db\<lparr>i_journal := i_journal (disk ?s)\<rparr>) ?s (apply_each P now jobs ?s)"
      by (rule Cons.IH [where ov = ov and idx = idx and app = app and j = j and G = G])
         (use Cons.prems v' ags in \<open>simp_all add: s(2)\<close>)
    then show ?thesis by (simp add: sequel_def each s v'(2))
  next
    case (Inr u)
    then obtain new' where v': "verdicts base jobs (fold record_effect ops ov) = (new', rej)" "new = (ops, r) # new'"
      using Cons.prems(5) by (auto simp: job split: prod.splits)
    from Cons.prems(6) obtain b s1 where b: "apply_ops_in_txn (base_env P) now ops ((disk st)\<lparr>i_journal := j\<rparr>) = (Inr b, s1)"
      and rest: "run_groups (base_env P) now (idx + 1) (map fst new') (app @ [b]) s1 = (Inr (app @ bs), db)"
      by (auto simp: v'(2) split: prod.splits sum.splits)
    from run_groups_prefix [OF rest] obtain bs' where bs: "bs = b # bs'" by auto
    from blind_apply_ops b obtain j2 where "apply_ops_in_txn (base_env P) now ops
        ((disk st)\<lparr>i_journal := j\<rparr>\<lparr>i_journal := journal_default\<rparr>) = (Inr b, s1\<lparr>i_journal := j2\<rparr>)" by (rule blindE)
    then have batch: "apply_batch (base_env P) tx_ok ops now (disk st) = (Inr b, s1\<lparr>i_journal := i_journal (disk st)\<rparr>)"
      by (simp add: apply_batch_single)
    let ?s = "answer_batch (feed P) r (Inr b) (st\<lparr>disk := s1\<lparr>i_journal := i_journal (disk st)\<rparr>, ticks := n\<rparr>)"
    have s: "apply_one_job P ops now r st = ?s" "disk ?s = s1\<lparr>i_journal := i_journal (disk st)\<rparr>"
      "subs ?s = broadcast_batch (feed P) b (subs st)" "replies ?s = replies st @ [(r, BatchReply (Inr b))]"
      using one Inr prevalidate_cong [OF agj] by (simp_all add: batch answer_batch_def send_reply_def)
    note ji = engine.journal_irrelevant [OF E Cons.prems(2,3), of j]
    have okb: "ops_ok (base_env P) rows (resolved b) ((disk st)\<lparr>i_journal := j\<rparr>) G" using Cons.prems(7) by (simp add: v'(2) b)
    from engine.sim_batch [OF E conjunct1 [OF ji] conjunct2 [OF ji] b okb] obtain G' where
      G': "spec_ops (stored_vector (base_env P)) (resolved b) G = Some G'" "store_inv (base_env P) rows mrows s1" "represents (base_env P) rows s1 G'"
      by blast
    note ji' = engine.journal_irrelevant [OF E G'(2,3), of "i_journal (disk st)"]
    have res: "resolved b = map (resolve_op now) ops"
      by (rule plain_resolved [OF b]) (use Cons.prems(1) in \<open>auto simp: job\<close>)
    have s1: "(disk ?s)\<lparr>i_journal := i_journal s1\<rparr> = s1" by (simp add: s(2))
    have "sequel P new' bs' rej (db\<lparr>i_journal := i_journal (disk ?s)\<rparr>) ?s (apply_each P now jobs ?s)"
    proof (rule Cons.IH [where ov = "fold record_effect ops ov" and idx = "idx + 1" and app = "app @ [b]" and j = "i_journal s1" and G = G'])
      show "agree (\<Union>(ops, _) \<in> set jobs. ids_needing_pre_state ops) (effective_pre base (fold record_effect ops ov)) (g_nodes G')"
        using overlay_ops [OF G'(1) [unfolded res] ags] .
      show "run_groups (base_env P) now (idx + 1) (map fst new') (app @ [b]) (disk ?s\<lparr>i_journal := i_journal s1\<rparr>) = (Inr ((app @ [b]) @ bs'), db)"
        unfolding s1 using rest bs by simp
      show "groups_ok (base_env P) rows now (map fst new') (disk ?s\<lparr>i_journal := i_journal s1\<rparr>) G'"
        unfolding s1 using Cons.prems(7) by (simp add: v'(2) b G'(1))
    qed (use Cons.prems(1) v'(1) ji' s(2) in simp_all)
    then show ?thesis by (simp add: sequel_def each s v'(2) bs)
  qed
qed

lemma verdicts_again: "verdicts base (fst (verdicts base jobs ov)) ov = (fst (verdicts base jobs ov), [])"
  by (induction base jobs ov rule: verdicts.induct) (auto split: sum.split prod.splits)

lemma verdicts_subset: "set (fst (verdicts base jobs ov)) \<subseteq> set jobs"
  by (induction base jobs ov rule: verdicts.induct) (auto split: sum.splits prod.splits)

lemma committed_groups:
  fixes st st' :: "('b, 'd, 'l, 'm, 'o, 'z) store_scheme"
  assumes "apply_batches E tx_ok gs now st = (map Inr bs, st')"
  shows "\<exists>db. run_groups E now 0 gs [] (st\<lparr>i_journal := journal_default\<rparr>) = (Inr bs, db) \<and> st' = db\<lparr>i_journal := i_journal st\<rparr>"
proof (cases "gs = []")
  case True
  with assms show ?thesis by (simp add: apply_batches_def)
next
  case False
  have "Inl e \<notin> set (map Inr bs)" for e :: topo_error by auto
  moreover have inj: "map Inr cs = map Inr bs \<Longrightarrow> cs = bs" for cs by (erule map_injective) (simp add: inj_def)
  from assms False show ?thesis
  proof (cases rule: apply_batches_cases)
    case (committed cs st1)
    from inj committed show ?thesis by metis
  qed (use calculation in \<open>auto simp: group_errors_def tx_ok_def dest!: arg_cong [where f = set]\<close>)
qed

lemma sequel_reject:
  "sequel P new bs [] db (st\<lparr>ticks := n, replies := replies st @ rej\<rparr>) st' \<Longrightarrow> sequel P new bs rej db st st'"
  by (simp add: sequel_def)

text \<open>C6. Group commit is transparent when every batch of the group succeeds: the database, every subscriber's channel
  and the answer to every client are those of applying the jobs one by one, rejections included. The jobs must not
  upsert, since the overlay does not follow upserts.\<close>

theorem group_commit_transparent:
  fixes P :: "('c, 'b, 'd, 'l, 'm, 'o) engine_env"
  assumes "engine (base_env P) rows mrows" and "smooth P"
    and "\<forall>(ops, r) \<in> set jobs. \<forall>x \<in> set ops. \<not> is_upsert x"
    and "store_inv (base_env P) rows mrows (disk st)" and "represents (base_env P) rows (disk st) G"
    and "pre_read P (\<Union>(ops, _) \<in> set jobs. ids_needing_pre_state ops) st = (Inr base, st1)"
    and "include_jobs base jobs Map.empty [] st1 = (included, st2)"
    and "apply_batches (base_env P) tx_ok (map fst included) now (disk st) = (map Inr bs, db)"
    and "groups_ok (base_env P) rows now (map fst included) ((disk st)\<lparr>i_journal := journal_default\<rparr>) G"
  shows "disk (apply_group S P jobs now st) = disk (apply_each P now jobs st) \<and>
    subs (apply_group S P jobs now st) = subs (apply_each P now jobs st) \<and>
    mset (replies (apply_group S P jobs now st)) = mset (replies (apply_each P now jobs st))"
proof -
  let ?A = "\<lambda>jobs. \<Union>(ops, _) \<in> set jobs. ids_needing_pre_state ops"
  have fin: "finite (?A jobs)" using finite_ids by auto
  from pre_read_graph [OF assms(2,5) fin] assms(6) have st1: "st1 = st\<lparr>ticks := ticks st + 1\<rparr>" and ag: "agree (?A jobs) base (g_nodes G)" by auto
  have eff: "effective_pre base Map.empty = base" by (simp add: effective_pre_def fun_eq_iff)
  obtain rej where v: "verdicts base jobs Map.empty = (included, rej)" and st2: "st2 = st1\<lparr>replies := replies st @ rej\<rparr>"
    using assms(7) by (cases "verdicts base jobs Map.empty") (auto simp: include_jobs_verdicts st1)
  from committed_groups [OF assms(8)] obtain db1 where run: "run_groups (base_env P) now 0 (map fst included) [] ((disk st)\<lparr>i_journal := journal_default\<rparr>) = (Inr ([] @ bs), db1)"
    and db: "db = db1\<lparr>i_journal := i_journal (disk st)\<rparr>" by auto
  have seq: "sequel P included bs rej db st (apply_each P now jobs st)"
    unfolding db by (rule each_sequel [OF assms(1-5) _ v run assms(9)]) (simp add: eff ag)
  have grp: "apply_group S P jobs now st = apply_included P now included st2"
    by (simp add: apply_group_def assms(6,7))
  have same: "disk st2 = disk st" by (simp add: st2 st1)
  have "sequel P included bs [] db st2 (apply_included P now included st2)"
  proof (cases "length included \<le> 1")
    case True
    have sub: "set included \<subseteq> set jobs" using verdicts_subset [of base jobs Map.empty] v by simp
    have agi: "agree (?A included) base (g_nodes G)" using agree_mono [OF ag, of "?A included"] sub by blast
    have again: "verdicts base included Map.empty = (included, [])" using verdicts_again [of base jobs Map.empty] v by simp
    have "sequel P included bs [] (db1\<lparr>i_journal := i_journal (disk st2)\<rparr>) st2 (apply_each P now included st2)"
      by (rule each_sequel [OF assms(1,2) _ _ _ _ again run [folded same] assms(9) [folded same]])
         (use assms(3,4,5) sub agi in \<open>auto simp: same eff\<close>)
    moreover have "apply_included P now included st2 = apply_each P now included st2"
      using True by (cases included) (simp_all add: apply_included_def apply_each_def)
    ultimately show ?thesis by (simp add: db same)
  next
    case False
    have io: "io P (ticks st2) = tx_ok" using assms(2) by (simp add: smooth_def)
    have "length included = length bs" using apply_batches_results [OF assms(8)] by simp
    from answers_sequel [OF this, of P "st2\<lparr>disk := db, ticks := ticks st2 + 1\<rparr>"] False assms(8) show ?thesis
      by (auto simp: apply_included_def storage_call_def io same sequel_def)
  qed
  then have "sequel P included bs rej db st (apply_included P now included st2)"
    unfolding st2 st1 by (auto intro: sequel_reject)
  with seq show ?thesis by (simp add: sequel_def grp)
qed

text \<open>Two clients create the same node; the second is rejected.\<close>

definition rivals :: "apply_job list" where
  "rivals = [([CreateNode (NodeId 7) Shared ''Memory'' []], 1), ([CreateNode (NodeId 7) Shared ''Memory'' []], 2)]"

lemma empty_database_journal: "empty_database\<lparr>i_journal := journal_default\<rparr> = empty_database"
  by (simp add: empty_database_def empty_store_def store.defs)

lemma rivals_included:
  "include_jobs Map.empty rivals Map.empty [] st =
     ([([CreateNode (NodeId 7) Shared ''Memory'' []], 1)], send_reply 2 (BatchReply (Inl mint_once_error)) st)"
  by (simp add: rivals_def prevalidate_def prevalidate_edge_scopes_def prevalidate_create_node_ids_def effective_pre_def)

lemma created_in_memory:
  "\<not> isl (fst (apply_ops_in_txn tree_env 0 [CreateNode (NodeId 7) Shared ''Memory'' []] empty_database))"
  by (simp add: apply_ops_in_txn_def rewrite_upserts_def remap_op_node_ids_def apply_one_def pre_edit_def old_index_node_def
      unindex_old_def apply_create_node_def index_new_def reindex_def index_node_def collect_edit_def new_text_def doc_text_def
      apply_fts_edit_def append_log_def append_rewritten_def next_seq_def read_oldest_seq_def append_rows_def append_one_def
      fixed_ops_def run_store)

theorem group_commit_transparent_witness:
  "mset (replies (apply_group (\<lambda>_. []) tree_engine rivals 0 empty_applier)) =
     mset (replies (apply_each tree_engine 0 rivals empty_applier))"
proof -
  let ?ops = "[CreateNode (NodeId 7) Shared ''Memory'' []]"
  have P: "base_env tree_engine = tree_env" "disk empty_applier = empty_database" by (simp_all add: tree_engine_def empty_applier_def)
  have sm: "smooth tree_engine" by (simp add: smooth_def tree_engine_def)
  have E: "engine (base_env tree_engine) RBT.lookup RBT.lookup" unfolding P by (rule tree.engine_axioms)
  have pl: "\<forall>(ops, r) \<in> set rivals. \<forall>x \<in> set ops. \<not> is_upsert x" by (simp add: rivals_def)
  have rep: "store_inv (base_env tree_engine) RBT.lookup RBT.lookup (disk empty_applier)"
    "represents (base_env tree_engine) RBT.lookup (disk empty_applier) empty_graph"
    unfolding P using empty_database_represents by simp_all
  have ids: "(\<Union>(ops, _) \<in> set rivals. ids_needing_pre_state ops) = {NodeId 7}" by (simp add: rivals_def ids_needing_pre_state_def)
  have pre: "pre_read tree_engine (\<Union>(ops, _) \<in> set rivals. ids_needing_pre_state ops) empty_applier = (Inr Map.empty, empty_applier\<lparr>ticks := 1\<rparr>)"
    unfolding ids
    by (simp add: pre_read_def storage_call_def tree_engine_def empty_applier_def load_nodes_def load_step_def read_node_def node_slot_def
        read_slot_def tx_ok_def)
  from created_in_memory obtain b db where b: "apply_ops_in_txn tree_env 0 ?ops empty_database = (Inr b, db)"
    by (metis isl_def prod.collapse sum.collapse(2))
  have bt: "apply_batches (base_env tree_engine) tx_ok (map fst [(?ops, 1)]) 0 (disk empty_applier) =
      (map Inr [b], db\<lparr>i_journal := i_journal empty_database\<rparr>)"
    by (simp add: P apply_batches_def tx_ok_def empty_database_journal b)
  have rs: "resolved b = ?ops" using plain_resolved [OF b] by simp
  have ok: "groups_ok (base_env tree_engine) RBT.lookup 0 (map fst [(?ops, 1)]) ((disk empty_applier)\<lparr>i_journal := journal_default\<rparr>) empty_graph"
    by (simp add: P empty_database_journal b rs split: sum.split)
  from group_commit_transparent [OF E sm pl rep pre rivals_included bt ok, of "\<lambda>_. []"] show ?thesis by blast
qed

section \<open>A rejection that no order explains\<close>

text \<open>The first batch fails when it is applied; the second is fine. Judged against the overlay of the first it is rejected.\<close>

definition doomed_and_fine :: "apply_job list" where
  "doomed_and_fine = [([CreateNode (NodeId 7) Shared ''Memory'' [], RemoveNode (NodeId 9)], 3), ([CreateNode (NodeId 7) Shared ''Memory'' []], 2)]"

lemma doomed_fails:
  "\<exists>st. apply_ops_in_txn tree_env 0 [CreateNode (NodeId 7) Shared ''Memory'' [], RemoveNode (NodeId 9)] empty_database =
     (Inl (Rejected ''RemoveNode: node not found''), st)"
  by (simp add: apply_ops_in_txn_def rewrite_upserts_def remap_op_node_ids_def apply_one_def pre_edit_def old_index_node_def
      unindex_old_def apply_create_node_def apply_remove_node_def index_new_def reindex_def index_node_def collect_edit_def new_text_def
      doc_text_def run_store)

lemma doomed_batch:
  "apply_batch tree_env tx_ok [CreateNode (NodeId 7) Shared ''Memory'' [], RemoveNode (NodeId 9)] 0 empty_database =
     (Inl (Rejected ''RemoveNode: node not found''), empty_database)"
proof -
  from doomed_fails obtain st where run: "apply_ops_in_txn tree_env 0 [CreateNode (NodeId 7) Shared ''Memory'' [], RemoveNode (NodeId 9)]
      (empty_database\<lparr>i_journal := journal_default\<rparr>) = (Inl (Rejected ''RemoveNode: node not found''), st)"
    unfolding empty_database_journal by blast
  have "interning_wf empty_database" using empty_database_represents(1) by (rule store_invD(1))
  with keepsD [OF keeps_apply_ops run] have "rollback empty_database st = empty_database"
    by (intro rollback_exact) (simp add: empty_database_journal reverted_default [of empty_database, unfolded empty_database_journal])
  with run show ?thesis by (simp add: apply_batch_single)
qed

lemma one_job_reply: "\<exists>x. replies (apply_one_job P ops now r st) = replies st @ [(r, x)]"
  by (auto simp: apply_one_job_def pre_read_def storage_call_def answer_batch_def send_reply_def split: prod.split sum.split)

lemma doomed_included:
  "include_jobs Map.empty doomed_and_fine Map.empty [] st =
     ([([CreateNode (NodeId 7) Shared ''Memory'' [], RemoveNode (NodeId 9)], 3)],
      send_reply 2 (BatchReply (Inl mint_once_error)) st)"
  by (simp add: doomed_and_fine_def prevalidate_def prevalidate_edge_scopes_def prevalidate_create_node_ids_def effective_pre_def)

text \<open>C32. A job can be rejected because of another job that itself fails: in the group path the second of two clients is told
  that its node id already exists, although nothing was created; applied one by one the same job succeeds.\<close>

theorem group_rejects_a_valid_batch:
  "(2, BatchReply (Inl mint_once_error)) \<in> set (replies (apply_group (\<lambda>_. []) tree_engine doomed_and_fine 0 empty_applier)) \<and>
   (\<exists>b. (2, BatchReply (Inr b)) \<in> set (replies (apply_each tree_engine 0 doomed_and_fine empty_applier)))"
proof
  let ?bad = "[CreateNode (NodeId 7) Shared ''Memory'' [], RemoveNode (NodeId 9)]" and ?fine = "[CreateNode (NodeId 7) Shared ''Memory'' []]"
  have sm: "smooth tree_engine" by (simp add: smooth_def tree_engine_def)
  have P: "base_env tree_engine = tree_env" "feed tree_engine = list_chan" by (simp_all add: tree_engine_def)
  have rep: "represents (base_env tree_engine) RBT.lookup (disk st) empty_graph" if "disk st = empty_database" for st :: tree_applier
    using that empty_database_represents by (simp add: P)
  have ids: "(\<Union>(ops, _) \<in> set doomed_and_fine. ids_needing_pre_state ops) = {NodeId 7}"
    by (simp add: doomed_and_fine_def ids_needing_pre_state_def)
  have e: "disk empty_applier = empty_database" by (simp add: empty_applier_def)
  have "pre_read tree_engine {NodeId 7} empty_applier = (Inr Map.empty, empty_applier\<lparr>ticks := 1\<rparr>)"
    by (simp add: pre_read_def storage_call_def tree_engine_def empty_applier_def load_nodes_def load_step_def read_node_def node_slot_def
        read_slot_def tx_ok_def)
  moreover have "\<exists>x. replies (apply_one_job tree_engine ?bad 0 3 (send_reply 2 (BatchReply (Inl mint_once_error)) (empty_applier\<lparr>ticks := 1\<rparr>))) =
      [(2, BatchReply (Inl mint_once_error)), (3, x)]"
    using one_job_reply [of tree_engine ?bad 0 3 "send_reply 2 (BatchReply (Inl mint_once_error)) (empty_applier\<lparr>ticks := 1\<rparr>)"]
    by (simp add: send_reply_def empty_applier_def)
  ultimately show "(2, BatchReply (Inl mint_once_error)) \<in> set (replies (apply_group (\<lambda>_. []) tree_engine doomed_and_fine 0 empty_applier))"
    by (auto simp: apply_group_def ids doomed_included apply_included_def apply_each_def)
  have pv: "prevalidate Map.empty ?bad = Inr ()" "prevalidate Map.empty ?fine = Inr ()"
    by (simp_all add: prevalidate_def prevalidate_edge_scopes_def prevalidate_create_node_ids_def)
  from one_job_outcome [OF sm rep [OF e], of ?bad 0 3] obtain n where
    one: "apply_one_job tree_engine ?bad 0 3 empty_applier =
      send_reply 3 (BatchReply (Inl (Rejected ''RemoveNode: node not found''))) (empty_applier\<lparr>disk := empty_database, ticks := n\<rparr>)"
    by (auto simp: pv P e doomed_batch answer_batch_def)
  from created_in_memory obtain b db where b: "apply_ops_in_txn tree_env 0 ?fine empty_database = (Inr b, db)"
    by (metis isl_def prod.collapse sum.collapse(2))
  then have fine: "apply_batch tree_env tx_ok ?fine 0 empty_database = (Inr b, db\<lparr>i_journal := journal_default\<rparr>)"
    by (simp add: apply_batch_single empty_database_journal)
  let ?s = "send_reply 3 (BatchReply (Inl (Rejected ''RemoveNode: node not found''))) (empty_applier\<lparr>disk := empty_database, ticks := n\<rparr>)"
  have d: "disk ?s = empty_database" by (simp add: send_reply_def)
  from one_job_outcome [OF sm rep [OF d], of ?fine 0 2]
  have "(2, BatchReply (Inr b)) \<in> set (replies (apply_one_job tree_engine ?fine 0 2 ?s))"
    by (auto simp: pv P d fine answer_batch_def send_reply_def)
  then show "\<exists>b. (2, BatchReply (Inr b)) \<in> set (replies (apply_each tree_engine 0 doomed_and_fine empty_applier))"
    by (auto simp: apply_each_def doomed_and_fine_def one)
qed

end
