(* ===== verification/Spec2Isabelle.thy ===== *)
theory Spec2Isabelle
  imports Validate Codec AdjCodec Dict Scopes Slots Interning Disk PropIndex FtsIndex EditDistance Search TextIndex GraphSearch Adj EdgeIndex Interval OpLog Store Instance Write Batch Journal Graph Simulation Removal Refinement Bfs Channel Traverse Walks Loads Counters Rebuild Applier Feed GroupCommit
begin

text \<open>
  A verification development of TopoDB, an embedded temporal property-graph database written in Rust. It
  models the engine crate (\<^verbatim>\<open>crates/topodb/src\<close>).

  \<^bold>\<open>The program.\<close> A database is a file of tables of the \<^verbatim>\<open>redb\<close> crate. Nodes and edges have 128-bit ids, scopes,
  labels or types, property maps and, for edges, two time axes. A batch of operations is validated
  (\<^verbatim>\<open>validate.rs\<close>), resolved and rewritten, applied in one write transaction together with its indexes and
  appended to a log (\<^verbatim>\<open>storage.rs\<close>); one applier thread does this for all submitters (\<^verbatim>\<open>db.rs\<close>). Names and scopes
  are interned to small ids (\<^verbatim>\<open>dict.rs\<close>, \<^verbatim>\<open>scopes.rs\<close>) with in-memory mirrors of their tables, node and edge ids
  to slots (\<^verbatim>\<open>slots.rs\<close>), records are encoded as compact rows (\<^verbatim>\<open>disk.rs\<close>, \<^verbatim>\<open>codec.rs\<close>), adjacency as chunked,
  delta-coded blocks (\<^verbatim>\<open>adj.rs\<close>), equality indexes as rows of a table (\<^verbatim>\<open>index.rs\<close>, \<^verbatim>\<open>prop_index.rs\<close>). Readers
  (\<^verbatim>\<open>read.rs\<close>) run in read transactions and are restricted to a set of scopes. The log can be replayed, compacted
  and used to rebuild the graph.

  \<^bold>\<open>Conventions.\<close> Integers are words of their Rust width; arithmetic the sources leave unchecked wraps as in a
  release build, and a panic is an error value. Fallible code returns \<open>topo_error + 'a\<close>; code that changes
  state through a failing path is in the state monad of Prelude, which also says what state a failure leaves.
  A string is its UTF-8 bytes; floating-point numbers are bit patterns. Third-party code is a parameter: tables are
  the record \<open>table_ops\<close> with the laws of the locale \<open>redb_table\<close> (Redb), serializers \<open>serde_codec\<close>, the
  compressor \<open>lz4_codec\<close>, channels \<open>bounded_channel\<close>, Unicode tables and float arithmetic fields of \<open>env\<close>
  (Store). Each of these contracts is interpreted on concrete functions (search trees, fixed-width encodings,
  lists; theories Redb, Instance, Channel), and witnesses run the model on them.

  \<^bold>\<open>Theories.\<close>
  \<^item> Prelude, Redb: words, byte encodings, errors, monads, ordered maps; the storage library's contract.
  \<^item> Ids, Records, Validate: \<^verbatim>\<open>ids.rs\<close>, \<^verbatim>\<open>op.rs\<close>, \<^verbatim>\<open>props.rs\<close>, \<^verbatim>\<open>state.rs\<close>, \<^verbatim>\<open>validate.rs\<close>. The scope rule for edges is
    exactly visibility of the endpoints; the mint-once rule accepts exactly the fresh and distinct ids.
  \<^item> Codec, AdjCodec: \<^verbatim>\<open>codec.rs\<close> and the block codec of \<^verbatim>\<open>adj.rs\<close>, with round trips and the inputs on which they
    misbehave.
  \<^item> Dict, Scopes, Slots, Interning: \<^verbatim>\<open>dict.rs\<close>, \<^verbatim>\<open>scopes.rs\<close>, \<^verbatim>\<open>slots.rs\<close>. Mirrors agree with their tables, reverting
    and reloading are exact, slots are never reused.
  \<^item> Disk, PropIndex, Adj, Interval, OpLog, Fts: \<^verbatim>\<open>disk.rs\<close>, \<^verbatim>\<open>index.rs\<close>, \<^verbatim>\<open>prop_index.rs\<close>, the tables of \<^verbatim>\<open>adj.rs\<close>,
    \<^verbatim>\<open>ValidInterval\<close> of \<^verbatim>\<open>read.rs\<close>, the log of \<^verbatim>\<open>storage.rs\<close>, \<^verbatim>\<open>doc_text\<close> of \<^verbatim>\<open>fts.rs\<close>.
  \<^item> Tokenizer, PostingCodec, Postings, FtsIndex: the analyzer, the postings blocks, the chunked postings table and the
    index maintenance of \<^verbatim>\<open>fts.rs\<close>. However chunks are searched, split and renumbered, a write is an update of one
    list per scope and term, and an update of a node's text turns the inverted index of a set of documents into that of
    the changed set. EditDistance, Fuzzy: the bounded Levenshtein distance is the least number of edits, and the
    fallback expands a missing term to the nearest words of the scope.
  \<^item> SearchOptions, Search: the text search of \<^verbatim>\<open>fts.rs\<close>. It returns the best of exactly the nodes whose documents hold
    a search word and that pass the filters, with their BM25 scores over a parameter record of float operations.
  \<^item> TextIndex, GraphSearch: the edits of a batch keep the text index the inverted index of exactly the graph's nodes, so
    that a search of a database answers about its graph.
  \<^item> Floats, Quant, Ranking: float arithmetic over bit patterns, \<^verbatim>\<open>quant.rs\<close> and the sorting of hits. A cosine is summed in
    64 bits without overflow and exists exactly between non-zero codes.
  \<^item> HnswFormat, Hnsw: the rows, the levels and every operation of the nearest-neighbour graph of \<^verbatim>\<open>hnsw.rs\<close>.
  \<^item> Store, Write, Batch, Journal: record reads and writes, every arm of \<^verbatim>\<open>apply_op\<close>, \<^verbatim>\<open>apply_ops_in_txn\<close> and
    \<^verbatim>\<open>apply_batches\<close> of \<^verbatim>\<open>storage.rs\<close>. Groups of batches are atomic, mirrors included,
    and a group that commits does what its batches do one by one.
  \<^item> EdgeIndex, Graph, Simulation, Removal, Refinement: the abstract graph, the store invariant (slot tables inverse to
    each other, adjacency exactly the index of the edge rows) and the proof that operations, batches and groups of
    batches implement the abstract operations.
  \<^item> Channel, Bfs, Traverse, Walks, Loads: access bumps, \<^verbatim>\<open>traverse\<close> and the edge listings, point reads and scans of
    \<^verbatim>\<open>read.rs\<close>, \<^verbatim>\<open>db.rs\<close> and \<^verbatim>\<open>storage.rs\<close>; a traversal terminates and returns exactly the bounded reachable subgraph.
  \<^item> Counters, Rebuild: \<^verbatim>\<open>counters.rs\<close>, the bumper thread of \<^verbatim>\<open>db.rs\<close> and \<^verbatim>\<open>rebuild_state_from_ops\<close>: no bump is lost, a
    rebuild reproduces the graph of the log, a failed one leaves no trace.
  \<^item> Applier, Feed, GroupCommit: the applier thread of \<^verbatim>\<open>db.rs\<close> with its job channel, the two commit paths, the change
    feed of \<^verbatim>\<open>feed.rs\<close> and the client calls. The relation \<open>serves\<close> interleaves clients and passes of the loop:
    every client is answered once, a subscriber sees exactly the log, and group commit is invisible when the batches
    of a group succeed; two theorems show inputs on which it is not, and on which a client can damage the store.

  \<^bold>\<open>Loops.\<close> No definition uses fuel. Loops over lists are structural; the traversal's queue loop terminates because
  slots are finitely many and each is queued once, the search of a graph layer because every turn visits new slots
  or takes a candidate, the applier's loop because every pass takes at least one job.

  \<^bold>\<open>Not modelled.\<close> Vector ranking, recall and suggestion scores. Migrations of old file formats,
  opening of files, panics of the threads and poisoned locks, and the crates around the engine (command line, MCP server, JSON
  conversion, bindings, importers, task harness, warehouse) are glue over the engine or I/O.
\<close>

end
